(* ===== verification/Prelude.thy ===== *)
theory Prelude
  imports Main "HOL-Library.Word"
begin

text \<open>
  Shared vocabulary of the development: machine-integer types, the event-driven
  machines every component is modelled as (a partial transition function, runs over
  event lists, reachable states and the invariant rule), saturating counters, and
  stable insertion into an ordered list.
\<close>

type_synonym u8 = "8 word"
type_synonym u16 = "16 word"
type_synonym u32 = "32 word"
type_synonym u64 = "64 word"
type_synonym co_id = nat

section \<open>Machines: partial transition functions, runs, reachable states\<close>

fun run :: "('e \<Rightarrow> 's \<Rightarrow> 's option) \<Rightarrow> 'e list \<Rightarrow> 's \<Rightarrow> 's option" where
  "run ex [] s = Some s"
| "run ex (e # es) s = (case ex e s of None \<Rightarrow> None | Some s' \<Rightarrow> run ex es s')"

inductive reaches :: "('e \<Rightarrow> 's \<Rightarrow> 's option) \<Rightarrow> 's \<Rightarrow> 's \<Rightarrow> bool"
  for ex :: "'e \<Rightarrow> 's \<Rightarrow> 's option" and s0 :: 's where
  reaches_init [intro]: "reaches ex s0 s0"
| reaches_step: "reaches ex s0 s \<Longrightarrow> ex e s = Some s' \<Longrightarrow> reaches ex s0 s'"

inductive_cases reaches_cases: "reaches ex s0 s"

lemma run_append: "run ex (es @ fs) s = (case run ex es s of None \<Rightarrow> None | Some t \<Rightarrow> run ex fs t)"
  by (induction es arbitrary: s) (auto split: option.splits)

lemma run_reaches_aux: "run ex es t = Some s \<Longrightarrow> reaches ex s0 t \<Longrightarrow> reaches ex s0 s"
  by (induction es arbitrary: t) (auto split: option.splits intro: reaches_step)

lemma run_reaches: "run ex es s0 = Some s \<Longrightarrow> reaches ex s0 s"
  by (rule run_reaches_aux) auto

text \<open>A concrete run that the simplifier evaluates gives a reachable state.\<close>

lemma run_demo: "(case run ex es s0 of None \<Rightarrow> False | Some s \<Rightarrow> P s) \<Longrightarrow> \<exists>s. reaches ex s0 s \<and> P s"
  by (auto split: option.splits intro: run_reaches)

lemma reaches_run: "reaches ex s0 s \<Longrightarrow> \<exists>es. run ex es s0 = Some s"
proof (induction rule: reaches.induct)
  case reaches_init
  show ?case by (rule exI [of _ "[]"]) simp
next
  case (reaches_step s e s')
  then obtain es where "run ex es s0 = Some s" by blast
  with reaches_step.hyps(2) have "run ex (es @ [e]) s0 = Some s'" by (simp add: run_append)
  then show ?case by blast
qed

lemma reaches_iff_run: "reaches ex s0 s \<longleftrightarrow> (\<exists>es. run ex es s0 = Some s)"
  by (auto intro: run_reaches dest: reaches_run)

text \<open>The contract between a machine and its invariant: one preservation law per step.\<close>

locale invariant_machine =
  fixes ex :: "'e \<Rightarrow> 's \<Rightarrow> 's option" and inv :: "'s \<Rightarrow> bool"
  assumes step_inv: "inv s \<Longrightarrow> ex e s = Some s' \<Longrightarrow> inv s'"
begin

lemma reaches_inv: "reaches ex s0 s \<Longrightarrow> inv s0 \<Longrightarrow> inv s"
  by (induction rule: reaches.induct) (auto intro: step_inv)

lemma run_inv: "run ex es s0 = Some s \<Longrightarrow> inv s0 \<Longrightarrow> inv s"
  by (rule reaches_inv) (auto intro: run_reaches)

end

text \<open>A quantity that no step decreases does not decrease along a run.\<close>

locale monotone_machine = invariant_machine ex inv
  for ex :: "'e \<Rightarrow> 's \<Rightarrow> 's option" and inv :: "'s \<Rightarrow> bool" +
  fixes meas :: "'s \<Rightarrow> 'a::preorder"
  assumes step_mono: "inv s \<Longrightarrow> ex e s = Some s' \<Longrightarrow> meas s \<le> meas s'"
begin

lemma reaches_mono: "reaches ex s0 s \<Longrightarrow> inv s0 \<Longrightarrow> meas s0 \<le> meas s"
proof (induction rule: reaches.induct)
  case (reaches_step s e s')
  then have "inv s" by (auto intro: reaches_inv)
  then show ?case using reaches_step step_mono order_trans by blast
qed simp

end

text \<open>The contract between a machine and its participants: a step of one participant leaves the others where they are.\<close>

locale participants =
  fixes ex :: "'e \<Rightarrow> 's \<Rightarrow> 's option" and act :: "'e \<Rightarrow> co_id option" and pc :: "'s \<Rightarrow> co_id \<Rightarrow> 'p"
  assumes step_frame: "ex e s = Some s' \<Longrightarrow> act e \<noteq> Some c \<Longrightarrow> pc s' c = pc s c"
begin

lemma users_run_frame: "run ex es s = Some s' \<Longrightarrow> \<forall>e \<in> set es. act e \<noteq> Some c \<Longrightarrow> pc s' c = pc s c"
proof (induction es arbitrary: s)
  case (Cons e es)
  then obtain t where t: "ex e s = Some t" "run ex es t = Some s'" by (auto split: option.splits)
  have "pc s' c = pc t c" using Cons.IH [OF t(2)] Cons.prems(2) by simp
  also have "\<dots> = pc s c" using step_frame [OF t(1)] Cons.prems(2) by simp
  finally show ?case .
qed simp

end

section \<open>Saturating counters on machine words\<close>

definition sat_add :: "'a::len word \<Rightarrow> 'a word \<Rightarrow> 'a word" where
  "sat_add a b = a + min b (- 1 - a)"

lemma unat_sat_add: "unat (sat_add a b) = min (2 ^ LENGTH('a) - 1) (unat a + unat b)"
  for a b :: "'a::len word"
proof -
  have m: "unat (- 1 :: 'a word) = 2 ^ LENGTH('a) - 1"
    by (simp add: unsigned_minus_1_eq_mask mask_eq_exp_minus_1)
  have le: "a \<le> - 1" by simp
  have sub: "unat (- 1 - a) = 2 ^ LENGTH('a) - 1 - unat a"
    using le m by (simp add: unat_sub)
  have lt: "unat a < 2 ^ LENGTH('a)" by simp
  have mn: "unat (min b (- 1 - a)) = min (unat b) (2 ^ LENGTH('a) - 1 - unat a)"
    unfolding sub [symmetric] by (simp add: min_def word_le_nat_alt)
  have "unat a + unat (min b (- 1 - a)) < 2 ^ LENGTH('a)"
    unfolding mn using lt by linarith
  then have "unat (sat_add a b) = unat a + unat (min b (- 1 - a))"
    by (simp add: sat_add_def unat_word_ariths)
  then show ?thesis unfolding mn using lt by linarith
qed

lemma sat_add_ge: "a \<le> sat_add a b"
  for a b :: "'a::len word"
proof -
  have "unat a < 2 ^ LENGTH('a)" by simp
  then show ?thesis unfolding word_le_nat_alt unat_sat_add by linarith
qed

section \<open>Stable ordered insertion\<close>

fun insert_upper :: "('a \<Rightarrow> 'k::linorder) \<Rightarrow> 'a \<Rightarrow> 'a list \<Rightarrow> 'a list" where
  "insert_upper k x [] = [x]"
| "insert_upper k x (y # ys) = (if k x < k y then x # y # ys else y # insert_upper k x ys)"

lemma set_insert_upper [simp]: "set (insert_upper k x ys) = insert x (set ys)"
  by (induction ys) auto

lemma length_insert_upper [simp]: "length (insert_upper k x ys) = Suc (length ys)"
  by (induction ys) auto

lemma distinct_insert_upper [simp]: "distinct (insert_upper k x ys) \<longleftrightarrow> x \<notin> set ys \<and> distinct ys"
  by (induction ys) auto

lemma sorted_insert_upper: "sorted (map k ys) \<Longrightarrow> sorted (map k (insert_upper k x ys))"
  by (induction ys) auto

lemma insert_upper_cong:
  "(\<And>y. y \<in> insert x (set ys) \<Longrightarrow> k y = k' y) \<Longrightarrow> insert_upper k x ys = insert_upper k' x ys"
  by (induction ys) auto

text \<open>On a sorted list the insertion point is the upper bound: everything that compares
  not greater stays in front, so equal keys keep their arrival order.\<close>

lemma insert_upper_split:
  "sorted (map k ys) \<Longrightarrow>
   insert_upper k x ys = filter (\<lambda>y. k y \<le> k x) ys @ x # filter (\<lambda>y. k x < k y) ys"
proof (induction ys)
  case (Cons y ys)
  show ?case
  proof (cases "k x < k y")
    case True
    with Cons.prems have "\<forall>z\<in>set ys. k x < k z" by auto
    then have "filter (\<lambda>z. k z \<le> k x) ys = []" "filter (\<lambda>z. k x < k z) ys = ys"
      by (auto simp: filter_empty_conv not_le)
    with True show ?thesis by auto
  next
    case False
    with Cons show ?thesis by (auto simp: not_less)
  qed
qed simp

end
