(* ===== verification/Binary64.thy ===== *)
theory Binary64
  imports Prelude Complex_Main "HOL-Library.Log_Nat"
begin

text \<open>
  The \<open>double\<close> arithmetic used by the CFS ready queue. A binary64 value is modelled by
  the rational it denotes; every operation is the exact rational operation followed by
  \<open>fl53\<close>, rounding to nearest, ties to even, with a 53-bit significand. The exponent is
  unbounded: sums and differences of doubles never round in the subnormal range, the only
  quotient formed lies in [2^-64, 2^64], and overflow would need a virtual runtime of
  2^1024 microseconds, so no execution of the queue distinguishes the two.
\<close>

definition rne :: "rat \<Rightarrow> int" where
  "rne y = (let f = \<lfloor>y\<rfloor>; d = y - of_int f in
     if d < 1 / 2 then f else if 1 / 2 < d then f + 1 else if even f then f else f + 1)"

lemma rne_ge: "\<lfloor>y\<rfloor> \<le> rne y" and rne_le: "rne y \<le> \<lfloor>y\<rfloor> + 1"
  by (auto simp: rne_def Let_def)

lemma rne_of_int [simp]: "rne (of_int n) = n"
  by (simp add: rne_def)

lemma rne_mono: "x \<le> y \<Longrightarrow> rne x \<le> rne y"
proof (cases "\<lfloor>x\<rfloor> = \<lfloor>y\<rfloor>")
  case True
  assume "x \<le> y"
  with True show ?thesis by (auto simp: rne_def Let_def)
next
  case False
  assume "x \<le> y"
  then have "\<lfloor>x\<rfloor> \<le> \<lfloor>y\<rfloor>" by (rule floor_mono)
  with False have "\<lfloor>x\<rfloor> + 1 \<le> \<lfloor>y\<rfloor>" by simp
  then show ?thesis using rne_le [of x] rne_ge [of y] by linarith
qed

section \<open>Binary exponent\<close>

text \<open>\<open>expo x\<close> is the exponent of the binade of a positive \<open>x\<close>: 2^e \<le> x < 2^(e+1).\<close>

definition expo :: "rat \<Rightarrow> int" where
  "expo x = (let (p, q) = quotient_of x; k = bitlen p - bitlen q in
     if 2 powi k \<le> x then k else k - 1)"

lemma powi_split: "(2 :: rat) ^ n * 2 powi (e - int n) = 2 powi e"
proof -
  have "(2 :: rat) powi (int n + (e - int n)) = 2 powi int n * 2 powi (e - int n)"
    by (rule power_int_add) simp
  then show ?thesis by simp
qed

lemma bitlen_powi: "0 < p \<Longrightarrow> 2 powi (bitlen p - 1) \<le> (of_int p :: rat) \<and> of_int p < (2 :: rat) powi bitlen p"
proof -
  assume p: "0 < p"
  have bb: "2 ^ nat (bitlen p - 1) \<le> p" "p < 2 ^ nat (bitlen p)"
    using bitlen_bounds [OF p] by auto
  have b: "0 < bitlen p"
  proof (rule ccontr)
    assume "\<not> 0 < bitlen p"
    then show False using bb(2) p by simp
  qed
  note bb
  then have "(2 :: rat) ^ nat (bitlen p - 1) \<le> of_int p" "of_int p < (2 :: rat) ^ nat (bitlen p)"
    by (metis of_int_le_iff of_int_numeral of_int_power, metis of_int_less_iff of_int_numeral of_int_power)
  with b show ?thesis by (simp add: power_int_def)
qed

lemma expo_bounds: "0 < x \<Longrightarrow> 2 powi expo x \<le> x \<and> x < 2 powi (expo x + 1)"
proof -
  assume x: "0 < x"
  obtain p q where pq: "quotient_of x = (p, q)" by fastforce
  then have q: "0 < q" and xe: "x = of_int p / of_int q"
    by (auto simp: quotient_of_denom_pos quotient_of_div)
  with x have p: "0 < p" by (simp add: zero_less_divide_iff)
  let ?k = "bitlen p - bitlen q"
  note bp = bitlen_powi [OF p] and bq = bitlen_powi [OF q]
  have up: "x < 2 powi (?k + 1)"
  proof -
    have "x * of_int q < 2 powi bitlen p" using bp q by (simp add: xe)
    also have "\<dots> = 2 powi (?k + 1) * 2 powi (bitlen q - 1)"
      by (simp flip: power_int_add)
    also have "\<dots> \<le> 2 powi (?k + 1) * of_int q" using bq by simp
    finally show ?thesis using q by simp
  qed
  have lo: "2 powi (?k - 1) < x"
  proof -
    have "2 powi (?k - 1) * of_int q < 2 powi (?k - 1) * (2 :: rat) powi bitlen q" using bq by simp
    also have "\<dots> = 2 powi (bitlen p - 1)" by (simp flip: power_int_add)
    also have "\<dots> \<le> x * of_int q" using bp q by (simp add: xe)
    finally show ?thesis using q by simp
  qed
  show ?thesis using up lo by (simp add: expo_def pq Let_def)
qed

lemma expo_unique: "2 powi e \<le> x \<Longrightarrow> x < 2 powi (e + 1) \<Longrightarrow> expo x = e"
proof -
  assume e: "2 powi e \<le> x" "x < 2 powi (e + 1)"
  have "(0 :: rat) < 2 powi e" by simp
  then have "0 < x" using e(1) by linarith
  note b = expo_bounds [OF this]
  have "\<not> e + 1 \<le> expo x"
    using e(2) b power_int_increasing [of "e + 1" "expo x" "2 :: rat"] by fastforce
  moreover have "\<not> expo x + 1 \<le> e"
    using e(1) b power_int_increasing [of "expo x + 1" e "2 :: rat"] by fastforce
  ultimately show ?thesis by simp
qed

lemma expo_mono: "0 < x \<Longrightarrow> x \<le> y \<Longrightarrow> expo x \<le> expo y"
  using expo_bounds [of x] expo_bounds [of y] power_int_increasing [of "expo y + 1" "expo x" "2 :: rat"]
  by force

section \<open>Rounding to 53 bits\<close>

definition ulp :: "rat \<Rightarrow> rat" where
  "ulp x = 2 powi (expo x - 52)"

definition flpos :: "rat \<Rightarrow> rat" where
  "flpos x = of_int (rne (x / ulp x)) * ulp x"

definition fl53 :: "rat \<Rightarrow> rat" where
  "fl53 x = (if 0 < x then flpos x else if x < 0 then - flpos (- x) else 0)"

lemma ulp_pos [simp]: "0 < ulp x"
  by (simp add: ulp_def)

lemma ulp_scale: "2 ^ 52 * ulp x = 2 powi expo x" "2 ^ 53 * ulp x = 2 powi (expo x + 1)"
  using powi_split [of 52 "expo x"] powi_split [of 53 "expo x + 1"] by (simp_all add: ulp_def)

lemma signif_bounds: "0 < x \<Longrightarrow> 2 ^ 52 \<le> rne (x / ulp x) \<and> rne (x / ulp x) \<le> 2 ^ 53"
proof -
  assume x: "0 < x"
  have "2 ^ 52 \<le> x / ulp x" "x / ulp x \<le> 2 ^ 53"
    using expo_bounds [OF x] ulp_scale [of x] by (simp_all add: le_divide_eq divide_le_eq)
  then have "of_int (2 ^ 52) \<le> x / ulp x" "x / ulp x \<le> of_int (2 ^ 53)" by simp_all
  then show ?thesis using rne_mono rne_of_int by metis
qed

lemma flpos_bounds: "0 < x \<Longrightarrow> 2 powi expo x \<le> flpos x \<and> flpos x \<le> 2 powi (expo x + 1)"
proof -
  assume x: "0 < x"
  have "(2 :: rat) ^ 52 \<le> of_int (rne (x / ulp x))" "of_int (rne (x / ulp x)) \<le> (2 :: rat) ^ 53"
    using signif_bounds [OF x] by (metis of_int_le_iff of_int_numeral of_int_power)+
  then show ?thesis
    unfolding flpos_def ulp_scale [symmetric] by simp
qed

lemma flpos_mono: "0 < x \<Longrightarrow> x \<le> y \<Longrightarrow> flpos x \<le> flpos y"
proof -
  assume x: "0 < x" and xy: "x \<le> y"
  from x xy have y: "0 < y" by linarith
  show ?thesis
  proof (cases "expo x = expo y")
    case True
    then have u: "ulp x = ulp y" by (simp add: ulp_def)
    have "x / ulp y \<le> y / ulp y" by (rule divide_right_mono [OF xy less_imp_le [OF ulp_pos]])
    then have "rne (x / ulp y) \<le> rne (y / ulp y)" by (rule rne_mono)
    then show ?thesis unfolding flpos_def u by (simp add: mult_right_mono)
  next
    case False
    with expo_mono [OF x xy] have "expo x + 1 \<le> expo y" by simp
    then have "(2 :: rat) powi (expo x + 1) \<le> 2 powi expo y" by (simp add: power_int_increasing)
    with flpos_bounds [OF x] flpos_bounds [OF y] show ?thesis by linarith
  qed
qed

lemma flpos_gt0: "0 < x \<Longrightarrow> 0 < flpos x"
  using flpos_bounds [of x] less_le_trans [OF zero_less_power_int [of "2 :: rat" "expo x"]] by simp

lemma flpos_fixed: "2 ^ 52 \<le> n \<Longrightarrow> n < 2 ^ 53 \<Longrightarrow> flpos (of_int n * 2 powi (e - 52)) = of_int n * 2 powi (e - 52)"
proof -
  assume n: "2 ^ 52 \<le> n" "n < 2 ^ 53"
  let ?x = "of_int n * 2 powi (e - 52) :: rat"
  have nr: "(2 :: rat) ^ 52 \<le> of_int n" "of_int n < (2 :: rat) ^ 53"
    using n by (metis of_int_le_iff of_int_numeral of_int_power,
      metis of_int_less_iff of_int_numeral of_int_power)
  have s: "(2 :: rat) ^ 52 * 2 powi (e - 52) = 2 powi e" "(2 :: rat) ^ 53 * 2 powi (e - 52) = 2 powi (e + 1)"
    using powi_split [of 52 e] powi_split [of 53 "e + 1"] by simp_all
  have "2 powi e \<le> ?x" "?x < 2 powi (e + 1)"
    unfolding s [symmetric] using nr by simp_all
  then have "expo ?x = e" by (rule expo_unique)
  then show ?thesis by (simp add: flpos_def ulp_def)
qed

lemma flpos_idem: "0 < x \<Longrightarrow> flpos (flpos x) = flpos x"
proof -
  assume x: "0 < x"
  let ?n = "rne (x / ulp x)"
  show ?thesis
  proof (cases "?n < 2 ^ 53")
    case True
    then show ?thesis
      using flpos_fixed [of ?n "expo x"] signif_bounds [OF x] by (simp add: flpos_def ulp_def)
  next
    case False
    with signif_bounds [OF x] have "?n = 2 ^ 53" by simp
    then have f: "flpos x = 2 powi (expo x + 1)"
      using ulp_scale(2) [of x] by (simp add: flpos_def)
    have g: "2 powi (expo x + 1) = (of_int (2 ^ 52) * 2 powi (expo x + 1 - 52) :: rat)"
      using powi_split [of 52 "expo x + 1"] by simp
    show ?thesis unfolding f unfolding g by (rule flpos_fixed) simp_all
  qed
qed

lemma fl53_0 [simp]: "fl53 0 = 0"
  by (simp add: fl53_def)

lemma fl53_mono: "x \<le> y \<Longrightarrow> fl53 x \<le> fl53 y"
  using flpos_mono [of x y] flpos_mono [of "- y" "- x"] flpos_gt0 [of y] flpos_gt0 [of "- x"]
  by (auto simp: fl53_def)

lemma fl53_idem [simp]: "fl53 (fl53 x) = fl53 x"
  using flpos_idem [of x] flpos_idem [of "- x"] flpos_gt0 [of x] flpos_gt0 [of "- x"]
  by (auto simp: fl53_def)

lemma fl53_nonneg: "0 \<le> x \<Longrightarrow> 0 \<le> fl53 x"
  using fl53_mono [of 0 x] by simp

lemma fl53_pos: "0 < x \<Longrightarrow> 0 < fl53 x"
  by (simp add: fl53_def flpos_gt0)

lemma fl53_1 [simp]: "fl53 1 = 1"
proof -
  have "of_int (2 ^ 52) * 2 powi (0 - 52) = (1 :: rat)" using powi_split [of 52 0] by simp
  then show ?thesis using flpos_fixed [of "2 ^ 52" 0] by (simp add: fl53_def)
qed

text \<open>Integers of at most 53 bits, scaled by any power of two, are doubles.\<close>

lemma normalise_53: "0 < n \<Longrightarrow> n < 2 ^ 53 \<Longrightarrow> \<exists>m. 2 ^ 52 \<le> n * 2 ^ m \<and> n * 2 ^ m < (2 :: int) ^ 53"
proof -
  assume n: "0 < n" "n < 2 ^ 53"
  define k where "k = nat (bitlen n)"
  have b: "2 ^ nat (bitlen n - 1) \<le> n" "n < 2 ^ k" using bitlen_bounds [OF n(1)] by (auto simp: k_def)
  have k1: "1 \<le> k" using n(1) bitlen_eq_zero_iff [of n] bitlen_nonneg [of n] by (auto simp: k_def)
  have "bitlen n \<le> 53" using n(2) by (simp add: bitlen_le_iff_power)
  then have k53: "k \<le> 53" by (simp add: k_def)
  have "nat (bitlen n - 1) = k - 1" by (simp add: k_def nat_diff_distrib')
  then have "2 ^ (k - 1) * 2 ^ (53 - k) \<le> n * 2 ^ (53 - k)" using b(1) by (intro mult_right_mono) simp_all
  moreover have "(2 :: int) ^ (k - 1) * 2 ^ (53 - k) = 2 ^ 52"
    using k1 k53 by (simp only: power_add [symmetric]) simp
  moreover have "n * 2 ^ (53 - k) < 2 ^ k * 2 ^ (53 - k)" using b(2) by (intro mult_strict_right_mono) simp_all
  moreover have "(2 :: int) ^ k * 2 ^ (53 - k) = 2 ^ 53" using k53 by (simp only: power_add [symmetric]) simp
  ultimately show ?thesis by (metis (no_types))
qed

lemma fl53_exact: "0 \<le> n \<Longrightarrow> n < 2 ^ 53 \<Longrightarrow> fl53 (of_int n * 2 powi e) = of_int n * 2 powi e"
proof (cases "n = 0")
  case False
  assume n: "0 \<le> n" "n < 2 ^ 53"
  then obtain m where m: "2 ^ 52 \<le> n * 2 ^ m" "n * 2 ^ m < 2 ^ 53" using normalise_53 [of n] False by auto
  have "of_int (n * 2 ^ m) * 2 powi (e + 52 - int m - 52) = (of_int n * 2 powi e :: rat)"
    using powi_split [of m e] by (simp add: mult.assoc)
  then have "flpos (of_int n * 2 powi e) = of_int n * 2 powi e" using flpos_fixed [OF m, of "e + 52 - int m"] by (simp only:)
  moreover have "(0 :: rat) < of_int n * 2 powi e" using n False by simp
  ultimately show ?thesis by (simp add: fl53_def)
qed simp

lemma fl53_int: "0 \<le> n \<Longrightarrow> n < 2 ^ 53 \<Longrightarrow> fl53 (of_int n) = of_int n"
  using fl53_exact [of n 0] by simp

lemma fl53_eighths: "0 \<le> n \<Longrightarrow> n < 2 ^ 53 \<Longrightarrow> fl53 (of_int n / 8) = of_int n / 8"
  using fl53_exact [of n "-3"] by (simp add: power_int_minus field_simps)

definition is_double :: "rat \<Rightarrow> bool" where
  "is_double x \<longleftrightarrow> fl53 x = x"

lemma is_double_fl53 [simp]: "is_double (fl53 x)" and is_double_0 [simp]: "is_double 0"
  by (simp_all add: is_double_def)

definition dadd :: "rat \<Rightarrow> rat \<Rightarrow> rat" where "dadd x y = fl53 (x + y)"
definition dsub :: "rat \<Rightarrow> rat \<Rightarrow> rat" where "dsub x y = fl53 (x - y)"
definition dmul :: "rat \<Rightarrow> rat \<Rightarrow> rat" where "dmul x y = fl53 (x * y)"
definition ddiv :: "rat \<Rightarrow> rat \<Rightarrow> rat" where "ddiv x y = fl53 (x / y)"
definition u64_to_double :: "u64 \<Rightarrow> rat" where "u64_to_double w = fl53 (of_nat (unat w))"

lemma is_double_ops [simp]:
  "is_double (dadd x y)" "is_double (dsub x y)" "is_double (ddiv x y)" "is_double (u64_to_double w)"
  by (simp_all add: dadd_def dsub_def ddiv_def u64_to_double_def)

lemma dadd_ge: "is_double x \<Longrightarrow> 0 \<le> y \<Longrightarrow> x \<le> dadd x y"
  using fl53_mono [of x "x + y"] by (simp add: dadd_def is_double_def)

lemma dsub_nonneg: "y \<le> x \<Longrightarrow> 0 \<le> dsub x y"
  by (simp add: dsub_def fl53_nonneg)

lemma dsub_mono: "x \<le> x' \<Longrightarrow> dsub x y \<le> dsub x' y"
  by (simp add: dsub_def fl53_mono)

lemma dadd_mono: "x \<le> x' \<Longrightarrow> y \<le> y' \<Longrightarrow> dadd x y \<le> dadd x' y'"
  by (simp add: dadd_def fl53_mono add_mono)

lemma ddiv_pos: "0 < x \<Longrightarrow> 0 < y \<Longrightarrow> 0 < ddiv x y"
  by (simp add: ddiv_def fl53_pos)

lemma u64_to_double_pos: "w \<noteq> 0 \<Longrightarrow> 0 < u64_to_double w"
  unfolding u64_to_double_def by (rule fl53_pos, unfold of_nat_0_less_iff) (simp add: unat_gt_0)

end
