(* ===== verification/CfsQueue.thy ===== *)
theory CfsQueue
  imports Binary64
begin

text \<open>
  \<open>detail/CfsRunQueue.hpp\<close>: the completely-fair ready queue of one Processer. The
  \<open>CfsEntity\<close> nodes live inside the coroutines, so they form a store shared by all queues
  (\<open>co_id \<Rightarrow> cfs_entity\<close>); a queue holds the ids of its linked nodes in vruntime order, the
  running node and the floor. The intrusive hook is the field \<open>linked\<close>. \<open>std::terminate\<close>
  is the value \<open>None\<close> of \<open>Account\<close>.
\<close>

section \<open>Data\<close>

record cfs_entity =
  linked :: bool
  m_task :: "co_id option"
  m_serviceUs :: u64
  m_vruntime :: rat
  m_weight :: u64
  m_priority :: int
  m_waiting :: bool

definition cfs_entity0 :: cfs_entity where
  "cfs_entity0 = \<lparr>linked = False, m_task = None, m_serviceUs = 0, m_vruntime = 0, m_weight = 1,
     m_priority = 0, m_waiting = False\<rparr>"

type_synonym cfs_store = "co_id \<Rightarrow> cfs_entity"

record cfs_queue =
  m_queue :: "co_id list"
  m_running :: "co_id option"
  m_floor :: rat

definition cfs_queue0 :: cfs_queue where
  "cfs_queue0 = \<lparr>m_queue = [], m_running = None, m_floor = 0\<rparr>"

abbreviation vr :: "cfs_store \<Rightarrow> co_id \<Rightarrow> rat" where
  "vr st i \<equiv> m_vruntime (st i)"

section \<open>Operations\<close>

definition Enqueue :: "co_id \<Rightarrow> co_id \<Rightarrow> int \<Rightarrow> u64 \<Rightarrow> cfs_store \<Rightarrow> cfs_queue
    \<Rightarrow> bool \<times> cfs_store \<times> cfs_queue" where
  "Enqueue i task prio weight st q =
     (if linked (st i) \<or> m_running q = Some i then (False, st, q)
      else let ent = st i;
               debt = (if m_waiting ent then max 0 (m_vruntime ent) else m_vruntime ent);
               ent' = ent \<lparr>linked := True, m_vruntime := dadd (m_floor q) debt, m_task := Some task,
                 m_priority := prio, m_weight := max 1 weight, m_waiting := False\<rparr>;
               st' = st (i := ent')
           in (True, st', q \<lparr>m_queue := insert_upper (vr st') i (m_queue q)\<rparr>))"

definition Pick :: "cfs_store \<Rightarrow> cfs_queue \<Rightarrow> co_id option \<times> cfs_store \<times> cfs_queue" where
  "Pick st q =
     (if m_running q \<noteq> None then (None, st, q)
      else case m_queue q of
          [] \<Rightarrow> (None, st, q)
        | i # r \<Rightarrow> (Some i, st (i := (st i) \<lparr>linked := False\<rparr>),
            q \<lparr>m_running := Some i, m_queue := r\<rparr>))"

definition Account :: "co_id \<Rightarrow> u64 \<Rightarrow> bool \<Rightarrow> cfs_store \<Rightarrow> cfs_queue
    \<Rightarrow> (cfs_store \<times> cfs_queue) option" where
  "Account i elapsed waiting st q =
     (if m_running q \<noteq> Some i then None
      else let charge = max 1 elapsed; ent = st i;
               service = sat_add (m_serviceUs ent) charge;
               v = dadd (m_vruntime ent) (ddiv (u64_to_double charge) (u64_to_double (m_weight ent)));
               progress = (case m_queue q of [] \<Rightarrow> v | h # _ \<Rightarrow> min v (vr st h));
               floor' = max (m_floor q) progress
           in Some (st (i := ent \<lparr>m_serviceUs := service, m_vruntime := dsub v floor',
                        m_waiting := waiting\<rparr>),
                    q \<lparr>m_floor := floor', m_running := None\<rparr>))"

definition Take :: "cfs_store \<Rightarrow> cfs_queue \<Rightarrow> co_id option \<times> cfs_store \<times> cfs_queue" where
  "Take st q = (case m_queue q of
       [] \<Rightarrow> (None, st, q)
     | i # r \<Rightarrow> (Some i,
         st (i := (st i) \<lparr>linked := False, m_vruntime := dsub (vr st i) (m_floor q)\<rparr>),
         q \<lparr>m_queue := r\<rparr>))"

definition Size :: "cfs_queue \<Rightarrow> nat" where
  "Size q = length (m_queue q)"

lemmas cfs_defs = Enqueue_def Pick_def Account_def Take_def

section \<open>The system of queues\<close>

text \<open>All Processers share the entities of the coroutines. The client protocol of
  \<open>Processer\<close>: a queue is used through its four operations, and a coroutine is handed to
  \<open>Enqueue\<close> only while no other Processer runs it (its node is published again only after
  the running Processer has settled it with \<open>Account\<close>).\<close>

record cfs_sys =
  ents :: cfs_store
  queues :: "cfs_queue list"

datatype cfs_event =
    EvEnqueue nat co_id int u64
  | EvPick nat
  | EvAccount nat co_id u64 bool
  | EvTake nat

definition runs_elsewhere :: "cfs_sys \<Rightarrow> nat \<Rightarrow> co_id \<Rightarrow> bool" where
  "runs_elsewhere S p i \<longleftrightarrow>
     list_ex (\<lambda>p'. p' \<noteq> p \<and> m_running (queues S ! p') = Some i) [0..<length (queues S)]"

definition upd_sys :: "cfs_sys \<Rightarrow> nat \<Rightarrow> cfs_store \<Rightarrow> cfs_queue \<Rightarrow> cfs_sys" where
  "upd_sys S p st q = \<lparr>ents = st, queues = (queues S)[p := q]\<rparr>"

fun cfs_exec :: "cfs_event \<Rightarrow> cfs_sys \<Rightarrow> cfs_sys option" where
  "cfs_exec (EvEnqueue p i prio w) S =
     (if length (queues S) \<le> p \<or> runs_elsewhere S p i then None
      else case Enqueue i i prio w (ents S) (queues S ! p) of (_, st, q) \<Rightarrow> Some (upd_sys S p st q))"
| "cfs_exec (EvPick p) S =
     (if length (queues S) \<le> p then None
      else case Pick (ents S) (queues S ! p) of (_, st, q) \<Rightarrow> Some (upd_sys S p st q))"
| "cfs_exec (EvAccount p i el wt) S =
     (if length (queues S) \<le> p then None
      else case Account i el wt (ents S) (queues S ! p) of None \<Rightarrow> None
      | Some (st, q) \<Rightarrow> Some (upd_sys S p st q))"
| "cfs_exec (EvTake p) S =
     (if length (queues S) \<le> p then None
      else case Take (ents S) (queues S ! p) of (_, st, q) \<Rightarrow> Some (upd_sys S p st q))"

definition cfs_init :: "nat \<Rightarrow> cfs_sys" where
  "cfs_init n = \<lparr>ents = \<lambda>_. cfs_entity0, queues = replicate n cfs_queue0\<rparr>"

section \<open>Invariant\<close>

text \<open>One queue against the store: vruntime order, every value a double not below the
  floor, the running node unlinked and not below the floor.\<close>

definition cfs_queue_ok :: "cfs_store \<Rightarrow> cfs_queue \<Rightarrow> bool" where
  "cfs_queue_ok st q \<longleftrightarrow>
     is_double (m_floor q) \<and> 0 \<le> m_floor q \<and>
     sorted (map (vr st) (m_queue q)) \<and> distinct (m_queue q) \<and>
     (\<forall>i\<in>set (m_queue q). linked (st i) \<and> m_floor q \<le> vr st i) \<and>
     (\<forall>i. m_running q = Some i \<longrightarrow> \<not> linked (st i) \<and> m_floor q \<le> vr st i)"

definition cfs_entity_ok :: "cfs_entity \<Rightarrow> bool" where
  "cfs_entity_ok e \<longleftrightarrow> is_double (m_vruntime e) \<and> 0 \<le> m_vruntime e \<and> m_weight e \<noteq> 0"

definition cfs_owner :: "cfs_queue \<Rightarrow> co_id \<Rightarrow> bool" where
  "cfs_owner q i \<longleftrightarrow> i \<in> set (m_queue q) \<or> m_running q = Some i"

definition cfs_inv :: "cfs_sys \<Rightarrow> bool" where
  "cfs_inv S \<longleftrightarrow>
     (\<forall>i. cfs_entity_ok (ents S i)) \<and>
     (\<forall>p < length (queues S). cfs_queue_ok (ents S) (queues S ! p)) \<and>
     (\<forall>p < length (queues S). \<forall>p' < length (queues S). \<forall>i.
        cfs_owner (queues S ! p) i \<longrightarrow> cfs_owner (queues S ! p') i \<longrightarrow> p = p') \<and>
     (\<forall>i. linked (ents S i) \<longrightarrow> (\<exists>p < length (queues S). i \<in> set (m_queue (queues S ! p))))"

lemma cfs_init_inv: "cfs_inv (cfs_init n)"
  by (simp add: cfs_inv_def cfs_init_def cfs_entity_ok_def cfs_entity0_def cfs_queue_ok_def
      cfs_queue0_def cfs_owner_def)

subsection \<open>One queue\<close>

lemma entity_ok_vr: "cfs_entity_ok (st i) \<Longrightarrow> is_double (vr st i) \<and> 0 \<le> vr st i"
  by (simp add: cfs_entity_ok_def)

lemma map_vr_upd [simp]:
  "i \<notin> set xs \<Longrightarrow> map (\<lambda>j. m_vruntime (if j = i then e else st j)) xs = map (\<lambda>j. m_vruntime (st j)) xs"
  by auto

lemma max1_neq_0 [simp]: "max 1 (w :: u64) \<noteq> 0"
  by (simp add: max_def word_le_nat_alt unat_eq_zero [symmetric])

text \<open>The debt added by \<open>Enqueue\<close> is the stored vruntime: debts of unlinked nodes are never
  negative, so the clamp for waiting nodes changes nothing.\<close>

lemma Enqueue_cases:
  assumes "cfs_entity_ok (st i)" "Enqueue i t pr w st q = (b, st', q')"
  obtains
    "b = False" "linked (st i) \<or> m_running q = Some i" "st' = st" "q' = q"
  | "b = True" "\<not> linked (st i)" "m_running q \<noteq> Some i"
    "st' = st (i := (st i) \<lparr>linked := True, m_vruntime := dadd (m_floor q) (vr st i), m_task := Some t,
                 m_priority := pr, m_weight := max 1 w, m_waiting := False\<rparr>)"
    "q' = q \<lparr>m_queue := insert_upper (vr st') i (m_queue q)\<rparr>"
proof -
  have debt: "(if m_waiting (st i) then max 0 (vr st i) else vr st i) = vr st i"
    using assms(1) by (simp add: cfs_entity_ok_def)
  show ?thesis
  proof (cases "linked (st i) \<or> m_running q = Some i")
    case True
    then show ?thesis using assms(2) by (intro that(1)) (auto simp: Enqueue_def)
  next
    case False
    then show ?thesis
      using assms(2) unfolding Enqueue_def Let_def debt by (intro that(2)) auto
  qed
qed

lemma Enqueue_ok:
  assumes "cfs_queue_ok st q" "\<forall>j. cfs_entity_ok (st j)" "Enqueue i t pr w st q = (b, st', q')"
  shows "cfs_queue_ok st' q'" "\<forall>j. cfs_entity_ok (st' j)"
proof -
  have ge: "m_floor q \<le> dadd (m_floor q) (vr st i)" and f0: "0 \<le> m_floor q"
    using assms(1,2) dadd_ge [of "m_floor q" "vr st i"]
    by (auto simp: cfs_queue_ok_def cfs_entity_ok_def)
  from assms(2) have "cfs_entity_ok (st i)" by blast
  from this assms(3) show "cfs_queue_ok st' q'"
  proof (cases rule: Enqueue_cases)
    case 2
    have ni: "i \<notin> set (m_queue q)" using assms(1) 2(2) by (auto simp: cfs_queue_ok_def)
    then have m: "map (vr st') (m_queue q) = map (vr st) (m_queue q)" using 2(4) by auto
    have "sorted (map (vr st') (m_queue q))" using assms(1) unfolding m by (simp add: cfs_queue_ok_def)
    then have "sorted (map (vr st') (m_queue q'))" using 2(5) by (simp add: sorted_insert_upper)
    then show ?thesis using assms(1) 2 ni ge by (auto simp: cfs_queue_ok_def)
  qed (use assms in simp)
  from \<open>cfs_entity_ok (st i)\<close> assms(3) show "\<forall>j. cfs_entity_ok (st' j)"
    by (cases rule: Enqueue_cases) (use assms(2) ge f0 in \<open>auto simp: cfs_entity_ok_def\<close>)
qed

lemma Pick_ok:
  assumes "cfs_queue_ok st q" "\<forall>j. cfs_entity_ok (st j)" "Pick st q = (r, st', q')"
  shows "cfs_queue_ok st' q'" "\<forall>j. cfs_entity_ok (st' j)"
  using assms by (auto simp: Pick_def cfs_queue_ok_def cfs_entity_ok_def split: if_splits list.splits)

lemma Take_ok:
  assumes "cfs_queue_ok st q" "\<forall>j. cfs_entity_ok (st j)" "Take st q = (r, st', q')"
  shows "cfs_queue_ok st' q'" "\<forall>j. cfs_entity_ok (st' j)"
  using assms
  by (auto simp: Take_def cfs_queue_ok_def cfs_entity_ok_def dsub_nonneg split: list.splits if_splits)

text \<open>What \<open>Account\<close> computes, with the new absolute vruntime and floor named.\<close>

lemma Account_cases:
  assumes "cfs_queue_ok st q" "\<forall>j. cfs_entity_ok (st j)" "Account i el wt st q = Some (st', q')"
  obtains v fl where
    "m_running q = Some i" "is_double v" "is_double fl" "vr st i \<le> v" "m_floor q \<le> fl" "fl \<le> v"
    "\<forall>j\<in>set (m_queue q). fl \<le> vr st j"
    "st' = st (i := (st i) \<lparr>m_serviceUs := sat_add (m_serviceUs (st i)) (max 1 el),
        m_vruntime := dsub v fl, m_waiting := wt\<rparr>)"
    "q' = q \<lparr>m_floor := fl, m_running := None\<rparr>"
proof -
  define v where "v = dadd (vr st i) (ddiv (u64_to_double (max 1 el)) (u64_to_double (m_weight (st i))))"
  define fl where "fl = max (m_floor q) (case m_queue q of [] \<Rightarrow> v | h # _ \<Rightarrow> min v (vr st h))"
  have run: "m_running q = Some i" using assms(3) by (auto simp: Account_def split: if_splits)
  have eok: "is_double (vr st i)" "m_weight (st i) \<noteq> 0" using assms(2) by (auto simp: cfs_entity_ok_def)
  have "0 < ddiv (u64_to_double (max 1 el)) (u64_to_double (m_weight (st i)))"
    using eok by (intro ddiv_pos u64_to_double_pos) auto
  then have vv: "vr st i \<le> v" using eok unfolding v_def by (intro dadd_ge) auto
  have rf: "m_floor q \<le> vr st i" using assms(1) run by (simp add: cfs_queue_ok_def)
  have hd: "\<forall>j\<in>set (m_queue q). case m_queue q of [] \<Rightarrow> True | h # _ \<Rightarrow> vr st h \<le> vr st j"
    using assms(1) by (auto simp: cfs_queue_ok_def split: list.splits)
  have "fl \<le> v" using rf vv by (auto simp: fl_def split: list.splits)
  moreover have "\<forall>j\<in>set (m_queue q). fl \<le> vr st j"
    using hd assms(1) by (force simp: fl_def cfs_queue_ok_def split: list.splits)
  moreover have "is_double fl" "is_double v"
    using assms(1,2) by (auto simp: fl_def v_def cfs_queue_ok_def cfs_entity_ok_def max_def min_def split: list.splits)
  moreover have "m_floor q \<le> fl" by (simp add: fl_def)
  moreover have "st' = st (i := (st i) \<lparr>m_serviceUs := sat_add (m_serviceUs (st i)) (max 1 el),
        m_vruntime := dsub v fl, m_waiting := wt\<rparr>)" "q' = q \<lparr>m_floor := fl, m_running := None\<rparr>"
    using assms(3) run
    unfolding Account_def Let_def v_def [symmetric] fl_def [symmetric] by auto
  ultimately show ?thesis using that run vv by blast
qed

lemma Account_ok:
  assumes "cfs_queue_ok st q" "\<forall>j. cfs_entity_ok (st j)" "Account i el wt st q = Some (st', q')"
  shows "cfs_queue_ok st' q'" "\<forall>j. cfs_entity_ok (st' j)"
proof -
  obtain v fl where a: "m_running q = Some i" "is_double v" "is_double fl" "vr st i \<le> v" "m_floor q \<le> fl"
    "fl \<le> v" "\<forall>j\<in>set (m_queue q). fl \<le> vr st j"
    "st' = st (i := (st i) \<lparr>m_serviceUs := sat_add (m_serviceUs (st i)) (max 1 el),
        m_vruntime := dsub v fl, m_waiting := wt\<rparr>)"
    "q' = q \<lparr>m_floor := fl, m_running := None\<rparr>"
    using Account_cases [OF assms] by metis
  have ni: "i \<notin> set (m_queue q)" using assms(1) a(1) by (auto simp: cfs_queue_ok_def)
  then have m: "map (vr st') (m_queue q) = map (vr st) (m_queue q)" using a(8) by auto
  have "sorted (map (vr st') (m_queue q))" using assms(1) unfolding m by (simp add: cfs_queue_ok_def)
  moreover have "0 \<le> fl" using a(5) assms(1) unfolding cfs_queue_ok_def by linarith
  ultimately show "cfs_queue_ok st' q'"
    using assms(1) a ni by (auto simp: cfs_queue_ok_def)
  show "\<forall>j. cfs_entity_ok (st' j)"
    using assms(2) a by (auto simp: cfs_entity_ok_def dsub_nonneg)
qed

subsection \<open>All queues\<close>

lemma upd_sys_id [simp]: "p < length (queues S) \<Longrightarrow> upd_sys S p (ents S) (queues S ! p) = S"
  by (simp add: upd_sys_def)

lemma cfs_queue_ok_frame:
  assumes "cfs_queue_ok st q" "\<not> cfs_owner q k" "\<forall>j. j \<noteq> k \<longrightarrow> st' j = st j"
  shows "cfs_queue_ok st' q"
proof -
  have m: "map (vr st') (m_queue q) = map (vr st) (m_queue q)" and
    e: "\<forall>j\<in>set (m_queue q). st' j = st j" and r: "\<forall>j. m_running q = Some j \<longrightarrow> st' j = st j"
    using assms(2,3) by (auto simp: cfs_owner_def)
  show ?thesis using assms(1) e r unfolding cfs_queue_ok_def m by auto
qed

text \<open>One operation on queue \<open>p\<close> that changes at most the node \<open>k\<close>, which no other queue owns,
  keeps the invariant of the system if it keeps the one of its queue.\<close>

lemma upd_sys_inv:
  assumes inv: "cfs_inv S" and p: "p < length (queues S)"
    and ok: "cfs_queue_ok st' q'" "\<forall>j. cfs_entity_ok (st' j)"
    and fr: "\<forall>j. j \<noteq> k \<longrightarrow> st' j = ents S j"
    and own: "\<forall>p' < length (queues S). p' \<noteq> p \<longrightarrow> \<not> cfs_owner (queues S ! p') k"
    and new: "\<forall>j. cfs_owner q' j \<longrightarrow> cfs_owner (queues S ! p) j \<or> j = k"
    and lnk: "\<forall>j. linked (st' j) \<longrightarrow> j \<in> set (m_queue q') \<or> j \<noteq> k \<and> j \<notin> set (m_queue (queues S ! p))"
  shows "cfs_inv (upd_sys S p st' q')"
proof -
  let ?n = "length (queues S)"
  have frame: "cfs_queue_ok st' (queues S ! p')" if "p' < ?n" "p' \<noteq> p" for p'
    using inv that own fr by (auto simp: cfs_inv_def intro: cfs_queue_ok_frame)
  have excl: "a = b" if "a < ?n" "b < ?n" "cfs_owner ((queues S)[p := q'] ! a) i"
      "cfs_owner ((queues S)[p := q'] ! b) i" for a b i
    using inv p that own new unfolding cfs_inv_def by (metis nth_list_update)
  have member: "\<exists>a < ?n. j \<in> set (m_queue ((queues S)[p := q'] ! a))" if l: "linked (st' j)" for j
  proof (cases "j \<in> set (m_queue q')")
    case True
    then show ?thesis using p by auto
  next
    case False
    with lnk l have j: "j \<noteq> k" "j \<notin> set (m_queue (queues S ! p))" by auto
    with l fr have "linked (ents S j)" by simp
    with inv obtain a where a: "a < ?n" "j \<in> set (m_queue (queues S ! a))" by (auto simp: cfs_inv_def)
    then have "a \<noteq> p" using j(2) by auto
    then show ?thesis using a by (intro exI [of _ a]) simp
  qed
  show ?thesis
    unfolding cfs_inv_def upd_sys_def using ok frame excl member p by (auto simp: nth_list_update)
qed

lemma cfs_inv_queue: "cfs_inv S \<Longrightarrow> p < length (queues S) \<Longrightarrow> cfs_queue_ok (ents S) (queues S ! p)"
  and cfs_inv_entity: "cfs_inv S \<Longrightarrow> \<forall>i. cfs_entity_ok (ents S i)"
  and cfs_inv_excl: "cfs_inv S \<Longrightarrow> p < length (queues S) \<Longrightarrow> p' < length (queues S) \<Longrightarrow>
     cfs_owner (queues S ! p) i \<Longrightarrow> cfs_owner (queues S ! p') i \<Longrightarrow> p = p'"
  and cfs_inv_linked: "cfs_inv S \<Longrightarrow> linked (ents S i) \<Longrightarrow>
     \<exists>p < length (queues S). i \<in> set (m_queue (queues S ! p))"
  by (auto simp: cfs_inv_def)

lemma cfs_step_Enqueue:
  assumes "cfs_inv S" "cfs_exec (EvEnqueue p i pr w) S = Some S'" shows "cfs_inv S'"
proof -
  let ?q = "queues S ! p"
  obtain b st' q' where e: "Enqueue i i pr w (ents S) ?q = (b, st', q')" by (metis prod_cases3)
  have p: "p < length (queues S)" and ne: "\<not> runs_elsewhere S p i" and S': "S' = upd_sys S p st' q'"
    using assms(2) e by (auto split: if_splits)
  note ok = Enqueue_ok [OF cfs_inv_queue [OF assms(1) p] cfs_inv_entity [OF assms(1)] e]
  have "cfs_entity_ok (ents S i)" using cfs_inv_entity [OF assms(1)] by blast
  from this e show ?thesis
  proof (cases rule: Enqueue_cases)
    case 1
    then show ?thesis using assms(1) p S' by simp
  next
    case 2
    have "\<forall>p' < length (queues S). p' \<noteq> p \<longrightarrow> \<not> cfs_owner (queues S ! p') i"
      using 2(2) ne cfs_inv_queue [OF assms(1)]
      by (auto simp: cfs_owner_def runs_elsewhere_def list_ex_iff cfs_queue_ok_def)
    then show ?thesis unfolding S' using 2 ok
      by (intro upd_sys_inv [OF assms(1) p, where k = i]) (auto simp: cfs_owner_def)
  qed
qed

lemma cfs_step_owned:
  assumes "cfs_inv S" "p < length (queues S)" "cfs_owner (queues S ! p) k"
  shows "\<forall>p' < length (queues S). p' \<noteq> p \<longrightarrow> \<not> cfs_owner (queues S ! p') k"
  using assms cfs_inv_excl by blast

lemma cfs_step_Pick:
  assumes "cfs_inv S" "cfs_exec (EvPick p) S = Some S'" shows "cfs_inv S'"
proof -
  let ?q = "queues S ! p"
  obtain r st' q' where e: "Pick (ents S) ?q = (r, st', q')" by (metis prod_cases3)
  have p: "p < length (queues S)" and S': "S' = upd_sys S p st' q'"
    using assms(2) e by (auto split: if_splits)
  note ok = Pick_ok [OF cfs_inv_queue [OF assms(1) p] cfs_inv_entity [OF assms(1)] e]
  show ?thesis
  proof (cases r)
    case None
    then show ?thesis using e assms(1) p S' by (auto simp: Pick_def split: if_splits list.splits)
  next
    case (Some k)
    then obtain rest where k: "m_queue ?q = k # rest" "m_running ?q = None"
      "st' = (ents S) (k := (ents S k) \<lparr>linked := False\<rparr>)" "q' = ?q \<lparr>m_running := Some k, m_queue := rest\<rparr>"
      using e by (auto simp: Pick_def split: if_splits list.splits)
    have "cfs_owner ?q k" using k by (simp add: cfs_owner_def)
    from cfs_step_owned [OF assms(1) p this] show ?thesis unfolding S' using k ok
      by (intro upd_sys_inv [OF assms(1) p, where k = k]) (auto simp: cfs_owner_def)
  qed
qed

lemma cfs_step_Take:
  assumes "cfs_inv S" "cfs_exec (EvTake p) S = Some S'" shows "cfs_inv S'"
proof -
  let ?q = "queues S ! p"
  obtain r st' q' where e: "Take (ents S) ?q = (r, st', q')" by (metis prod_cases3)
  have p: "p < length (queues S)" and S': "S' = upd_sys S p st' q'"
    using assms(2) e by (auto split: if_splits)
  note ok = Take_ok [OF cfs_inv_queue [OF assms(1) p] cfs_inv_entity [OF assms(1)] e]
  show ?thesis
  proof (cases "m_queue ?q")
    case Nil
    then show ?thesis using e assms(1) p S' by (auto simp: Take_def)
  next
    case (Cons k rest)
    then have k: "st' = (ents S) (k := (ents S k) \<lparr>linked := False, m_vruntime := dsub (vr (ents S) k) (m_floor ?q)\<rparr>)"
      "q' = ?q \<lparr>m_queue := rest\<rparr>"
      using e by (auto simp: Take_def)
    have "cfs_owner ?q k" using Cons by (simp add: cfs_owner_def)
    from cfs_step_owned [OF assms(1) p this] show ?thesis unfolding S' using k ok Cons
      by (intro upd_sys_inv [OF assms(1) p, where k = k]) (auto simp: cfs_owner_def)
  qed
qed

lemma cfs_step_Account:
  assumes "cfs_inv S" "cfs_exec (EvAccount p i el wt) S = Some S'" shows "cfs_inv S'"
proof -
  let ?q = "queues S ! p"
  from assms(2) obtain st' q' where p: "p < length (queues S)" and S': "S' = upd_sys S p st' q'"
    and e: "Account i el wt (ents S) ?q = Some (st', q')"
    by (auto split: if_splits option.splits)
  note pre = cfs_inv_queue [OF assms(1) p] cfs_inv_entity [OF assms(1)] e
  note ok = Account_ok [OF pre]
  from pre show ?thesis
  proof (cases rule: Account_cases)
    case (1 v fl)
    have "cfs_owner ?q i" and "\<not> linked (ents S i)" using 1(1) pre(1) by (auto simp: cfs_owner_def cfs_queue_ok_def)
    with cfs_step_owned [OF assms(1) p this(1)] show ?thesis unfolding S' using 1 ok
      by (intro upd_sys_inv [OF assms(1) p, where k = i]) (auto simp: cfs_owner_def split: if_splits)
  qed
qed

lemma cfs_step_inv: "cfs_inv S \<Longrightarrow> cfs_exec e S = Some S' \<Longrightarrow> cfs_inv S'"
  by (cases e) (auto intro: cfs_step_Enqueue cfs_step_Pick cfs_step_Take cfs_step_Account
      simp del: cfs_exec.simps)

interpretation cfs_machine: invariant_machine cfs_exec cfs_inv
  by unfold_locales (rule cfs_step_inv)

lemma cfs_reaches_inv: "reaches cfs_exec (cfs_init n) S \<Longrightarrow> cfs_inv S"
  by (rule cfs_machine.reaches_inv [OF _ cfs_init_inv])

section \<open>A concrete run\<close>

definition cfs_demo :: "cfs_event list" where
  "cfs_demo = [EvEnqueue 0 1 0 2, EvEnqueue 0 2 0 1, EvEnqueue 0 3 0 1, EvPick 0, EvAccount 0 1 10 False,
     EvEnqueue 0 1 0 2, EvTake 0, EvEnqueue 1 2 0 1]"

lemma cfs_demo_run: "case run cfs_exec cfs_demo (cfs_init 2) of None \<Rightarrow> False
   | Some S \<Rightarrow> length (queues S) = 2 \<and> m_queue (queues S ! 0) = [3, 1] \<and> m_queue (queues S ! 1) = [2]
       \<and> vr (ents S) 1 = 5 \<and> vr (ents S) 3 = 0"
  by code_simp

section \<open>Properties\<close>

text \<open>C38. In every state the queues can reach, each ready queue is in vruntime order without
  duplicates, no queued or running node is below its queue's floor, a linked node is in exactly
  one queue, and no coroutine is queued or running on two Processers at once.\<close>

theorem cfs_reachable_order:
  assumes "reaches cfs_exec (cfs_init n) S" "p < length (queues S)"
  shows "sorted (map (vr (ents S)) (m_queue (queues S ! p))) \<and> distinct (m_queue (queues S ! p)) \<and>
    (\<forall>i. cfs_owner (queues S ! p) i \<longrightarrow> m_floor (queues S ! p) \<le> vr (ents S) i) \<and>
    (\<forall>i. cfs_owner (queues S ! p) i \<longrightarrow>
       (linked (ents S i) \<longleftrightarrow> i \<in> set (m_queue (queues S ! p))) \<and>
       (\<forall>p' < length (queues S). cfs_owner (queues S ! p') i \<longrightarrow> p' = p))"
  using cfs_inv_queue [OF cfs_reaches_inv [OF assms(1)] assms(2)]
    cfs_inv_excl [OF cfs_reaches_inv [OF assms(1)] _ assms(2)]
  by (auto simp: cfs_queue_ok_def cfs_owner_def)

theorem cfs_reachable_order_witness:
  "\<exists>S. run cfs_exec cfs_demo (cfs_init 2) = Some S \<and> m_queue (queues S ! 0) = [3, 1] \<and>
     sorted (map (vr (ents S)) (m_queue (queues S ! 0))) \<and> m_floor (queues S ! 0) \<le> vr (ents S) 1"
proof -
  obtain S where S: "run cfs_exec cfs_demo (cfs_init 2) = Some S" "length (queues S) = 2"
    "m_queue (queues S ! 0) = [3, 1]"
    using cfs_demo_run by (auto split: option.splits)
  have "0 < length (queues S)" using S(2) by simp
  from cfs_reachable_order [OF run_reaches [OF S(1)] this] S show ?thesis
    by (auto simp: cfs_owner_def)
qed

text \<open>\<open>Pick\<close> on a reachable queue returns nothing exactly when a coroutine is running or
  nothing is ready; otherwise it removes the head of the queue, marks it running, and that node
  has the least vruntime of all ready nodes, every node of equal vruntime being behind it.\<close>

lemma cfs_pick_least:
  assumes "reaches cfs_exec (cfs_init n) S" "p < length (queues S)"
    and "Pick (ents S) (queues S ! p) = (r, st', q')"
  shows "case r of
      None \<Rightarrow> (m_running (queues S ! p) \<noteq> None \<or> m_queue (queues S ! p) = []) \<and>
              st' = ents S \<and> q' = queues S ! p
    | Some i \<Rightarrow> m_running (queues S ! p) = None \<and> m_running q' = Some i \<and>
              m_queue (queues S ! p) = i # m_queue q' \<and> \<not> linked (st' i) \<and>
              (\<forall>j\<in>set (m_queue q'). vr (ents S) i \<le> vr (ents S) j) \<and> m_floor q' = m_floor (queues S ! p)"
proof -
  note ok = cfs_inv_queue [OF cfs_reaches_inv [OF assms(1)] assms(2)]
  show ?thesis
  proof (cases "m_running (queues S ! p)")
    case None
    show ?thesis
      using None ok assms(3) by (cases "m_queue (queues S ! p)") (auto simp: Pick_def cfs_queue_ok_def)
  qed (use assms(3) in \<open>auto simp: Pick_def\<close>)
qed

text \<open>\<open>Enqueue\<close> refuses, changing nothing, a node that is linked or running on this
  queue. Otherwise the node's stored value is its debt, the node is re-based to the floor of the
  target queue (never below it), and it is placed behind every ready node whose vruntime is not
  greater and before all others: equal vruntimes keep their arrival order.\<close>

lemma cfs_enqueue_stable:
  assumes "reaches cfs_exec (cfs_init n) S" "p < length (queues S)"
    and "Enqueue i t pr w (ents S) (queues S ! p) = (b, st', q')"
  shows "(b \<longleftrightarrow> \<not> linked (ents S i) \<and> m_running (queues S ! p) \<noteq> Some i) \<and>
    (\<not> b \<longrightarrow> st' = ents S \<and> q' = queues S ! p) \<and>
    (b \<longrightarrow> vr st' i = dadd (m_floor (queues S ! p)) (vr (ents S) i) \<and> m_floor (queues S ! p) \<le> vr st' i \<and>
       m_queue q' = filter (\<lambda>j. vr (ents S) j \<le> vr st' i) (m_queue (queues S ! p)) @ i #
                    filter (\<lambda>j. vr st' i < vr (ents S) j) (m_queue (queues S ! p)) \<and>
       Size q' = Size (queues S ! p) + 1 \<and> m_weight (st' i) = max 1 w)"
proof -
  let ?q = "queues S ! p"
  note inv = cfs_reaches_inv [OF assms(1)]
  note ok = cfs_inv_queue [OF inv assms(2)]
  have eok: "cfs_entity_ok (ents S i)" using cfs_inv_entity [OF inv] by blast
  from eok assms(3) show ?thesis
  proof (cases rule: Enqueue_cases)
    case 2
    have ni: "\<forall>j\<in>set (m_queue ?q). j \<noteq> i" using ok 2(2) by (auto simp: cfs_queue_ok_def)
    have "m_floor ?q \<le> dadd (m_floor ?q) (vr (ents S) i)"
      using ok eok by (auto simp: cfs_queue_ok_def cfs_entity_ok_def intro: dadd_ge)
    moreover have "sorted (map (vr st') (m_queue ?q))"
    proof -
      have m: "map (vr st') (m_queue ?q) = map (vr (ents S)) (m_queue ?q)" using ni 2(4) by auto
      show ?thesis unfolding m using ok by (simp add: cfs_queue_ok_def)
    qed
    from insert_upper_split [OF this, of i]
    have "m_queue q' = filter (\<lambda>j. vr st' j \<le> vr st' i) (m_queue ?q) @ i # filter (\<lambda>j. vr st' i < vr st' j) (m_queue ?q)"
      using 2(5) by simp
    then have "m_queue q' = filter (\<lambda>j. vr (ents S) j \<le> vr st' i) (m_queue ?q) @ i #
        filter (\<lambda>j. vr st' i < vr (ents S) j) (m_queue ?q)"
      using ni 2(4) by (simp cong: filter_cong)
    moreover have "Size q' = Size ?q + 1" using 2(5) by (simp add: Size_def)
    moreover have "vr st' i = dadd (m_floor ?q) (vr (ents S) i)" "m_weight (st' i) = max 1 w" "b"
      "\<not> linked (ents S i)" "m_running ?q \<noteq> Some i" using 2 by simp_all
    ultimately show ?thesis by simp
  qed simp
qed

text \<open>\<open>Account\<close> stops the process exactly when the node is not the running one. Otherwise
  it charges at least one microsecond, accumulates service time saturating at 2^64 - 1, never
  lowers the floor, keeps the floor not above any ready node, leaves the settled node a
  non-negative debt against the new floor, and releases the running slot.\<close>

lemma cfs_account_settles:
  assumes "reaches cfs_exec (cfs_init n) S" "p < length (queues S)"
  shows "case Account i el wt (ents S) (queues S ! p) of
      None \<Rightarrow> m_running (queues S ! p) \<noteq> Some i
    | Some (st', q') \<Rightarrow> m_running (queues S ! p) = Some i \<and> m_running q' = None \<and>
        m_queue q' = m_queue (queues S ! p) \<and>
        unat (m_serviceUs (st' i)) = min (2 ^ 64 - 1) (unat (m_serviceUs (ents S i)) + max 1 (unat el)) \<and>
        m_floor (queues S ! p) \<le> m_floor q' \<and> (\<forall>j\<in>set (m_queue q'). m_floor q' \<le> vr st' j) \<and>
        0 \<le> vr st' i \<and> m_waiting (st' i) = wt \<and> (\<forall>j. j \<noteq> i \<longrightarrow> st' j = ents S j)"
proof (cases "Account i el wt (ents S) (queues S ! p)")
  case None
  then show ?thesis by (auto simp: Account_def Let_def split: if_splits)
next
  case (Some res)
  obtain st' q' where e: "Account i el wt (ents S) (queues S ! p) = Some (st', q')" using Some by (cases res) auto
  note inv = cfs_reaches_inv [OF assms(1)]
  note pre = cfs_inv_queue [OF inv assms(2)] cfs_inv_entity [OF inv] e
  note ok = Account_ok [OF pre]
  have mx: "unat (max 1 el) = max 1 (unat el)" by (simp add: max_def word_le_nat_alt)
  have "m_running (queues S ! p) = Some i \<and> m_running q' = None \<and> m_queue q' = m_queue (queues S ! p) \<and>
     m_serviceUs (st' i) = sat_add (m_serviceUs (ents S i)) (max 1 el) \<and> m_floor (queues S ! p) \<le> m_floor q' \<and>
     m_waiting (st' i) = wt \<and> (\<forall>j. j \<noteq> i \<longrightarrow> st' j = ents S j)"
    using pre by (cases rule: Account_cases) auto
  then show ?thesis
    using e ok unat_sat_add [of "m_serviceUs (ents S i)" "max 1 el"]
    by (auto simp: mx cfs_queue_ok_def cfs_entity_ok_def)
qed

end
