(* ===== verification/PollState.thy ===== *)
theory PollState
  imports Prelude
begin

text \<open>
  The enumerations and the packed state word of \<open>detail/Define.hpp\<close> and the two event-mask
  vocabularies: \<open>EventOpt\<close> (libevent numbering, \<open>pollevent/detail/Define.hpp\<close>) and
  \<open>PollEventType\<close>. A \<open>short\<close> mask is a 16-bit word, the state word of \<open>CoPollEvent\<close> a 64-bit
  word whose low byte is the phase and whose next 16 bits are the trigger mask.
\<close>

unbundle bit_operations_syntax

section \<open>Enumerations\<close>

datatype CoPollEventStatus = POLLEVENT_DEFAULT | POLLEVENT_INITED | POLLEVENT_LISTEN
  | POLLEVENT_TRIGGER | POLLEVENT_FINAL | POLLEVENT_CANNEL

datatype CoPollEventPhase = INITED | ARMING | ARMED | PARKED | PENDING | TRIGGERING | FINAL | CANCELLED

fun phase_code :: "CoPollEventPhase \<Rightarrow> u64" where
  "phase_code INITED = 0" | "phase_code ARMING = 1" | "phase_code ARMED = 2" | "phase_code PARKED = 3"
| "phase_code PENDING = 4" | "phase_code TRIGGERING = 5" | "phase_code FINAL = 6" | "phase_code CANCELLED = 7"

definition phases :: "CoPollEventPhase list" where
  "phases = [INITED, ARMING, ARMED, PARKED, PENDING, TRIGGERING, FINAL, CANCELLED]"

text \<open>\<open>static_cast<CoPollEventPhase>\<close> of a byte: \<open>None\<close> when no enumerator has the value.\<close>

definition phase_of_code :: "u64 \<Rightarrow> CoPollEventPhase option" where
  "phase_of_code c = find (\<lambda>p. phase_code p = c) phases"

definition POLL_EVENT_TIMEOUT :: u16 where "POLL_EVENT_TIMEOUT = 1"
definition POLL_EVENT_WRITEABLE :: u16 where "POLL_EVENT_WRITEABLE = 2"
definition POLL_EVENT_READABLE :: u16 where "POLL_EVENT_READABLE = 4"
definition POLL_EVENT_CUSTOM :: u16 where "POLL_EVENT_CUSTOM = 8"
definition POLL_EVENT_CANCELLED :: u16 where "POLL_EVENT_CANCELLED = 256"
definition POLL_EVENT_CLOSED :: u16 where "POLL_EVENT_CLOSED = 512"

definition OPT_TIMEOUT :: u16 where "OPT_TIMEOUT = 1"
definition OPT_READABLE :: u16 where "OPT_READABLE = 2"
definition OPT_WRITEABLE :: u16 where "OPT_WRITEABLE = 4"

lemmas poll_bits = POLL_EVENT_TIMEOUT_def POLL_EVENT_WRITEABLE_def POLL_EVENT_READABLE_def
  POLL_EVENT_CUSTOM_def POLL_EVENT_CANCELLED_def POLL_EVENT_CLOSED_def
  OPT_TIMEOUT_def OPT_READABLE_def OPT_WRITEABLE_def

section \<open>The packed state word\<close>

definition CO_POLLEVENT_PHASE_MASK :: u64 where "CO_POLLEVENT_PHASE_MASK = 0xff"
definition CO_POLLEVENT_FLAGS_SHIFT :: nat where "CO_POLLEVENT_FLAGS_SHIFT = 8"
definition CO_POLLEVENT_FLAGS_MASK :: u64 where
  "CO_POLLEVENT_FLAGS_MASK = push_bit CO_POLLEVENT_FLAGS_SHIFT 0xffff"

lemmas pack_masks = CO_POLLEVENT_PHASE_MASK_def CO_POLLEVENT_FLAGS_SHIFT_def CO_POLLEVENT_FLAGS_MASK_def

definition PackCoPollEventState :: "CoPollEventPhase \<Rightarrow> u16 \<Rightarrow> u64" where
  "PackCoPollEventState ph flags = phase_code ph OR push_bit CO_POLLEVENT_FLAGS_SHIFT (ucast flags)"

definition GetCoPollEventPhase :: "u64 \<Rightarrow> CoPollEventPhase option" where
  "GetCoPollEventPhase state = phase_of_code (state AND CO_POLLEVENT_PHASE_MASK)"

definition GetCoPollEventFlags :: "u64 \<Rightarrow> u16" where
  "GetCoPollEventFlags state =
     ucast (drop_bit CO_POLLEVENT_FLAGS_SHIFT (state AND CO_POLLEVENT_FLAGS_MASK))"

lemma phase_of_code [simp]: "phase_of_code (phase_code p) = Some p"
  by (cases p) (simp_all add: phase_of_code_def phases_def)

lemma phase_code_lt: "phase_code p < 8"
  by (cases p) simp_all

lemma phase_code_take: "take_bit 3 (phase_code p) = phase_code p"
  by (cases p) (simp_all add: take_bit_eq_mask mask_numeral)

lemma bit_phase_code: "bit (phase_code p) n \<Longrightarrow> n < 3"
  using phase_code_take [of p] by (metis bit_take_bit_iff)

lemma bit_lit_ff: "bit (0xff :: u64) n \<longleftrightarrow> n < 8"
proof -
  have m: "(0xff :: u64) = mask 8" by (simp add: mask_numeral)
  show ?thesis unfolding m bit_mask_iff by auto
qed

lemma bit_lit_ffff: "bit (0xffff :: u64) n \<longleftrightarrow> n < 16"
proof -
  have m: "(0xffff :: u64) = mask 16" by (simp add: mask_numeral)
  show ?thesis unfolding m bit_mask_iff by auto
qed

text \<open>The state word loses nothing of a phase and a trigger mask.\<close>

lemma GetPhase_Pack [simp]: "GetCoPollEventPhase (PackCoPollEventState p f) = Some p"
proof -
  have "PackCoPollEventState p f AND CO_POLLEVENT_PHASE_MASK = phase_code p"
    by (rule bit_word_eqI)
      (auto simp: PackCoPollEventState_def pack_masks bit_simps bit_lit_ff simp del: bit_numeral_word_iff dest: bit_phase_code)
  then show ?thesis by (simp add: GetCoPollEventPhase_def)
qed

lemma GetFlags_Pack [simp]: "GetCoPollEventFlags (PackCoPollEventState p f) = f"
  by (rule bit_word_eqI)
    (auto simp: GetCoPollEventFlags_def PackCoPollEventState_def pack_masks bit_simps bit_lit_ffff
      simp del: bit_numeral_word_iff dest: bit_phase_code)

lemma Pack_inject [simp]:
  "PackCoPollEventState p f = PackCoPollEventState p' f' \<longleftrightarrow> p = p' \<and> f = f'"
  by (metis GetFlags_Pack GetPhase_Pack option.inject)

section \<open>Event masks\<close>

definition TransformToPollEventType :: "u16 \<Rightarrow> bool \<Rightarrow> u16" where
  "TransformToPollEventType t has_custom =
     (if t AND OPT_READABLE \<noteq> 0 then POLL_EVENT_READABLE else 0) OR
     (if t AND OPT_WRITEABLE \<noteq> 0 then POLL_EVENT_WRITEABLE else 0) OR
     (if t AND OPT_TIMEOUT \<noteq> 0 then POLL_EVENT_TIMEOUT else 0) OR
     (if has_custom then POLL_EVENT_CUSTOM else 0)"

definition NormalizeTriggerEvent :: "u16 \<Rightarrow> u16" where
  "NormalizeTriggerEvent t =
     (if t AND OPT_READABLE \<noteq> 0 then POLL_EVENT_READABLE else 0) OR
     (if t AND OPT_WRITEABLE \<noteq> 0 then POLL_EVENT_WRITEABLE else 0) OR
     (if t AND OPT_TIMEOUT \<noteq> 0 then POLL_EVENT_TIMEOUT else 0) OR
     (t AND (POLL_EVENT_CUSTOM OR POLL_EVENT_CANCELLED OR POLL_EVENT_CLOSED))"

lemma and_bit_nz: "t AND push_bit k 1 \<noteq> 0 \<longleftrightarrow> bit t k" if "k < LENGTH('a)" for t :: "'a::len word"
proof
  assume "bit t k"
  then have "bit (t AND push_bit k 1) k" using that by (simp add: bit_simps)
  then show "t AND push_bit k 1 \<noteq> 0" by auto
next
  assume "t AND push_bit k 1 \<noteq> 0"
  then obtain n where "bit (t AND push_bit k 1) n" using bit_eq_iff by (metis bit_0_eq bot_apply bot_bool_def)
  then show "bit t k" by (auto simp: bit_simps)
qed

lemma test_bits:
  "t AND 1 \<noteq> 0 \<longleftrightarrow> bit t 0" "t AND 2 \<noteq> 0 \<longleftrightarrow> bit t 1" "t AND 4 \<noteq> 0 \<longleftrightarrow> bit t 2" for t :: u16
  using and_bit_nz [of 0 t] and_bit_nz [of 1 t] and_bit_nz [of 2 t] by simp_all

lemma lit_bits: "bit (1 :: u16) n \<longleftrightarrow> n = 0" "bit (2 :: u16) n \<longleftrightarrow> n = 1" "bit (4 :: u16) n \<longleftrightarrow> n = 2"
  "bit (8 :: u16) n \<longleftrightarrow> n = 3" "bit (256 :: u16) n \<longleftrightarrow> n = 8" "bit (512 :: u16) n \<longleftrightarrow> n = 9"
proof -
  have "(2 :: u16) = push_bit 1 1" "(4 :: u16) = push_bit 2 1" "(8 :: u16) = push_bit 3 1"
    "(256 :: u16) = push_bit 8 1" "(512 :: u16) = push_bit 9 1" by simp_all
  then show "bit (2 :: u16) n \<longleftrightarrow> n = 1" "bit (4 :: u16) n \<longleftrightarrow> n = 2"
    "bit (8 :: u16) n \<longleftrightarrow> n = 3" "bit (256 :: u16) n \<longleftrightarrow> n = 8" "bit (512 :: u16) n \<longleftrightarrow> n = 9"
    by (simp_all only: bit_push_bit_iff bit_1_iff) auto
qed (auto simp: bit_1_iff)

lemma lit_776: "bit (776 :: u16) n \<longleftrightarrow> n = 3 \<or> n = 8 \<or> n = 9"
proof -
  have m: "(776 :: u16) = 8 OR 256 OR 512" by simp
  show ?thesis unfolding m bit_or_iff lit_bits by auto
qed

text \<open>What each bit of the normalised mask says: the fd bits change places, the timeout and the
  runtime's own bits stay, every other bit disappears.\<close>

lemma bit_Normalize:
  "bit (NormalizeTriggerEvent t) n \<longleftrightarrow>
     (n = 0 \<and> bit t 0) \<or> (n = 2 \<and> bit t 1) \<or> (n = 1 \<and> bit t 2) \<or> (n \<in> {3, 8, 9} \<and> bit t n)"
  unfolding NormalizeTriggerEvent_def poll_bits test_bits
  by (auto simp: bit_or_iff bit_and_iff lit_bits lit_776 simp del: bit_numeral_word_iff)

section \<open>Phase to status\<close>

fun status_of_phase :: "CoPollEventPhase option \<Rightarrow> CoPollEventStatus" where
  "status_of_phase (Some INITED) = POLLEVENT_INITED"
| "status_of_phase (Some ARMING) = POLLEVENT_LISTEN"
| "status_of_phase (Some ARMED) = POLLEVENT_LISTEN"
| "status_of_phase (Some PARKED) = POLLEVENT_LISTEN"
| "status_of_phase (Some PENDING) = POLLEVENT_TRIGGER"
| "status_of_phase (Some TRIGGERING) = POLLEVENT_TRIGGER"
| "status_of_phase (Some FINAL) = POLLEVENT_FINAL"
| "status_of_phase (Some CANCELLED) = POLLEVENT_CANNEL"
| "status_of_phase None = POLLEVENT_DEFAULT"

section \<open>Properties\<close>

text \<open>The state word of an event is a faithful pair of phase and 16-bit trigger mask: both
  components are read back unchanged, so a compare-and-swap on the word is one on the pair.\<close>

lemma pack_roundtrip:
  "GetCoPollEventPhase (PackCoPollEventState p f) = Some p \<and>
   GetCoPollEventFlags (PackCoPollEventState p f) = f \<and>
   (PackCoPollEventState p f = PackCoPollEventState p' f' \<longleftrightarrow> p = p' \<and> f = f')"
  by simp

text \<open>Normalising a trigger mask swaps the readable and writeable bits between the two
  vocabularies, keeps the timeout, custom, cancelled and closed bits and drops all others; on the
  fd and timeout bits it agrees with the mask \<open>GetEvent\<close> reports for the listened events.\<close>

lemma normalize_bits:
  "(\<forall>n. bit (NormalizeTriggerEvent t) n \<longleftrightarrow>
     (n = 0 \<and> bit t 0) \<or> (n = 2 \<and> bit t 1) \<or> (n = 1 \<and> bit t 2) \<or> (n \<in> {3, 8, 9} \<and> bit t n)) \<and>
   NormalizeTriggerEvent t AND 7 = TransformToPollEventType t c AND 7"
proof -
  have seven: "bit (7 :: u16) n \<longleftrightarrow> n < 3" for n
  proof -
    have m: "(7 :: u16) = mask 3" by (simp add: mask_numeral)
    show ?thesis unfolding m bit_mask_iff by auto
  qed
  have "NormalizeTriggerEvent t AND 7 = TransformToPollEventType t c AND 7"
    by (rule bit_word_eqI)
      (unfold TransformToPollEventType_def poll_bits test_bits bit_and_iff bit_or_iff bit_Normalize seven,
       auto simp: lit_bits simp del: bit_numeral_word_iff)
  then show ?thesis by (simp add: bit_Normalize)
qed

end
