(* ===== verification/PollEvent.thy ===== *)
theory PollEvent
  imports PollState
begin

text \<open>
  \<open>detail/CoPollEvent.{hpp,cc}\<close>: the one-shot event a coroutine parks on, with its packed
  atomic state word, and the process-wide table of fd slots (generation, closing mark, waiters)
  that orders \<open>close\<close> against waits on the same descriptor number.

  Events are numbered and live in a store; the table maps descriptors to slots. A load-and-CAS
  loop is one atomic step (its last, successful iteration); \<open>Regist\<close> has three such steps,
  separated by the call into the event loop, and its program counter is the field \<open>reg\<close>.
  Triggering a parked event grants the completion right (\<open>TRIGGERING\<close>), exercised by a later
  step. \<open>BeginFdClose\<close> triggers the removed waiters outside its lock: they wait in \<open>close_todo\<close>.
  The results of \<open>CreateEvent\<close> and \<open>StartListen\<close> (the asio-backed event loop) are arguments.
\<close>

section \<open>Data\<close>

datatype reg_pc = RegNone | RegArming | RegArmed | RegDone

record co_event =
  m_state :: u64
  m_event :: bool
  m_fd :: int
  m_listen_events :: u16
  m_timeout :: int
  m_has_custom_event :: bool
  m_custom_key :: int
  m_wait_epoch :: u64
  alive :: bool
  reg :: reg_pc

definition co_event0 :: co_event where
  "co_event0 = \<lparr>m_state = PackCoPollEventState INITED 0, m_event = False, m_fd = -1, m_listen_events = 0,
     m_timeout = -1, m_has_custom_event = False, m_custom_key = -1, m_wait_epoch = 0,
     alive = True, reg = RegNone\<rparr>"

record fd_slot =
  epoch :: u64
  closing :: bool
  waiters :: "nat list"

definition fd_slot0 :: fd_slot where
  "fd_slot0 = \<lparr>epoch = 0, closing = False, waiters = []\<rparr>"

record poll_sys =
  evs :: "nat \<Rightarrow> co_event"
  slots :: "int \<Rightarrow> fd_slot option"
  close_todo :: "nat list"
  deferred :: "nat list"
  completed :: "(nat \<times> u16) list"

definition poll_init :: poll_sys where
  "poll_init = \<lparr>evs = \<lambda>_. co_event0, slots = Map.empty, close_todo = [], deferred = [], completed = []\<rparr>"

datatype create_result = CreateOk | CreateNull | CreateThrow
datatype listen_result = ListenRet int | ListenThrow

definition phase :: "poll_sys \<Rightarrow> nat \<Rightarrow> CoPollEventPhase option" where
  "phase s i = GetCoPollEventPhase (m_state (evs s i))"

definition upd_ev :: "nat \<Rightarrow> (co_event \<Rightarrow> co_event) \<Rightarrow> poll_sys \<Rightarrow> poll_sys" where
  "upd_ev i f s = s \<lparr>evs := (evs s) (i := f (evs s i))\<rparr>"

definition set_state :: "nat \<Rightarrow> CoPollEventPhase \<Rightarrow> u16 \<Rightarrow> poll_sys \<Rightarrow> poll_sys" where
  "set_state i p f = upd_ev i (\<lambda>e. e \<lparr>m_state := PackCoPollEventState p f\<rparr>)"

definition set_reg :: "nat \<Rightarrow> reg_pc \<Rightarrow> poll_sys \<Rightarrow> poll_sys" where
  "set_reg i r = upd_ev i (\<lambda>e. e \<lparr>reg := r\<rparr>)"

definition get_slot :: "poll_sys \<Rightarrow> int \<Rightarrow> fd_slot" where
  "get_slot s fd = (case slots s fd of None \<Rightarrow> fd_slot0 | Some sl \<Rightarrow> sl)"

definition put_slot :: "int \<Rightarrow> fd_slot \<Rightarrow> poll_sys \<Rightarrow> poll_sys" where
  "put_slot fd sl s = s \<lparr>slots := (slots s) (fd := Some sl)\<rparr>"

definition erase_slot :: "int \<Rightarrow> poll_sys \<Rightarrow> poll_sys" where
  "erase_slot fd s = s \<lparr>slots := (slots s) (fd := None)\<rparr>"

lemmas poll_upd = upd_ev_def set_state_def set_reg_def get_slot_def put_slot_def erase_slot_def phase_def

section \<open>The fd table\<close>

definition TrackWaiter :: "nat \<Rightarrow> poll_sys \<Rightarrow> bool \<times> poll_sys" where
  "TrackWaiter i s =
     (let e = evs s i; fd = m_fd e in
      if fd < 0 \<or> \<not> m_event e then (True, s)
      else let sl = get_slot s fd in
        if closing sl \<or> epoch sl \<noteq> m_wait_epoch e then (False, put_slot fd sl s)
        else let vec = waiters sl @ [i];
                 vec' = (if 16 < length vec then filter (\<lambda>j. alive (evs s j)) vec else vec) in
          (True, if 16 < length vec \<and> vec' = [] \<and> \<not> closing sl \<and> epoch sl = 0 then erase_slot fd s
                 else put_slot fd (sl \<lparr>waiters := vec'\<rparr>) s))"

definition UntrackWaiter :: "nat \<Rightarrow> poll_sys \<Rightarrow> poll_sys" where
  "UntrackWaiter i s =
     (let fd = m_fd (evs s i) in
      if fd < 0 then s
      else case slots s fd of None \<Rightarrow> s
        | Some sl \<Rightarrow>
          (let vec = filter (\<lambda>j. j \<noteq> i \<and> alive (evs s j)) (waiters sl) in
           if vec = [] \<and> \<not> closing sl \<and> epoch sl = 0 then erase_slot fd s
           else put_slot fd (sl \<lparr>waiters := vec\<rparr>) s))"

definition FdEpoch :: "int \<Rightarrow> poll_sys \<Rightarrow> u64" where
  "FdEpoch fd s = (case slots s fd of None \<Rightarrow> 0 | Some sl \<Rightarrow> epoch sl)"

definition FdWaiterCount :: "int \<Rightarrow> poll_sys \<Rightarrow> nat" where
  "FdWaiterCount fd s = (case slots s fd of None \<Rightarrow> 0
     | Some sl \<Rightarrow> length (filter (\<lambda>j. alive (evs s j)) (waiters sl)))"

definition FdIsClosing :: "int \<Rightarrow> poll_sys \<Rightarrow> bool" where
  "FdIsClosing fd s = (case slots s fd of None \<Rightarrow> False | Some sl \<Rightarrow> closing sl)"

text \<open>The locked section of \<open>BeginFdClose\<close>; the removed waiters go to \<open>close_todo\<close>.\<close>

definition BeginFdClose :: "int \<Rightarrow> poll_sys \<Rightarrow> bool \<times> poll_sys" where
  "BeginFdClose fd s =
     (let sl = get_slot s fd in
      if closing sl then (False, s)
      else (True, (put_slot fd \<lparr>epoch = epoch sl + 1, closing = True, waiters = []\<rparr> s)
             \<lparr>close_todo := close_todo s @ filter (\<lambda>j. alive (evs s j)) (waiters sl)\<rparr>))"

definition EndFdClose :: "int \<Rightarrow> poll_sys \<Rightarrow> poll_sys" where
  "EndFdClose fd s = (case slots s fd of None \<Rightarrow> s
     | Some sl \<Rightarrow>
        if waiters sl = [] \<and> epoch sl = 0 then erase_slot fd s
        else put_slot fd (sl \<lparr>closing := False\<rparr>) s)"

text \<open>\<open>WaitFdCloseReady\<close> polls the closing mark once per millisecond; \<open>obs k\<close> is the mark at
  the k-th look (the table changes between looks).\<close>

fun WaitFdCloseReady :: "(nat \<Rightarrow> bool) \<Rightarrow> nat \<Rightarrow> nat \<Rightarrow> bool" where
  "WaitFdCloseReady closing_at k 0 = (\<not> closing_at k)"
| "WaitFdCloseReady closing_at k (Suc n) = (\<not> closing_at k \<or> WaitFdCloseReady closing_at (Suc k) n)"

section \<open>The event\<close>

definition CannelAllFdEvent :: "nat \<Rightarrow> poll_sys \<Rightarrow> poll_sys" where
  "CannelAllFdEvent i s =
     (let s' = UntrackWaiter i s in
      if m_event (evs s' i)
      then (upd_ev i (\<lambda>e. e \<lparr>m_event := False\<rparr>) s') \<lparr>deferred := deferred s' @ [i]\<rparr>
      else s')"

text \<open>\<open>_Complete\<close>: unlink the waiter, hand over the underlying event, publish \<open>FINAL\<close>, deliver
  the latched mask to the callback (the log \<open>completed\<close>).\<close>

definition Complete :: "nat \<Rightarrow> u16 \<Rightarrow> poll_sys \<Rightarrow> poll_sys" where
  "Complete i f s =
     (let s' = set_state i FINAL f (CannelAllFdEvent i s) in s' \<lparr>completed := completed s' @ [(i, f)]\<rparr>)"

definition trigger_cas :: "nat \<Rightarrow> u16 \<Rightarrow> poll_sys \<Rightarrow> int \<times> poll_sys" where
  "trigger_cas i f s =
     (if f = 0 then (-1, s)
      else if phase s i \<in> {Some INITED, Some ARMING, Some ARMED} then (0, set_state i PENDING f s)
      else if phase s i = Some PARKED then (0, set_state i TRIGGERING f s)
      else (-1, s))"

definition Trigger :: "nat \<Rightarrow> u16 \<Rightarrow> poll_sys \<Rightarrow> int \<times> poll_sys" where
  "Trigger i f s =
     (case trigger_cas i f s of (r, s') \<Rightarrow>
        if r = 0 \<and> phase s i = Some PARKED then (0, Complete i f s') else (r, s'))"

function create_loop :: "(nat \<Rightarrow> create_result) \<Rightarrow> nat \<Rightarrow> create_result" where
  "create_loop outs attempt = (case outs attempt of
       CreateThrow \<Rightarrow> if 3 \<le> attempt then CreateThrow else create_loop outs (attempt + 1)
     | r \<Rightarrow> r)"
  by pat_completeness auto
termination by (relation "measure (\<lambda>(outs, attempt). 4 - attempt)") auto

definition InitFdEvent :: "nat \<Rightarrow> int \<Rightarrow> u16 \<Rightarrow> int \<Rightarrow> (nat \<Rightarrow> create_result) \<Rightarrow> poll_sys \<Rightarrow> int \<times> poll_sys" where
  "InitFdEvent i fd events timeout outs s =
     (if phase s i \<noteq> Some INITED \<or> timeout < 0 \<or> m_event (evs s i) then (-1, s)
      else let s1 = upd_ev i (\<lambda>e. e \<lparr>m_fd := fd, m_listen_events := events, m_timeout := timeout\<rparr>) s;
               sl = get_slot s1 fd;
               s2 = (if 0 \<le> fd then put_slot fd sl (upd_ev i (\<lambda>e. e \<lparr>m_wait_epoch := epoch sl\<rparr>) s1) else s1)
           in if 0 \<le> fd \<and> closing sl then (0, snd (Trigger i POLL_EVENT_CLOSED s2))
              else case create_loop outs 0 of
                  CreateOk \<Rightarrow> (0, upd_ev i (\<lambda>e. e \<lparr>m_event := True\<rparr>) s2)
                | _ \<Rightarrow> (-1, s2))"

definition InitCustomEvent :: "nat \<Rightarrow> int \<Rightarrow> poll_sys \<Rightarrow> int \<times> poll_sys" where
  "InitCustomEvent i key s =
     (if phase s i \<noteq> Some INITED \<or> m_has_custom_event (evs s i) then (-1, s)
      else (0, upd_ev i (\<lambda>e. e \<lparr>m_has_custom_event := True, m_custom_key := key\<rparr>) s))"

text \<open>\<open>Regist\<close> in its three atomic parts. \<open>Some r\<close> returns \<open>r\<close>, \<open>None\<close> goes on.\<close>

definition regist_begin :: "nat \<Rightarrow> poll_sys \<Rightarrow> int option \<times> poll_sys" where
  "regist_begin i s =
     (if phase s i = Some PENDING then (Some 0, set_reg i RegDone s)
      else if m_state (evs s i) = PackCoPollEventState INITED 0
        then (None, set_reg i RegArming (set_state i ARMING 0 s))
      else (Some (-1), s))"

definition regist_listen :: "nat \<Rightarrow> listen_result \<Rightarrow> poll_sys \<Rightarrow> int option \<times> poll_sys" where
  "regist_listen i out s =
     (if m_event (evs s i) \<and> out \<noteq> ListenRet 0
      then let pending = (phase s i = Some PENDING);
               s1 = (if phase s i = Some ARMING then set_state i CANCELLED 0 s else s)
           in (Some (if pending then 0 else -1), set_reg i RegDone (CannelAllFdEvent i s1))
      else if m_state (evs s i) = PackCoPollEventState ARMING 0
        then (None, set_reg i RegArmed (set_state i ARMED 0 s))
      else (Some (if phase s i = Some PENDING then 0 else -1), set_reg i RegDone (CannelAllFdEvent i s)))"

definition regist_track :: "nat \<Rightarrow> poll_sys \<Rightarrow> int \<times> poll_sys" where
  "regist_track i s =
     (case TrackWaiter i s of (ok, s') \<Rightarrow>
        (0, set_reg i RegDone (if ok then s' else snd (Trigger i POLL_EVENT_CLOSED s'))))"

definition Regist :: "nat \<Rightarrow> listen_result \<Rightarrow> poll_sys \<Rightarrow> int \<times> poll_sys" where
  "Regist i out s =
     (case regist_begin i s of
        (Some r, s1) \<Rightarrow> (r, s1)
      | (None, s1) \<Rightarrow> (case regist_listen i out s1 of
            (Some r, s2) \<Rightarrow> (r, s2)
          | (None, s2) \<Rightarrow> regist_track i s2))"

definition CommitPark :: "nat \<Rightarrow> poll_sys \<Rightarrow> bool \<times> poll_sys" where
  "CommitPark i s =
     (if phase s i = Some ARMED then (False, set_state i PARKED 0 s)
      else if phase s i = Some PENDING then
        let f = GetCoPollEventFlags (m_state (evs s i)) in (True, Complete i f (set_state i TRIGGERING f s))
      else (False, s))"

definition UnRegist :: "nat \<Rightarrow> poll_sys \<Rightarrow> int \<times> poll_sys" where
  "UnRegist i s =
     (if phase s i \<in> {Some INITED, Some ARMED, Some PARKED}
        then (0, CannelAllFdEvent i (set_state i CANCELLED 0 s))
      else if phase s i = Some ARMING then (0, set_state i CANCELLED 0 s)
      else (-1, s))"

text \<open>The destructor: the last shared reference is gone, then \<open>_CannelAllFdEvent\<close>.\<close>

definition destroy_event :: "nat \<Rightarrow> poll_sys \<Rightarrow> poll_sys" where
  "destroy_event i s = CannelAllFdEvent i (upd_ev i (\<lambda>e. e \<lparr>alive := False\<rparr>) s)"

definition GetEvent :: "nat \<Rightarrow> poll_sys \<Rightarrow> u16" where
  "GetEvent i s = TransformToPollEventType (m_listen_events (evs s i)) (m_has_custom_event (evs s i))"

definition IsListening :: "nat \<Rightarrow> poll_sys \<Rightarrow> bool" where
  "IsListening i s \<longleftrightarrow> phase s i \<in> {Some ARMING, Some ARMED, Some PARKED}"

definition IsFinal :: "nat \<Rightarrow> poll_sys \<Rightarrow> bool" where
  "IsFinal i s \<longleftrightarrow> phase s i \<in> {Some FINAL, Some CANCELLED}"

definition GetStatus :: "nat \<Rightarrow> poll_sys \<Rightarrow> CoPollEventStatus" where
  "GetStatus i s = status_of_phase (phase s i)"

section \<open>The interleaved machine\<close>

datatype poll_event =
    PInitFd nat int u16 int "nat \<Rightarrow> create_result"
  | PInitCustom nat int
  | PRegBegin nat
  | PRegListen nat listen_result
  | PRegTrack nat
  | PTrigger nat u16
  | PComplete nat
  | PCommitPark nat
  | PUnRegist nat
  | PBeginClose int
  | PCloseTrigger nat
  | PEndClose int
  | PDestroy nat

text \<open>Guards are the sequencing of the code: \<open>Regist\<close> runs its parts in order, only the CAS
  winner completes, \<open>CommitPark\<close> follows \<open>Regist\<close> on the Processer, an event is destroyed only
  when neither its waiting coroutine nor a running \<open>Regist\<close>, \<open>_Complete\<close> or close holds it.\<close>

fun poll_exec :: "poll_event \<Rightarrow> poll_sys \<Rightarrow> poll_sys option" where
  "poll_exec (PInitFd i fd evm tmo outs) s =
     (if alive (evs s i) then Some (snd (InitFdEvent i fd evm tmo outs s)) else None)"
| "poll_exec (PInitCustom i key) s = (if alive (evs s i) then Some (snd (InitCustomEvent i key s)) else None)"
| "poll_exec (PRegBegin i) s =
     (if alive (evs s i) \<and> reg (evs s i) = RegNone then Some (snd (regist_begin i s)) else None)"
| "poll_exec (PRegListen i out) s =
     (if reg (evs s i) = RegArming then Some (snd (regist_listen i out s)) else None)"
| "poll_exec (PRegTrack i) s =
     (if reg (evs s i) = RegArmed then Some (snd (regist_track i s)) else None)"
| "poll_exec (PTrigger i f) s = Some (snd (trigger_cas i f s))"
| "poll_exec (PComplete i) s =
     (if phase s i = Some TRIGGERING
      then Some (Complete i (GetCoPollEventFlags (m_state (evs s i))) s) else None)"
| "poll_exec (PCommitPark i) s =
     (if reg (evs s i) = RegDone \<and> alive (evs s i) then Some (snd (CommitPark i s)) else None)"
| "poll_exec (PUnRegist i) s = Some (snd (UnRegist i s))"
| "poll_exec (PBeginClose fd) s = (if 0 \<le> fd then Some (snd (BeginFdClose fd s)) else None)"
| "poll_exec (PCloseTrigger i) s =
     (if i \<in> set (close_todo s)
      then Some ((snd (trigger_cas i POLL_EVENT_CLOSED s)) \<lparr>close_todo := remove1 i (close_todo s)\<rparr>)
      else None)"
| "poll_exec (PEndClose fd) s = Some (EndFdClose fd s)"
| "poll_exec (PDestroy i) s =
     (if alive (evs s i) \<and> i \<notin> set (close_todo s) \<and> reg (evs s i) \<in> {RegNone, RegDone} \<and>
         phase s i \<notin> {Some ARMING, Some ARMED, Some PARKED, Some TRIGGERING}
      then Some (destroy_event i s) else None)"

section \<open>Effects of the operations\<close>

text \<open>A missing slot and a default slot are the same to every operation, so effects are stated
  on \<open>get_slot\<close>.\<close>

lemma slot_eq_default: "waiters sl = [] \<Longrightarrow> \<not> closing sl \<Longrightarrow> epoch sl = 0 \<Longrightarrow> sl = fd_slot0"
  by (cases sl) (simp add: fd_slot0_def)

lemma get_slot_put [simp]: "get_slot (put_slot fd sl s) fd' = (if fd' = fd then sl else get_slot s fd')"
  and get_slot_erase [simp]: "get_slot (erase_slot fd s) fd' = (if fd' = fd then fd_slot0 else get_slot s fd')"
  and get_slot_upd_ev [simp]: "get_slot (upd_ev i g s) fd = get_slot s fd"
  and get_slot_todo [simp]: "get_slot (s \<lparr>close_todo := t\<rparr>) fd = get_slot s fd"
  and get_slot_deferred [simp]: "get_slot (s \<lparr>deferred := t\<rparr>) fd = get_slot s fd"
  and get_slot_completed [simp]: "get_slot (s \<lparr>completed := t'\<rparr>) fd = get_slot s fd"
  by (simp_all add: poll_upd)

lemma evs_put [simp]: "evs (put_slot fd sl s) = evs s" "evs (erase_slot fd s) = evs s"
  and todo_put [simp]: "close_todo (put_slot fd sl s) = close_todo s" "close_todo (erase_slot fd s) = close_todo s"
  and completed_put [simp]: "completed (put_slot fd sl s) = completed s" "completed (erase_slot fd s) = completed s"
  by (simp_all add: poll_upd)

lemma upd_ev_sel [simp]: "evs (upd_ev i g s) = (evs s) (i := g (evs s i))"
  "close_todo (upd_ev i g s) = close_todo s" "completed (upd_ev i g s) = completed s"
  by (simp_all add: upd_ev_def)

lemma FdEpoch_slot: "FdEpoch fd s = epoch (get_slot s fd)"
  and FdIsClosing_slot: "FdIsClosing fd s = closing (get_slot s fd)"
  by (simp_all add: FdEpoch_def FdIsClosing_def get_slot_def fd_slot0_def split: option.splits)

lemma Untrack_sel [simp]: "evs (UntrackWaiter i s) = evs s" "close_todo (UntrackWaiter i s) = close_todo s"
  "completed (UntrackWaiter i s) = completed s"
  by (auto simp: UntrackWaiter_def Let_def split: option.splits)

lemma Untrack_slot [simp]: "get_slot (UntrackWaiter i s) fd =
   (if fd = m_fd (evs s i) \<and> 0 \<le> fd
    then (get_slot s fd) \<lparr>waiters := filter (\<lambda>j. j \<noteq> i \<and> alive (evs s j)) (waiters (get_slot s fd))\<rparr>
    else get_slot s fd)"
proof (cases "slots s (m_fd (evs s i))")
  case None
  then show ?thesis by (auto simp: UntrackWaiter_def Let_def get_slot_def fd_slot0_def)
next
  case (Some sl)
  then have g: "get_slot s (m_fd (evs s i)) = sl" by (simp add: get_slot_def)
  show ?thesis
    using Some g by (auto simp: UntrackWaiter_def Let_def intro!: slot_eq_default [symmetric])
qed

lemma Cannel_sel [simp]: "evs (CannelAllFdEvent i s) = (evs s) (i := (evs s i) \<lparr>m_event := False\<rparr>)"
  "close_todo (CannelAllFdEvent i s) = close_todo s" "completed (CannelAllFdEvent i s) = completed s"
  "get_slot (CannelAllFdEvent i s) fd = get_slot (UntrackWaiter i s) fd"
proof -
  have "\<not> m_event (evs s i) \<Longrightarrow> evs s = (evs s) (i := (evs s i) \<lparr>m_event := False\<rparr>)"
    by (rule ext) simp
  then show "evs (CannelAllFdEvent i s) = (evs s) (i := (evs s i) \<lparr>m_event := False\<rparr>)"
    by (auto simp: CannelAllFdEvent_def Let_def)
qed (simp_all add: CannelAllFdEvent_def Let_def)

lemma Track_sel [simp]: "evs (snd (TrackWaiter i s)) = evs s"
  "close_todo (snd (TrackWaiter i s)) = close_todo s" "completed (snd (TrackWaiter i s)) = completed s"
  by (auto simp: TrackWaiter_def Let_def)

definition track_admits :: "nat \<Rightarrow> poll_sys \<Rightarrow> bool" where
  "track_admits i s \<longleftrightarrow> \<not> closing (get_slot s (m_fd (evs s i))) \<and>
     epoch (get_slot s (m_fd (evs s i))) = m_wait_epoch (evs s i)"

lemma Track_fst: "fst (TrackWaiter i s) \<longleftrightarrow>
   m_fd (evs s i) < 0 \<or> \<not> m_event (evs s i) \<or> track_admits i s"
  by (auto simp: TrackWaiter_def Let_def track_admits_def)

lemma Track_slot: "fd \<noteq> m_fd (evs s i) \<Longrightarrow> get_slot (snd (TrackWaiter i s)) fd = get_slot s fd"
  "epoch (get_slot (snd (TrackWaiter i s)) fd) = epoch (get_slot s fd)"
  "closing (get_slot (snd (TrackWaiter i s)) fd) = closing (get_slot s fd)"
  by (auto simp: TrackWaiter_def Let_def fd_slot0_def)

lemma Track_waiters:
  "set (waiters (get_slot (snd (TrackWaiter i s)) fd)) \<subseteq> set (waiters (get_slot s fd)) \<union>
     (if fd = m_fd (evs s i) \<and> 0 \<le> fd \<and> m_event (evs s i) \<and> track_admits i s then {i} else {})"
  by (auto simp: TrackWaiter_def Let_def track_admits_def fd_slot0_def split: if_splits)

lemma Track_keeps: "j \<in> set (waiters (get_slot s fd)) \<Longrightarrow> alive (evs s j) \<Longrightarrow>
   j \<in> set (waiters (get_slot (snd (TrackWaiter i s)) fd))"
  by (auto simp: TrackWaiter_def Let_def filter_empty_conv)

lemma Track_adds: "0 \<le> m_fd (evs s i) \<Longrightarrow> m_event (evs s i) \<Longrightarrow> track_admits i s \<Longrightarrow> alive (evs s i) \<Longrightarrow>
   i \<in> set (waiters (get_slot (snd (TrackWaiter i s)) (m_fd (evs s i))))"
  by (auto simp: TrackWaiter_def Let_def track_admits_def filter_empty_conv)

section \<open>Invariant\<close>

text \<open>One event: mask and phase agree, the registration counter follows the phase, an event
  somebody waits on is alive.\<close>

definition ev_ok :: "co_event \<Rightarrow> bool" where
  "ev_ok e \<longleftrightarrow> (case GetCoPollEventPhase (m_state e) of None \<Rightarrow> False
     | Some p \<Rightarrow> m_state e = PackCoPollEventState p (GetCoPollEventFlags (m_state e)) \<and>
        (p \<in> {PENDING, TRIGGERING, FINAL} \<longleftrightarrow> GetCoPollEventFlags (m_state e) \<noteq> 0) \<and>
        (p \<in> {ARMING, ARMED, PARKED, TRIGGERING} \<longrightarrow> alive e) \<and>
        (reg e \<in> {RegArming, RegArmed} \<longrightarrow> alive e) \<and>
        (p = INITED \<longrightarrow> reg e = RegNone) \<and>
        (p = ARMING \<longrightarrow> reg e = RegArming) \<and>
        (p = ARMED \<longrightarrow> reg e \<in> {RegArmed, RegDone}) \<and>
        (p = PARKED \<longrightarrow> reg e = RegDone))"

definition ev_inv :: "poll_sys \<Rightarrow> bool" where
  "ev_inv s \<longleftrightarrow> (\<forall>i. ev_ok (evs s i))"

definition log_inv :: "poll_sys \<Rightarrow> bool" where
  "log_inv s \<longleftrightarrow> distinct (map fst (completed s)) \<and>
     (\<forall>i f. (i, f) \<in> set (completed s) \<longleftrightarrow> m_state (evs s i) = PackCoPollEventState FINAL f)"

text \<open>The table: a tracked waiter belongs to the current generation of its descriptor, and
  nobody is tracked while the descriptor is closing.\<close>

definition slot_inv :: "poll_sys \<Rightarrow> bool" where
  "slot_inv s \<longleftrightarrow> (\<forall>fd. \<forall>j\<in>set (waiters (get_slot s fd)).
     0 \<le> fd \<and> m_fd (evs s j) = fd \<and> m_wait_epoch (evs s j) = epoch (get_slot s fd) \<and>
     \<not> closing (get_slot s fd) \<and> reg (evs s j) = RegDone \<and> phase s j \<noteq> Some INITED)"

text \<open>No waiter is forgotten: a registered fd wait is in the table, or the close that removed it
  still has its trigger to deliver.\<close>

definition waits_on_fd :: "poll_sys \<Rightarrow> nat \<Rightarrow> bool" where
  "waits_on_fd s i \<longleftrightarrow> phase s i \<in> {Some ARMED, Some PARKED} \<and> reg (evs s i) = RegDone \<and>
     0 \<le> m_fd (evs s i) \<and> m_event (evs s i)"

definition track_inv :: "poll_sys \<Rightarrow> bool" where
  "track_inv s \<longleftrightarrow> (\<forall>i. waits_on_fd s i \<longrightarrow>
     i \<in> set (waiters (get_slot s (m_fd (evs s i)))) \<or> i \<in> set (close_todo s))"

definition poll_inv :: "poll_sys \<Rightarrow> bool" where
  "poll_inv s \<longleftrightarrow> ev_inv s \<and> log_inv s \<and> slot_inv s \<and> track_inv s"

subsection \<open>Single events\<close>

definition ev_agree :: "CoPollEventPhase \<Rightarrow> u16 \<Rightarrow> co_event \<Rightarrow> bool" where
  "ev_agree p f e \<longleftrightarrow> (p \<in> {PENDING, TRIGGERING, FINAL} \<longleftrightarrow> f \<noteq> 0) \<and>
     (p \<in> {ARMING, ARMED, PARKED, TRIGGERING} \<longrightarrow> alive e) \<and>
     (reg e \<in> {RegArming, RegArmed} \<longrightarrow> alive e) \<and>
     (p = INITED \<longrightarrow> reg e = RegNone) \<and> (p = ARMING \<longrightarrow> reg e = RegArming) \<and>
     (p = ARMED \<longrightarrow> reg e \<in> {RegArmed, RegDone}) \<and> (p = PARKED \<longrightarrow> reg e = RegDone)"

lemma ev_ok_pack: "m_state e = PackCoPollEventState p f \<Longrightarrow> ev_ok e \<longleftrightarrow> ev_agree p f e"
  by (simp add: ev_ok_def ev_agree_def)

lemma ev_ok_set [simp]: "ev_ok (e \<lparr>m_state := PackCoPollEventState p f\<rparr>) \<longleftrightarrow> ev_agree p f e"
  by (simp add: ev_ok_pack ev_agree_def)

lemma ev_okE:
  assumes "ev_ok e"
  obtains p f where "m_state e = PackCoPollEventState p f" "ev_agree p f e"
proof -
  from assms obtain p where "GetCoPollEventPhase (m_state e) = Some p"
    "m_state e = PackCoPollEventState p (GetCoPollEventFlags (m_state e))"
    by (auto simp: ev_ok_def split: option.splits)
  with assms that show ?thesis using ev_ok_pack by blast
qed

lemma ev_inv_upd: "ev_inv s \<Longrightarrow> evs s' = (evs s) (i := e) \<Longrightarrow> ev_ok e \<Longrightarrow> ev_inv s'"
  by (simp add: ev_inv_def)

lemma ev_invD: "ev_inv s \<Longrightarrow> ev_ok (evs s i)"
  by (simp add: ev_inv_def)

lemma phase_pack: "m_state (evs s i) = PackCoPollEventState p f \<Longrightarrow> phase s i = Some p"
  by (simp add: phase_def)

lemma set_state_sel [simp]:
  "evs (set_state i p f s) = (evs s) (i := (evs s i) \<lparr>m_state := PackCoPollEventState p f\<rparr>)"
  "close_todo (set_state i p f s) = close_todo s" "completed (set_state i p f s) = completed s"
  "get_slot (set_state i p f s) fd = get_slot s fd"
  by (simp_all add: set_state_def)

lemma set_reg_sel [simp]:
  "evs (set_reg i r s) = (evs s) (i := (evs s i) \<lparr>reg := r\<rparr>)"
  "close_todo (set_reg i r s) = close_todo s" "completed (set_reg i r s) = completed s"
  "get_slot (set_reg i r s) fd = get_slot s fd"
  by (simp_all add: set_reg_def)

lemma Complete_sel [simp]:
  "evs (Complete i f s) = (evs s) (i := (evs s i) \<lparr>m_event := False, m_state := PackCoPollEventState FINAL f\<rparr>)"
  "close_todo (Complete i f s) = close_todo s" "completed (Complete i f s) = completed s @ [(i, f)]"
  "get_slot (Complete i f s) fd = get_slot (UntrackWaiter i s) fd"
  by (simp_all add: Complete_def Let_def)

text \<open>How the first-win CAS changes the word of the event.\<close>

lemma trigger_cas_cases:
  obtains "trigger_cas i f s = (-1, s)" "f = 0 \<or> phase s i \<notin> {Some INITED, Some ARMING, Some ARMED, Some PARKED}"
  | "f \<noteq> 0" "phase s i \<in> {Some INITED, Some ARMING, Some ARMED}" "trigger_cas i f s = (0, set_state i PENDING f s)"
  | "f \<noteq> 0" "phase s i = Some PARKED" "trigger_cas i f s = (0, set_state i TRIGGERING f s)"
proof -
  show thesis
    by (cases "f = 0"; cases "phase s i \<in> {Some INITED, Some ARMING, Some ARMED}"; cases "phase s i = Some PARKED")
      (use that in \<open>auto simp: trigger_cas_def\<close>)
qed

lemma closed_neq_0 [simp]: "POLL_EVENT_CLOSED \<noteq> 0"
  by (simp add: poll_bits)

subsection \<open>Frame lemmas for the four parts\<close>

lemma log_inv_frame:
  assumes "log_inv s" "completed s' = completed s"
    "\<And>j f. m_state (evs s' j) = PackCoPollEventState FINAL f \<longleftrightarrow> m_state (evs s j) = PackCoPollEventState FINAL f"
  shows "log_inv s'"
  using assms by (simp add: log_inv_def)

lemma slot_inv_frame:
  assumes "slot_inv s"
    "\<And>fd. set (waiters (get_slot s' fd)) \<subseteq> set (waiters (get_slot s fd))"
    "\<And>fd. waiters (get_slot s' fd) \<noteq> [] \<Longrightarrow> epoch (get_slot s' fd) = epoch (get_slot s fd) \<and> closing (get_slot s' fd) = closing (get_slot s fd)"
    "\<And>j. reg (evs s j) = RegDone \<Longrightarrow> phase s j \<noteq> Some INITED \<Longrightarrow> m_fd (evs s' j) = m_fd (evs s j) \<and> m_wait_epoch (evs s' j) = m_wait_epoch (evs s j)
        \<and> reg (evs s' j) = RegDone \<and> phase s' j \<noteq> Some INITED"
  shows "slot_inv s'"
proof -
  have "0 \<le> fd \<and> m_fd (evs s' j) = fd \<and> m_wait_epoch (evs s' j) = epoch (get_slot s' fd) \<and>
     \<not> closing (get_slot s' fd) \<and> reg (evs s' j) = RegDone \<and> phase s' j \<noteq> Some INITED"
    if j: "j \<in> set (waiters (get_slot s' fd))" for fd j
  proof -
    from j assms(2) have j': "j \<in> set (waiters (get_slot s fd))" by blast
    from j have "waiters (get_slot s' fd) \<noteq> []" by auto
    with assms(3) have "epoch (get_slot s' fd) = epoch (get_slot s fd)" "closing (get_slot s' fd) = closing (get_slot s fd)" by auto
    with j' assms(1) assms(4) [of j] show ?thesis by (auto simp: slot_inv_def)
  qed
  then show ?thesis by (simp add: slot_inv_def)
qed

lemma track_inv_frame:
  assumes "track_inv s" "ev_inv s"
    "\<And>j. waits_on_fd s' j \<Longrightarrow> j \<noteq> k \<Longrightarrow> waits_on_fd s j \<and> m_fd (evs s' j) = m_fd (evs s j)"
    "\<And>j fd. j \<noteq> k \<Longrightarrow> waits_on_fd s' j \<Longrightarrow> j \<in> set (waiters (get_slot s fd)) \<Longrightarrow> alive (evs s j) \<Longrightarrow>
       j \<in> set (waiters (get_slot s' fd)) \<or> j \<in> set (close_todo s')"
    "\<And>j. j \<noteq> k \<Longrightarrow> waits_on_fd s' j \<Longrightarrow> j \<in> set (close_todo s) \<Longrightarrow> j \<in> set (close_todo s')"
    "waits_on_fd s' k \<Longrightarrow> k \<in> set (waiters (get_slot s' (m_fd (evs s' k)))) \<or> k \<in> set (close_todo s')"
  shows "track_inv s'"
proof -
  have "i \<in> set (waiters (get_slot s' (m_fd (evs s' i)))) \<or> i \<in> set (close_todo s')" if w: "waits_on_fd s' i" for i
  proof (cases "i = k")
    case True
    then show ?thesis using assms(6) w by simp
  next
    case False
    from assms(3) [OF w False] have w': "waits_on_fd s i" "m_fd (evs s' i) = m_fd (evs s i)" by auto
    have al: "alive (evs s i)"
      using w'(1) ev_invD [OF assms(2), of i]
      by (auto simp: waits_on_fd_def phase_def elim!: ev_okE simp: ev_agree_def)
    from assms(1) w'(1) have "i \<in> set (waiters (get_slot s (m_fd (evs s i)))) \<or> i \<in> set (close_todo s)"
      by (simp add: track_inv_def)
    then show ?thesis using assms(4) [OF False w _ al] assms(5) [OF False w] w'(2) by auto
  qed
  then show ?thesis by (simp add: track_inv_def)
qed

text \<open>A step that rewrites one event and leaves the table alone.\<close>

definition ev_step :: "co_event \<Rightarrow> co_event \<Rightarrow> bool" where
  "ev_step e e' \<longleftrightarrow> m_fd e' = m_fd e \<and> m_wait_epoch e' = m_wait_epoch e \<and> (m_event e' \<longrightarrow> m_event e) \<and>
     (reg e = RegDone \<longrightarrow> reg e' = RegDone) \<and>
     (GetCoPollEventPhase (m_state e) \<noteq> Some INITED \<longrightarrow> GetCoPollEventPhase (m_state e') \<noteq> Some INITED) \<and>
     (\<forall>f. m_state e' = PackCoPollEventState FINAL f \<longleftrightarrow> m_state e = PackCoPollEventState FINAL f)"

lemma poll_inv_event:
  assumes inv: "poll_inv s" and evs: "evs s' = (evs s) (i := e)" and ok: "ev_ok e" and st: "ev_step (evs s i) e"
    and sl: "\<And>fd. get_slot s' fd = get_slot s fd" and cl: "completed s' = completed s"
    and td: "set (close_todo s) \<subseteq> set (close_todo s') \<union> {i}"
    and wt: "waits_on_fd s' i \<Longrightarrow> waits_on_fd s i \<and> i \<in> set (close_todo s') \<union> (- set (close_todo s))"
  shows "poll_inv s'"
proof -
  have ph: "phase s' j = (if j = i then GetCoPollEventPhase (m_state e) else phase s j)" for j
    by (simp add: phase_def evs)
  have w: "waits_on_fd s' j = waits_on_fd s j" if "j \<noteq> i" for j
    using that by (simp add: waits_on_fd_def ph evs)
  have "ev_inv s'" using inv evs ok by (auto simp: poll_inv_def intro: ev_inv_upd)
  moreover have "log_inv s'"
    by (rule log_inv_frame [of s]) (use inv st cl in \<open>auto simp: poll_inv_def evs ev_step_def\<close>)
  moreover have "slot_inv s'"
  proof (rule slot_inv_frame [of s])
    fix j
    assume "reg (evs s j) = RegDone" "phase s j \<noteq> Some INITED"
    with st show "m_fd (evs s' j) = m_fd (evs s j) \<and> m_wait_epoch (evs s' j) = m_wait_epoch (evs s j) \<and>
        reg (evs s' j) = RegDone \<and> phase s' j \<noteq> Some INITED"
      by (cases "j = i") (simp_all add: evs ev_step_def phase_def)
  qed (use inv in \<open>simp_all add: poll_inv_def sl\<close>)
  moreover have "track_inv s'"
  proof (rule track_inv_frame [of s _ i])
    assume "waits_on_fd s' i"
    with wt inv have "i \<in> set (waiters (get_slot s (m_fd (evs s i)))) \<or> i \<in> set (close_todo s')"
      by (auto simp: poll_inv_def track_inv_def)
    then show "i \<in> set (waiters (get_slot s' (m_fd (evs s' i)))) \<or> i \<in> set (close_todo s')"
      using st by (simp add: sl evs ev_step_def)
  qed (use inv w td in \<open>auto simp: poll_inv_def sl evs\<close>)
  ultimately show ?thesis by (simp add: poll_inv_def)
qed

text \<open>\<open>_CannelAllFdEvent\<close> on an event whose word has just left the waiting phases.\<close>

lemma poll_inv_cannel:
  assumes inv: "poll_inv s" and nw: "phase s i \<notin> {Some ARMED, Some PARKED}"
  shows "poll_inv (CannelAllFdEvent i s)"
proof -
  let ?s = "CannelAllFdEvent i s"
  have ph: "phase ?s j = phase s j" for j by (simp add: phase_def)
  have "ev_ok ((evs s i) \<lparr>m_event := False\<rparr>)"
  proof (rule ev_okE)
    show "ev_ok (evs s i)" using inv by (simp add: poll_inv_def ev_inv_def)
    fix p f
    assume "m_state (evs s i) = PackCoPollEventState p f" "ev_agree p f (evs s i)"
    then show ?thesis by (subst ev_ok_pack [of _ p f]) (simp_all add: ev_agree_def)
  qed
  then have "ev_inv ?s" using inv by (auto simp: poll_inv_def intro: ev_inv_upd)
  moreover have "log_inv ?s" by (rule log_inv_frame [of s]) (use inv in \<open>auto simp: poll_inv_def\<close>)
  moreover have "slot_inv ?s"
    by (rule slot_inv_frame [of s]) (use inv in \<open>auto simp: poll_inv_def ph\<close>)
  moreover have "track_inv ?s"
    by (rule track_inv_frame [of s _ i]) (use inv nw in \<open>auto simp: poll_inv_def waits_on_fd_def ph\<close>)
  ultimately show ?thesis by (simp add: poll_inv_def)
qed

subsection \<open>Preservation by each step\<close>

lemma ev_invE:
  assumes "poll_inv s"
  obtains p f where "m_state (evs s i) = PackCoPollEventState p f" "ev_agree p f (evs s i)" "phase s i = Some p"
proof -
  have "ev_ok (evs s i)" using assms by (simp add: poll_inv_def ev_inv_def)
  then show ?thesis by (rule ev_okE) (use that phase_pack in blast)
qed

lemma inv_set_word:
  assumes inv: "poll_inv s" and ag: "ev_agree p' f (evs s i)"
    and p': "p' \<notin> {INITED, FINAL, ARMED, PARKED}" and ph: "phase s i \<noteq> Some FINAL"
  shows "poll_inv (set_state i p' f s)"
proof (rule poll_inv_event [OF inv set_state_sel(1)])
  show "ev_ok ((evs s i) \<lparr>m_state := PackCoPollEventState p' f\<rparr>)" using ag by simp
  show "ev_step (evs s i) ((evs s i) \<lparr>m_state := PackCoPollEventState p' f\<rparr>)"
    using p' ph by (auto simp: ev_step_def phase_def)
qed (use p' in \<open>auto simp: waits_on_fd_def phase_def\<close>)

lemma inv_trigger_cas: "poll_inv s \<Longrightarrow> poll_inv (snd (trigger_cas i f s))"
proof -
  assume inv: "poll_inv s"
  then obtain p g where w: "m_state (evs s i) = PackCoPollEventState p g" "ev_agree p g (evs s i)" "phase s i = Some p"
    by (rule ev_invE)
  show ?thesis
  proof (rule trigger_cas_cases [of i f s])
    assume a: "f \<noteq> 0" "phase s i \<in> {Some INITED, Some ARMING, Some ARMED}" "trigger_cas i f s = (0, set_state i PENDING f s)"
    then have "poll_inv (set_state i PENDING f s)"
      using w by (intro inv_set_word [OF inv]) (auto simp: ev_agree_def)
    with a show ?thesis by simp
  next
    assume a: "f \<noteq> 0" "phase s i = Some PARKED" "trigger_cas i f s = (0, set_state i TRIGGERING f s)"
    then have "poll_inv (set_state i TRIGGERING f s)"
      using w by (intro inv_set_word [OF inv]) (auto simp: ev_agree_def)
    with a show ?thesis by simp
  qed (use inv in auto)
qed

text \<open>Completing: unlink, then publish \<open>FINAL\<close> and log the delivered mask.\<close>

lemma inv_Complete:
  assumes inv: "poll_inv s" and st: "m_state (evs s i) = PackCoPollEventState TRIGGERING f"
  shows "poll_inv (Complete i f s)"
proof -
  let ?s = "Complete i f s"
  have ph: "phase ?s j = (if j = i then Some FINAL else phase s j)" for j by (simp add: phase_def)
  have c: "poll_inv (CannelAllFdEvent i s)"
    using inv st by (intro poll_inv_cannel) (auto simp: phase_def)
  have "ev_ok (evs s i)" using inv by (simp add: poll_inv_def ev_inv_def)
  then have ag: "ev_agree TRIGGERING f (evs s i)" using st ev_ok_pack by blast
  have "ev_inv ?s"
    by (rule ev_inv_upd [OF _ Complete_sel(1)]) (use inv ag in \<open>auto simp: poll_inv_def ev_agree_def\<close>)
  moreover have "log_inv ?s"
    using inv st by (auto simp: poll_inv_def log_inv_def)
  moreover have "slot_inv ?s"
    by (rule slot_inv_frame [of "CannelAllFdEvent i s"]) (use c in \<open>auto simp: poll_inv_def ph phase_def\<close>)
  moreover have "track_inv ?s"
    by (rule track_inv_frame [of "CannelAllFdEvent i s" _ i])
      (use c in \<open>auto simp: poll_inv_def waits_on_fd_def ph phase_def\<close>)
  ultimately show ?thesis by (simp add: poll_inv_def)
qed

lemma inv_CommitPark:
  assumes inv: "poll_inv s" and rg: "reg (evs s i) = RegDone" "alive (evs s i)"
  shows "poll_inv (snd (CommitPark i s))"
proof -
  obtain p g where w: "m_state (evs s i) = PackCoPollEventState p g" "ev_agree p g (evs s i)" "phase s i = Some p"
    using inv by (rule ev_invE)
  show ?thesis
  proof (cases p)
    case ARMED
    have "poll_inv (set_state i PARKED 0 s)"
    proof (rule poll_inv_event [OF inv set_state_sel(1)])
      show "ev_ok ((evs s i) \<lparr>m_state := PackCoPollEventState PARKED 0\<rparr>)" using rg by (auto simp: ev_agree_def)
      show "ev_step (evs s i) ((evs s i) \<lparr>m_state := PackCoPollEventState PARKED 0\<rparr>)"
        using w ARMED by (auto simp: ev_step_def)
    qed (use w ARMED in \<open>auto simp: waits_on_fd_def phase_def\<close>)
    then show ?thesis using w ARMED by (simp add: CommitPark_def)
  next
    case PENDING
    have "poll_inv (set_state i TRIGGERING g s)"
      using w PENDING rg by (intro inv_set_word [OF inv]) (auto simp: ev_agree_def)
    then have "poll_inv (Complete i g (set_state i TRIGGERING g s))" by (rule inv_Complete) simp
    then show ?thesis using w PENDING by (simp add: CommitPark_def Let_def)
  qed (use inv w in \<open>simp_all add: CommitPark_def\<close>)
qed

lemma inv_UnRegist: "poll_inv s \<Longrightarrow> poll_inv (snd (UnRegist i s))"
proof -
  assume inv: "poll_inv s"
  obtain p g where w: "m_state (evs s i) = PackCoPollEventState p g" "ev_agree p g (evs s i)" "phase s i = Some p"
    using inv by (rule ev_invE)
  have "poll_inv (set_state i CANCELLED 0 s)" if "p \<in> {INITED, ARMING, ARMED, PARKED}"
    using that w by (intro inv_set_word [OF inv]) (auto simp: ev_agree_def)
  moreover from this have "poll_inv (CannelAllFdEvent i (set_state i CANCELLED 0 s))" if "p \<in> {INITED, ARMING, ARMED, PARKED}"
    using that by (intro poll_inv_cannel) (auto simp: phase_def)
  ultimately show ?thesis using inv w by (auto simp: UnRegist_def)
qed

text \<open>Setting up an event that nobody has registered yet.\<close>

lemma inv_setup:
  assumes inv: "poll_inv s" and ini: "phase s i = Some INITED" and evs: "evs s' = (evs s) (i := e)"
    and e: "m_state e = m_state (evs s i)" "reg e = reg (evs s i)" "alive e = alive (evs s i)"
    and sl: "\<And>fd. get_slot s' fd = get_slot s fd" and cl: "completed s' = completed s" "close_todo s' = close_todo s"
  shows "poll_inv s'"
proof -
  have ph: "phase s' j = phase s j" for j by (simp add: phase_def evs e)
  have ni: "i \<notin> set (waiters (get_slot s fd))" for fd using inv ini by (auto simp: poll_inv_def slot_inv_def)
  have "ev_ok e"
  proof (rule ev_invE [OF inv])
    fix p f assume "m_state (evs s i) = PackCoPollEventState p f" "ev_agree p f (evs s i)"
    then show ?thesis using e by (subst ev_ok_pack [of _ p f]) (auto simp: ev_agree_def)
  qed
  then have "ev_inv s'" using inv evs by (auto simp: poll_inv_def intro: ev_inv_upd)
  moreover have "log_inv s'"
    by (rule log_inv_frame [of s]) (use inv cl in \<open>auto simp: poll_inv_def evs e\<close>)
  moreover have "slot_inv s'"
    using inv ni by (auto simp: poll_inv_def slot_inv_def sl ph evs)
  moreover have "track_inv s'"
    by (rule track_inv_frame [of s _ i]) (use inv ini cl in \<open>auto simp: poll_inv_def waits_on_fd_def ph sl evs\<close>)
  ultimately show ?thesis by (simp add: poll_inv_def)
qed

lemma Trigger_unparked: "phase s i \<noteq> Some PARKED \<Longrightarrow> Trigger i f s = trigger_cas i f s"
  by (auto simp: Trigger_def split: prod.splits)

lemma inv_InitFdEvent:
  assumes inv: "poll_inv s" shows "poll_inv (snd (InitFdEvent i fd evm tmo outs s))"
proof (cases "phase s i \<noteq> Some INITED \<or> tmo < 0 \<or> m_event (evs s i)")
  case True
  then show ?thesis using inv by (simp add: InitFdEvent_def)
next
  case False
  define s1 where "s1 = upd_ev i (\<lambda>e. e \<lparr>m_fd := fd, m_listen_events := evm, m_timeout := tmo\<rparr>) s"
  define s2 where "s2 = (if 0 \<le> fd then put_slot fd (get_slot s1 fd)
      (upd_ev i (\<lambda>e. e \<lparr>m_wait_epoch := epoch (get_slot s1 fd)\<rparr>) s1) else s1)"
  have s1: "poll_inv s1" unfolding s1_def
    by (rule inv_setup [OF inv _ upd_ev_sel(1)]) (use False in auto)
  have p1: "phase s1 i = Some INITED" using False by (simp add: s1_def phase_def)
  have u: "poll_inv (upd_ev i (\<lambda>e. e \<lparr>m_wait_epoch := epoch (get_slot s1 fd)\<rparr>) s1)"
    by (rule inv_setup [OF s1 p1 upd_ev_sel(1)]) auto
  have "poll_inv (put_slot fd (get_slot s1 fd) (upd_ev i (\<lambda>e. e \<lparr>m_wait_epoch := epoch (get_slot s1 fd)\<rparr>) s1))"
    by (rule inv_setup [OF u, where i = i and e = "evs (upd_ev i (\<lambda>e. e \<lparr>m_wait_epoch := epoch (get_slot s1 fd)\<rparr>) s1) i"])
      (use p1 in \<open>simp_all add: phase_def\<close>)
  with s1 have s2: "poll_inv s2" by (simp add: s2_def)
  have p2: "phase s2 i = Some INITED" using p1 by (simp add: s2_def phase_def)
  have e: "poll_inv (upd_ev i (\<lambda>e. e \<lparr>m_event := True\<rparr>) s2)"
    by (rule inv_setup [OF s2 p2 upd_ev_sel(1)]) auto
  have t: "poll_inv (snd (Trigger i POLL_EVENT_CLOSED s2))"
    using inv_trigger_cas [OF s2] p2 by (simp add: Trigger_unparked)
  show ?thesis
    using False s2 e t unfolding InitFdEvent_def Let_def s1_def [symmetric] s2_def [symmetric]
    by (auto split: create_result.splits)
qed

lemma inv_InitCustomEvent: "poll_inv s \<Longrightarrow> poll_inv (snd (InitCustomEvent i key s))"
  by (auto simp: InitCustomEvent_def intro: inv_setup [OF _ _ upd_ev_sel(1)])

text \<open>The program counter of \<open>Regist\<close> moves to its end outside the waiting phases.\<close>

lemma inv_reg_done:
  assumes inv: "poll_inv s" and ph: "phase s i \<notin> {Some INITED, Some ARMING, Some ARMED}"
  shows "poll_inv (set_reg i RegDone s)"
proof -
  obtain p g where w: "m_state (evs s i) = PackCoPollEventState p g" "ev_agree p g (evs s i)" "phase s i = Some p"
    using inv by (rule ev_invE)
  show ?thesis
  proof (rule poll_inv_event [OF inv set_reg_sel(1)])
    show "ev_ok ((evs s i) \<lparr>reg := RegDone\<rparr>)"
      using w ph by (subst ev_ok_pack [of _ p g]) (auto simp: ev_agree_def)
  qed (use w ph in \<open>auto simp: ev_step_def waits_on_fd_def phase_def ev_agree_def\<close>)
qed

lemma inv_regist_begin:
  assumes inv: "poll_inv s" and rg: "reg (evs s i) = RegNone" "alive (evs s i)"
  shows "poll_inv (snd (regist_begin i s))"
proof -
  let ?e = "(evs s i) \<lparr>m_state := PackCoPollEventState ARMING 0, reg := RegArming\<rparr>"
  have "poll_inv (set_reg i RegArming (set_state i ARMING 0 s))" if "m_state (evs s i) = PackCoPollEventState INITED 0"
  proof (rule poll_inv_event [OF inv, where i = i and e = ?e])
    show "ev_ok ?e" using rg by (subst ev_ok_pack [of _ ARMING 0]) (auto simp: ev_agree_def)
  qed (use that rg in \<open>auto simp: ev_step_def waits_on_fd_def phase_def\<close>)
  then show ?thesis using inv inv_reg_done [OF inv] by (auto simp: regist_begin_def)
qed

lemma inv_regist_listen:
  assumes inv: "poll_inv s" and rg: "reg (evs s i) = RegArming"
  shows "poll_inv (snd (regist_listen i out s))"
proof -
  obtain p g where w: "m_state (evs s i) = PackCoPollEventState p g" "ev_agree p g (evs s i)" "phase s i = Some p"
    using inv by (rule ev_invE)
  let ?e = "(evs s i) \<lparr>m_state := PackCoPollEventState ARMED 0, reg := RegArmed\<rparr>"
  have al: "alive (evs s i)" and np: "p \<notin> {INITED, ARMED, PARKED}" using w rg by (auto simp: ev_agree_def)
  have arm: "poll_inv (set_reg i RegArmed (set_state i ARMED 0 s))" if "p = ARMING"
  proof (rule poll_inv_event [OF inv, where i = i and e = ?e])
    show "ev_ok ?e" using al by (subst ev_ok_pack [of _ ARMED 0]) (auto simp: ev_agree_def)
  qed (use that w rg in \<open>auto simp: ev_step_def waits_on_fd_def phase_def\<close>)
  have can: "poll_inv (set_state i CANCELLED 0 s)" if "p = ARMING"
    using that w by (intro inv_set_word [OF inv]) (auto simp: ev_agree_def)
  have fin: "poll_inv (set_reg i RegDone (CannelAllFdEvent i t))"
    if "poll_inv t" "phase t i \<notin> {Some INITED, Some ARMING, Some ARMED, Some PARKED}" for t
    using that by (intro inv_reg_done poll_inv_cannel) (auto simp: phase_def)
  have fin1: "poll_inv (set_reg i RegDone (CannelAllFdEvent i (set_state i CANCELLED 0 s)))" if "p = ARMING"
    by (rule fin [OF can [OF that]]) (simp add: phase_def)
  have fin2: "poll_inv (set_reg i RegDone (CannelAllFdEvent i s))" if "p \<noteq> ARMING"
    by (rule fin [OF inv]) (use that w np in auto)
  have "m_state (evs s i) = PackCoPollEventState ARMING 0 \<longleftrightarrow> p = ARMING"
    using w by (auto simp: ev_agree_def)
  then show ?thesis using w arm fin1 fin2 by (simp add: regist_listen_def)
qed

text \<open>Registration in the table: admitted into the current generation, or self-triggered.\<close>

lemma inv_track_admit:
  assumes inv: "poll_inv s" and rg: "reg (evs s i) = RegArmed" and ok: "fst (TrackWaiter i s)"
  shows "poll_inv (set_reg i RegDone (snd (TrackWaiter i s)))"
proof -
  let ?t = "snd (TrackWaiter i s)" and ?s = "set_reg i RegDone (snd (TrackWaiter i s))"
  obtain p g where w: "m_state (evs s i) = PackCoPollEventState p g" "ev_agree p g (evs s i)" "phase s i = Some p"
    using inv by (rule ev_invE)
  have al: "alive (evs s i)" and np: "p \<notin> {INITED, ARMING, PARKED}" using w rg by (auto simp: ev_agree_def)
  have ph: "phase ?s j = phase s j" for j by (simp add: phase_def)
  have "ev_ok ((evs s i) \<lparr>reg := RegDone\<rparr>)"
    using w np al by (subst ev_ok_pack [of _ p g]) (auto simp: ev_agree_def)
  then have "ev_inv ?s"
    by (intro ev_inv_upd [of s ?s i "(evs s i) \<lparr>reg := RegDone\<rparr>"]) (use inv in \<open>simp_all add: poll_inv_def\<close>)
  moreover have "log_inv ?s"
    by (rule log_inv_frame [of s]) (use inv in \<open>auto simp: poll_inv_def\<close>)
  moreover have "slot_inv ?s"
  proof -
    have "0 \<le> fd \<and> m_fd (evs ?s j) = fd \<and> m_wait_epoch (evs ?s j) = epoch (get_slot ?s fd) \<and>
        \<not> closing (get_slot ?s fd) \<and> reg (evs ?s j) = RegDone \<and> phase ?s j \<noteq> Some INITED"
      if j: "j \<in> set (waiters (get_slot ?t fd))" for fd j
    proof (cases "j \<in> set (waiters (get_slot s fd))")
      case True
      then show ?thesis using inv by (auto simp: poll_inv_def slot_inv_def Track_slot ph)
    next
      case False
      with j Track_waiters [of i s fd] have "j = i" "fd = m_fd (evs s i)" "0 \<le> fd" "track_admits i s"
        by (auto split: if_splits)
      then show ?thesis using w np by (auto simp: track_admits_def Track_slot ph)
    qed
    then show ?thesis by (simp add: slot_inv_def)
  qed
  moreover have "track_inv ?s"
  proof (rule track_inv_frame [of s _ i])
    assume "waits_on_fd ?s i"
    then have "0 \<le> m_fd (evs s i)" "m_event (evs s i)" by (auto simp: waits_on_fd_def)
    with ok al have "i \<in> set (waiters (get_slot ?t (m_fd (evs s i))))"
      by (intro Track_adds) (auto simp: Track_fst)
    then show "i \<in> set (waiters (get_slot ?s (m_fd (evs ?s i)))) \<or> i \<in> set (close_todo ?s)" by simp
  qed (use inv in \<open>auto simp: poll_inv_def waits_on_fd_def ph intro: Track_keeps\<close>)
  ultimately show ?thesis by (simp add: poll_inv_def)
qed

lemma Track_refused: "\<not> fst (TrackWaiter i s) \<Longrightarrow>
   \<exists>sl. snd (TrackWaiter i s) = put_slot (m_fd (evs s i)) (get_slot s (m_fd (evs s i))) s"
  by (auto simp: TrackWaiter_def Let_def split: if_splits)

lemma poll_inv_cong:
  assumes "evs s' = evs s" "completed s' = completed s" "close_todo s' = close_todo s" "\<And>fd. get_slot s' fd = get_slot s fd"
  shows "poll_inv s' = poll_inv s"
  using assms by (simp add: poll_inv_def ev_inv_def log_inv_def slot_inv_def track_inv_def waits_on_fd_def phase_def)

lemma inv_put_same: "poll_inv s \<Longrightarrow> poll_inv (put_slot fd (get_slot s fd) s)"
  using poll_inv_cong [of "put_slot fd (get_slot s fd) s" s] by auto

lemma inv_regist_track:
  assumes inv: "poll_inv s" and rg: "reg (evs s i) = RegArmed"
  shows "poll_inv (snd (regist_track i s))"
proof (cases "fst (TrackWaiter i s)")
  case True
  then show ?thesis using inv_track_admit [OF assms] by (cases "TrackWaiter i s") (simp add: regist_track_def)
next
  case False
  let ?t = "put_slot (m_fd (evs s i)) (get_slot s (m_fd (evs s i))) s"
  obtain p g where w: "m_state (evs s i) = PackCoPollEventState p g" "ev_agree p g (evs s i)" "phase s i = Some p"
    using inv by (rule ev_invE)
  have np: "p \<notin> {INITED, ARMING, PARKED}" using w rg by (auto simp: ev_agree_def)
  have t: "snd (TrackWaiter i s) = ?t" "poll_inv ?t" "phase ?t i = Some p"
    using False Track_refused inv_put_same [OF inv] w by (auto simp: phase_def)
  then have tr: "Trigger i POLL_EVENT_CLOSED ?t = trigger_cas i POLL_EVENT_CLOSED ?t"
    using np by (auto simp: Trigger_unparked)
  have "poll_inv (set_reg i RegDone (snd (trigger_cas i POLL_EVENT_CLOSED ?t)))"
    by (rule inv_reg_done [OF inv_trigger_cas [OF t(2)]])
      (use t np in \<open>auto simp: trigger_cas_def phase_def\<close>)
  then show ?thesis using False t(1) tr by (cases "TrackWaiter i s") (simp add: regist_track_def)
qed

subsection \<open>Closing and destruction\<close>

lemma inv_BeginFdClose: assumes inv: "poll_inv s" shows "poll_inv (snd (BeginFdClose fd s))"
proof (cases "closing (get_slot s fd)")
  case True
  then show ?thesis using inv by (simp add: BeginFdClose_def)
next
  case False
  let ?s = "snd (BeginFdClose fd s)"
  have sel: "evs ?s = evs s" "completed ?s = completed s"
    "close_todo ?s = close_todo s @ filter (\<lambda>j. alive (evs s j)) (waiters (get_slot s fd))"
    "get_slot ?s fd' = (if fd' = fd then \<lparr>epoch = epoch (get_slot s fd) + 1, closing = True, waiters = []\<rparr> else get_slot s fd')" for fd'
    using False by (auto simp: BeginFdClose_def Let_def)
  have ph: "phase ?s j = phase s j" for j by (simp add: phase_def sel)
  have "ev_inv ?s" using inv by (simp add: poll_inv_def ev_inv_def sel)
  moreover have "log_inv ?s" using inv by (simp add: poll_inv_def log_inv_def sel)
  moreover have "slot_inv ?s"
    by (rule slot_inv_frame [of s]) (use inv in \<open>auto simp: poll_inv_def sel ph split: if_splits\<close>)
  moreover have "track_inv ?s"
  proof (rule track_inv_frame [of s _ "Suc (Max (insert 0 (set (waiters (get_slot s fd)) \<union> set (close_todo s))))"])
    let ?k = "Suc (Max (insert 0 (set (waiters (get_slot s fd)) \<union> set (close_todo s))))"
    assume "waits_on_fd ?s ?k"
    then have wk: "waits_on_fd s ?k" by (simp add: waits_on_fd_def ph sel)
    have "?k \<notin> set (waiters (get_slot s fd))" "?k \<notin> set (close_todo s)"
      by (metis Max_ge Suc_n_not_le_n UnI1 UnI2 finite.insertI finite_UnI finite_set insertI2)+
    with wk inv have "?k \<in> set (waiters (get_slot s (m_fd (evs s ?k))))" "m_fd (evs s ?k) \<noteq> fd"
      by (auto simp: poll_inv_def track_inv_def)
    then show "?k \<in> set (waiters (get_slot ?s (m_fd (evs ?s ?k)))) \<or> ?k \<in> set (close_todo ?s)"
      by (simp add: sel)
  qed (use inv in \<open>auto simp: poll_inv_def sel waits_on_fd_def ph\<close>)
  ultimately show ?thesis by (simp add: poll_inv_def)
qed

lemma EndFdClose_sel [simp]: "evs (EndFdClose fd s) = evs s" "completed (EndFdClose fd s) = completed s"
  "close_todo (EndFdClose fd s) = close_todo s"
  "get_slot (EndFdClose fd s) fd' = (if fd' = fd then (get_slot s fd) \<lparr>closing := False\<rparr> else get_slot s fd')"
  by (auto simp: EndFdClose_def get_slot_def fd_slot0_def put_slot_def erase_slot_def split: option.splits
      intro!: slot_eq_default [unfolded fd_slot0_def, symmetric])

lemma inv_EndFdClose: assumes inv: "poll_inv s" shows "poll_inv (EndFdClose fd s)"
proof -
  have ph: "phase (EndFdClose fd s) j = phase s j" for j by (simp add: phase_def)
  show ?thesis
    using inv by (auto simp: poll_inv_def ev_inv_def log_inv_def slot_inv_def track_inv_def waits_on_fd_def ph)
qed

lemma inv_CloseTrigger:
  assumes inv: "poll_inv s"
  shows "poll_inv ((snd (trigger_cas i POLL_EVENT_CLOSED s)) \<lparr>close_todo := remove1 i (close_todo s)\<rparr>)"
proof -
  let ?t = "snd (trigger_cas i POLL_EVENT_CLOSED s)" and ?s = "(snd (trigger_cas i POLL_EVENT_CLOSED s)) \<lparr>close_todo := remove1 i (close_todo s)\<rparr>"
  have t: "poll_inv ?t" "close_todo ?t = close_todo s"
    using inv_trigger_cas [OF inv] by (simp, simp add: trigger_cas_def)
  have nw: "\<not> waits_on_fd ?s i" by (auto simp: trigger_cas_def waits_on_fd_def phase_def)
  have w: "waits_on_fd ?s j = waits_on_fd ?t j" for j by (simp add: waits_on_fd_def phase_def)
  have "track_inv ?s"
    by (rule track_inv_frame [of ?t _ i]) (use t nw w in \<open>auto simp: poll_inv_def in_set_remove1\<close>)
  then show ?thesis using t(1) by (auto simp: poll_inv_def ev_inv_def log_inv_def slot_inv_def phase_def)
qed

lemma inv_destroy:
  assumes inv: "poll_inv s" and g: "reg (evs s i) \<in> {RegNone, RegDone}"
    "phase s i \<notin> {Some ARMING, Some ARMED, Some PARKED, Some TRIGGERING}"
  shows "poll_inv (destroy_event i s)"
proof -
  obtain p f where w: "m_state (evs s i) = PackCoPollEventState p f" "ev_agree p f (evs s i)" "phase s i = Some p"
    using inv by (rule ev_invE)
  have "poll_inv (upd_ev i (\<lambda>e. e \<lparr>alive := False\<rparr>) s)"
  proof (rule poll_inv_event [OF inv upd_ev_sel(1)])
    show "ev_ok ((evs s i) \<lparr>alive := False\<rparr>)"
      using w g by (subst ev_ok_pack [of _ p f]) (auto simp: ev_agree_def)
  qed (use g in \<open>auto simp: ev_step_def waits_on_fd_def phase_def\<close>)
  then show ?thesis unfolding destroy_event_def
    by (rule poll_inv_cannel) (use g in \<open>auto simp: phase_def\<close>)
qed

lemma poll_step_inv: "poll_inv s \<Longrightarrow> poll_exec e s = Some s' \<Longrightarrow> poll_inv s'"
proof (cases e)
  case (PComplete i)
  assume inv: "poll_inv s" and ex: "poll_exec e s = Some s'"
  obtain p f where w: "m_state (evs s i) = PackCoPollEventState p f" "phase s i = Some p"
    using inv by (rule ev_invE)
  then show ?thesis using ex PComplete inv inv_Complete [OF inv, of i f] by (auto split: if_splits)
qed (auto split: if_splits simp: inv_InitFdEvent inv_InitCustomEvent inv_regist_begin inv_regist_listen
    inv_regist_track inv_trigger_cas inv_CommitPark inv_UnRegist inv_BeginFdClose inv_CloseTrigger
    inv_EndFdClose inv_destroy)

lemma poll_init_inv: "poll_inv poll_init"
  by (simp add: poll_inv_def ev_inv_def log_inv_def slot_inv_def track_inv_def poll_init_def co_event0_def
      ev_ok_def get_slot_def fd_slot0_def waits_on_fd_def phase_def)

interpretation poll_machine: invariant_machine poll_exec poll_inv
  by unfold_locales (rule poll_step_inv)

lemma poll_reaches_inv: "reaches poll_exec poll_init s \<Longrightarrow> poll_inv s"
  by (rule poll_machine.reaches_inv [OF _ poll_init_inv])

section \<open>Transitions of the state word\<close>

text \<open>The state diagram of the event, as transitions between (phase, mask) pairs.\<close>

inductive phase_next :: "CoPollEventPhase \<Rightarrow> u16 \<Rightarrow> CoPollEventPhase \<Rightarrow> u16 \<Rightarrow> bool" where
  arm_begin: "phase_next INITED 0 ARMING 0"
| arm_end: "phase_next ARMING 0 ARMED 0"
| park: "phase_next ARMED 0 PARKED 0"
| early: "p \<in> {INITED, ARMING, ARMED} \<Longrightarrow> f \<noteq> 0 \<Longrightarrow> phase_next p 0 PENDING f"
| win: "f \<noteq> 0 \<Longrightarrow> phase_next PARKED 0 TRIGGERING f"
| finish: "p \<in> {PENDING, TRIGGERING} \<Longrightarrow> phase_next p f FINAL f"
| cancel: "p \<in> {INITED, ARMING, ARMED, PARKED} \<Longrightarrow> phase_next p 0 CANCELLED 0"

definition word_next :: "u64 \<Rightarrow> u64 \<Rightarrow> bool" where
  "word_next w w' \<longleftrightarrow> w' = w \<or> (\<exists>p f p' f'. w = PackCoPollEventState p f \<and> w' = PackCoPollEventState p' f' \<and> phase_next p f p' f')"

inductive_simps phase_next_decided: "phase_next p f p' f'"

lemma word_next_refl [simp]: "word_next w w"
  by (simp add: word_next_def)

lemma word_nextI: "w = PackCoPollEventState p f \<Longrightarrow> phase_next p f p' f' \<Longrightarrow> word_next w (PackCoPollEventState p' f')"
  by (auto simp: word_next_def)

lemma word_next_pack [simp]: "word_next (PackCoPollEventState p f) (PackCoPollEventState p' f') \<longleftrightarrow>
   (p' = p \<and> f' = f) \<or> phase_next p f p' f'"
  by (auto simp: word_next_def)

lemma word_trigger_cas: "ev_ok (evs s i) \<Longrightarrow> word_next (m_state (evs s j)) (m_state (evs (snd (trigger_cas i f s)) j))"
proof (erule ev_okE, rule trigger_cas_cases [of i f s])
  fix p g
  assume w: "m_state (evs s i) = PackCoPollEventState p g" "ev_agree p g (evs s i)" and
    a: "f \<noteq> 0" "phase s i \<in> {Some INITED, Some ARMING, Some ARMED}" "trigger_cas i f s = (0, set_state i PENDING f s)"
  then have "phase_next p g PENDING f" by (auto simp: phase_def ev_agree_def phase_next_decided)
  then show ?thesis using w a by (auto intro: word_nextI)
next
  fix p g
  assume w: "m_state (evs s i) = PackCoPollEventState p g" "ev_agree p g (evs s i)" and
    a: "f \<noteq> 0" "phase s i = Some PARKED" "trigger_cas i f s = (0, set_state i TRIGGERING f s)"
  then have "phase_next p g TRIGGERING f" by (auto simp: phase_def ev_agree_def phase_next_decided)
  then show ?thesis using w a by (auto intro: word_nextI)
qed auto

lemma word_InitFd: "ev_ok (evs s i) \<Longrightarrow> word_next (m_state (evs s j)) (m_state (evs (snd (InitFdEvent i fd evm tmo outs s)) j))"
proof (cases "phase s i \<noteq> Some INITED \<or> tmo < 0 \<or> m_event (evs s i)")
  case False
  assume "ev_ok (evs s i)"
  then obtain p g where w: "m_state (evs s i) = PackCoPollEventState p g" "ev_agree p g (evs s i)" by (rule ev_okE)
  with False have ini: "m_state (evs s i) = PackCoPollEventState INITED 0" by (auto simp: phase_def ev_agree_def)
  then have "word_next (m_state (evs s i)) (PackCoPollEventState PENDING POLL_EVENT_CLOSED)"
    by (intro word_nextI [OF ini]) (simp add: phase_next_decided)
  then show ?thesis using ini False
    by (auto simp: InitFdEvent_def Let_def Trigger_def trigger_cas_def phase_def split: create_result.splits)
qed (simp add: InitFdEvent_def)

lemma word_regist_track:
  assumes "ev_ok (evs s i)" "reg (evs s i) = RegArmed"
  shows "word_next (m_state (evs s j)) (m_state (evs (snd (regist_track i s)) j))"
proof -
  obtain ok t where t: "TrackWaiter i s = (ok, t)" by fastforce
  then have e: "evs t = evs s" using Track_sel(1) [of i s] by simp
  have "phase t i \<noteq> Some PARKED" using assms e by (auto elim!: ev_okE simp: ev_agree_def phase_def)
  then have tr: "Trigger i POLL_EVENT_CLOSED t = trigger_cas i POLL_EVENT_CLOSED t" by (rule Trigger_unparked)
  have "word_next (m_state (evs s j)) (m_state (evs (snd (trigger_cas i POLL_EVENT_CLOSED t)) j))"
    using word_trigger_cas [of t i j] assms(1) e by simp
  then show ?thesis using t tr e by (cases ok) (auto simp: regist_track_def)
qed

lemma poll_word_step:
  assumes inv: "poll_inv s" and ex: "poll_exec e s = Some s'"
  shows "word_next (m_state (evs s j)) (m_state (evs s' j))"
proof -
  have ok: "ev_ok (evs s i)" for i using inv by (simp add: poll_inv_def ev_inv_def)
  show ?thesis
  proof (cases e)
    case (PRegBegin i)
    obtain p g where "m_state (evs s i) = PackCoPollEventState p g" "ev_agree p g (evs s i)" using ok by (rule ev_okE)
    then show ?thesis using PRegBegin ex
      by (cases p) (auto split: if_splits simp: regist_begin_def phase_def phase_next_decided)
  next
    case (PRegListen i out)
    obtain p g where "m_state (evs s i) = PackCoPollEventState p g" "ev_agree p g (evs s i)" using ok by (rule ev_okE)
    then show ?thesis using PRegListen ex
      by (cases p) (auto split: if_splits simp: regist_listen_def phase_def ev_agree_def Let_def phase_next_decided)
  next
    case (PComplete i)
    obtain p g where "m_state (evs s i) = PackCoPollEventState p g" using ok by (rule ev_okE)
    then show ?thesis using PComplete ex by (auto split: if_splits simp: phase_def phase_next_decided)
  next
    case (PCommitPark i)
    obtain p g where "m_state (evs s i) = PackCoPollEventState p g" "ev_agree p g (evs s i)" using ok by (rule ev_okE)
    then show ?thesis using PCommitPark ex
      by (cases p) (auto split: if_splits simp: CommitPark_def phase_def ev_agree_def Let_def phase_next_decided)
  next
    case (PUnRegist i)
    obtain p g where "m_state (evs s i) = PackCoPollEventState p g" "ev_agree p g (evs s i)" using ok by (rule ev_okE)
    then show ?thesis using PUnRegist ex
      by (cases p) (auto simp: UnRegist_def phase_def ev_agree_def phase_next_decided)
  qed (use ex ok in \<open>auto split: if_splits simp: word_InitFd InitCustomEvent_def word_regist_track word_trigger_cas
      BeginFdClose_def Let_def destroy_event_def\<close>)
qed

text \<open>An event whose outcome is decided keeps it.\<close>

definition decided :: "nat \<Rightarrow> u16 \<Rightarrow> poll_sys \<Rightarrow> bool" where
  "decided i f s \<longleftrightarrow> (\<exists>p\<in>{PENDING, TRIGGERING, FINAL}. m_state (evs s i) = PackCoPollEventState p f)"

lemma decided_next: "w = PackCoPollEventState p f \<Longrightarrow> p \<in> {PENDING, TRIGGERING, FINAL} \<Longrightarrow> word_next w w' \<Longrightarrow>
   \<exists>p'\<in>{PENDING, TRIGGERING, FINAL}. w' = PackCoPollEventState p' f"
  by (auto simp: word_next_def phase_next_decided)

interpretation decided_machine: invariant_machine poll_exec "\<lambda>s. poll_inv s \<and> decided i f s" for i f
proof unfold_locales
  fix s e s'
  assume a: "poll_inv s \<and> decided i f s" "poll_exec e s = Some s'"
  then have "word_next (m_state (evs s i)) (m_state (evs s' i))" using poll_word_step by blast
  moreover obtain p where "p \<in> {PENDING, TRIGGERING, FINAL}" "m_state (evs s i) = PackCoPollEventState p f"
    using a(1) by (auto simp: decided_def)
  ultimately have "decided i f s'" using decided_next unfolding decided_def by metis
  then show "poll_inv s' \<and> decided i f s'" using a poll_step_inv by blast
qed

interpretation cancelled_machine: invariant_machine poll_exec
  "\<lambda>s. poll_inv s \<and> m_state (evs s i) = PackCoPollEventState CANCELLED 0" for i
proof unfold_locales
  fix s e s'
  assume a: "poll_inv s \<and> m_state (evs s i) = PackCoPollEventState CANCELLED 0" "poll_exec e s = Some s'"
  then have "word_next (PackCoPollEventState CANCELLED 0) (m_state (evs s' i))" using poll_word_step by metis
  then show "poll_inv s' \<and> m_state (evs s' i) = PackCoPollEventState CANCELLED 0"
    using a poll_step_inv by (auto simp: word_next_def phase_next_decided)
qed

section \<open>Generations of a descriptor\<close>

lemma epoch_trigger_cas [simp]: "get_slot (snd (trigger_cas i f s)) fd = get_slot s fd"
  by (simp add: trigger_cas_def)

lemma epoch_Trigger [simp]: "epoch (get_slot (snd (Trigger i f s)) fd) = epoch (get_slot s fd)"
  by (auto simp: Trigger_def trigger_cas_def)

lemma epoch_InitFd [simp]: "epoch (get_slot (snd (InitFdEvent i fd evm tmo outs s)) fd') = epoch (get_slot s fd')"
  by (auto simp: InitFdEvent_def Let_def split: create_result.splits)

lemma epoch_regist_track [simp]: "epoch (get_slot (snd (regist_track i s)) fd) = epoch (get_slot s fd)"
  by (cases "TrackWaiter i s") (auto simp: regist_track_def, (metis Track_slot(2) snd_conv)+)

section \<open>A concrete run\<close>

text \<open>Event 1 waits for descriptor 5 to become readable and parks; the descriptor is closed and
  event 1 completes with the closed mask; event 2 is established while the close is in progress.\<close>

definition poll_demo :: "poll_event list" where
  "poll_demo = [PInitFd 1 5 OPT_READABLE 0 (\<lambda>_. CreateOk), PRegBegin 1, PRegListen 1 (ListenRet 0), PRegTrack 1,
     PCommitPark 1]"

lemma poll_demo_run: "case run poll_exec poll_demo poll_init of None \<Rightarrow> False
   | Some s \<Rightarrow> phase s 1 = Some PARKED \<and> m_fd (evs s 1) = 5 \<and> m_event (evs s 1) \<and> \<not> FdIsClosing 5 s \<and>
        FdWaiterCount 5 s = 1"
  by code_simp

section \<open>Properties\<close>

text \<open>C9. First win, exactly once: in every reachable state of any interleaving of registration,
  triggers, cancellation, parking, close and destruction, each event has been completed at most
  once, it has been completed exactly when its word is \<open>FINAL\<close>, and the mask its callback received
  is the mask latched in the word, which is never empty.\<close>

theorem complete_once:
  assumes "reaches poll_exec poll_init s"
  shows "distinct (map fst (completed s)) \<and>
    (\<forall>i f. (i, f) \<in> set (completed s) \<longleftrightarrow> m_state (evs s i) = PackCoPollEventState FINAL f) \<and>
    (\<forall>i f. (i, f) \<in> set (completed s) \<longrightarrow> f \<noteq> 0)"
proof -
  have inv: "poll_inv s" by (rule poll_reaches_inv [OF assms])
  have "f \<noteq> 0" if "m_state (evs s i) = PackCoPollEventState FINAL f" for i f
    using inv that ev_ok_pack [OF that] by (auto simp: poll_inv_def ev_inv_def ev_agree_def)
  then show ?thesis using inv by (auto simp: poll_inv_def log_inv_def)
qed

theorem complete_once_witness:
  "\<exists>s. run poll_exec (poll_demo @ [PTrigger 1 2, PTrigger 1 512, PComplete 1]) poll_init = Some s \<and>
     completed s = [(1, 2)] \<and> m_state (evs s 1) = PackCoPollEventState FINAL 2"
proof -
  have "case run poll_exec (poll_demo @ [PTrigger 1 2, PTrigger 1 512, PComplete 1]) poll_init of None \<Rightarrow> False
    | Some s \<Rightarrow> completed s = [(1, 2)]"
    by code_simp
  then obtain s where s: "run poll_exec (poll_demo @ [PTrigger 1 2, PTrigger 1 512, PComplete 1]) poll_init = Some s"
    "completed s = [(1, 2)]" by (auto split: option.splits)
  from complete_once [OF run_reaches [OF s(1)]] s show ?thesis by auto
qed

text \<open>The state word only moves along the state diagram: any single step leaves the word of
  every event unchanged or takes one transition of \<open>phase_next\<close>. Consequently a decided event
  keeps the mask that won, whatever is triggered later, and a cancelled event stays cancelled.\<close>

lemma first_win_final:
  assumes "reaches poll_exec poll_init s" "reaches poll_exec s t"
  shows "(\<forall>f. decided i f s \<longrightarrow> decided i f t) \<and>
    (m_state (evs s i) = PackCoPollEventState CANCELLED 0 \<longrightarrow> m_state (evs t i) = PackCoPollEventState CANCELLED 0) \<and>
    (\<forall>e t'. poll_exec e t = Some t' \<longrightarrow> word_next (m_state (evs t i)) (m_state (evs t' i)))"
proof -
  have inv: "poll_inv s" "poll_inv t"
    using assms poll_reaches_inv poll_machine.reaches_inv by blast+
  then show ?thesis
    using decided_machine.reaches_inv [OF assms(2)] cancelled_machine.reaches_inv [OF assms(2)] poll_word_step
    by blast
qed

text \<open>C10. Close linearisation: in every reachable state a waiter in the fd table belongs to the
  current generation of a descriptor that is not closing, and an event parked on a descriptor is
  in the table or is still to be triggered by the close that removed it. Claiming the close of a
  descriptor advances its generation and hands every event parked on it to the close, whose
  trigger then decides the wait as closed.\<close>

theorem close_wakes_waiters:
  assumes "reaches poll_exec poll_init s"
  shows "(\<forall>fd. \<forall>j\<in>set (waiters (get_slot s fd)). m_fd (evs s j) = fd \<and> m_wait_epoch (evs s j) = FdEpoch fd s \<and> \<not> FdIsClosing fd s) \<and>
    (\<forall>i. phase s i = Some PARKED \<and> 0 \<le> m_fd (evs s i) \<and> m_event (evs s i) \<longrightarrow>
       i \<in> set (waiters (get_slot s (m_fd (evs s i)))) \<or> i \<in> set (close_todo s)) \<and>
    (\<forall>i s'. phase s i = Some PARKED \<and> 0 \<le> m_fd (evs s i) \<and> m_event (evs s i) \<and>
       BeginFdClose (m_fd (evs s i)) s = (True, s') \<longrightarrow>
       FdEpoch (m_fd (evs s i)) s' = FdEpoch (m_fd (evs s i)) s + 1 \<and>
       (\<exists>t. poll_exec (PCloseTrigger i) s' = Some t \<and>
            m_state (evs t i) = PackCoPollEventState TRIGGERING POLL_EVENT_CLOSED))"
proof -
  have inv: "poll_inv s" by (rule poll_reaches_inv [OF assms])
  have wt: "waits_on_fd s i" and al: "alive (evs s i)"
    if "phase s i = Some PARKED" "0 \<le> m_fd (evs s i)" "m_event (evs s i)" for i
    using that by (auto intro: ev_invE [OF inv, of i] simp: waits_on_fd_def ev_agree_def)
  show ?thesis
  proof (intro conjI allI impI, goal_cases)
    case 1
    then show ?case using inv by (auto simp: poll_inv_def slot_inv_def FdEpoch_slot FdIsClosing_slot)
  next
    case (2 i)
    then show ?case using wt inv by (auto simp: poll_inv_def track_inv_def)
  next
    case (3 i s')
    then show ?case by (auto simp: BeginFdClose_def Let_def FdEpoch_slot split: if_splits)
  next
    case (4 i s')
    let ?fd = "m_fd (evs s i)"
    have b: "evs s' = evs s" "close_todo s' = close_todo s @ filter (\<lambda>j. alive (evs s j)) (waiters (get_slot s ?fd))"
      using 4 by (auto simp: BeginFdClose_def Let_def split: if_splits)
    have "i \<in> set (close_todo s')" using 4 wt [of i] al [of i] inv b by (auto simp: poll_inv_def track_inv_def)
    then show ?case using 4 b by (simp add: trigger_cas_def phase_def)
  qed
qed

theorem close_wakes_waiters_witness:
  "\<exists>s s' t. run poll_exec poll_demo poll_init = Some s \<and> phase s 1 = Some PARKED \<and> BeginFdClose 5 s = (True, s') \<and>
     FdEpoch 5 s' = FdEpoch 5 s + 1 \<and> poll_exec (PCloseTrigger 1) s' = Some t \<and>
     m_state (evs t 1) = PackCoPollEventState TRIGGERING POLL_EVENT_CLOSED"
proof -
  obtain s where s: "run poll_exec poll_demo poll_init = Some s" "phase s 1 = Some PARKED" "m_fd (evs s 1) = 5"
    "m_event (evs s 1)" "\<not> FdIsClosing 5 s"
    using poll_demo_run by (auto split: option.splits)
  obtain b s' where b: "BeginFdClose 5 s = (b, s')" by fastforce
  then have "b = True" using s(5) by (auto simp: BeginFdClose_def Let_def FdIsClosing_slot)
  with close_wakes_waiters [OF run_reaches [OF s(1)]] s b show ?thesis by fastforce
qed

text \<open>The generation of a descriptor changes only by a successful \<open>BeginFdClose\<close> of that
  descriptor, which adds one: no registration, completion, cleanup or end of a close loses it,
  although they erase slots from the table.\<close>

lemma epoch_only_close:
  assumes "poll_exec e s = Some s'"
  shows "FdEpoch fd s' = (if e = PBeginClose fd \<and> \<not> FdIsClosing fd s then FdEpoch fd s + 1 else FdEpoch fd s)"
  using assms unfolding FdEpoch_slot FdIsClosing_slot
  by (cases e) (auto split: if_splits simp: InitCustomEvent_def regist_begin_def regist_listen_def Let_def
      CommitPark_def UnRegist_def BeginFdClose_def destroy_event_def)

text \<open>A wait whose descriptor was closed between its establishment and its registration (the
  generation moved, or a close is in progress) is not admitted: \<open>Regist\<close> reports success, the event
  is decided as closed before it can park, and the table gains no waiter. A wait established while
  the close is in progress is decided as closed at once, without an underlying event.\<close>

lemma stale_wait_closed:
  assumes "m_state (evs s i) = PackCoPollEventState INITED 0"
  shows "(m_event (evs s i) \<and> 0 \<le> m_fd (evs s i) \<and>
      (FdIsClosing (m_fd (evs s i)) s \<or> FdEpoch (m_fd (evs s i)) s \<noteq> m_wait_epoch (evs s i)) \<longrightarrow>
      (\<exists>t. Regist i (ListenRet 0) s = (0, t) \<and> m_state (evs t i) = PackCoPollEventState PENDING POLL_EVENT_CLOSED \<and>
        (\<forall>fd. waiters (get_slot t fd) = waiters (get_slot s fd)))) \<and>
    (\<not> m_event (evs s i) \<and> 0 \<le> fd \<and> 0 \<le> tmo \<and> FdIsClosing fd s \<longrightarrow>
      (\<exists>t. InitFdEvent i fd evm tmo outs s = (0, t) \<and> m_state (evs t i) = PackCoPollEventState PENDING POLL_EVENT_CLOSED \<and>
        \<not> m_event (evs t i)))"
proof (intro conjI impI, goal_cases)
  case 1
  define s2 where "s2 = set_reg i RegArmed (set_state i ARMED 0 (set_reg i RegArming (set_state i ARMING 0 s)))"
  have l: "regist_begin i s = (None, set_reg i RegArming (set_state i ARMING 0 s))"
    "regist_listen i (ListenRet 0) (set_reg i RegArming (set_state i ARMING 0 s)) = (None, s2)"
    using assms by (simp_all add: regist_begin_def regist_listen_def s2_def phase_def)
  have sel: "m_fd (evs s2 i) = m_fd (evs s i)" "m_event (evs s2 i) = m_event (evs s i)"
    "m_wait_epoch (evs s2 i) = m_wait_epoch (evs s i)" "get_slot s2 fd = get_slot s fd" "phase s2 i = Some ARMED" for fd
    by (simp_all add: s2_def phase_def)
  have "TrackWaiter i s2 = (False, put_slot (m_fd (evs s i)) (get_slot s (m_fd (evs s i))) s2)"
    using 1 by (auto simp: TrackWaiter_def Let_def sel FdIsClosing_slot FdEpoch_slot)
  then show ?case using 1 sel l
    by (auto simp: Regist_def regist_track_def Trigger_def trigger_cas_def phase_def)
next
  case 2
  then show ?case using assms
    by (auto simp: InitFdEvent_def Let_def Trigger_def trigger_cas_def phase_def FdIsClosing_slot)
qed

definition stale_demo :: "poll_event list" where
  "stale_demo = [PInitFd 1 5 OPT_READABLE 0 (\<lambda>_. CreateOk), PBeginClose 5]"

text \<open>A trigger that arrives before the coroutine has parked is not lost: it is latched, the
  registration still succeeds, and the Processer that commits the park completes the event with
  exactly that mask instead of parking. A park with no trigger leaves the completion to the
  trigger, which then completes it in place.\<close>

lemma early_trigger_delivered:
  assumes "f \<noteq> 0" "phase s i \<in> {Some INITED, Some ARMING, Some ARMED, Some PARKED}"
  shows "\<exists>t. Trigger i f s = (0, t) \<and>
    (if phase s i = Some PARKED then completed t = completed s @ [(i, f)] \<and> phase t i = Some FINAL
     else completed t = completed s \<and> m_state (evs t i) = PackCoPollEventState PENDING f \<and>
       (\<exists>u. CommitPark i t = (True, u) \<and> completed u = completed s @ [(i, f)] \<and>
            m_state (evs u i) = PackCoPollEventState FINAL f))"
  using assms
  by (auto simp: Trigger_def trigger_cas_def CommitPark_def phase_def Let_def)

end
