(* ===== verification/CoroutineModel.thy ===== *)
theory CoroutineModel
  imports PollEvent
begin

text \<open>
  \<open>detail/Coroutine.{hpp,cc}\<close> and the resume loop of \<open>detail/Context.cc\<close>. A coroutine is a
  record; its current wait is the number of a \<open>CoPollEvent\<close> of the event store. An operation that
  suspends is modelled by the part before the context switch and the part after it; a failed
  \<open>Assert\<close> is \<open>None\<close>. \<open>OnActiveCoroutine\<close> (the scheduler entry) is the log \<open>activated\<close>.
\<close>

section \<open>Data\<close>

datatype CoroutineStatus = CO_DEFAULT | CO_RUNNABLE | CO_RUNNING | CO_SUSPEND | CO_FINAL
datatype CoroutineYieldDisposition = MANUAL | READY | EVENT_WAIT | YIELD_FINAL
datatype CoroutinePriority = CO_PRIORITY_LOW | CO_PRIORITY_NORMAL | CO_PRIORITY_HIGH | CO_PRIORITY_CRITICAL

record coroutine =
  m_run_status :: CoroutineStatus
  m_yield_disposition :: CoroutineYieldDisposition
  m_await_event :: "nat option"
  m_cancel_requested :: bool
  m_exception :: bool
  m_last_resume_event :: u32
  m_last_wait_fd :: int
  m_last_wait_epoch :: u64
  m_last_run_us :: u64
  m_mlfq_demotions :: nat
  m_parked_us :: u64

text \<open>The constructor; the member initialisers are \<open>CO_DEFAULT\<close>, \<open>MANUAL\<close>, -1 and zero.\<close>

definition CreateCoroutine :: coroutine where
  "CreateCoroutine = \<lparr>m_run_status = CO_RUNNABLE, m_yield_disposition = MANUAL, m_await_event = None,
     m_cancel_requested = False, m_exception = False, m_last_resume_event = -1, m_last_wait_fd = -1,
     m_last_wait_epoch = 0, m_last_run_us = 0, m_mlfq_demotions = 0, m_parked_us = 0\<rparr>"

record co_sys =
  co :: coroutine
  poll :: poll_sys
  activated :: "CoroutinePriority list"

section \<open>Running and yielding\<close>

definition Resume :: "coroutine \<Rightarrow> coroutine option" where
  "Resume c = (if m_run_status c \<in> {CO_RUNNABLE, CO_SUSPEND}
     then Some (c \<lparr>m_run_status := CO_RUNNING\<rparr>) else None)"

definition Yield :: "coroutine \<Rightarrow> coroutine option" where
  "Yield c = (if m_run_status c = CO_RUNNING
     then Some (c \<lparr>m_yield_disposition := MANUAL, m_run_status := CO_SUSPEND\<rparr>) else None)"

definition YieldWithCallback :: "coroutine \<Rightarrow> coroutine option" where
  "YieldWithCallback c = (if m_run_status c = CO_RUNNING
     then Some (c \<lparr>m_yield_disposition := (if m_await_event c = None then MANUAL else EVENT_WAIT),
                   m_run_status := CO_SUSPEND\<rparr>) else None)"

text \<open>After the switch back: a failed on-yield check (\<open>ret \<noteq> 0\<close>) restores the running state.\<close>

definition YieldWithCallback_ret :: "int \<Rightarrow> coroutine \<Rightarrow> int \<times> coroutine" where
  "YieldWithCallback_ret ret c =
     (ret, if ret \<noteq> 0 then c \<lparr>m_yield_disposition := MANUAL, m_run_status := CO_RUNNING\<rparr> else c)"

definition YieldAndPushGCoQueue :: "coroutine \<Rightarrow> coroutine option" where
  "YieldAndPushGCoQueue c = (if m_run_status c = CO_RUNNING
     then Some (c \<lparr>m_yield_disposition := READY, m_run_status := CO_SUSPEND\<rparr>) else None)"

text \<open>The user function returned normally.\<close>

definition finish_main :: "coroutine \<Rightarrow> coroutine" where
  "finish_main c = c \<lparr>m_yield_disposition := YIELD_FINAL, m_run_status := CO_FINAL\<rparr>"

definition OnException :: "bool \<Rightarrow> co_sys \<Rightarrow> co_sys" where
  "OnException eptr s =
     (let c = (co s) \<lparr>m_exception := eptr, m_yield_disposition := YIELD_FINAL, m_run_status := CO_FINAL\<rparr> in
      case m_await_event c of
        None \<Rightarrow> s \<lparr>co := c\<rparr>
      | Some e \<Rightarrow> s \<lparr>co := c \<lparr>m_await_event := None\<rparr>, poll := snd (UnRegist e (poll s))\<rparr>)"

text \<open>\<open>RequestCancel\<close> by its atomic actions: the store of the flag, the read of the awaited event and the
  compare-and-swap of \<open>Trigger\<close>, whose completion follows when the event was parked.\<close>

definition cancel_store :: "co_sys \<Rightarrow> co_sys" where
  "cancel_store s = s \<lparr>co := (co s) \<lparr>m_cancel_requested := True\<rparr>\<rparr>"

definition cancel_target :: "co_sys \<Rightarrow> nat option" where
  "cancel_target s = m_await_event (co s)"

definition cancel_trigger :: "nat \<Rightarrow> co_sys \<Rightarrow> co_sys" where
  "cancel_trigger e s = s \<lparr>poll := snd (trigger_cas e POLL_EVENT_CANCELLED (poll s))\<rparr>"

definition RequestCancel :: "co_sys \<Rightarrow> co_sys" where
  "RequestCancel s =
     (let s1 = cancel_store s in
      case cancel_target s1 of
        None \<Rightarrow> s1
      | Some e \<Rightarrow> let s2 = cancel_trigger e s1 in
          if phase (poll s1) e = Some PARKED then s2 \<lparr>poll := Complete e POLL_EVENT_CANCELLED (poll s2)\<rparr> else s2)"

section \<open>Waiting\<close>

text \<open>\<open>Left r\<close> returns \<open>r\<close> without suspending; \<open>Right s\<close> goes on to \<open>YieldWithCallback\<close> with the
  callback \<open>_RegistAwaitEvent\<close>; \<open>None\<close> is a failed assertion. \<open>e\<close> is the number of the fresh event.\<close>

definition prepare_fd_wait :: "nat \<Rightarrow> int \<Rightarrow> u16 \<Rightarrow> int \<Rightarrow> (nat \<Rightarrow> create_result) \<Rightarrow> co_sys
    \<Rightarrow> ((int \<times> co_sys) + co_sys) option" where
  "prepare_fd_wait e fd events timeout outs s =
     (if m_cancel_requested (co s) then Some (Inl (1, s))
      else if m_await_event (co s) \<noteq> None then None
      else case InitFdEvent e fd events timeout outs (poll s) of (r, p) \<Rightarrow>
        if r \<noteq> 0 then Some (Inl (-1, s \<lparr>poll := p\<rparr>))
        else (case YieldWithCallback ((co s) \<lparr>m_await_event := Some e\<rparr>) of
            None \<Rightarrow> None
          | Some c \<Rightarrow> Some (Inr (s \<lparr>co := c, poll := p\<rparr>))))"

definition OPT_FINALIZE :: u16 where "OPT_FINALIZE = 0x40"
definition OPT_PERSIST :: u16 where "OPT_PERSIST = 0x10"

definition YieldUntilTimeout :: "nat \<Rightarrow> int \<Rightarrow> (nat \<Rightarrow> create_result) \<Rightarrow> co_sys \<Rightarrow> ((int \<times> co_sys) + co_sys) option" where
  "YieldUntilTimeout e ms = prepare_fd_wait e (-1) OPT_TIMEOUT ms"

definition YieldUntilFdReadable :: "nat \<Rightarrow> int \<Rightarrow> (nat \<Rightarrow> create_result) \<Rightarrow> co_sys \<Rightarrow> ((int \<times> co_sys) + co_sys) option" where
  "YieldUntilFdReadable e fd = prepare_fd_wait e fd (OPT_READABLE OR OPT_FINALIZE) 0"

definition YieldUntilFdReadable_ms :: "nat \<Rightarrow> int \<Rightarrow> int \<Rightarrow> (nat \<Rightarrow> create_result) \<Rightarrow> co_sys \<Rightarrow> ((int \<times> co_sys) + co_sys) option" where
  "YieldUntilFdReadable_ms e fd ms = prepare_fd_wait e fd (OPT_READABLE OR OPT_TIMEOUT OR OPT_FINALIZE) ms"

definition YieldUntilFdWriteable :: "nat \<Rightarrow> int \<Rightarrow> (nat \<Rightarrow> create_result) \<Rightarrow> co_sys \<Rightarrow> ((int \<times> co_sys) + co_sys) option" where
  "YieldUntilFdWriteable e fd = prepare_fd_wait e fd (OPT_WRITEABLE OR OPT_FINALIZE) 0"

definition YieldUntilFdWriteable_ms :: "nat \<Rightarrow> int \<Rightarrow> int \<Rightarrow> (nat \<Rightarrow> create_result) \<Rightarrow> co_sys \<Rightarrow> ((int \<times> co_sys) + co_sys) option" where
  "YieldUntilFdWriteable_ms e fd ms = prepare_fd_wait e fd (OPT_WRITEABLE OR OPT_TIMEOUT OR OPT_FINALIZE) ms"

definition YieldUntilFdEx :: "nat \<Rightarrow> int \<Rightarrow> u16 \<Rightarrow> int \<Rightarrow> (nat \<Rightarrow> create_result) \<Rightarrow> co_sys \<Rightarrow> ((int \<times> co_sys) + co_sys) option" where
  "YieldUntilFdEx e fd events ms = prepare_fd_wait e fd (events AND NOT OPT_PERSIST) ms"

definition RegistCustom :: "nat \<Rightarrow> int \<Rightarrow> co_sys \<Rightarrow> nat option \<times> co_sys" where
  "RegistCustom e key s =
     (if m_await_event (co s) \<noteq> None then (None, s)
      else case InitCustomEvent e key (poll s) of (r, p) \<Rightarrow>
        if r \<noteq> 0 then (None, s \<lparr>poll := p\<rparr>)
        else (Some e, s \<lparr>co := (co s) \<lparr>m_await_event := Some e\<rparr>, poll := p\<rparr>))"

definition RegistCustom_ms :: "nat \<Rightarrow> int \<Rightarrow> int \<Rightarrow> (nat \<Rightarrow> create_result) \<Rightarrow> co_sys \<Rightarrow> nat option \<times> co_sys" where
  "RegistCustom_ms e key ms outs s =
     (if m_await_event (co s) \<noteq> None then (None, s)
      else case InitCustomEvent e key (poll s) of (r, p) \<Rightarrow>
        if r \<noteq> 0 then (None, s \<lparr>poll := p\<rparr>)
        else (case InitFdEvent e (-1) OPT_TIMEOUT ms outs p of (r', p') \<Rightarrow>
          if r' \<noteq> 0 then (None, s \<lparr>poll := p'\<rparr>)
          else (Some e, s \<lparr>co := (co s) \<lparr>m_await_event := Some e\<rparr>, poll := p'\<rparr>)))"

text \<open>The last look at the cancellation flag before the event is registered.\<close>

definition regist_precheck :: "nat \<Rightarrow> co_sys \<Rightarrow> co_sys" where
  "regist_precheck e s = (if m_cancel_requested (co s) then cancel_trigger e s else s)"

text \<open>The on-yield callback of every wait. \<open>out\<close> is the result of \<open>StartListen\<close>, \<open>now\<close> the clock.\<close>

definition RegistAwaitEvent :: "listen_result \<Rightarrow> u64 \<Rightarrow> co_sys \<Rightarrow> bool \<times> co_sys" where
  "RegistAwaitEvent out now s =
     (case m_await_event (co s) of
        None \<Rightarrow> (False, s \<lparr>co := (co s) \<lparr>m_yield_disposition := MANUAL\<rparr>\<rparr>)
      | Some e \<Rightarrow>
          let p1 = (if m_cancel_requested (co s) then snd (Trigger e POLL_EVENT_CANCELLED (poll s)) else poll s)
          in (case Regist e out p1 of (r, p2) \<Rightarrow>
            if r = 0 then (True, s \<lparr>co := (co s) \<lparr>m_parked_us := now\<rparr>, poll := p2\<rparr>)
            else (False, s \<lparr>co := (co s) \<lparr>m_await_event := None, m_yield_disposition := MANUAL\<rparr>, poll := p2\<rparr>)))"

section \<open>Waking up\<close>

definition kMlfqTimeSliceUs :: u64 where "kMlfqTimeSliceUs = 1000"

text \<open>The completion callback. \<open>None\<close> is the assertion that the coroutine is waiting.\<close>

definition OnCoPollEvent :: "u16 \<Rightarrow> co_sys \<Rightarrow> co_sys option" where
  "OnCoPollEvent event s =
     (let c = co s;
          demote = kMlfqTimeSliceUs < m_last_run_us c;
          dem = (if demote then (if m_mlfq_demotions c < 3 then m_mlfq_demotions c + 1 else m_mlfq_demotions c)
                 else if 0 < m_mlfq_demotions c then m_mlfq_demotions c - 1 else m_mlfq_demotions c);
          prio0 = (if demote then CO_PRIORITY_LOW else CO_PRIORITY_NORMAL)
      in case m_await_event c of
        None \<Rightarrow> None
      | Some e \<Rightarrow>
          let resume_event = NormalizeTriggerEvent event;
              prio = (if resume_event AND POLL_EVENT_TIMEOUT \<noteq> 0 \<or> resume_event AND POLL_EVENT_CANCELLED \<noteq> 0
                      then CO_PRIORITY_CRITICAL else prio0)
          in Some (s \<lparr>co := c \<lparr>m_mlfq_demotions := dem, m_last_resume_event := ucast resume_event,
                     m_last_wait_fd := m_fd (evs (poll s) e), m_last_wait_epoch := m_wait_epoch (evs (poll s) e),
                     m_parked_us := 0, m_await_event := None, m_yield_disposition := MANUAL\<rparr>,
                   activated := activated s @ [prio]\<rparr>))"

text \<open>\<open>CommitYield\<close>, run by the Processer after the switch back. When the event was triggered
  before the park, \<open>CommitPark\<close> completes it here and the callback runs at once.\<close>

definition CommitYield :: "co_sys \<Rightarrow> (CoroutineYieldDisposition \<times> co_sys) option" where
  "CommitYield s =
     (if m_run_status (co s) = CO_FINAL
      then Some (YIELD_FINAL, s \<lparr>co := (co s) \<lparr>m_yield_disposition := YIELD_FINAL\<rparr>\<rparr>)
      else let d = m_yield_disposition (co s) in
        if d = EVENT_WAIT then
          (case m_await_event (co s) of
             None \<Rightarrow> None
           | Some e \<Rightarrow> (case CommitPark e (poll s) of (done, p) \<Rightarrow>
               if done then map_option (\<lambda>s'. (d, s'))
                  (OnCoPollEvent (GetCoPollEventFlags (m_state (evs p e))) (s \<lparr>poll := p\<rparr>))
               else Some (d, s \<lparr>poll := p\<rparr>)))
        else Some (d, s))"

definition FdWaitEpochValid :: "int \<Rightarrow> co_sys \<Rightarrow> bool" where
  "FdWaitEpochValid fd s =
     (if m_last_resume_event (co s) AND ucast POLL_EVENT_CLOSED \<noteq> 0 then False
      else if m_last_wait_fd (co s) < 0 \<or> m_last_wait_fd (co s) \<noteq> fd then True
      else FdEpoch fd (poll s) = m_last_wait_epoch (co s))"

definition GetWaitInfo :: "u64 \<Rightarrow> co_sys \<Rightarrow> (u16 \<times> int \<times> int \<times> u64) option" where
  "GetWaitInfo now s =
     (case m_await_event (co s) of
        None \<Rightarrow> None
      | Some e \<Rightarrow> if m_parked_us (co s) = 0 then None
          else let we = GetEvent e (poll s) in
            Some (we, if we AND (POLL_EVENT_READABLE OR POLL_EVENT_WRITEABLE) \<noteq> 0 then m_fd (evs (poll s) e) else -1,
              if 0 < m_timeout (evs (poll s) e) then m_timeout (evs (poll s) e) else 0,
              now - m_parked_us (co s)))"

section \<open>The resume loop of Context\<close>

datatype YieldCheckStatus = NO_CHECK | CHECK_SUCCESS | CHECK_FAILED

text \<open>\<open>body r c\<close> switches into the coroutine with the check result \<open>r\<close> it will see and runs it to
  its next yield, returning the on-yield callback it left (none for a plain yield).\<close>

partial_function (option) resume_loop ::
  "(YieldCheckStatus \<Rightarrow> 'c \<Rightarrow> ('c \<Rightarrow> bool \<times> 'c) option \<times> 'c) \<Rightarrow> ('c \<Rightarrow> bool \<times> 'c) option \<Rightarrow> 'c
    \<Rightarrow> (YieldCheckStatus \<times> 'c) option" where
  "resume_loop body cb c = (case cb of
       None \<Rightarrow> Some (NO_CHECK, c)
     | Some f \<Rightarrow> (case f c of (ok, c') \<Rightarrow>
         if ok then Some (CHECK_SUCCESS, c')
         else (case body CHECK_FAILED c' of (cb', c'') \<Rightarrow> resume_loop body cb' c'')))"

definition ContextResume ::
  "(YieldCheckStatus \<Rightarrow> 'c \<Rightarrow> ('c \<Rightarrow> bool \<times> 'c) option \<times> 'c) \<Rightarrow> YieldCheckStatus \<Rightarrow> 'c
    \<Rightarrow> (YieldCheckStatus \<times> 'c) option" where
  "ContextResume body r c = (case body r c of (cb, c') \<Rightarrow> resume_loop body cb c')"

section \<open>Cancellation against a wait in progress\<close>

text \<open>One coroutine that repeatedly prepares, registers and commits waits, any number of threads
  inside \<open>RequestCancel\<close> (each at one of its three atomic actions), and an event system that takes
  any of its steps. \<open>rpc\<close> is the progress of the coroutine's current wait.\<close>

datatype can_pc = CanIdle | CanStored | CanTriggering nat
datatype wait_pc = WaitNone | WaitPrepared | WaitChecked

record can_sys =
  sys :: co_sys
  cpc :: "nat \<Rightarrow> can_pc"
  wpc :: wait_pc

datatype can_event =
    KPrepare nat int
  | KCheck
  | KPoll poll_event
  | KWake
  | KRegistFailed
  | KCancelStore nat
  | KCancelRead nat
  | KCancelTrigger nat

definition with_poll :: "poll_sys \<Rightarrow> can_sys \<Rightarrow> can_sys" where
  "with_poll p s = s \<lparr>sys := (sys s) \<lparr>poll := p\<rparr>\<rparr>"

abbreviation await :: "can_sys \<Rightarrow> nat option" where
  "await s \<equiv> m_await_event (co (sys s))"

fun can_exec :: "can_event \<Rightarrow> can_sys \<Rightarrow> can_sys option" where
  "can_exec (KPrepare e key) s =
     (if wpc s = WaitNone then
        (case RegistCustom e key (sys s) of
           (None, _) \<Rightarrow> None
         | (Some _, t) \<Rightarrow> Some (s \<lparr>sys := t, wpc := WaitPrepared\<rparr>))
      else None)"
| "can_exec KCheck s =
     (if wpc s = WaitPrepared then
        (case await s of None \<Rightarrow> None
         | Some e \<Rightarrow> Some (s \<lparr>sys := regist_precheck e (sys s), wpc := WaitChecked\<rparr>))
      else None)"
| "can_exec (KPoll ev) s =
     (case poll_exec ev (poll (sys s)) of None \<Rightarrow> None | Some p \<Rightarrow> Some (with_poll p s))"
| "can_exec KWake s =
     (case await s of None \<Rightarrow> None
      | Some e \<Rightarrow>
         if phase (poll (sys s)) e = Some FINAL
         then (case OnCoPollEvent (GetCoPollEventFlags (m_state (evs (poll (sys s)) e))) (sys s) of
             None \<Rightarrow> None | Some t \<Rightarrow> Some (s \<lparr>sys := t, wpc := WaitNone\<rparr>))
         else None)"
| "can_exec KRegistFailed s =
     (case await s of None \<Rightarrow> None
      | Some e \<Rightarrow>
         if phase (poll (sys s)) e = Some CANCELLED
         then Some (s \<lparr>sys := (sys s) \<lparr>co := (co (sys s)) \<lparr>m_await_event := None, m_yield_disposition := MANUAL\<rparr>\<rparr>,
                      wpc := WaitNone\<rparr>)
         else None)"
| "can_exec (KCancelStore k) s =
     (if cpc s k = CanIdle
      then Some (s \<lparr>sys := cancel_store (sys s), cpc := (cpc s) (k := CanStored)\<rparr>)
      else None)"
| "can_exec (KCancelRead k) s =
     (if cpc s k = CanStored
      then Some (s \<lparr>cpc := (cpc s) (k := (case cancel_target (sys s) of None \<Rightarrow> CanIdle | Some e \<Rightarrow> CanTriggering e))\<rparr>)
      else None)"
| "can_exec (KCancelTrigger k) s =
     (case cpc s k of
        CanTriggering e \<Rightarrow> Some (s \<lparr>sys := cancel_trigger e (sys s), cpc := (cpc s) (k := CanIdle)\<rparr>)
      | _ \<Rightarrow> None)"

definition can_init :: can_sys where
  "can_init = \<lparr>sys = \<lparr>co = CreateCoroutine, poll = poll_init, activated = []\<rparr>, cpc = \<lambda>_. CanIdle, wpc = WaitNone\<rparr>"

definition undecided :: "poll_sys \<Rightarrow> nat \<Rightarrow> bool" where
  "undecided p e \<longleftrightarrow> phase p e \<in> {Some INITED, Some ARMING, Some ARMED, Some PARKED}"

definition can_inv :: "can_sys \<Rightarrow> bool" where
  "can_inv s \<longleftrightarrow> poll_inv (poll (sys s)) \<and> (wpc s = WaitNone \<longleftrightarrow> await s = None) \<and>
     (wpc s = WaitChecked \<and> m_cancel_requested (co (sys s)) \<longrightarrow>
       (\<forall>e. await s = Some e \<and> undecided (poll (sys s)) e \<longrightarrow> (\<exists>k. cpc s k \<in> {CanStored, CanTriggering e})))"

lemma undecided_step: "poll_inv p \<Longrightarrow> poll_exec ev p = Some p' \<Longrightarrow> undecided p' e \<Longrightarrow> undecided p e"
proof -
  assume a: "poll_inv p" "poll_exec ev p = Some p'" "undecided p' e"
  obtain q f where w: "m_state (evs p e) = PackCoPollEventState q f" using a(1) by (rule ev_invE)
  have n: "word_next (m_state (evs p e)) (m_state (evs p' e))" using poll_word_step a(1,2) by blast
  then show ?thesis using a(3) w
    by (cases q) (auto simp: undecided_def phase_def word_next_def phase_next_decided)
qed

lemma undecided_trigger: "f \<noteq> 0 \<Longrightarrow> \<not> undecided (snd (trigger_cas e f p)) e"
  by (auto simp: undecided_def trigger_cas_def phase_def)

lemma undecided_trigger_other: "undecided (snd (trigger_cas e' f p)) e \<Longrightarrow> undecided p e"
  by (cases "e' = e") (auto simp: undecided_def trigger_cas_def phase_def split: if_splits)

lemma cancelled_neq_0 [simp]: "POLL_EVENT_CANCELLED \<noteq> 0"
  by (simp add: poll_bits)

lemma OnCoPollEvent_keeps: "OnCoPollEvent f s = Some t \<Longrightarrow>
   m_await_event (co t) = None \<and> poll t = poll s \<and> m_cancel_requested (co t) = m_cancel_requested (co s)"
  unfolding OnCoPollEvent_def Let_def by (cases "m_await_event (co s)") (simp, clarsimp)

lemma can_init_inv: "can_inv can_init"
  by (simp add: can_inv_def can_init_def poll_init_inv CreateCoroutine_def)

lemma can_step_inv:
  assumes inv: "can_inv s" and ex: "can_exec ev s = Some s'" shows "can_inv s'"
proof (cases ev)
  case (KPrepare e key)
  then show ?thesis using inv ex inv_InitCustomEvent [of "poll (sys s)" e key]
    by (auto simp: can_inv_def RegistCustom_def split: if_splits prod.splits)
next
  case KCheck
  then show ?thesis using inv ex
    by (auto simp: can_inv_def regist_precheck_def cancel_trigger_def inv_trigger_cas undecided_trigger split: if_splits option.splits)
next
  case (KPoll pe)
  then obtain p where p: "poll_exec pe (poll (sys s)) = Some p" "s' = with_poll p s"
    using ex by (auto split: option.splits)
  have "poll_inv p" using inv p poll_step_inv by (auto simp: can_inv_def)
  moreover have "undecided (poll (sys s)) e" if "undecided p e" for e
    using that undecided_step p inv by (auto simp: can_inv_def)
  ultimately show ?thesis using inv p by (auto simp: can_inv_def with_poll_def)
next
  case KWake
  then obtain f t where t: "OnCoPollEvent f (sys s) = Some t" "s' = s \<lparr>sys := t, wpc := WaitNone\<rparr>"
    using ex by (auto split: option.splits if_splits)
  then show ?thesis using inv OnCoPollEvent_keeps [OF t(1)] by (simp add: can_inv_def)
next
  case (KCancelTrigger k)
  then obtain e where e: "cpc s k = CanTriggering e"
    "s' = s \<lparr>sys := cancel_trigger e (sys s), cpc := (cpc s) (k := CanIdle)\<rparr>"
    using ex by (auto split: can_pc.splits)
  have "\<exists>k'. cpc s' k' \<in> {CanStored, CanTriggering e'}"
    if a: "wpc s' = WaitChecked" "m_cancel_requested (co (sys s'))" "await s' = Some e'" "undecided (poll (sys s')) e'" for e'
  proof -
    have ne: "e' \<noteq> e" using a(4) e undecided_trigger by (auto simp: cancel_trigger_def)
    have "undecided (poll (sys s)) e'" using a(4) e undecided_trigger_other by (auto simp: cancel_trigger_def)
    then obtain k' where "cpc s k' \<in> {CanStored, CanTriggering e'}"
      using inv a e by (auto simp: can_inv_def cancel_trigger_def)
    then show ?thesis using e ne by (intro exI [of _ k']) auto
  qed
  then show ?thesis using inv e by (auto simp: can_inv_def cancel_trigger_def inv_trigger_cas)
next
  case (KCancelRead k)
  then have k: "cpc s k = CanStored"
    "s' = s \<lparr>cpc := (cpc s) (k := (case cancel_target (sys s) of None \<Rightarrow> CanIdle | Some e \<Rightarrow> CanTriggering e))\<rparr>"
    using ex by (auto split: if_splits)
  then show ?thesis using inv by (auto simp: can_inv_def cancel_target_def)
qed (use inv ex in \<open>auto simp: can_inv_def cancel_store_def split: if_splits option.splits\<close>)

interpretation can_machine: invariant_machine can_exec can_inv
  by unfold_locales (rule can_step_inv)

text \<open>Run without interruption the three actions are the call, and the registration callback begins with the check.\<close>

lemma RequestCancel_Trigger:
  "RequestCancel s = (let s1 = cancel_store s in case m_await_event (co s) of None \<Rightarrow> s1
     | Some e \<Rightarrow> s1 \<lparr>poll := snd (Trigger e POLL_EVENT_CANCELLED (poll s1))\<rparr>)"
  by (auto simp: RequestCancel_def Let_def cancel_store_def cancel_target_def cancel_trigger_def Trigger_def trigger_cas_def
      split: option.splits)

section \<open>The resume loop\<close>

lemma resume_loop_None [simp]: "resume_loop body None c = Some (NO_CHECK, c)"
  by (simp add: resume_loop.simps)

text \<open>A fuel-bounded unrolling: at most \<open>n\<close> failed checks.\<close>

fun checks_settle :: "(YieldCheckStatus \<Rightarrow> 'c \<Rightarrow> ('c \<Rightarrow> bool \<times> 'c) option \<times> 'c) \<Rightarrow> nat
    \<Rightarrow> ('c \<Rightarrow> bool \<times> 'c) option \<Rightarrow> 'c \<Rightarrow> bool" where
  "checks_settle body n None c = True"
| "checks_settle body 0 (Some f) c = fst (f c)"
| "checks_settle body (Suc n) (Some f) c =
     (fst (f c) \<or> (case body CHECK_FAILED (snd (f c)) of (cb, c') \<Rightarrow> checks_settle body n cb c'))"

lemma resume_loop_total: "checks_settle body n cb c \<Longrightarrow> \<exists>r c'. resume_loop body cb c = Some (r, c') \<and> r \<noteq> CHECK_FAILED"
proof (induction body n cb c rule: checks_settle.induct)
  case (2 body f c)
  then show ?case by (subst resume_loop.simps) (auto split: prod.splits)
next
  case (3 body n f c)
  obtain ok c1 where f: "f c = (ok, c1)" by fastforce
  obtain cb2 c2 where b: "body CHECK_FAILED c1 = (cb2, c2)" by fastforce
  show ?case
  proof (cases ok)
    case True
    then show ?thesis using f by (subst resume_loop.simps) simp
  next
    case False
    then have "checks_settle body n cb2 c2" using 3(2) f b by simp
    then have "\<exists>r c'. resume_loop body cb2 c2 = Some (r, c') \<and> r \<noteq> CHECK_FAILED"
      using "3.IH" f b False by auto
    then show ?thesis using f b False by (subst resume_loop.simps) simp
  qed
qed simp

section \<open>Properties\<close>

text \<open>C11. Cancellation is never lost: in every reachable interleaving, once no thread is inside
  \<open>RequestCancel\<close> and the request has been made, a coroutine past the pre-registration check has
  no undecided wait: its event is pending, completing, final or cancelled, never parked.\<close>

theorem cancel_not_lost:
  assumes "reaches can_exec can_init s" "m_cancel_requested (co (sys s))" "\<forall>k. cpc s k = CanIdle"
    and "wpc s = WaitChecked" "m_await_event (co (sys s)) = Some e"
  shows "phase (poll (sys s)) e \<in> {Some PENDING, Some TRIGGERING, Some FINAL, Some CANCELLED}"
proof -
  have inv: "can_inv s" by (rule can_machine.reaches_inv [OF assms(1) can_init_inv])
  then have "\<not> undecided (poll (sys s)) e" using assms by (auto simp: can_inv_def)
  moreover obtain q f where "phase (poll (sys s)) e = Some q"
    using inv ev_invE [of "poll (sys s)" e] by (auto simp: can_inv_def)
  ultimately show ?thesis by (cases q) (auto simp: undecided_def)
qed

definition can_demo :: "can_event list" where
  "can_demo = [KPrepare 1 2, KCheck, KPoll (PRegBegin 1), KCancelStore 0, KPoll (PRegListen 1 (ListenRet 0)),
     KCancelRead 0, KPoll (PRegTrack 1), KPoll (PCommitPark 1), KCancelTrigger 0]"

theorem cancel_not_lost_witness:
  "\<exists>s. run can_exec can_demo can_init = Some s \<and> m_await_event (co (sys s)) = Some 1 \<and>
     phase (poll (sys s)) 1 \<in> {Some PENDING, Some TRIGGERING, Some FINAL, Some CANCELLED}"
proof -
  have "case run can_exec can_demo can_init of None \<Rightarrow> False
    | Some s \<Rightarrow> m_cancel_requested (co (sys s)) \<and> wpc s = WaitChecked \<and> m_await_event (co (sys s)) = Some 1"
    by code_simp
  then obtain s where s: "run can_exec can_demo can_init = Some s" "m_cancel_requested (co (sys s))"
    "wpc s = WaitChecked" "m_await_event (co (sys s)) = Some 1"
    by (auto split: option.splits)
  have c: "cpc t = (\<lambda>_. CanIdle)(0 := CanIdle)" if "run can_exec can_demo can_init = Some t" for t
    using that by (auto simp: can_demo_def can_init_def RegistCustom_def InitCustomEvent_def phase_def poll_init_def co_event0_def
      with_poll_def cancel_target_def cancel_store_def regist_precheck_def CreateCoroutine_def split: option.splits if_splits prod.splits)
  have "\<forall>k. cpc s k = CanIdle" using c [OF s(1)] by simp
  from cancel_not_lost [OF run_reaches [OF s(1)] s(2) this s(3,4)] s show ?thesis by blast
qed

text \<open>A wait begun under a pending cancellation does not suspend: the registration callback
  latches the cancelled mask, and committing the yield completes the event at once, clears the wait
  and re-queues the coroutine with critical priority and the cancelled bit as its resume reason.\<close>

lemma precancelled_wait_returns:
  assumes "m_cancel_requested (co s)" "m_await_event (co s) = Some e"
    and "m_state (evs (poll s) e) = PackCoPollEventState INITED 0"
    and "m_run_status (co s) = CO_SUSPEND" "m_yield_disposition (co s) = EVENT_WAIT"
  shows "\<exists>s1 s2. RegistAwaitEvent out now s = (True, s1) \<and> CommitYield s1 = Some (EVENT_WAIT, s2) \<and>
    m_await_event (co s2) = None \<and> activated s2 = activated s @ [CO_PRIORITY_CRITICAL] \<and>
    m_last_resume_event (co s2) = ucast POLL_EVENT_CANCELLED \<and> completed (poll s2) = completed (poll s) @ [(e, POLL_EVENT_CANCELLED)]"
proof -
  define p1 where "p1 = set_reg e RegDone (set_state e PENDING POLL_EVENT_CANCELLED (poll s))"
  define s1 where "s1 = s \<lparr>co := (co s) \<lparr>m_parked_us := now\<rparr>, poll := p1\<rparr>"
  have r: "RegistAwaitEvent out now s = (True, s1)"
    using assms by (simp add: RegistAwaitEvent_def Trigger_def trigger_cas_def phase_def Regist_def
        regist_begin_def s1_def p1_def)
  have n: "NormalizeTriggerEvent POLL_EVENT_CANCELLED = POLL_EVENT_CANCELLED"
    "POLL_EVENT_CANCELLED AND POLL_EVENT_CANCELLED \<noteq> 0"
    by (simp_all add: NormalizeTriggerEvent_def poll_bits)
  have "\<exists>s2. CommitYield s1 = Some (EVENT_WAIT, s2) \<and>
    m_await_event (co s2) = None \<and> activated s2 = activated s @ [CO_PRIORITY_CRITICAL] \<and>
    m_last_resume_event (co s2) = ucast POLL_EVENT_CANCELLED \<and> completed (poll s2) = completed (poll s) @ [(e, POLL_EVENT_CANCELLED)]"
    using assms n by (simp add: CommitYield_def s1_def p1_def Let_def CommitPark_def phase_def OnCoPollEvent_def)
  then show ?thesis using r by blast
qed

definition precancel_demo :: co_sys where
  "precancel_demo = \<lparr>co = CreateCoroutine \<lparr>m_cancel_requested := True, m_await_event := Some 1,
       m_run_status := CO_SUSPEND, m_yield_disposition := EVENT_WAIT\<rparr>, poll = poll_init, activated = []\<rparr>"

text \<open>Waking up: the resume reason is the normalised mask, the fd and its generation are those
  of the consumed wait, the demotion counter moves by at most one and stays at most 3, and the
  priority is critical for a timeout or a cancellation, otherwise low after a run longer than the
  1000 us slice and normal after a shorter one. Later, \<open>FdWaitEpochValid\<close> allows a retry on the
  waited descriptor exactly when the wait did not end by a close and the generation has not moved.\<close>

lemma wake_reason_and_epoch:
  assumes "m_await_event (co s) = Some e" "m_mlfq_demotions (co s) \<le> 3"
  shows "\<exists>s'. OnCoPollEvent ev s = Some s' \<and> m_await_event (co s') = None \<and>
    m_last_resume_event (co s') = ucast (NormalizeTriggerEvent ev) \<and> m_mlfq_demotions (co s') \<le> 3 \<and>
    (activated s' = activated s @ [if bit ev 0 \<or> bit ev 8 then CO_PRIORITY_CRITICAL
       else if 1000 < m_last_run_us (co s) then CO_PRIORITY_LOW else CO_PRIORITY_NORMAL]) \<and>
    (\<forall>p fd. 0 \<le> fd \<and> fd = m_fd (evs (poll s) e) \<longrightarrow>
       FdWaitEpochValid fd (s' \<lparr>poll := p\<rparr>) = (\<not> bit ev 9 \<and> FdEpoch fd p = m_wait_epoch (evs (poll s) e)))"
proof -
  have b: "NormalizeTriggerEvent ev AND POLL_EVENT_TIMEOUT \<noteq> 0 \<longleftrightarrow> bit ev 0"
    "NormalizeTriggerEvent ev AND POLL_EVENT_CANCELLED \<noteq> 0 \<longleftrightarrow> bit ev 8"
    using and_bit_nz [of 0 "NormalizeTriggerEvent ev"] and_bit_nz [of 8 "NormalizeTriggerEvent ev"]
    by (simp_all add: poll_bits bit_Normalize)
  have c: "(ucast (NormalizeTriggerEvent ev) :: u32) AND ucast POLL_EVENT_CLOSED \<noteq> 0 \<longleftrightarrow> bit ev 9"
    using and_bit_nz [of 9 "ucast (NormalizeTriggerEvent ev) :: u32"]
    by (simp add: poll_bits bit_ucast_iff bit_Normalize)
  show ?thesis
    using assms b c by (auto simp: OnCoPollEvent_def Let_def FdWaitEpochValid_def kMlfqTimeSliceUs_def)
qed

text \<open>The resume loop of the context hands every pending on-yield callback to an executor: if
  the checks fail at most \<open>n\<close> times in a row before one succeeds or none is pending, \<open>Resume\<close>
  returns, and it returns only with no callback pending or a successful check, never leaving the
  coroutine suspended behind a failed one.\<close>

lemma context_resume_settles:
  assumes "checks_settle body n (fst (body r c)) (snd (body r c))"
  shows "\<exists>r' c'. ContextResume body r c = Some (r', c') \<and> r' \<noteq> CHECK_FAILED"
  using resume_loop_total [OF assms] by (cases "body r c") (simp add: ContextResume_def)

definition retry_body :: "YieldCheckStatus \<Rightarrow> nat \<Rightarrow> (nat \<Rightarrow> bool \<times> nat) option \<times> nat" where
  "retry_body r k = (if r = CHECK_FAILED \<and> k = 0 then (None, 0) else (Some (\<lambda>j. (False, j - 1)), k))"

end
