(* ===== verification/Notify.thy ===== *)
theory Notify
  imports PollEvent
begin

text \<open>
  The contract of a one-shot event as the synchronisation primitives use it. A primitive keeps a
  queue of events (a slot cleared after a failed set-up is a tombstone) and wakes waiters by
  \<open>Trigger\<close>, which succeeds exactly for an event nobody has decided yet. The locale \<open>one_shot\<close>
  states that contract; it is interpreted on the real \<open>Trigger\<close> of \<open>CoPollEvent\<close> and on the
  store of outcomes the primitives' machines carry, and \<open>trigger_refines\<close> connects the two.
\<close>

section \<open>Outcomes\<close>

datatype outcome = Waiting | Won u16 | Gone

type_synonym event_store = "nat \<Rightarrow> outcome"

definition ev_trigger :: "nat \<Rightarrow> u16 \<Rightarrow> event_store \<Rightarrow> int \<times> event_store" where
  "ev_trigger e f st = (if f \<noteq> 0 \<and> st e = Waiting then (0, st (e := Won f)) else (-1, st))"

text \<open>How the set-up of a wait can end: the coroutine is parked on a fresh event; the wait was
  refused before anything was queued; the queued event could not be registered; or an allocation
  threw and the queue slot was cleared.\<close>

datatype wait_setup = WaitParked | WaitRefused | WaitFailed | WaitThrew

lemma custom_neq_0 [simp]: "POLL_EVENT_CUSTOM \<noteq> 0"
  by (simp add: poll_bits)

lemma custom_not_timeout: "POLL_EVENT_CUSTOM AND (POLL_EVENT_TIMEOUT OR POLL_EVENT_CANCELLED) = 0"
  by (simp add: poll_bits)

text \<open>What the state word of an event says about its wait.\<close>

definition outcome_of :: "u64 \<Rightarrow> outcome" where
  "outcome_of w = (case GetCoPollEventPhase w of
       Some INITED \<Rightarrow> Waiting | Some ARMING \<Rightarrow> Waiting | Some ARMED \<Rightarrow> Waiting | Some PARKED \<Rightarrow> Waiting
     | Some PENDING \<Rightarrow> Won (GetCoPollEventFlags w) | Some TRIGGERING \<Rightarrow> Won (GetCoPollEventFlags w)
     | Some FINAL \<Rightarrow> Won (GetCoPollEventFlags w)
     | _ \<Rightarrow> Gone)"

definition abs_store :: "poll_sys \<Rightarrow> event_store" where
  "abs_store s = (\<lambda>e. outcome_of (m_state (evs s e)))"

lemma outcome_of_Pack [simp]: "outcome_of (PackCoPollEventState p f) =
   (if p \<in> {INITED, ARMING, ARMED, PARKED} then Waiting else if p = CANCELLED then Gone else Won f)"
  by (cases p) (simp_all add: outcome_of_def)

section \<open>Scanning a queue of waiters\<close>

text \<open>\<open>notify_one\<close>: pop slots from the front, skip tombstones, stop at the first event whose
  \<open>Trigger\<close> returns 0.\<close>

fun notify_one :: "(nat \<Rightarrow> u16 \<Rightarrow> 's \<Rightarrow> int \<times> 's) \<Rightarrow> u16 \<Rightarrow> nat option list \<Rightarrow> 's \<Rightarrow> bool \<times> nat option list \<times> 's" where
  "notify_one trig f [] s = (False, [], s)"
| "notify_one trig f (None # q) s = notify_one trig f q s"
| "notify_one trig f (Some e # q) s = (case trig e f s of (r, s') \<Rightarrow>
     if r = 0 then (True, q, s') else notify_one trig f q s')"

text \<open>\<open>notify_all\<close>: trigger every event of the queue.\<close>

fun notify_all :: "(nat \<Rightarrow> u16 \<Rightarrow> 's \<Rightarrow> int \<times> 's) \<Rightarrow> u16 \<Rightarrow> nat option list \<Rightarrow> 's \<Rightarrow> 's" where
  "notify_all trig f [] s = s"
| "notify_all trig f (None # q) s = notify_all trig f q s"
| "notify_all trig f (Some e # q) s = notify_all trig f q (snd (trig e f s))"

locale one_shot =
  fixes trigger :: "nat \<Rightarrow> u16 \<Rightarrow> 's \<Rightarrow> int \<times> 's" and out :: "'s \<Rightarrow> nat \<Rightarrow> outcome" and ok :: "'s \<Rightarrow> bool"
  assumes trigger_ok: "ok s \<Longrightarrow> ok (snd (trigger e f s))"
    and trigger_win: "ok s \<Longrightarrow> f \<noteq> 0 \<Longrightarrow> out s e = Waiting \<Longrightarrow>
      fst (trigger e f s) = 0 \<and> out (snd (trigger e f s)) = (out s) (e := Won f)"
    and trigger_lose: "ok s \<Longrightarrow> out s e \<noteq> Waiting \<Longrightarrow>
      fst (trigger e f s) \<noteq> 0 \<and> out (snd (trigger e f s)) = out s"
begin

text \<open>A scan wakes the first undecided waiter of the queue and nobody else, or consumes a queue
  without one.\<close>

lemma notify_one_spec:
  assumes "ok s" "f \<noteq> 0" "notify_one trigger f q s = (woke, q', s')"
  shows "ok s'"
    "woke \<Longrightarrow> \<exists>pre e. q = pre @ Some e # q' \<and> out s e = Waiting \<and>
         (\<forall>x. Some x \<in> set pre \<longrightarrow> out s x \<noteq> Waiting) \<and> out s' = (out s) (e := Won f)"
    "\<not> woke \<Longrightarrow> q' = [] \<and> (\<forall>x. Some x \<in> set q \<longrightarrow> out s x \<noteq> Waiting) \<and> out s' = out s"
proof -
  have "ok s' \<and> (if woke then \<exists>pre e. q = pre @ Some e # q' \<and> out s e = Waiting \<and>
         (\<forall>x. Some x \<in> set pre \<longrightarrow> out s x \<noteq> Waiting) \<and> out s' = (out s) (e := Won f)
     else q' = [] \<and> (\<forall>x. Some x \<in> set q \<longrightarrow> out s x \<noteq> Waiting) \<and> out s' = out s)"
    using assms(1,3)
  proof (induction q arbitrary: s)
    case (Cons x q)
    show ?case
    proof (cases x)
      case None
      with Cons have "ok s' \<and> (if woke then \<exists>pre e. q = pre @ Some e # q' \<and> out s e = Waiting \<and>
          (\<forall>x. Some x \<in> set pre \<longrightarrow> out s x \<noteq> Waiting) \<and> out s' = (out s) (e := Won f)
        else q' = [] \<and> (\<forall>x. Some x \<in> set q \<longrightarrow> out s x \<noteq> Waiting) \<and> out s' = out s)" by simp
      then show ?thesis unfolding None by (simp split: if_splits) (metis append_Cons option.distinct(1) set_ConsD)
    next
      case (Some e)
      obtain r t where t: "trigger e f s = (r, t)" by fastforce
      show ?thesis
      proof (cases "out s e = Waiting")
        case True
        then have "r = 0" "out t = (out s) (e := Won f)" "ok t"
          using trigger_win [OF Cons.prems(1) assms(2) True] trigger_ok [OF Cons.prems(1), of e f] t by auto
        then show ?thesis using Cons.prems Some t True
          by (auto intro: exI [of _ "[]"])
      next
        case False
        then have l: "r \<noteq> 0" "out t = out s" "ok t"
          using trigger_lose [OF Cons.prems(1) False] trigger_ok [OF Cons.prems(1), of e f] t
          by (metis fst_conv, metis snd_conv, metis snd_conv)
        have n: "notify_one trigger f q t = (woke, q', s')" using Cons.prems(2) t Some l(1) by simp
        have "ok s' \<and> (if woke then \<exists>pre e. q = pre @ Some e # q' \<and> out s e = Waiting \<and>
          (\<forall>x. Some x \<in> set pre \<longrightarrow> out s x \<noteq> Waiting) \<and> out s' = (out s) (e := Won f)
        else q' = [] \<and> (\<forall>x. Some x \<in> set q \<longrightarrow> out s x \<noteq> Waiting) \<and> out s' = out s)"
          using Cons.IH [OF l(3) n] unfolding l(2) .
        then show ?thesis unfolding Some using False
          by (simp split: if_splits) (metis append_Cons option.inject set_ConsD)
      qed
    qed
  qed simp
  then show "ok s'"
    "woke \<Longrightarrow> \<exists>pre e. q = pre @ Some e # q' \<and> out s e = Waiting \<and>
         (\<forall>x. Some x \<in> set pre \<longrightarrow> out s x \<noteq> Waiting) \<and> out s' = (out s) (e := Won f)"
    "\<not> woke \<Longrightarrow> q' = [] \<and> (\<forall>x. Some x \<in> set q \<longrightarrow> out s x \<noteq> Waiting) \<and> out s' = out s"
    by auto
qed

lemma notify_all_spec:
  assumes "ok s" "f \<noteq> 0"
  shows "ok (notify_all trigger f q s)"
    "out (notify_all trigger f q s) = (\<lambda>e. if Some e \<in> set q \<and> out s e = Waiting then Won f else out s e)"
proof -
  have "ok (notify_all trigger f q s) \<and>
    out (notify_all trigger f q s) = (\<lambda>e. if Some e \<in> set q \<and> out s e = Waiting then Won f else out s e)"
    using assms(1)
  proof (induction q arbitrary: s)
    case (Cons x q)
    show ?case
    proof (cases x)
      case (Some e)
      have ok: "ok (snd (trigger e f s))" by (rule trigger_ok [OF Cons.prems])
      have "out (snd (trigger e f s)) = (if out s e = Waiting then (out s) (e := Won f) else out s)"
        using trigger_win [OF Cons.prems assms(2)] trigger_lose [OF Cons.prems] by auto
      then show ?thesis using Cons.IH [OF ok] Some by (auto simp: fun_eq_iff)
    qed (use Cons in \<open>simp add: fun_eq_iff\<close>)
  qed simp
  then show "ok (notify_all trigger f q s)"
    "out (notify_all trigger f q s) = (\<lambda>e. if Some e \<in> set q \<and> out s e = Waiting then Won f else out s e)"
    by auto
qed

end

section \<open>The two providers\<close>

interpretation store_events: one_shot ev_trigger "\<lambda>s. s" "\<lambda>_. True"
  by unfold_locales (auto simp: ev_trigger_def)

lemma Trigger_inv: "poll_inv s \<Longrightarrow> poll_inv (snd (Trigger i f s))"
proof -
  assume inv: "poll_inv s"
  then have c: "poll_inv (snd (trigger_cas i f s))" by (rule inv_trigger_cas)
  show ?thesis
  proof (cases "phase s i = Some PARKED \<and> f \<noteq> 0")
    case True
    then have "poll_inv (Complete i f (set_state i TRIGGERING f s))"
      using c by (intro inv_Complete) (simp_all add: trigger_cas_def)
    then show ?thesis using True by (simp add: Trigger_def trigger_cas_def)
  next
    case False
    then have "snd (Trigger i f s) = snd (trigger_cas i f s)" by (auto simp: Trigger_def trigger_cas_def)
    then show ?thesis using c by simp
  qed
qed

lemma abs_store_undecided: "poll_inv s \<Longrightarrow> abs_store s i = Waiting \<longleftrightarrow>
   phase s i \<in> {Some INITED, Some ARMING, Some ARMED, Some PARKED}"
proof -
  assume "poll_inv s"
  then obtain p f where "m_state (evs s i) = PackCoPollEventState p f" "phase s i = Some p" by (rule ev_invE)
  then show ?thesis by (auto simp: abs_store_def)
qed

lemma Trigger_abs: "poll_inv s \<Longrightarrow> f \<noteq> 0 \<Longrightarrow>
   fst (Trigger i f s) = fst (ev_trigger i f (abs_store s)) \<and>
   abs_store (snd (Trigger i f s)) = snd (ev_trigger i f (abs_store s))"
proof -
  assume a: "poll_inv s" "f \<noteq> 0"
  note u = abs_store_undecided [OF a(1), of i]
  show ?thesis
  proof (cases "abs_store s i = Waiting")
    case True
    then show ?thesis using u a(2)
      by (auto simp: Trigger_def trigger_cas_def ev_trigger_def abs_store_def fun_eq_iff)
  next
    case False
    then show ?thesis using u a(2)
      by (auto simp: Trigger_def trigger_cas_def ev_trigger_def)
  qed
qed

interpretation poll_events: one_shot Trigger abs_store poll_inv
proof unfold_locales
  fix s e f
  assume inv: "poll_inv s"
  then show "poll_inv (snd (Trigger e f s))" by (rule Trigger_inv)
  show "fst (Trigger e f s) = 0 \<and> abs_store (snd (Trigger e f s)) = (abs_store s) (e := Won f)"
    if "f \<noteq> 0" "abs_store s e = Waiting" using Trigger_abs [OF inv that(1), of e] that by (simp add: ev_trigger_def)
  show "fst (Trigger e f s) \<noteq> 0 \<and> abs_store (snd (Trigger e f s)) = abs_store s" if w: "abs_store s e \<noteq> Waiting"
  proof (cases "f = 0")
    case True
    then show ?thesis by (simp add: Trigger_def trigger_cas_def)
  next
    case False
    then show ?thesis using Trigger_abs [OF inv False, of e] w by (simp add: ev_trigger_def)
  qed
qed

text \<open>A scan over real events and the scan over their outcomes agree step by step.\<close>

lemma notify_one_abs: "poll_inv s \<Longrightarrow> f \<noteq> 0 \<Longrightarrow> notify_one Trigger f q s = (w, q', s') \<Longrightarrow>
   notify_one ev_trigger f q (abs_store s) = (w, q', abs_store s')"
proof (induction q arbitrary: s)
  case (Cons x q)
  show ?case
  proof (cases x)
    case (Some e)
    obtain r t where t: "Trigger e f s = (r, t)" by fastforce
    then have a: "ev_trigger e f (abs_store s) = (r, abs_store t)"
      using Trigger_abs [OF Cons.prems(1,2), of e] by (metis fst_conv prod.collapse snd_conv)
    have "poll_inv t" using Trigger_inv [OF Cons.prems(1), of e f] t by simp
    then show ?thesis using Cons t a Some by (auto split: if_splits)
  qed (use Cons in simp)
qed simp

section \<open>Properties\<close>

text \<open>Refinement: on every reachable event system, waking the first waiter of a queue with the
  real \<open>Trigger\<close> (state word, table, completion log) has the effect of the abstract scan on the
  outcomes of the events: it wakes the first undecided event of the queue with the given mask,
  changes the outcome of no other event, and reports failure only when no queued event was
  undecided.\<close>

lemma notify_refines:
  assumes "reaches poll_exec poll_init s" "f \<noteq> 0" "notify_one Trigger f q s = (woke, q', s')"
  shows "notify_one ev_trigger f q (abs_store s) = (woke, q', abs_store s') \<and>
    (woke \<longrightarrow> (\<exists>pre e. q = pre @ Some e # q' \<and> abs_store s e = Waiting \<and>
       (\<forall>x. Some x \<in> set pre \<longrightarrow> abs_store s x \<noteq> Waiting) \<and> abs_store s' = (abs_store s) (e := Won f))) \<and>
    (\<not> woke \<longrightarrow> (\<forall>x. Some x \<in> set q \<longrightarrow> abs_store s x \<noteq> Waiting) \<and> abs_store s' = abs_store s)"
proof -
  have inv: "poll_inv s" by (rule poll_reaches_inv [OF assms(1)])
  note spec = poll_events.notify_one_spec [OF inv assms(2,3)]
  show ?thesis using spec(2,3) notify_one_abs [OF inv assms(2,3)] by blast
qed

end
