(* ===== verification/MutexModel.thy ===== *)
theory MutexModel
  imports Notify
begin

text \<open>
  \<open>sync/CoMutex.cc\<close>. Every section between \<open>_SysLock\<close> and \<open>_SysUnLock\<close> (the suspending
  callback included, which releases the lock after the registration) is one atomic step of a
  machine over any number of coroutines. A wait owns a fresh event; its set-up can succeed, be
  refused, fail after queueing, or throw, which is an argument of the step.
\<close>

section \<open>Data\<close>

datatype CoMutexStatus = COMUTEX_LOCKED | COMUTEX_FREE

record co_mutex =
  m_status :: CoMutexStatus
  m_locked_co :: "co_id option"
  m_wait_event_queue :: "nat option list"

datatype lock_kind = LockWait | TryWait
datatype mx_pc = MxIdle | MxHolding | MxWaiting lock_kind nat | MxRetry

record mx_sys =
  mx :: co_mutex
  st :: event_store
  next_ev :: nat
  pcs :: "co_id \<Rightarrow> mx_pc"

definition mx_init :: mx_sys where
  "mx_init = \<lparr>mx = \<lparr>m_status = COMUTEX_FREE, m_locked_co = None, m_wait_event_queue = []\<rparr>,
     st = \<lambda>_. Gone, next_ev = 0, pcs = \<lambda>_. MxIdle\<rparr>"

definition set_pc :: "co_id \<Rightarrow> mx_pc \<Rightarrow> mx_sys \<Rightarrow> mx_sys" where
  "set_pc c p s = s \<lparr>pcs := (pcs s) (c := p)\<rparr>"

section \<open>Operations\<close>

definition NotifyOne :: "mx_sys \<Rightarrow> mx_sys" where
  "NotifyOne s = (case notify_one ev_trigger POLL_EVENT_CUSTOM (m_wait_event_queue (mx s)) (st s) of
     (_, q, t) \<Rightarrow> s \<lparr>mx := (mx s) \<lparr>m_wait_event_queue := q\<rparr>, st := t\<rparr>)"

definition OnLocked :: "co_id \<Rightarrow> mx_sys \<Rightarrow> mx_sys option" where
  "OnLocked c s = (if m_status (mx s) = COMUTEX_FREE
     then Some (set_pc c MxHolding (s \<lparr>mx := (mx s) \<lparr>m_locked_co := Some c, m_status := COMUTEX_LOCKED\<rparr>\<rparr>))
     else None)"

definition OnUnLocked :: "mx_sys \<Rightarrow> mx_sys" where
  "OnUnLocked s =
     (let s1 = NotifyOne (s \<lparr>mx := (mx s) \<lparr>m_status := COMUTEX_FREE\<rparr>\<rparr>) in
      s1 \<lparr>mx := (mx s1) \<lparr>m_locked_co := None\<rparr>\<rparr>)"

text \<open>\<open>_WaitUnLock\<close> and \<open>_WaitUnLockUnitlTimeout\<close> up to the suspension: a fresh event is queued.\<close>

definition push_wait :: "co_id \<Rightarrow> lock_kind \<Rightarrow> wait_setup \<Rightarrow> mx_pc \<Rightarrow> mx_sys \<Rightarrow> mx_sys" where
  "push_wait c k su retry s =
     (let e = next_ev s; q = m_wait_event_queue (mx s) in
      case su of
        WaitParked \<Rightarrow> set_pc c (MxWaiting k e) (s \<lparr>mx := (mx s) \<lparr>m_wait_event_queue := q @ [Some e]\<rparr>,
           st := (st s) (e := Waiting), next_ev := Suc e\<rparr>)
      | WaitRefused \<Rightarrow> set_pc c retry s
      | WaitFailed \<Rightarrow> set_pc c retry (s \<lparr>mx := (mx s) \<lparr>m_wait_event_queue := q @ [Some e]\<rparr>,
           st := (st s) (e := Gone), next_ev := Suc e\<rparr>)
      | WaitThrew \<Rightarrow> set_pc c MxIdle (s \<lparr>mx := (mx s) \<lparr>m_wait_event_queue := q @ [None]\<rparr>\<rparr>))"

text \<open>The loop of \<open>Lock\<close>, from its head with the system lock held to the next release of it.\<close>

definition lock_loop :: "co_id \<Rightarrow> wait_setup \<Rightarrow> mx_sys \<Rightarrow> mx_sys option" where
  "lock_loop c su s =
     (if m_status (mx s) = COMUTEX_LOCKED then Some (push_wait c LockWait su MxRetry s) else OnLocked c s)"

definition Lock :: "co_id \<Rightarrow> wait_setup \<Rightarrow> mx_sys \<Rightarrow> mx_sys option" where
  "Lock c su s = (if m_locked_co (mx s) = Some c then None else lock_loop c su s)"

definition UnLock :: "co_id \<Rightarrow> mx_sys \<Rightarrow> mx_sys" where
  "UnLock c s = set_pc c MxIdle (OnUnLocked s)"

definition TryLock :: "co_id \<Rightarrow> mx_sys \<Rightarrow> (int \<times> mx_sys) option" where
  "TryLock c s =
     (if m_locked_co (mx s) = Some c then None
      else if m_status (mx s) = COMUTEX_FREE then map_option (\<lambda>t. (0, t)) (OnLocked c s)
      else Some (-1, s))"

text \<open>\<open>TryLock(ms)\<close> up to the suspension (\<open>None\<close> as result: suspended) and after it, with the mask
  that woke the coroutine.\<close>

definition TryLock_ms :: "co_id \<Rightarrow> wait_setup \<Rightarrow> mx_sys \<Rightarrow> (int option \<times> mx_sys) option" where
  "TryLock_ms c su s =
     (if m_locked_co (mx s) = Some c then None
      else if m_status (mx s) = COMUTEX_LOCKED then
        Some (if su = WaitParked then None else Some (-1), push_wait c TryWait su MxIdle s)
      else map_option (\<lambda>t. (Some 0, t)) (OnLocked c s))"

definition TryLock_ms_resume :: "co_id \<Rightarrow> u16 \<Rightarrow> mx_sys \<Rightarrow> (int \<times> mx_sys) option" where
  "TryLock_ms_resume c f s =
     (if f AND (POLL_EVENT_TIMEOUT OR POLL_EVENT_CANCELLED) \<noteq> 0 then Some (1, set_pc c MxIdle s)
      else if m_status (mx s) \<noteq> COMUTEX_FREE then Some (-1, set_pc c MxIdle s)
      else map_option (\<lambda>t. (0, t)) (OnLocked c s))"

section \<open>The machine\<close>

datatype mx_event =
    MLock co_id wait_setup
  | MRelock co_id wait_setup
  | MUnLock co_id
  | MTryLock co_id
  | MTryLockMs co_id wait_setup
  | MTryResume co_id
  | MDecide nat u16

fun mx_exec :: "mx_event \<Rightarrow> mx_sys \<Rightarrow> mx_sys option" where
  "mx_exec (MLock c su) s = (if pcs s c = MxIdle then Lock c su s else None)"
| "mx_exec (MRelock c su) s = (case pcs s c of
       MxRetry \<Rightarrow> lock_loop c su s
     | MxWaiting LockWait e \<Rightarrow> (case st s e of Won _ \<Rightarrow> lock_loop c su s | _ \<Rightarrow> None)
     | _ \<Rightarrow> None)"
| "mx_exec (MUnLock c) s = (if pcs s c = MxHolding then Some (UnLock c s) else None)"
| "mx_exec (MTryLock c) s = (if pcs s c = MxIdle then map_option snd (TryLock c s) else None)"
| "mx_exec (MTryLockMs c su) s = (if pcs s c = MxIdle then map_option snd (TryLock_ms c su s) else None)"
| "mx_exec (MTryResume c) s = (case pcs s c of
       MxWaiting TryWait e \<Rightarrow> (case st s e of Won f \<Rightarrow> map_option snd (TryLock_ms_resume c f s) | _ \<Rightarrow> None)
     | _ \<Rightarrow> None)"
| "mx_exec (MDecide e f) s = (if st s e = Waiting \<and> f \<in> {POLL_EVENT_TIMEOUT, POLL_EVENT_CANCELLED}
     then Some (s \<lparr>st := (st s) (e := Won f)\<rparr>) else None)"

lemmas mx_defs = Lock_def lock_loop_def UnLock_def TryLock_def TryLock_ms_def TryLock_ms_resume_def OnLocked_def
  push_wait_def set_pc_def

section \<open>Invariant\<close>

definition mx_owner :: "mx_sys \<Rightarrow> bool" where
  "mx_owner s \<longleftrightarrow> (case m_status (mx s) of
       COMUTEX_FREE \<Rightarrow> m_locked_co (mx s) = None \<and> (\<forall>c. pcs s c \<noteq> MxHolding)
     | COMUTEX_LOCKED \<Rightarrow> (\<forall>c. pcs s c = MxHolding \<longleftrightarrow> m_locked_co (mx s) = Some c) \<and> m_locked_co (mx s) \<noteq> None)"

definition mx_events :: "mx_sys \<Rightarrow> bool" where
  "mx_events s \<longleftrightarrow>
     (\<forall>c k e. pcs s c = MxWaiting k e \<longrightarrow> e < next_ev s) \<and>
     (\<forall>c c' k k' e. pcs s c = MxWaiting k e \<longrightarrow> pcs s c' = MxWaiting k' e \<longrightarrow> c = c') \<and>
     (\<forall>e. Some e \<in> set (m_wait_event_queue (mx s)) \<longrightarrow> e < next_ev s) \<and>
     (\<forall>e. st s e = Waiting \<longrightarrow> Some e \<in> set (m_wait_event_queue (mx s)) \<and> (\<exists>c k. pcs s c = MxWaiting k e))"

text \<open>No lost wake-up: while the mutex is free and somebody is parked on it, a coroutine that has
  been notified is on its way to take it.\<close>

definition mx_woken :: "mx_sys \<Rightarrow> bool" where
  "mx_woken s \<longleftrightarrow> (m_status (mx s) = COMUTEX_FREE \<and> (\<exists>e. st s e = Waiting) \<longrightarrow>
     (\<exists>c k e. pcs s c = MxWaiting k e \<and> st s e = Won POLL_EVENT_CUSTOM))"

definition mx_inv :: "mx_sys \<Rightarrow> bool" where
  "mx_inv s \<longleftrightarrow> mx_owner s \<and> mx_events s \<and> mx_woken s"

lemma NotifyOne_sel:
  assumes "NotifyOne s = s'"
  shows "m_status (mx s') = m_status (mx s)" "m_locked_co (mx s') = m_locked_co (mx s)" "pcs s' = pcs s" "next_ev s' = next_ev s"
  using assms by (auto simp: NotifyOne_def split: prod.splits)

text \<open>Notifying: either nobody was undecided, or the first undecided event of the queue has won.\<close>

lemma NotifyOne_cases:
  obtains e where "Some e \<in> set (m_wait_event_queue (mx s))" "st s e = Waiting" "st (NotifyOne s) = (st s) (e := Won POLL_EVENT_CUSTOM)"
      "\<forall>x. Some x \<in> set (m_wait_event_queue (mx s)) \<longrightarrow> x \<noteq> e \<longrightarrow> st s x = Waiting \<longrightarrow> Some x \<in> set (m_wait_event_queue (mx (NotifyOne s)))"
      "set (m_wait_event_queue (mx (NotifyOne s))) \<subseteq> set (m_wait_event_queue (mx s))"
  | "\<forall>x. Some x \<in> set (m_wait_event_queue (mx s)) \<longrightarrow> st s x \<noteq> Waiting" "st (NotifyOne s) = st s" "m_wait_event_queue (mx (NotifyOne s)) = []"
proof -
  obtain w q t where n: "notify_one ev_trigger POLL_EVENT_CUSTOM (m_wait_event_queue (mx s)) (st s) = (w, q, t)"
    by (metis prod_cases3)
  have N: "st (NotifyOne s) = t" "m_wait_event_queue (mx (NotifyOne s)) = q" using n by (simp_all add: NotifyOne_def)
  note spec = store_events.notify_one_spec [OF TrueI custom_neq_0 n]
  show ?thesis
  proof (cases w)
    case True
    then obtain pre e where e: "m_wait_event_queue (mx s) = pre @ Some e # q" "st s e = Waiting"
      "\<forall>x. Some x \<in> set pre \<longrightarrow> st s x \<noteq> Waiting" "t = (st s) (e := Won POLL_EVENT_CUSTOM)"
      using spec(2) by auto
    show ?thesis by (rule that(1) [of e]) (use e N in auto)
  next
    case False
    then show ?thesis using that(2) spec(3) N by auto
  qed
qed

lemma waiting_owner: "mx_inv s \<Longrightarrow> st s e = Waiting \<Longrightarrow> \<exists>c k. pcs s c = MxWaiting k e"
  and waiting_queued: "mx_inv s \<Longrightarrow> st s e = Waiting \<Longrightarrow> Some e \<in> set (m_wait_event_queue (mx s))"
  and waiter_lt: "mx_inv s \<Longrightarrow> pcs s c = MxWaiting k e \<Longrightarrow> e < next_ev s"
  and waiter_unique: "mx_inv s \<Longrightarrow> pcs s c = MxWaiting k e \<Longrightarrow> pcs s c' = MxWaiting k' e \<Longrightarrow> c = c'"
  and queued_lt: "mx_inv s \<Longrightarrow> Some e \<in> set (m_wait_event_queue (mx s)) \<Longrightarrow> e < next_ev s"
  unfolding mx_inv_def mx_events_def by blast+

lemma mx_eventsI:
  assumes "\<And>c k e. pcs s c = MxWaiting k e \<Longrightarrow> e < next_ev s"
    "\<And>c c' k k' e. pcs s c = MxWaiting k e \<Longrightarrow> pcs s c' = MxWaiting k' e \<Longrightarrow> c = c'"
    "\<And>e. Some e \<in> set (m_wait_event_queue (mx s)) \<Longrightarrow> e < next_ev s"
    "\<And>e. st s e = Waiting \<Longrightarrow> Some e \<in> set (m_wait_event_queue (mx s))"
    "\<And>e. st s e = Waiting \<Longrightarrow> \<exists>c k. pcs s c = MxWaiting k e"
  shows "mx_events s"
  unfolding mx_events_def using assms by blast

lemma mx_init_inv: "mx_inv mx_init"
  by (simp add: mx_inv_def mx_init_def mx_owner_def mx_events_def mx_woken_def)

text \<open>Acquiring: the waker's promise ends because the mutex is no longer free.\<close>

lemma inv_OnLocked:
  assumes inv: "mx_inv s" and ex: "OnLocked c s = Some s'"
    and nw: "\<forall>k e. pcs s c = MxWaiting k e \<longrightarrow> st s e \<noteq> Waiting"
  shows "mx_inv s'"
proof -
  have s': "m_status (mx s) = COMUTEX_FREE"
    "s' = set_pc c MxHolding (s \<lparr>mx := (mx s) \<lparr>m_locked_co := Some c, m_status := COMUTEX_LOCKED\<rparr>\<rparr>)"
    using ex by (auto simp: OnLocked_def split: if_splits)
  have "mx_owner s'" using inv s' by (auto simp: mx_inv_def mx_owner_def set_pc_def)
  moreover have "mx_events s'"
    using inv s' nw unfolding mx_inv_def mx_events_def set_pc_def by (simp, metis)
  moreover have "mx_woken s'" using s' by (simp add: mx_woken_def set_pc_def)
  ultimately show ?thesis by (simp add: mx_inv_def)
qed

text \<open>Leaving the protocol or giving up, without the mutex.\<close>

lemma inv_set_pc:
  assumes inv: "mx_inv s" and pc: "p \<in> {MxIdle, MxRetry}" and nh: "pcs s c \<noteq> MxHolding"
    and nw: "\<forall>k e. pcs s c = MxWaiting k e \<longrightarrow> st s e \<noteq> Waiting \<and> (m_status (mx s) = COMUTEX_FREE \<longrightarrow> st s e \<noteq> Won POLL_EVENT_CUSTOM)"
  shows "mx_inv (set_pc c p s)"
proof -
  have "mx_owner (set_pc c p s)"
    using inv pc nh by (auto simp: mx_inv_def mx_owner_def set_pc_def split: CoMutexStatus.splits)
  moreover have "mx_events (set_pc c p s)"
  proof -
    have "\<exists>c' k. pcs (set_pc c p s) c' = MxWaiting k e" if wt: "st s e = Waiting" for e
    proof -
      obtain c' k where "pcs s c' = MxWaiting k e" using waiting_owner [OF inv wt] by blast
      moreover have "c' \<noteq> c" using nw wt calculation by auto
      ultimately show ?thesis by (auto simp: set_pc_def)
    qed
    moreover have sub: "pcs (set_pc c p s) c' = MxWaiting k e \<Longrightarrow> pcs s c' = MxWaiting k e" for c' k e
      using pc by (auto simp: set_pc_def split: if_splits)
    moreover have "st (set_pc c p s) = st s" "next_ev (set_pc c p s) = next_ev s" "mx (set_pc c p s) = mx s"
      by (simp_all add: set_pc_def)
    ultimately show ?thesis
      using waiter_lt [OF inv] waiter_unique [OF inv] queued_lt [OF inv] waiting_queued [OF inv]
      by (intro mx_eventsI) metis+
  qed
  moreover have "mx_woken (set_pc c p s)"
    unfolding mx_woken_def
  proof
    assume "m_status (mx (set_pc c p s)) = COMUTEX_FREE \<and> (\<exists>e. st (set_pc c p s) e = Waiting)"
    then have fr: "m_status (mx s) = COMUTEX_FREE" "\<exists>e. st s e = Waiting" by (auto simp: set_pc_def)
    then obtain c' k e where "pcs s c' = MxWaiting k e" "st s e = Won POLL_EVENT_CUSTOM"
      using inv unfolding mx_inv_def mx_woken_def by blast
    moreover have "c' \<noteq> c" using nw fr(1) calculation by auto
    ultimately show "\<exists>c' k e. pcs (set_pc c p s) c' = MxWaiting k e \<and> st (set_pc c p s) e = Won POLL_EVENT_CUSTOM"
      by (intro exI [of _ c'] exI [of _ k] exI [of _ e]) (simp add: set_pc_def)
  qed
  ultimately show ?thesis by (simp add: mx_inv_def)
qed

text \<open>Adding a slot nobody waits on, and queueing a live one, while the mutex is held.\<close>

lemma inv_push_dead:
  assumes inv: "mx_inv s" and lk: "m_status (mx s) = COMUTEX_LOCKED"
    and s': "s' = s \<lparr>mx := (mx s) \<lparr>m_wait_event_queue := m_wait_event_queue (mx s) @ [Some (next_ev s)]\<rparr>,
           st := (st s) (next_ev s := Gone), next_ev := Suc (next_ev s)\<rparr>
       \<or> s' = s \<lparr>mx := (mx s) \<lparr>m_wait_event_queue := m_wait_event_queue (mx s) @ [None]\<rparr>\<rparr>"
  shows "mx_inv s'"
proof -
  have "mx_owner s'" using inv s' lk by (auto simp: mx_inv_def mx_owner_def)
  moreover have "mx_events s'"
    by (rule mx_eventsI)
      (use s' waiter_lt [OF inv] waiter_unique [OF inv] queued_lt [OF inv] waiting_queued [OF inv] waiting_owner [OF inv]
       in \<open>auto split: if_splits simp: less_Suc_eq\<close>)
  moreover have "mx_woken s'" using s' lk by (auto simp: mx_woken_def)
  ultimately show ?thesis by (simp add: mx_inv_def)
qed

lemma inv_park:
  assumes inv: "mx_inv s" and lk: "m_status (mx s) = COMUTEX_LOCKED" and nh: "pcs s c \<noteq> MxHolding"
    and nw: "\<forall>k e. pcs s c = MxWaiting k e \<longrightarrow> st s e \<noteq> Waiting"
  shows "mx_inv (push_wait c k WaitParked r s)"
proof -
  let ?s = "push_wait c k WaitParked r s"
  have "mx_owner s" using inv by (simp add: mx_inv_def)
  then have "mx_owner ?s" using lk nh by (simp add: mx_owner_def push_wait_def set_pc_def Let_def)
  moreover have "mx_woken ?s" using lk by (simp add: mx_woken_def push_wait_def set_pc_def Let_def)
  moreover have "mx_events ?s"
  proof -
    have ex: "\<exists>c' k'. pcs ?s c' = MxWaiting k' e" if wt: "st s e = Waiting" for e
    proof -
      obtain c' k' where "pcs s c' = MxWaiting k' e" using waiting_owner [OF inv wt] by blast
      moreover have "c' \<noteq> c" using nw wt calculation by auto
      ultimately show ?thesis by (auto simp: push_wait_def set_pc_def Let_def)
    qed
    have fresh: "pcs s c' \<noteq> MxWaiting k' (next_ev s)" for c' k' using waiter_lt [OF inv] by blast
    have sel: "pcs ?s = (pcs s) (c := MxWaiting k (next_ev s))" "st ?s = (st s) (next_ev s := Waiting)"
      "next_ev ?s = Suc (next_ev s)" "m_wait_event_queue (mx ?s) = m_wait_event_queue (mx s) @ [Some (next_ev s)]"
      by (simp_all add: push_wait_def set_pc_def Let_def)
    show ?thesis
    proof (rule mx_eventsI)
      fix e assume "st ?s e = Waiting"
      then show "\<exists>c' k'. pcs ?s c' = MxWaiting k' e" using ex [of e] by (cases "e = next_ev s") (auto simp: sel)
    next
      fix e assume "st ?s e = Waiting"
      then show "Some e \<in> set (m_wait_event_queue (mx ?s))"
        using waiting_queued [OF inv, of e] by (auto simp: sel split: if_splits)
    next
      fix c1 c2 k1 k2 e assume "pcs ?s c1 = MxWaiting k1 e" "pcs ?s c2 = MxWaiting k2 e"
      then show "c1 = c2" using fresh waiter_unique [OF inv, of c1 k1 e c2 k2] by (auto simp: sel split: if_splits)
    qed (use waiter_lt [OF inv] queued_lt [OF inv] in \<open>auto simp: sel less_Suc_eq split: if_splits\<close>)
  qed
  ultimately show ?thesis by (simp add: mx_inv_def)
qed

lemma inv_push_wait:
  assumes inv: "mx_inv s" and lk: "m_status (mx s) = COMUTEX_LOCKED" and nh: "pcs s c \<noteq> MxHolding"
    and nw: "\<forall>k e. pcs s c = MxWaiting k e \<longrightarrow> st s e \<noteq> Waiting" and r: "r \<in> {MxIdle, MxRetry}"
  shows "mx_inv (push_wait c k su r s)"
proof (cases su)
  case WaitParked
  then show ?thesis using inv_park [OF inv lk nh nw] by simp
next
  case WaitRefused
  then show ?thesis using inv_set_pc [OF inv r nh] nw lk by (simp add: push_wait_def)
next
  case WaitFailed
  let ?t = "s \<lparr>mx := (mx s) \<lparr>m_wait_event_queue := m_wait_event_queue (mx s) @ [Some (next_ev s)]\<rparr>,
           st := (st s) (next_ev s := Gone), next_ev := Suc (next_ev s)\<rparr>"
  have "mx_inv ?t" by (rule inv_push_dead [OF inv lk]) simp
  then have "mx_inv (set_pc c r ?t)" by (rule inv_set_pc) (use r nh nw lk in auto)
  then show ?thesis using WaitFailed by (simp add: push_wait_def Let_def)
next
  case WaitThrew
  let ?t = "s \<lparr>mx := (mx s) \<lparr>m_wait_event_queue := m_wait_event_queue (mx s) @ [None]\<rparr>\<rparr>"
  have "mx_inv ?t" by (rule inv_push_dead [OF inv lk]) simp
  then have "mx_inv (set_pc c MxIdle ?t)" by (rule inv_set_pc) (use nh nw lk in auto)
  then show ?thesis using WaitThrew by (simp add: push_wait_def Let_def)
qed

lemma inv_lock_loop:
  assumes "mx_inv s" "lock_loop c su s = Some s'" "pcs s c \<noteq> MxHolding"
    "\<forall>k e. pcs s c = MxWaiting k e \<longrightarrow> st s e \<noteq> Waiting"
  shows "mx_inv s'"
  using assms inv_push_wait [OF assms(1) _ assms(3,4)] inv_OnLocked [OF assms(1) _ assms(4)]
  by (auto simp: lock_loop_def split: if_splits)

text \<open>Releasing: the mutex becomes free and the first undecided waiter, if any, has been notified.\<close>

lemma inv_UnLock:
  assumes inv: "mx_inv s" and h: "pcs s c = MxHolding"
  shows "mx_inv (UnLock c s)"
proof -
  let ?f = "s \<lparr>mx := (mx s) \<lparr>m_status := COMUTEX_FREE\<rparr>\<rparr>" and ?s = "UnLock c s"
  have own: "m_locked_co (mx s) = Some c" "\<forall>c'. pcs s c' = MxHolding \<longrightarrow> c' = c"
    using inv h by (auto simp: mx_inv_def mx_owner_def split: CoMutexStatus.splits)
  have sel: "m_status (mx ?s) = COMUTEX_FREE" "m_locked_co (mx ?s) = None" "pcs ?s = (pcs s) (c := MxIdle)"
    "next_ev ?s = next_ev s" "st ?s = st (NotifyOne ?f)" "m_wait_event_queue (mx ?s) = m_wait_event_queue (mx (NotifyOne ?f))"
    using NotifyOne_sel [of ?f, OF refl] by (simp_all add: UnLock_def OnUnLocked_def set_pc_def Let_def)
  have "mx_owner ?s" using own by (auto simp: mx_owner_def sel)
  have wq: "pcs ?s c' = MxWaiting k e \<longleftrightarrow> pcs s c' = MxWaiting k e" for c' k e using h by (auto simp: sel)
  note fs = waiter_lt [OF inv] waiter_unique [OF inv] queued_lt [OF inv] waiting_queued [OF inv] waiting_owner [OF inv]
  have "mx_events ?s \<and> mx_woken ?s"
  proof (rule NotifyOne_cases [of ?f])
    fix e
    assume a: "Some e \<in> set (m_wait_event_queue (mx ?f))" "st ?f e = Waiting" "st (NotifyOne ?f) = (st ?f) (e := Won POLL_EVENT_CUSTOM)"
      "\<forall>x. Some x \<in> set (m_wait_event_queue (mx ?f)) \<longrightarrow> x \<noteq> e \<longrightarrow> st ?f x = Waiting \<longrightarrow> Some x \<in> set (m_wait_event_queue (mx (NotifyOne ?f)))"
      "set (m_wait_event_queue (mx (NotifyOne ?f))) \<subseteq> set (m_wait_event_queue (mx ?f))"
    have sub: "Some x \<in> set (m_wait_event_queue (mx ?s)) \<Longrightarrow> Some x \<in> set (m_wait_event_queue (mx s))" for x
      using a(5) by (auto simp: sel)
    have w: "st ?s x = Waiting \<longleftrightarrow> x \<noteq> e \<and> st s x = Waiting" for x using a(3) by (simp add: sel)
    have "mx_events ?s"
      by (rule mx_eventsI) (use fs sub w a(4) in \<open>auto simp: wq sel(4,6)\<close>)
    moreover obtain c' k where "pcs s c' = MxWaiting k e" using fs(5) [of e] a(2) by auto
    then have "mx_woken ?s" using a(3) unfolding mx_woken_def wq by (auto simp: sel(5))
    ultimately show ?thesis by simp
  next
    assume a: "\<forall>x. Some x \<in> set (m_wait_event_queue (mx ?f)) \<longrightarrow> st ?f x \<noteq> Waiting" "st (NotifyOne ?f) = st ?f"
      "m_wait_event_queue (mx (NotifyOne ?f)) = []"
    have w: "st ?s x \<noteq> Waiting" for x using a fs(4) [of x] by (auto simp: sel)
    then have "mx_events ?s"
      by (intro mx_eventsI) (use fs(1,2) a(3) in \<open>auto simp: wq sel(4,6)\<close>)
    then show ?thesis using w by (simp add: mx_woken_def)
  qed
  with \<open>mx_owner ?s\<close> show ?thesis by (simp add: mx_inv_def)
qed

lemma inv_Decide:
  assumes inv: "mx_inv s" and w: "st s e = Waiting"
  shows "mx_inv (s \<lparr>st := (st s) (e := Won f)\<rparr>)"
proof -
  let ?s = "s \<lparr>st := (st s) (e := Won f)\<rparr>"
  have "mx_owner ?s" using inv by (simp add: mx_inv_def mx_owner_def split: CoMutexStatus.splits)
  moreover have "mx_events ?s"
    by (rule mx_eventsI) (use waiter_lt [OF inv] waiter_unique [OF inv] queued_lt [OF inv] waiting_queued [OF inv]
      waiting_owner [OF inv] in \<open>auto split: if_splits\<close>)
  moreover have "mx_woken ?s"
    unfolding mx_woken_def
  proof
    assume "m_status (mx ?s) = COMUTEX_FREE \<and> (\<exists>x. st ?s x = Waiting)"
    then obtain c k x where "pcs s c = MxWaiting k x" "st s x = Won POLL_EVENT_CUSTOM"
      using inv w unfolding mx_inv_def mx_woken_def by auto
    then show "\<exists>c k x. pcs ?s c = MxWaiting k x \<and> st ?s x = Won POLL_EVENT_CUSTOM"
      using w by (intro exI [of _ c] exI [of _ k] exI [of _ x]) auto
  qed
  ultimately show ?thesis by (simp add: mx_inv_def)
qed

lemma inv_TryResume:
  assumes inv: "mx_inv s" and pc: "pcs s c = MxWaiting TryWait e" "st s e = Won f"
    and ex: "TryLock_ms_resume c f s = Some (r, s')"
  shows "mx_inv s'"
proof (cases "f AND (POLL_EVENT_TIMEOUT OR POLL_EVENT_CANCELLED) \<noteq> 0 \<or> m_status (mx s) \<noteq> COMUTEX_FREE")
  case True
  then have s': "s' = set_pc c MxIdle s" using ex by (auto simp: TryLock_ms_resume_def split: if_splits)
  have "m_status (mx s) = COMUTEX_FREE \<Longrightarrow> f \<noteq> POLL_EVENT_CUSTOM" using True custom_not_timeout by auto
  then show ?thesis unfolding s' using pc by (intro inv_set_pc [OF inv]) auto
next
  case False
  then show ?thesis using inv_OnLocked [OF inv, of c s'] ex pc by (auto simp: TryLock_ms_resume_def)
qed

lemma mx_step_inv:
  assumes inv: "mx_inv s" and ex: "mx_exec ev s = Some s'" shows "mx_inv s'"
proof (cases ev)
  case (MLock c su)
  then show ?thesis using ex inv_lock_loop [OF inv, of c su s'] by (auto simp: Lock_def split: if_splits)
next
  case (MRelock c su)
  then have "lock_loop c su s = Some s'" "pcs s c \<noteq> MxHolding" "\<forall>k e. pcs s c = MxWaiting k e \<longrightarrow> st s e \<noteq> Waiting"
    using ex by (auto split: mx_pc.splits lock_kind.splits outcome.splits)
  then show ?thesis using inv_lock_loop [OF inv] by blast
next
  case (MTryLock c)
  then show ?thesis using ex inv inv_OnLocked [OF inv, of c] by (auto simp: TryLock_def split: if_splits)
next
  case (MTryLockMs c su)
  then show ?thesis using ex inv_OnLocked [OF inv, of c s'] inv_push_wait [OF inv, of c MxIdle TryWait su]
    by (auto simp: TryLock_ms_def split: if_splits)
next
  case (MTryResume c)
  then obtain e f r where "pcs s c = MxWaiting TryWait e" "st s e = Won f" "TryLock_ms_resume c f s = Some (r, s')"
    using ex by (auto split: mx_pc.splits lock_kind.splits outcome.splits)
  then show ?thesis using inv_TryResume [OF inv] by blast
qed (use ex inv_UnLock [OF inv] inv_Decide [OF inv] in \<open>auto split: if_splits\<close>)

fun mx_actor :: "mx_event \<Rightarrow> co_id option" where
  "mx_actor (MLock c su) = Some c" | "mx_actor (MRelock c su) = Some c" | "mx_actor (MUnLock c) = Some c"
| "mx_actor (MTryLock c) = Some c" | "mx_actor (MTryLockMs c su) = Some c" | "mx_actor (MTryResume c) = Some c"
| "mx_actor (MDecide e f) = None"

lemma mx_step_frame: "mx_exec ev s = Some s' \<Longrightarrow> mx_actor ev \<noteq> Some c \<Longrightarrow> pcs s' c = pcs s c"
  by (cases ev) (auto simp: mx_defs OnUnLocked_def Let_def NotifyOne_sel(3) [OF refl]
      split: if_splits mx_pc.splits lock_kind.splits outcome.splits wait_setup.splits)

interpretation mutex_users: participants mx_exec mx_actor pcs
  by unfold_locales (rule mx_step_frame)

interpretation mx_machine: invariant_machine mx_exec mx_inv
  by unfold_locales (rule mx_step_inv)

lemma mx_reaches_inv: "reaches mx_exec mx_init s \<Longrightarrow> mx_inv s"
  by (rule mx_machine.reaches_inv [OF _ mx_init_inv])

section \<open>Properties\<close>

text \<open>C12. Mutual exclusion: in every reachable state at most one coroutine holds the mutex, the
  mutex is marked locked exactly when some coroutine holds it, and \<open>m_locked_co\<close> names the holder.\<close>

theorem mutex_exclusive:
  assumes "reaches mx_exec mx_init s"
  shows "(\<forall>c c'. pcs s c = MxHolding \<longrightarrow> pcs s c' = MxHolding \<longrightarrow> c = c') \<and>
    (m_status (mx s) = COMUTEX_LOCKED \<longleftrightarrow> (\<exists>c. pcs s c = MxHolding)) \<and>
    (\<forall>c. pcs s c = MxHolding \<longleftrightarrow> m_locked_co (mx s) = Some c)"
  using mx_reaches_inv [OF assms] by (auto simp: mx_inv_def mx_owner_def split: CoMutexStatus.splits)

definition mx_demo :: "mx_event list" where
  "mx_demo = [MLock 1 WaitParked, MLock 2 WaitThrew, MLock 2 WaitParked, MTryLockMs 3 WaitParked, MLock 4 WaitParked,
     MDecide 0 POLL_EVENT_CANCELLED, MUnLock 1]"

lemma mx_demo_run: "case run mx_exec mx_demo mx_init of None \<Rightarrow> False
   | Some s \<Rightarrow> m_status (mx s) = COMUTEX_FREE \<and> pcs s 4 = MxWaiting LockWait 2 \<and> st s 2 = Waiting \<and>
        pcs s 3 = MxWaiting TryWait 1 \<and> st s 1 = Won POLL_EVENT_CUSTOM"
  by code_simp

theorem mutex_exclusive_witness:
  "\<exists>s. run mx_exec [MLock 1 WaitParked, MLock 2 WaitParked] mx_init = Some s \<and> pcs s 1 = MxHolding \<and>
     m_locked_co (mx s) = Some 1 \<and> pcs s 2 \<noteq> MxHolding"
proof -
  have "case run mx_exec [MLock 1 WaitParked, MLock 2 WaitParked] mx_init of None \<Rightarrow> False
    | Some s \<Rightarrow> pcs s 1 = MxHolding" by code_simp
  then obtain s where s: "run mx_exec [MLock 1 WaitParked, MLock 2 WaitParked] mx_init = Some s" "pcs s 1 = MxHolding"
    by (auto split: option.splits)
  have "pcs s 2 \<noteq> MxHolding" using mutex_exclusive [OF run_reaches [OF s(1)]] s(2)
    by (metis numeral_One numeral_eq_iff semiring_norm(85))
  then show ?thesis using mutex_exclusive [OF run_reaches [OF s(1)]] s by blast
qed

text \<open>C8. No lost wake-up: in every reachable state in which the mutex is free and some coroutine is
  parked on it undecided, another waiter has been notified and has not run yet, and if that waiter
  runs next it acquires the mutex. Timeouts, cancellations, failed and throwing set-ups of other
  waiters do not consume the notification.\<close>

theorem mutex_no_lost_wakeup:
  assumes "reaches mx_exec mx_init s" "m_status (mx s) = COMUTEX_FREE" "pcs s c = MxWaiting k e" "st s e = Waiting"
  shows "\<exists>c' k' e' s'. pcs s c' = MxWaiting k' e' \<and> st s e' = Won POLL_EVENT_CUSTOM \<and>
    mx_exec (if k' = LockWait then MRelock c' WaitParked else MTryResume c') s = Some s' \<and>
    pcs s' c' = MxHolding \<and> m_locked_co (mx s') = Some c'"
proof -
  obtain c' k' e' where w: "pcs s c' = MxWaiting k' e'" "st s e' = Won POLL_EVENT_CUSTOM"
    using mx_reaches_inv [OF assms(1)] assms(2,4) unfolding mx_inv_def mx_woken_def by blast
  have "\<exists>s'. mx_exec (if k' = LockWait then MRelock c' WaitParked else MTryResume c') s = Some s' \<and>
    pcs s' c' = MxHolding \<and> m_locked_co (mx s') = Some c'"
    using w assms(2) custom_not_timeout
    by (cases k') (auto simp: lock_loop_def OnLocked_def TryLock_ms_resume_def set_pc_def)
  then show ?thesis using w by blast
qed

theorem mutex_no_lost_wakeup_witness:
  "\<exists>s c' k' e'. run mx_exec mx_demo mx_init = Some s \<and> m_status (mx s) = COMUTEX_FREE \<and> st s 2 = Waiting \<and>
     pcs s c' = MxWaiting k' e' \<and> st s e' = Won POLL_EVENT_CUSTOM"
proof -
  obtain s where s: "run mx_exec mx_demo mx_init = Some s" "m_status (mx s) = COMUTEX_FREE" "pcs s 4 = MxWaiting LockWait 2"
    "st s 2 = Waiting"
    using mx_demo_run by (auto split: option.splits)
  from mutex_no_lost_wakeup [OF run_reaches [OF s(1)] s(2,3,4)] s show ?thesis by blast
qed

end
