(* ===== verification/RWMutexModel.thy ===== *)
theory RWMutexModel
  imports Notify
begin

text \<open>
  \<open>sync/CoRWMutex.cc\<close>: the writer-preferring read-write mutex. As for the mutex, each section under
  the system lock is an atomic step, a wait owns a fresh event (the single-use \<open>CoWaiter\<close> the code
  queues), and its set-up is an argument. Timers and cancellations decide waits at any moment.
\<close>

section \<open>Data\<close>

datatype CoRWMutexStatus = CORWMUTEX_RLOCKED | CORWMUTEX_WLOCKED | CORWMUTEX_FREE

record co_rwmutex =
  m_status :: CoRWMutexStatus
  m_rlock_hold_num :: int
  m_has_wait_wlock :: bool
  m_wait_wlock_num :: int
  m_wait_readlock_queue :: "nat option list"
  m_wait_writelock_queue :: "nat option list"

datatype rw_kind = KRLock | KTryR | KWLock | KTryW
datatype rw_pc = RwIdle | RwReading | RwWriting | RwWaiting rw_kind nat

record rw_sys =
  rw :: co_rwmutex
  st :: event_store
  next_ev :: nat
  pcs :: "co_id \<Rightarrow> rw_pc"

definition rw_init :: rw_sys where
  "rw_init = \<lparr>rw = \<lparr>m_status = CORWMUTEX_FREE, m_rlock_hold_num = 0, m_has_wait_wlock = False, m_wait_wlock_num = 0,
       m_wait_readlock_queue = [], m_wait_writelock_queue = []\<rparr>,
     st = \<lambda>_. Gone, next_ev = 0, pcs = \<lambda>_. RwIdle\<rparr>"

definition set_pc :: "co_id \<Rightarrow> rw_pc \<Rightarrow> rw_sys \<Rightarrow> rw_sys" where
  "set_pc c p s = s \<lparr>pcs := (pcs s) (c := p)\<rparr>"

section \<open>Notification\<close>

definition NotifyOne :: "rw_sys \<Rightarrow> rw_sys" where
  "NotifyOne s = (case notify_one ev_trigger POLL_EVENT_CUSTOM (m_wait_writelock_queue (rw s)) (st s) of
     (w, wq, t) \<Rightarrow> let s1 = s \<lparr>rw := (rw s) \<lparr>m_wait_writelock_queue := wq\<rparr>, st := t\<rparr> in
       if w then s1
       else (case notify_one ev_trigger POLL_EVENT_CUSTOM (m_wait_readlock_queue (rw s1)) (st s1) of
         (_, rq, t') \<Rightarrow> s1 \<lparr>rw := (rw s1) \<lparr>m_wait_readlock_queue := rq\<rparr>, st := t'\<rparr>))"

definition NotifyAll_readers :: "rw_sys \<Rightarrow> rw_sys" where
  "NotifyAll_readers s = s \<lparr>rw := (rw s) \<lparr>m_wait_readlock_queue := []\<rparr>,
     st := notify_all ev_trigger POLL_EVENT_CUSTOM (m_wait_readlock_queue (rw s)) (st s)\<rparr>"

section \<open>Waiting\<close>

text \<open>\<open>_WaitRLock\<close> and \<open>_WaitRLockWithTimeout\<close>, with the suspending callback of the callers.\<close>

definition wait_reader :: "co_id \<Rightarrow> rw_kind \<Rightarrow> wait_setup \<Rightarrow> rw_sys \<Rightarrow> rw_sys" where
  "wait_reader c k su s =
     (let e = next_ev s; q = m_wait_readlock_queue (rw s) in
      case su of
        WaitParked \<Rightarrow> set_pc c (RwWaiting k e) (s \<lparr>rw := (rw s) \<lparr>m_wait_readlock_queue := q @ [Some e]\<rparr>,
           st := (st s) (e := Waiting), next_ev := Suc e\<rparr>)
      | WaitRefused \<Rightarrow> set_pc c RwIdle s
      | WaitFailed \<Rightarrow> set_pc c RwIdle (s \<lparr>rw := (rw s) \<lparr>m_wait_readlock_queue := q @ [Some e]\<rparr>,
           st := (st s) (e := Gone), next_ev := Suc e\<rparr>)
      | WaitThrew \<Rightarrow> set_pc c RwIdle (s \<lparr>rw := (rw s) \<lparr>m_wait_readlock_queue := q @ [None]\<rparr>\<rparr>))"

definition wait_writer :: "co_id \<Rightarrow> rw_kind \<Rightarrow> wait_setup \<Rightarrow> rw_sys \<Rightarrow> rw_sys" where
  "wait_writer c k su s =
     (let e = next_ev s; q = m_wait_writelock_queue (rw s) in
      case su of
        WaitParked \<Rightarrow> set_pc c (RwWaiting k e) (s \<lparr>rw := (rw s) \<lparr>m_wait_writelock_queue := q @ [Some e],
             m_wait_wlock_num := m_wait_wlock_num (rw s) + 1, m_has_wait_wlock := True\<rparr>,
           st := (st s) (e := Waiting), next_ev := Suc e\<rparr>)
      | WaitRefused \<Rightarrow> set_pc c RwIdle s
      | WaitFailed \<Rightarrow> set_pc c RwIdle (s \<lparr>rw := (rw s) \<lparr>m_wait_writelock_queue := q @ [Some e]\<rparr>,
           st := (st s) (e := Gone), next_ev := Suc e\<rparr>)
      | WaitThrew \<Rightarrow> set_pc c RwIdle (s \<lparr>rw := (rw s) \<lparr>m_wait_writelock_queue := q @ [None]\<rparr>\<rparr>))"

section \<open>Operations\<close>

definition acquire_read :: "co_id \<Rightarrow> rw_sys \<Rightarrow> rw_sys" where
  "acquire_read c s =
     (let s1 = set_pc c RwReading (s \<lparr>rw := (rw s) \<lparr>m_status := CORWMUTEX_RLOCKED,
         m_rlock_hold_num := m_rlock_hold_num (rw s) + 1\<rparr>\<rparr>) in
      if m_has_wait_wlock (rw s1) then s1 else NotifyAll_readers s1)"

definition acquire_write :: "co_id \<Rightarrow> rw_sys \<Rightarrow> rw_sys" where
  "acquire_write c s = set_pc c RwWriting (s \<lparr>rw := (rw s) \<lparr>m_status := CORWMUTEX_WLOCKED\<rparr>\<rparr>)"

definition readers_blocked :: "rw_sys \<Rightarrow> bool" where
  "readers_blocked s \<longleftrightarrow> m_status (rw s) = CORWMUTEX_WLOCKED \<or> m_has_wait_wlock (rw s)"

text \<open>A woken writer settles its queueing responsibility first.\<close>

definition settle_writer :: "rw_sys \<Rightarrow> rw_sys" where
  "settle_writer s = s \<lparr>rw := (rw s) \<lparr>m_wait_wlock_num := m_wait_wlock_num (rw s) - 1,
     m_has_wait_wlock := (0 < m_wait_wlock_num (rw s) - 1)\<rparr>\<rparr>"

definition RLock :: "co_id \<Rightarrow> wait_setup \<Rightarrow> rw_sys \<Rightarrow> rw_sys" where
  "RLock c su s = (if readers_blocked s then wait_reader c KRLock su s else acquire_read c s)"

definition WLock :: "co_id \<Rightarrow> wait_setup \<Rightarrow> rw_sys \<Rightarrow> rw_sys" where
  "WLock c su s = (if m_status (rw s) \<noteq> CORWMUTEX_FREE then wait_writer c KWLock su s
     else acquire_write c (s \<lparr>rw := (rw s) \<lparr>m_has_wait_wlock := (0 < m_wait_wlock_num (rw s))\<rparr>\<rparr>))"

definition WLock_resume :: "co_id \<Rightarrow> wait_setup \<Rightarrow> rw_sys \<Rightarrow> rw_sys" where
  "WLock_resume c su s = WLock c su (settle_writer s)"

definition RUnLock :: "co_id \<Rightarrow> rw_sys \<Rightarrow> rw_sys" where
  "RUnLock c s =
     (let n = m_rlock_hold_num (rw s) - 1;
          s1 = set_pc c RwIdle (s \<lparr>rw := (rw s) \<lparr>m_rlock_hold_num := n,
            m_status := (if n = 0 then CORWMUTEX_FREE else CORWMUTEX_RLOCKED)\<rparr>\<rparr>)
      in if m_status (rw s1) = CORWMUTEX_FREE then NotifyOne s1 else s1)"

definition WUnLock :: "co_id \<Rightarrow> rw_sys \<Rightarrow> rw_sys" where
  "WUnLock c s =
     (let s1 = set_pc c RwIdle (s \<lparr>rw := (rw s) \<lparr>m_status := CORWMUTEX_FREE\<rparr>\<rparr>)
      in if m_wait_writelock_queue (rw s1) \<noteq> [] then NotifyOne s1
         else if m_wait_readlock_queue (rw s1) \<noteq> [] then NotifyAll_readers s1 else s1)"

definition TryRLock :: "co_id \<Rightarrow> rw_sys \<Rightarrow> int \<times> rw_sys" where
  "TryRLock c s = (if readers_blocked s then (-1, s) else (0, acquire_read c s))"

text \<open>The timed versions up to the suspension (result \<open>None\<close>: suspended) and after it.\<close>

definition TryRLock_ms :: "co_id \<Rightarrow> wait_setup \<Rightarrow> rw_sys \<Rightarrow> int option \<times> rw_sys" where
  "TryRLock_ms c su s = (if readers_blocked s
     then (if su = WaitParked then None else Some (-1), wait_reader c KTryR su s) else (Some 0, acquire_read c s))"

definition TryRLock_ms_resume :: "co_id \<Rightarrow> u16 \<Rightarrow> rw_sys \<Rightarrow> int \<times> rw_sys" where
  "TryRLock_ms_resume c f s =
     (if f AND (POLL_EVENT_TIMEOUT OR POLL_EVENT_CANCELLED) \<noteq> 0 then (1, set_pc c RwIdle s)
      else if readers_blocked s then (-1, set_pc c RwIdle s)
      else (0, acquire_read c s))"

definition TryWLock :: "co_id \<Rightarrow> rw_sys \<Rightarrow> int \<times> rw_sys" where
  "TryWLock c s = (if m_status (rw s) \<noteq> CORWMUTEX_FREE then (-1, s) else (0, acquire_write c s))"

definition TryWLock_ms :: "co_id \<Rightarrow> wait_setup \<Rightarrow> rw_sys \<Rightarrow> int option \<times> rw_sys" where
  "TryWLock_ms c su s = (if m_status (rw s) = CORWMUTEX_FREE then (Some 0, acquire_write c s)
     else (if su = WaitParked then None else Some (-1), wait_writer c KTryW su s))"

definition TryWLock_ms_resume :: "co_id \<Rightarrow> u16 \<Rightarrow> rw_sys \<Rightarrow> int \<times> rw_sys" where
  "TryWLock_ms_resume c f s =
     (let s1 = settle_writer s in
      if f AND (POLL_EVENT_TIMEOUT OR POLL_EVENT_CANCELLED) \<noteq> 0 then (1, set_pc c RwIdle s1)
      else if m_status (rw s1) \<noteq> CORWMUTEX_FREE then (-1, set_pc c RwIdle s1)
      else (0, acquire_write c s1))"

section \<open>The machine\<close>

datatype rw_event =
    ERLock co_id wait_setup
  | EWLock co_id wait_setup
  | ETryRLock co_id
  | ETryWLock co_id
  | ETryRLockMs co_id wait_setup
  | ETryWLockMs co_id wait_setup
  | EResume co_id wait_setup
  | ERUnLock co_id
  | EWUnLock co_id
  | EDecide nat u16

definition resume :: "co_id \<Rightarrow> rw_kind \<Rightarrow> u16 \<Rightarrow> wait_setup \<Rightarrow> rw_sys \<Rightarrow> rw_sys" where
  "resume c k f su s = (case k of
       KRLock \<Rightarrow> RLock c su s
     | KTryR \<Rightarrow> snd (TryRLock_ms_resume c f s)
     | KWLock \<Rightarrow> WLock_resume c su s
     | KTryW \<Rightarrow> snd (TryWLock_ms_resume c f s))"

fun rw_exec :: "rw_event \<Rightarrow> rw_sys \<Rightarrow> rw_sys option" where
  "rw_exec (ERLock c su) s = (if pcs s c = RwIdle then Some (RLock c su s) else None)"
| "rw_exec (EWLock c su) s = (if pcs s c = RwIdle then Some (WLock c su s) else None)"
| "rw_exec (ETryRLock c) s = (if pcs s c = RwIdle then Some (snd (TryRLock c s)) else None)"
| "rw_exec (ETryWLock c) s = (if pcs s c = RwIdle then Some (snd (TryWLock c s)) else None)"
| "rw_exec (ETryRLockMs c su) s = (if pcs s c = RwIdle then Some (snd (TryRLock_ms c su s)) else None)"
| "rw_exec (ETryWLockMs c su) s = (if pcs s c = RwIdle then Some (snd (TryWLock_ms c su s)) else None)"
| "rw_exec (EResume c su) s = (case pcs s c of
       RwWaiting k e \<Rightarrow> (case st s e of Won f \<Rightarrow> Some (resume c k f su s) | _ \<Rightarrow> None)
     | _ \<Rightarrow> None)"
| "rw_exec (ERUnLock c) s = (if pcs s c = RwReading then Some (RUnLock c s) else None)"
| "rw_exec (EWUnLock c) s = (if pcs s c = RwWriting then Some (WUnLock c s) else None)"
| "rw_exec (EDecide e f) s = (if st s e = Waiting \<and> f \<in> {POLL_EVENT_TIMEOUT, POLL_EVENT_CANCELLED}
     then Some (s \<lparr>st := (st s) (e := Won f)\<rparr>) else None)"

section \<open>Invariant\<close>

definition readers :: "rw_sys \<Rightarrow> co_id set" where "readers s = {c. pcs s c = RwReading}"
definition writers :: "rw_sys \<Rightarrow> co_id set" where "writers s = {c. pcs s c = RwWriting}"
definition queued_writers :: "rw_sys \<Rightarrow> co_id set" where
  "queued_writers s = {c. \<exists>e. pcs s c = RwWaiting KWLock e \<or> pcs s c = RwWaiting KTryW e}"

definition rw_inv :: "rw_sys \<Rightarrow> bool" where
  "rw_inv s \<longleftrightarrow> finite (readers s) \<and> finite (queued_writers s) \<and>
     m_rlock_hold_num (rw s) = int (card (readers s)) \<and>
     m_wait_wlock_num (rw s) = int (card (queued_writers s)) \<and>
     m_has_wait_wlock (rw s) = (queued_writers s \<noteq> {}) \<and>
     (m_status (rw s) = CORWMUTEX_FREE \<longrightarrow> readers s = {} \<and> writers s = {}) \<and>
     (m_status (rw s) = CORWMUTEX_RLOCKED \<longrightarrow> readers s \<noteq> {} \<and> writers s = {}) \<and>
     (m_status (rw s) = CORWMUTEX_WLOCKED \<longrightarrow> readers s = {} \<and> (\<exists>c. writers s = {c}))"

lemma rw_init_inv: "rw_inv rw_init"
  by (simp add: rw_inv_def rw_init_def readers_def writers_def queued_writers_def)

text \<open>The invariant reads only the bookkeeping fields and the program counters.\<close>

lemma rw_inv_cong:
  assumes "pcs s' = pcs s" "m_status (rw s') = m_status (rw s)" "m_rlock_hold_num (rw s') = m_rlock_hold_num (rw s)"
    "m_has_wait_wlock (rw s') = m_has_wait_wlock (rw s)" "m_wait_wlock_num (rw s') = m_wait_wlock_num (rw s)"
  shows "rw_inv s' = rw_inv s"
proof -
  have "readers s' = readers s" "writers s' = writers s" "queued_writers s' = queued_writers s"
    using assms(1) by (simp_all add: readers_def writers_def queued_writers_def)
  then show ?thesis using assms by (simp add: rw_inv_def)
qed

lemma NotifyOne_inv [simp]: "rw_inv (NotifyOne s) = rw_inv s"
  by (rule rw_inv_cong) (simp_all add: NotifyOne_def Let_def split: prod.splits)

lemma NotifyAll_inv [simp]: "rw_inv (NotifyAll_readers s) = rw_inv s"
  by (rule rw_inv_cong) (simp_all add: NotifyAll_readers_def)

lemma set_pc_sets:
  "readers (set_pc c p s) = (if p = RwReading then insert c (readers s) else readers s - {c})"
  "writers (set_pc c p s) = (if p = RwWriting then insert c (writers s) else writers s - {c})"
  "queued_writers (set_pc c p s) = (if \<exists>e. p = RwWaiting KWLock e \<or> p = RwWaiting KTryW e
     then insert c (queued_writers s) else queued_writers s - {c})"
  by (auto simp: readers_def writers_def queued_writers_def set_pc_def)

lemma sets_cong: "pcs s' = pcs s \<Longrightarrow> readers s' = readers s \<and> writers s' = writers s \<and> queued_writers s' = queued_writers s"
  by (simp add: readers_def writers_def queued_writers_def)

text \<open>A coroutine outside the protocol; every operation of it overwrites its program counter last,
  so a waiting one can be treated as outside once its bookkeeping is settled.\<close>

definition outside :: "rw_sys \<Rightarrow> co_id \<Rightarrow> bool" where
  "outside s c \<longleftrightarrow> c \<notin> readers s \<and> c \<notin> writers s \<and> c \<notin> queued_writers s"

lemma outside_idle: "pcs s c = RwIdle \<Longrightarrow> outside s c"
  and outside_reader: "pcs s c = RwWaiting KRLock e \<or> pcs s c = RwWaiting KTryR e \<Longrightarrow> outside s c"
  by (auto simp: outside_def readers_def writers_def queued_writers_def)

lemma inv_set_idle: "rw_inv s \<Longrightarrow> outside s c \<Longrightarrow> p = RwIdle \<or> (\<exists>e. p = RwWaiting KRLock e \<or> p = RwWaiting KTryR e) \<Longrightarrow> rw_inv (set_pc c p s)"
proof -
  assume a: "rw_inv s" "outside s c" "p = RwIdle \<or> (\<exists>e. p = RwWaiting KRLock e \<or> p = RwWaiting KTryR e)"
  then have "readers (set_pc c p s) = readers s" "writers (set_pc c p s) = writers s" "queued_writers (set_pc c p s) = queued_writers s"
    by (auto simp: set_pc_sets outside_def)
  moreover have "rw (set_pc c p s) = rw s" by (simp add: set_pc_def)
  ultimately show ?thesis using a(1) by (simp add: rw_inv_def)
qed

lemma rw_inv_upd:
  assumes "rw_inv s" "pcs s' = pcs s" "m_status (rw s') = m_status (rw s)" "m_rlock_hold_num (rw s') = m_rlock_hold_num (rw s)"
    "m_has_wait_wlock (rw s') = m_has_wait_wlock (rw s)" "m_wait_wlock_num (rw s') = m_wait_wlock_num (rw s)"
  shows "rw_inv s'"
  using assms rw_inv_cong [of s' s] by simp

lemma outside_upd: "outside s c \<Longrightarrow> pcs s' = pcs s \<Longrightarrow> outside s' c"
  using sets_cong [of s' s] by (simp add: outside_def)

lemma inv_wait_reader:
  assumes "rw_inv s" "outside s c" "k \<in> {KRLock, KTryR}"
  shows "rw_inv (wait_reader c k su s)"
  unfolding wait_reader_def Let_def
  by (cases su)
    (use assms in \<open>auto intro!: inv_set_idle intro: rw_inv_upd [OF assms(1)] outside_upd [OF assms(2)]\<close>)

lemma inv_wait_writer:
  assumes inv: "rw_inv s" and o: "outside s c" and k: "k \<in> {KWLock, KTryW}"
  shows "rw_inv (wait_writer c k su s)"
proof (cases "su = WaitParked")
  case True
  let ?s = "wait_writer c k su s"
  let ?t = "s \<lparr>rw := (rw s) \<lparr>m_wait_writelock_queue := m_wait_writelock_queue (rw s) @ [Some (next_ev s)],
             m_wait_wlock_num := m_wait_wlock_num (rw s) + 1, m_has_wait_wlock := True\<rparr>,
           st := (st s) (next_ev s := Waiting), next_ev := Suc (next_ev s)\<rparr>"
  have s: "?s = set_pc c (RwWaiting k (next_ev s)) ?t" using True by (simp add: wait_writer_def Let_def)
  have "readers ?t = readers s" "writers ?t = writers s" "queued_writers ?t = queued_writers s"
    using sets_cong [of ?t s] by simp_all
  then have "readers ?s = readers s" "writers ?s = writers s" "queued_writers ?s = insert c (queued_writers s)"
    unfolding s using k o by (auto simp: set_pc_sets outside_def)
  moreover have "m_status (rw ?s) = m_status (rw s)" "m_rlock_hold_num (rw ?s) = m_rlock_hold_num (rw s)"
    "m_has_wait_wlock (rw ?s)" "m_wait_wlock_num (rw ?s) = m_wait_wlock_num (rw s) + 1"
    unfolding s by (simp_all add: set_pc_def)
  ultimately show ?thesis using inv o by (simp add: rw_inv_def outside_def)
next
  case False
  then show ?thesis unfolding wait_writer_def Let_def
    by (cases su)
      (use assms in \<open>auto intro!: inv_set_idle intro: rw_inv_upd [OF inv] outside_upd [OF o]\<close>)
qed

lemma inv_acquire_read:
  assumes inv: "rw_inv s" and o: "outside s c" and nb: "\<not> readers_blocked s"
  shows "rw_inv (acquire_read c s)"
proof -
  let ?t = "s \<lparr>rw := (rw s) \<lparr>m_status := CORWMUTEX_RLOCKED, m_rlock_hold_num := m_rlock_hold_num (rw s) + 1\<rparr>\<rparr>"
  let ?s = "set_pc c RwReading ?t"
  have "readers ?t = readers s" "writers ?t = writers s" "queued_writers ?t = queued_writers s"
    using sets_cong [of ?t s] by simp_all
  then have e: "readers ?s = insert c (readers s)" "writers ?s = writers s" "queued_writers ?s = queued_writers s"
    using o by (auto simp: set_pc_sets outside_def)
  have sel: "rw ?s = (rw s) \<lparr>m_status := CORWMUTEX_RLOCKED, m_rlock_hold_num := m_rlock_hold_num (rw s) + 1\<rparr>"
    by (simp add: set_pc_def)
  have "writers s = {}" using inv nb by (cases "m_status (rw s)") (auto simp: rw_inv_def readers_blocked_def)
  then have "rw_inv ?s" using inv o unfolding rw_inv_def e sel by (simp add: outside_def)
  then show ?thesis by (simp add: acquire_read_def Let_def)
qed

lemma inv_acquire_write:
  assumes inv: "rw_inv s" and o: "outside s c" and fr: "m_status (rw s) = CORWMUTEX_FREE"
  shows "rw_inv (acquire_write c s)"
proof -
  let ?t = "s \<lparr>rw := (rw s) \<lparr>m_status := CORWMUTEX_WLOCKED\<rparr>\<rparr>"
  have "readers ?t = readers s" "writers ?t = writers s" "queued_writers ?t = queued_writers s"
    using sets_cong [of ?t s] by simp_all
  moreover have "readers s = {}" "writers s = {}" using inv fr by (auto simp: rw_inv_def)
  ultimately have e: "readers (acquire_write c s) = {}" "writers (acquire_write c s) = {c}" "queued_writers (acquire_write c s) = queued_writers s"
    using o by (auto simp: acquire_write_def set_pc_sets outside_def)
  have sel: "rw (acquire_write c s) = (rw s) \<lparr>m_status := CORWMUTEX_WLOCKED\<rparr>" by (simp add: acquire_write_def set_pc_def)
  show ?thesis using inv \<open>readers s = {}\<close> unfolding rw_inv_def e sel by simp
qed

lemma inv_RLock: "rw_inv s \<Longrightarrow> outside s c \<Longrightarrow> rw_inv (RLock c su s)"
  by (simp add: RLock_def inv_wait_reader inv_acquire_read)

lemma inv_WLock:
  assumes "rw_inv s" "outside s c" shows "rw_inv (WLock c su s)"
proof -
  have "m_has_wait_wlock (rw s) = (0 < m_wait_wlock_num (rw s))"
    using assms(1) by (auto simp: rw_inv_def card_gt_0_iff)
  then have "rw_inv (s \<lparr>rw := (rw s) \<lparr>m_has_wait_wlock := (0 < m_wait_wlock_num (rw s))\<rparr>\<rparr>)"
    by (intro rw_inv_upd [OF assms(1)]) simp_all
  then show ?thesis using assms
    by (simp add: WLock_def inv_wait_writer inv_acquire_write outside_upd)
qed

text \<open>The end of a writer's wait.\<close>

lemma inv_settle:
  assumes inv: "rw_inv s" and q: "c \<in> queued_writers s"
  shows "rw_inv (set_pc c RwIdle (settle_writer s))" "outside (set_pc c RwIdle (settle_writer s)) c"
proof -
  let ?s = "set_pc c RwIdle (settle_writer s)"
  have "readers (settle_writer s) = readers s" "writers (settle_writer s) = writers s" "queued_writers (settle_writer s) = queued_writers s"
    using sets_cong [of "settle_writer s" s] by (simp_all add: settle_writer_def)
  moreover have "c \<notin> readers s" "c \<notin> writers s" using q by (auto simp: readers_def writers_def queued_writers_def)
  ultimately have e: "readers ?s = readers s" "writers ?s = writers s" "queued_writers ?s = queued_writers s - {c}"
    by (simp_all add: set_pc_sets)
  have n: "card (queued_writers s - {c}) = card (queued_writers s) - 1" "0 < card (queued_writers s)"
    using inv q by (auto simp: rw_inv_def card_gt_0_iff)
  have fin: "finite (queued_writers s)" using inv by (simp add: rw_inv_def)
  have "queued_writers s - {c} \<noteq> {} \<longleftrightarrow> 0 < card (queued_writers s - {c})" using fin by (simp add: card_gt_0_iff)
  then show "rw_inv ?s"
    using inv n unfolding rw_inv_def e by (auto simp: set_pc_def settle_writer_def)
  show "outside ?s c" by (auto simp: outside_idle set_pc_def)
qed

lemma set_pc_last:
  "WLock c su (set_pc c p s) = WLock c su s" "acquire_write c (set_pc c p s) = acquire_write c s"
  "set_pc c p' (set_pc c p s) = set_pc c p' s"
  by (cases su; simp add: WLock_def wait_writer_def acquire_write_def set_pc_def Let_def)
     (simp_all add: acquire_write_def set_pc_def)

lemma inv_RUnLock:
  assumes inv: "rw_inv s" and c: "pcs s c = RwReading" shows "rw_inv (RUnLock c s)"
proof -
  let ?n = "m_rlock_hold_num (rw s) - 1"
  let ?t = "s \<lparr>rw := (rw s) \<lparr>m_rlock_hold_num := ?n, m_status := (if ?n = 0 then CORWMUTEX_FREE else CORWMUTEX_RLOCKED)\<rparr>\<rparr>"
  let ?s = "set_pc c RwIdle ?t"
  have "readers ?t = readers s" "writers ?t = writers s" "queued_writers ?t = queued_writers s"
    using sets_cong [of ?t s] by simp_all
  moreover have cr: "c \<in> readers s" "c \<notin> writers s" "c \<notin> queued_writers s"
    using c by (auto simp: readers_def writers_def queued_writers_def)
  ultimately have e: "readers ?s = readers s - {c}" "writers ?s = writers s" "queued_writers ?s = queued_writers s"
    by (simp_all add: set_pc_sets)
  have sel: "rw ?s = (rw s) \<lparr>m_rlock_hold_num := ?n, m_status := (if ?n = 0 then CORWMUTEX_FREE else CORWMUTEX_RLOCKED)\<rparr>"
    by (simp add: set_pc_def)
  have fin: "finite (readers s)" and hn: "m_rlock_hold_num (rw s) = int (card (readers s))" using inv by (auto simp: rw_inv_def)
  have w: "writers s = {}" using inv cr(1) by (cases "m_status (rw s)") (auto simp: rw_inv_def)
  have cd: "card (readers s - {c}) = card (readers s) - 1" "0 < card (readers s)" using fin cr by (auto simp: card_gt_0_iff)
  have z: "?n = 0 \<longleftrightarrow> readers s - {c} = {}" using cd hn card_eq_0_iff [of "readers s - {c}"] fin by auto
  have "rw_inv ?s" using inv cd hn w z unfolding rw_inv_def e sel by auto
  then show ?thesis by (simp add: RUnLock_def Let_def)
qed

lemma inv_WUnLock:
  assumes inv: "rw_inv s" and c: "pcs s c = RwWriting" shows "rw_inv (WUnLock c s)"
proof -
  let ?t = "s \<lparr>rw := (rw s) \<lparr>m_status := CORWMUTEX_FREE\<rparr>\<rparr>" let ?s = "set_pc c RwIdle ?t"
  have "readers ?t = readers s" "writers ?t = writers s" "queued_writers ?t = queued_writers s"
    using sets_cong [of ?t s] by simp_all
  moreover have cr: "c \<in> writers s" "c \<notin> readers s" "c \<notin> queued_writers s"
    using c by (auto simp: readers_def writers_def queued_writers_def)
  moreover have "writers s = {c}" "readers s = {}" using inv cr(1) by (cases "m_status (rw s)", auto simp: rw_inv_def)+
  ultimately have e: "readers ?s = {}" "writers ?s = {}" "queued_writers ?s = queued_writers s"
    by (simp_all add: set_pc_sets)
  have sel: "rw ?s = (rw s) \<lparr>m_status := CORWMUTEX_FREE\<rparr>" by (simp add: set_pc_def)
  have "rw_inv ?s" using inv \<open>readers s = {}\<close> unfolding rw_inv_def e sel by simp
  then show ?thesis by (simp add: WUnLock_def Let_def)
qed

lemma inv_resume:
  assumes inv: "rw_inv s" and pc: "pcs s c = RwWaiting k e"
  shows "rw_inv (resume c k f su s)"
proof (cases k)
  case KRLock
  then show ?thesis using inv inv_RLock outside_reader pc by (auto simp: resume_def)
next
  case KTryR
  have o: "outside s c" using KTryR pc outside_reader by blast
  then show ?thesis using KTryR inv_acquire_read [OF inv o] inv_set_idle [OF inv o]
    by (auto simp: resume_def TryRLock_ms_resume_def)
next
  case KWLock
  then have "c \<in> queued_writers s" using pc by (auto simp: queued_writers_def)
  note st = inv_settle [OF inv this]
  have "rw_inv (WLock c su (set_pc c RwIdle (settle_writer s)))" by (rule inv_WLock [OF st])
  then show ?thesis using KWLock by (simp add: resume_def WLock_resume_def set_pc_last)
next
  case KTryW
  then have "c \<in> queued_writers s" using pc by (auto simp: queued_writers_def)
  note st = inv_settle [OF inv this]
  have "m_status (rw (settle_writer s)) = CORWMUTEX_FREE \<Longrightarrow> rw_inv (acquire_write c (set_pc c RwIdle (settle_writer s)))"
    by (rule inv_acquire_write [OF st]) (simp add: set_pc_def)
  then show ?thesis using KTryW st by (simp add: resume_def TryWLock_ms_resume_def Let_def set_pc_last)
qed

lemma rw_step_inv:
  assumes inv: "rw_inv s" and ex: "rw_exec ev s = Some s'" shows "rw_inv s'"
proof (cases ev)
  case (EResume c su)
  then obtain k e f where "pcs s c = RwWaiting k e" "s' = resume c k f su s"
    using ex by (auto split: rw_pc.splits outcome.splits)
  then show ?thesis using inv_resume [OF inv] by simp
next
  case (EDecide e f)
  then have "s' = s \<lparr>st := (st s) (e := Won f)\<rparr>" using ex by (auto split: if_splits)
  then show ?thesis by (simp add: rw_inv_upd [OF inv])
qed (use ex inv in \<open>auto split: if_splits simp: inv_RLock inv_WLock inv_RUnLock inv_WUnLock outside_idle
    TryRLock_def TryWLock_def TryRLock_ms_def TryWLock_ms_def inv_acquire_read inv_acquire_write inv_wait_reader inv_wait_writer\<close>)

text \<open>A step moves the program counter of its own coroutine only.\<close>

fun rw_actor :: "rw_event \<Rightarrow> co_id option" where
  "rw_actor (ERLock c su) = Some c" | "rw_actor (EWLock c su) = Some c" | "rw_actor (ETryRLock c) = Some c"
| "rw_actor (ETryWLock c) = Some c" | "rw_actor (ETryRLockMs c su) = Some c" | "rw_actor (ETryWLockMs c su) = Some c"
| "rw_actor (EResume c su) = Some c" | "rw_actor (ERUnLock c) = Some c" | "rw_actor (EWUnLock c) = Some c"
| "rw_actor (EDecide e f) = None"

lemma pcs_notify [simp]: "pcs (NotifyOne s) = pcs s" "pcs (NotifyAll_readers s) = pcs s"
  by (auto simp: NotifyOne_def NotifyAll_readers_def Let_def split: prod.splits)

lemma pcs_frame [simp]: "c' \<noteq> c \<Longrightarrow> pcs (set_pc c p s) c' = pcs s c'" "pcs (settle_writer s) = pcs s"
  "c' \<noteq> c \<Longrightarrow> pcs (wait_reader c k su s) c' = pcs s c'" "c' \<noteq> c \<Longrightarrow> pcs (wait_writer c k su s) c' = pcs s c'"
  "c' \<noteq> c \<Longrightarrow> pcs (acquire_read c s) c' = pcs s c'" "c' \<noteq> c \<Longrightarrow> pcs (acquire_write c s) c' = pcs s c'"
  by (cases su; simp add: set_pc_def settle_writer_def wait_reader_def wait_writer_def Let_def acquire_read_def acquire_write_def)+

lemma rw_step_frame: "rw_exec ev s = Some s' \<Longrightarrow> rw_actor ev \<noteq> Some c \<Longrightarrow> pcs s' c = pcs s c"
  by (cases ev) (auto split: if_splits rw_pc.splits outcome.splits rw_kind.splits simp: RLock_def WLock_def TryRLock_def
      TryWLock_def TryRLock_ms_def TryWLock_ms_def RUnLock_def WUnLock_def resume_def WLock_resume_def
      TryRLock_ms_resume_def TryWLock_ms_resume_def Let_def)

interpretation rwmutex_users: participants rw_exec rw_actor pcs
  by unfold_locales (rule rw_step_frame)

interpretation rw_machine: invariant_machine rw_exec rw_inv
  by unfold_locales (rule rw_step_inv)

section \<open>Properties\<close>

text \<open>C13. Exclusion: in every reachable state a writer excludes readers and other writers, the status
  field tells which side holds the lock, the reader counter is the number of readers, and the
  writer-preference flag and counter are exactly the writers that are queued.\<close>

theorem rwmutex_exclusive:
  assumes "reaches rw_exec rw_init s"
  shows "(\<forall>c c'. pcs s c = RwWriting \<longrightarrow> pcs s c' \<noteq> RwReading \<and> (pcs s c' = RwWriting \<longrightarrow> c' = c)) \<and>
    (m_status (rw s) = CORWMUTEX_WLOCKED \<longleftrightarrow> (\<exists>c. pcs s c = RwWriting)) \<and>
    (m_status (rw s) = CORWMUTEX_RLOCKED \<longleftrightarrow> (\<exists>c. pcs s c = RwReading)) \<and>
    m_rlock_hold_num (rw s) = int (card {c. pcs s c = RwReading}) \<and>
    m_wait_wlock_num (rw s) = int (card (queued_writers s)) \<and>
    (m_has_wait_wlock (rw s) \<longleftrightarrow> (\<exists>c e. pcs s c = RwWaiting KWLock e \<or> pcs s c = RwWaiting KTryW e))"
proof -
  have inv: "rw_inv s" by (rule rw_machine.reaches_inv [OF assms rw_init_inv])
  have W: "pcs s c = RwWriting \<longleftrightarrow> c \<in> writers s" and R: "pcs s c = RwReading \<longleftrightarrow> c \<in> readers s" for c
    by (simp_all add: writers_def readers_def)
  have cnt: "m_rlock_hold_num (rw s) = int (card {c. pcs s c = RwReading})"
    "m_wait_wlock_num (rw s) = int (card (queued_writers s))"
    "m_has_wait_wlock (rw s) \<longleftrightarrow> (\<exists>c e. pcs s c = RwWaiting KWLock e \<or> pcs s c = RwWaiting KTryW e)"
    using inv by (auto simp: rw_inv_def readers_def queued_writers_def)
  have st: "m_status (rw s) = CORWMUTEX_WLOCKED \<longleftrightarrow> (\<exists>c. c \<in> writers s)" "m_status (rw s) = CORWMUTEX_RLOCKED \<longleftrightarrow> (\<exists>c. c \<in> readers s)"
    "c \<in> writers s \<Longrightarrow> c' \<notin> readers s \<and> (c' \<in> writers s \<longrightarrow> c' = c)" for c c'
    using inv by (cases "m_status (rw s)"; auto simp: rw_inv_def)+
  show ?thesis using cnt st unfolding W R by blast
qed

definition rw_demo :: "rw_event list" where
  "rw_demo = [ERLock 0 WaitParked, ETryWLockMs 1 WaitParked, ERLock 2 WaitParked, EDecide 0 POLL_EVENT_TIMEOUT,
     ERUnLock 0, EResume 2 WaitParked, EResume 1 WaitParked]"

theorem rwmutex_exclusive_witness:
  "\<exists>s. run rw_exec [ERLock 0 WaitParked, ETryRLock 5, EWLock 1 WaitParked] rw_init = Some s \<and>
     m_status (rw s) = CORWMUTEX_RLOCKED \<and> m_has_wait_wlock (rw s) \<and> pcs s 1 \<noteq> RwWriting"
proof -
  have "case run rw_exec [ERLock 0 WaitParked, ETryRLock 5, EWLock 1 WaitParked] rw_init of None \<Rightarrow> False
    | Some s \<Rightarrow> pcs s 0 = RwReading \<and> pcs s 1 = RwWaiting KWLock 0" by code_simp
  then obtain s where s: "run rw_exec [ERLock 0 WaitParked, ETryRLock 5, EWLock 1 WaitParked] rw_init = Some s"
    "pcs s 0 = RwReading" "pcs s 1 = RwWaiting KWLock 0"
    by (auto split: option.splits)
  from rwmutex_exclusive [OF run_reaches [OF s(1)]] s show ?thesis by auto
qed

text \<open>A lost wake-up the bookkeeping allows: reader 0 holds the lock, writer 1 queues in
  \<open>TryWLock(ms)\<close>, reader 2 blocks behind the queued writer, the writer's timer fires, reader 0
  releases and its notification skips the dead writer and wakes reader 2. Reader 2 runs before
  writer 1, still sees the writer flag, and parks again; writer 1 then clears the flag and returns 1
  without notifying anyone. The lock is free, no writer is queued, every other coroutine is outside,
  and reader 2 is parked on an event that nothing will trigger.\<close>

lemma rwmutex_lost_wakeup:
  "\<exists>s e. run rw_exec rw_demo rw_init = Some s \<and> m_status (rw s) = CORWMUTEX_FREE \<and> \<not> m_has_wait_wlock (rw s) \<and>
     pcs s = (\<lambda>_. RwIdle) (2 := RwWaiting KRLock e) \<and> st s e = Waiting"
proof -
  have D: "case run rw_exec rw_demo rw_init of None \<Rightarrow> False
    | Some s \<Rightarrow> m_status (rw s) = CORWMUTEX_FREE \<and> \<not> m_has_wait_wlock (rw s) \<and> st s 2 = Waiting \<and>
        pcs s 0 = RwIdle \<and> pcs s 1 = RwIdle \<and> pcs s 2 = RwWaiting KRLock 2"
    by code_simp
  then obtain s where s: "run rw_exec rw_demo rw_init = Some s" "m_status (rw s) = CORWMUTEX_FREE" "\<not> m_has_wait_wlock (rw s)"
    "st s 2 = Waiting" "pcs s 0 = RwIdle" "pcs s 1 = RwIdle" "pcs s 2 = RwWaiting KRLock 2"
    by (auto split: option.splits)
  have fr: "pcs s c = RwIdle" if "c \<notin> {0, 1, 2}" for c
    using rwmutex_users.users_run_frame [OF s(1), of c] that by (simp add: rw_demo_def rw_init_def)
  have "pcs s c = ((\<lambda>_. RwIdle) (2 := RwWaiting KRLock 2)) c" for c
    using fr [of c] s(5-7) by (cases "c = 0"; cases "c = 1"; cases "c = 2") simp_all
  then have "pcs s = (\<lambda>_. RwIdle) (2 := RwWaiting KRLock 2)" by blast
  then show ?thesis using s by blast
qed

end
