(* ===== verification/EventModel.thy ===== *)
theory EventModel
  imports PollState "HOL-Library.Multiset"
begin

text \<open>
  \<open>pollevent/Event.{hpp,cc}\<close>: one fd, timer or custom wait on the event loop. The reactor (asio)
  is the environment: an asynchronous operation handed to it is \<open>pending\<close>, may become \<open>ready\<close>
  (completed, its handler queued) at any moment, and \<open>cancel\<close> removes pending operations but not
  handlers already queued. A handler runs in two parts, as in the code: the check under \<open>m_mutex\<close>
  (\<open>handler_check\<close>) and the user callback outside it (\<open>call_callback\<close>), with the re-arm of a
  persistent wait after that. Each operation carries the round in which it was armed.
\<close>

datatype op_kind = OpRead | OpWrite | OpTimer | OpCustom u16

record loop_event =
  m_round :: u64
  m_fd :: int
  m_listen_events :: u16
  m_timeout :: int
  m_sd :: bool
  m_timer :: bool
  m_internal_fd :: bool
  internal_closes :: nat
  owned :: bool
  registered :: bool
  pending :: "(op_kind \<times> u64) list"
  ready :: "(op_kind \<times> u64) list"
  calling :: "(op_kind \<times> u64) list"
  rearming :: "(op_kind \<times> u64) list"
  delivered :: "u16 list"

definition EV_TIMEOUT :: u16 where "EV_TIMEOUT = 0x01"
definition EV_READ :: u16 where "EV_READ = 0x02"
definition EV_WRITE :: u16 where "EV_WRITE = 0x04"
definition EV_PERSIST :: u16 where "EV_PERSIST = 0x10"
definition EV_CLOSED :: u16 where "EV_CLOSED = 0x80"

lemmas ev_bits = EV_TIMEOUT_def EV_READ_def EV_WRITE_def EV_PERSIST_def EV_CLOSED_def

text \<open>The constructor. \<open>dup_ok\<close> is the result of duplicating the descriptor; a failure throws
  (\<open>None\<close>) before the callback is registered.\<close>

definition NewEvent :: "bool \<Rightarrow> int \<Rightarrow> u16 \<Rightarrow> loop_event option" where
  "NewEvent dup_ok fd evm =
     (let is_fd = 0 \<le> fd \<and> evm AND (EV_READ OR EV_WRITE OR EV_CLOSED) \<noteq> 0;
          is_timer = evm AND EV_TIMEOUT \<noteq> 0 in
      if is_fd \<and> \<not> dup_ok then None
      else Some \<lparr>m_round = 0, m_fd = fd, m_listen_events = evm, m_timeout = -1, m_sd = is_fd, m_timer = is_timer,
        m_internal_fd = is_fd, internal_closes = 0, owned = True, registered = True,
        pending = [], ready = [], calling = [], rearming = [], delivered = []\<rparr>)"

definition CancelPendingLocked :: "loop_event \<Rightarrow> loop_event" where
  "CancelPendingLocked e = e \<lparr>pending := filter (\<lambda>(k, r). case k of
       OpTimer \<Rightarrow> \<not> m_timer e | OpCustom _ \<Rightarrow> True | _ \<Rightarrow> \<not> m_sd e) (pending e)\<rparr>"

definition DoAsyncWaitLocked :: "op_kind \<Rightarrow> u64 \<Rightarrow> loop_event \<Rightarrow> loop_event" where
  "DoAsyncWaitLocked k r e = (if m_sd e then e \<lparr>pending := pending e @ [(k, r)]\<rparr> else e)"

definition ArmTimerLocked :: "u64 \<Rightarrow> loop_event \<Rightarrow> loop_event" where
  "ArmTimerLocked r e = e \<lparr>pending := filter (\<lambda>(k, _). k \<noteq> OpTimer) (pending e) @ [(OpTimer, r)]\<rparr>"

text \<open>\<open>StartListen\<close>; \<open>now\<close> is the clock used for the absolute deadline. \<open>None\<close> as result of the
  ownership check is -1.\<close>

definition StartListen :: "nat \<Rightarrow> int \<Rightarrow> loop_event \<Rightarrow> int \<times> loop_event" where
  "StartListen timeout now e =
     (if \<not> owned e then (-1, e)
      else let round = m_round e + 1;
               e1 = CancelPendingLocked (e \<lparr>m_round := round,
                 m_timeout := (if 0 < timeout then now + int timeout + 1 else -1)\<rparr>);
               e2 = (if m_sd e1 \<and> m_listen_events e1 AND EV_READ \<noteq> 0 then DoAsyncWaitLocked OpRead round e1 else e1);
               e3 = (if m_sd e2 \<and> m_listen_events e2 AND EV_WRITE \<noteq> 0 then DoAsyncWaitLocked OpWrite round e2 else e2)
           in if m_timer e3 then (0, if 0 < timeout then ArmTimerLocked round e3 else e3)
              else if 0 < timeout \<and> m_fd e3 < 0 then (0, ArmTimerLocked round (e3 \<lparr>m_timer := True\<rparr>))
              else (0, e3))"

definition ReleaseObjectsLocked :: "loop_event \<Rightarrow> loop_event" where
  "ReleaseObjectsLocked e = e \<lparr>m_sd := False, m_timer := False, m_internal_fd := False,
     internal_closes := (if m_internal_fd e then internal_closes e + 1 else internal_closes e),
     pending := filter (\<lambda>(k, r). case k of OpTimer \<Rightarrow> \<not> m_timer e | OpCustom _ \<Rightarrow> True | _ \<Rightarrow> \<not> m_sd e) (pending e)\<rparr>"

text \<open>\<open>CancelListen\<close> returns the user descriptor it has to close, if any.\<close>

definition CancelListen :: "bool \<Rightarrow> loop_event \<Rightarrow> int option \<times> loop_event" where
  "CancelListen need_close_fd e =
     (let close = (if need_close_fd \<and> 0 \<le> m_fd e then Some (m_fd e) else None);
          e1 = ReleaseObjectsLocked (e \<lparr>m_round := m_round e + 1, m_timeout := -1,
            m_fd := (if close = None then m_fd e else -1)\<rparr>)
      in (close, e1 \<lparr>registered := False\<rparr>))"

text \<open>\<open>Trigger\<close> posts a delivery: the reactor will run the handler, which is ready at once.\<close>

definition LoopTrigger :: "u16 \<Rightarrow> loop_event \<Rightarrow> int \<times> loop_event" where
  "LoopTrigger flag e =
     (if \<not> owned e then (-1, e)
      else let e1 = CancelPendingLocked e in (0, e1 \<lparr>ready := ready e1 @ [(OpCustom flag, m_round e1)]\<rparr>))"

text \<open>The locked parts of the three completion handlers; \<open>handler_check\<close> picks the handler of an operation.\<close>

definition OnFdWaitCompleted :: "op_kind \<Rightarrow> u64 \<Rightarrow> loop_event \<Rightarrow> loop_event" where
  "OnFdWaitCompleted k r e =
     (if r \<noteq> m_round e \<or> \<not> m_sd e then e
      else e \<lparr>calling := calling e @ [(k, r)],
         pending := (if m_timer e then filter (\<lambda>(k, _). k \<noteq> OpTimer) (pending e) else pending e)\<rparr>)"

definition OnTimerFired :: "u64 \<Rightarrow> loop_event \<Rightarrow> loop_event" where
  "OnTimerFired r e =
     (if r \<noteq> m_round e \<or> \<not> m_timer e then e
      else e \<lparr>calling := calling e @ [(OpTimer, r)],
         pending := (if m_sd e then filter (\<lambda>(k, _). k \<notin> {OpRead, OpWrite}) (pending e) else pending e)\<rparr>)"

definition OnCustomTriggered :: "u16 \<Rightarrow> u64 \<Rightarrow> loop_event \<Rightarrow> loop_event" where
  "OnCustomTriggered f r e = (if r \<noteq> m_round e then e else e \<lparr>calling := calling e @ [(OpCustom f, r)]\<rparr>)"

fun handler_check :: "op_kind \<times> u64 \<Rightarrow> loop_event \<Rightarrow> loop_event" where
  "handler_check (OpRead, r) e = OnFdWaitCompleted OpRead r e"
| "handler_check (OpWrite, r) e = OnFdWaitCompleted OpWrite r e"
| "handler_check (OpTimer, r) e = OnTimerFired r e"
| "handler_check (OpCustom f, r) e = OnCustomTriggered f r e"

fun op_mask :: "op_kind \<Rightarrow> u16" where
  "op_mask OpRead = EV_READ" | "op_mask OpWrite = EV_WRITE" | "op_mask OpTimer = EV_TIMEOUT" | "op_mask (OpCustom f) = f"

definition call_callback :: "op_kind \<times> u64 \<Rightarrow> loop_event \<Rightarrow> loop_event" where
  "call_callback op e =
     (let e1 = (if registered e then e \<lparr>delivered := delivered e @ [op_mask (fst op)]\<rparr> else e) in
      if fst op \<in> {OpRead, OpWrite} \<and> m_listen_events e AND EV_PERSIST \<noteq> 0
      then e1 \<lparr>rearming := rearming e1 @ [op]\<rparr> else e1)"

definition rearm :: "op_kind \<times> u64 \<Rightarrow> loop_event \<Rightarrow> loop_event" where
  "rearm op e = (if snd op = m_round e then DoAsyncWaitLocked (fst op) (snd op) e else e)"

section \<open>The machine\<close>

datatype loop_step =
    LStart nat int
  | LCancel bool
  | LTrigger u16
  | LReady nat
  | LCheck nat
  | LCall nat
  | LRearm nat

definition drop_nth :: "nat \<Rightarrow> 'a list \<Rightarrow> 'a list" where
  "drop_nth n xs = take n xs @ drop (Suc n) xs"

fun loop_exec :: "loop_step \<Rightarrow> loop_event \<Rightarrow> loop_event option" where
  "loop_exec (LStart t now) e = Some (snd (StartListen t now e))"
| "loop_exec (LCancel b) e = Some (snd (CancelListen b e))"
| "loop_exec (LTrigger f) e = Some (snd (LoopTrigger f e))"
| "loop_exec (LReady n) e = (if n < length (pending e)
     then Some (e \<lparr>pending := drop_nth n (pending e), ready := ready e @ [pending e ! n]\<rparr>) else None)"
| "loop_exec (LCheck n) e = (if n < length (ready e)
     then Some (handler_check (ready e ! n) (e \<lparr>ready := drop_nth n (ready e)\<rparr>)) else None)"
| "loop_exec (LCall n) e = (if n < length (calling e)
     then Some (call_callback (calling e ! n) (e \<lparr>calling := drop_nth n (calling e)\<rparr>)) else None)"
| "loop_exec (LRearm n) e = (if n < length (rearming e)
     then Some (rearm (rearming e ! n) (e \<lparr>rearming := drop_nth n (rearming e)\<rparr>)) else None)"

lemma handler_check_alt: "handler_check op e = (case fst op of
     OpRead \<Rightarrow> OnFdWaitCompleted OpRead (snd op) e | OpWrite \<Rightarrow> OnFdWaitCompleted OpWrite (snd op) e
   | OpTimer \<Rightarrow> OnTimerFired (snd op) e | OpCustom f \<Rightarrow> OnCustomTriggered f (snd op) e)"
  by (cases "(op, e)" rule: handler_check.cases) simp_all

lemmas check_defs = handler_check_alt OnFdWaitCompleted_def OnTimerFired_def OnCustomTriggered_def

lemmas loop_defs = StartListen_def CancelListen_def LoopTrigger_def check_defs call_callback_def rearm_def
  DoAsyncWaitLocked_def ArmTimerLocked_def CancelPendingLocked_def ReleaseObjectsLocked_def Let_def

lemma set_drop_nth: "set (drop_nth n xs) \<subseteq> set xs"
  by (auto simp: drop_nth_def dest: in_set_takeD in_set_dropD)

section \<open>Invariants\<close>



lemma handler_check_sel [simp]:
  "internal_closes (handler_check op e) = internal_closes e" "m_internal_fd (handler_check op e) = m_internal_fd e"
  "m_sd (handler_check op e) = m_sd e" "registered (handler_check op e) = registered e" "delivered (handler_check op e) = delivered e"
  by (auto simp: check_defs Let_def split: prod.splits op_kind.splits)

text \<open>The fields the two invariants read are untouched by arming, cancelling and re-arming.\<close>

definition frame_eq :: "loop_event \<Rightarrow> loop_event \<Rightarrow> bool" where
  "frame_eq e e' \<longleftrightarrow> internal_closes e' = internal_closes e \<and> m_internal_fd e' = m_internal_fd e \<and>
     m_sd e' = m_sd e \<and> registered e' = registered e \<and> delivered e' = delivered e"

lemma frame_refl [simp]: "frame_eq e e"
  by (simp add: frame_eq_def)













section \<open>Cancellation is final\<close>




section \<open>Rounds\<close>

text \<open>What \<open>StartListen\<close> arms, as a list of event masks: the specification the rounds are checked against.\<close>

definition armed_masks :: "nat \<Rightarrow> loop_event \<Rightarrow> u16 list" where
  "armed_masks t e = (if m_sd e \<and> m_listen_events e AND EV_READ \<noteq> 0 then [EV_READ] else []) @
     (if m_sd e \<and> m_listen_events e AND EV_WRITE \<noteq> 0 then [EV_WRITE] else []) @
     (if 0 < t \<and> (m_timer e \<or> m_fd e < 0) then [EV_TIMEOUT] else [])"

text \<open>Pending operations have a live reactor object; completed and re-arming ones may be stale.\<close>

fun has_object :: "loop_event \<Rightarrow> op_kind \<Rightarrow> bool" where
  "has_object e OpTimer = m_timer e"
| "has_object e (OpCustom f) = False"
| "has_object e OpRead = m_sd e"
| "has_object e OpWrite = m_sd e"

definition pending_ok :: "loop_event \<Rightarrow> bool" where
  "pending_ok e \<longleftrightarrow> (\<forall>op \<in> set (pending e). has_object e (fst op))"

fun reactor_exec :: "loop_step \<Rightarrow> loop_event \<Rightarrow> loop_event option" where
  "reactor_exec (LStart t now) e = None"
| "reactor_exec (LCancel b) e = None"
| "reactor_exec (LTrigger f) e = None"
| "reactor_exec st e = loop_exec st e"


lemma pending_ok_mono:
  "pending_ok e \<Longrightarrow> set (pending e') \<subseteq> set (pending e) \<Longrightarrow> m_timer e' = m_timer e \<Longrightarrow> m_sd e' = m_sd e \<Longrightarrow> pending_ok e'"
proof -
  assume a: "pending_ok e" "set (pending e') \<subseteq> set (pending e)" "m_timer e' = m_timer e" "m_sd e' = m_sd e"
  have "has_object e' k = has_object e k" for k using a(3,4) by (cases k) auto
  then show ?thesis using a(1,2) by (auto simp: pending_ok_def)
qed

lemma pending_ok_empty [simp]: "pending e = [] \<Longrightarrow> pending_ok e"
  by (simp add: pending_ok_def)

lemma CancelPending_empty: "pending_ok e \<Longrightarrow> CancelPendingLocked e = e \<lparr>pending := []\<rparr>"
proof -
  assume a: "pending_ok e"
  have "filter (\<lambda>(k, r). case k of OpTimer \<Rightarrow> \<not> m_timer e | OpCustom _ \<Rightarrow> True | _ \<Rightarrow> \<not> m_sd e) (pending e) = []"
    using a by (auto simp: filter_empty_conv pending_ok_def split: op_kind.splits)
  then show ?thesis by (simp add: CancelPendingLocked_def)
qed

lemma pending_ok_append:
  "pending_ok e \<Longrightarrow> has_object e k \<Longrightarrow> pending_ok (e \<lparr>pending := pending e @ [(k, r)]\<rparr>)"
proof -
  assume a: "pending_ok e" "has_object e k"
  have "has_object (e \<lparr>pending := p\<rparr>) k' = has_object e k'" for k' p by (cases k') auto
  then show ?thesis using a by (auto simp: pending_ok_def)
qed

text \<open>The new round in closed form: exactly the armed operations, all of the new round.\<close>

lemma StartListen_arms:
  assumes "pending_ok e" "owned e"
  shows "map (op_mask \<circ> fst) (pending (snd (StartListen t now e))) = armed_masks t e"
    "set (pending (snd (StartListen t now e))) \<subseteq> {OpRead, OpWrite, OpTimer} \<times> {m_round e + 1}"
    "pending_ok (snd (StartListen t now e))"
    "m_round (snd (StartListen t now e)) = m_round e + 1" "ready (snd (StartListen t now e)) = ready e"
    "calling (snd (StartListen t now e)) = calling e" "rearming (snd (StartListen t now e)) = rearming e"
    "m_listen_events (snd (StartListen t now e)) = m_listen_events e"
    "delivered (snd (StartListen t now e)) = delivered e"
proof -
  have ok: "pending_ok (e \<lparr>m_round := r, m_timeout := d\<rparr>)" for r d
    using assms(1) by (rule pending_ok_mono) auto
  note defs = StartListen_def Let_def CancelPending_empty [OF ok] assms(2) DoAsyncWaitLocked_def ArmTimerLocked_def
  show "map (op_mask \<circ> fst) (pending (snd (StartListen t now e))) = armed_masks t e"
    by (auto simp: defs armed_masks_def)
  show "set (pending (snd (StartListen t now e))) \<subseteq> {OpRead, OpWrite, OpTimer} \<times> {m_round e + 1}"
    by (simp add: defs)
  show "pending_ok (snd (StartListen t now e))"
    by (simp add: defs pending_ok_def)
  show "m_round (snd (StartListen t now e)) = m_round e + 1" "ready (snd (StartListen t now e)) = ready e"
    "calling (snd (StartListen t now e)) = calling e" "rearming (snd (StartListen t now e)) = rearming e"
    "m_listen_events (snd (StartListen t now e)) = m_listen_events e"
    "delivered (snd (StartListen t now e)) = delivered e"
    by (simp_all add: defs)
qed

definition rearm_ok :: "loop_event \<Rightarrow> bool" where
  "rearm_ok e \<longleftrightarrow> (\<forall>op \<in> set (rearming e). fst op \<in> {OpRead, OpWrite})"

lemma handler_check_lists [simp]:
  "rearming (handler_check op e) = rearming e" "ready (handler_check op e) = ready e" "m_round (handler_check op e) = m_round e"
  "m_listen_events (handler_check op e) = m_listen_events e" "m_timer (handler_check op e) = m_timer e"
  by (auto simp: check_defs Let_def split: prod.splits op_kind.splits)

lemma loop_rearm_ok: "rearm_ok e \<Longrightarrow> loop_exec st e = Some e' \<Longrightarrow> rearm_ok e'"
proof -
  assume a: "rearm_ok e" "loop_exec st e = Some e'"
  have s: "rearming (snd (StartListen t now e)) = rearming e" for t now
    by (simp add: StartListen_def Let_def CancelPendingLocked_def DoAsyncWaitLocked_def ArmTimerLocked_def)
  have d: "\<forall>op \<in> set (drop_nth n (rearming e)). fst op = OpRead \<or> fst op = OpWrite" for n
    using a(1) set_drop_nth [of n "rearming e"] by (auto simp: rearm_ok_def)
  show ?thesis
  proof (cases st)
    case (LRearm n)
    then have "rearming e' = drop_nth n (rearming e)"
      using a(2) by (auto simp: rearm_def DoAsyncWaitLocked_def split: if_splits)
    then show ?thesis using d [of n] by (simp add: rearm_ok_def)
  qed (use a s in \<open>auto simp: rearm_ok_def CancelListen_def ReleaseObjectsLocked_def LoopTrigger_def
        CancelPendingLocked_def call_callback_def Let_def split: if_splits\<close>)
qed

lemma pending_ok_rearm: "pending_ok e \<Longrightarrow> fst op \<in> {OpRead, OpWrite} \<Longrightarrow> pending_ok (rearm op e)"
  by (auto simp: rearm_def DoAsyncWaitLocked_def intro!: pending_ok_append)

lemma loop_pending_ok: "pending_ok e \<Longrightarrow> rearm_ok e \<Longrightarrow> loop_exec st e = Some e' \<Longrightarrow> pending_ok e'"
proof -
  assume a: "pending_ok e" "loop_exec st e = Some e'" and r: "rearm_ok e"
  show ?thesis
  proof (cases st)
    case (LStart t now)
    then show ?thesis using a StartListen_arms(3) [OF a(1)] by (cases "owned e") (auto simp: StartListen_def)
  next
    case (LCancel b)
    have "pending_ok (e \<lparr>m_round := r, m_timeout := d, m_fd := f\<rparr>)" for r d f
      using a(1) by (rule pending_ok_mono) auto
    then have "pending (snd (CancelListen b e)) = []"
      using CancelPending_empty [of "e \<lparr>m_round := r, m_timeout := d, m_fd := f\<rparr>" for r d f] a(1)
      by (auto simp: CancelListen_def ReleaseObjectsLocked_def Let_def filter_empty_conv pending_ok_def split: op_kind.splits)
    then show ?thesis using a LCancel by auto
  next
    case (LTrigger f)
    then show ?thesis using a CancelPending_empty [OF a(1)] by (auto simp: LoopTrigger_def Let_def)
  next
    case (LReady n)
    then show ?thesis using a set_drop_nth by (auto intro!: pending_ok_mono [OF a(1)] dest: subsetD [OF set_drop_nth] split: if_splits)
  next
    case (LCheck n)
    then show ?thesis using a(2)
      by (auto intro!: pending_ok_mono [OF a(1)] simp: check_defs Let_def split: if_splits prod.splits op_kind.splits)
  next
    case (LCall n)
    then show ?thesis using a(2)
      by (auto intro!: pending_ok_mono [OF a(1)] simp: call_callback_def Let_def split: if_splits)
  next
    case (LRearm n)
    have "pending_ok (e \<lparr>rearming := q\<rparr>)" for q using a(1) by (rule pending_ok_mono) auto
    moreover have "n < length (rearming e)" "e' = rearm (rearming e ! n) (e \<lparr>rearming := drop_nth n (rearming e)\<rparr>)"
      using LRearm a(2) by (simp_all split: if_splits)
    moreover from this have "fst (rearming e ! n) \<in> {OpRead, OpWrite}" using r by (simp add: rearm_ok_def)
    ultimately show ?thesis using pending_ok_rearm by blast
  qed
qed


interpretation object_machine: invariant_machine loop_exec "\<lambda>e. pending_ok e \<and> rearm_ok e"
  by unfold_locales (auto intro: loop_pending_ok loop_rearm_ok)

lemma NewEvent_ok: "NewEvent d fd evm = Some e \<Longrightarrow> pending_ok e \<and> rearm_ok e"
  by (auto simp: NewEvent_def pending_ok_def rearm_ok_def Let_def split: if_splits)

text \<open>The bookkeeping of one round \<open>r\<close>: what has been delivered since it began, plus what may still be
  delivered, never exceeds what it armed (\<open>K\<close>).\<close>

definition current :: "u64 \<Rightarrow> (op_kind \<times> u64) list \<Rightarrow> u16 multiset" where
  "current r ops = image_mset (op_mask \<circ> fst) (filter_mset (\<lambda>op. snd op = r) (mset ops))"

definition round_inv :: "u64 \<Rightarrow> u16 multiset \<Rightarrow> loop_event \<Rightarrow> bool" where
  "round_inv r K e \<longleftrightarrow> m_round e = r \<and> m_listen_events e AND EV_PERSIST = 0 \<and>
     (\<forall>op \<in> set (rearming e). snd op \<noteq> r) \<and> (\<forall>op \<in> set (calling e). snd op = r) \<and>
     mset (delivered e) + current r (pending e) + current r (ready e) + current r (calling e) \<subseteq># K"

lemma current_append [simp]: "current r (xs @ ys) = current r xs + current r ys"
  by (simp add: current_def)

lemma current_single [simp]: "current r [(k, q)] = (if q = r then {#op_mask k#} else {#})" "current r [] = {#}"
  by (simp_all add: current_def)

lemma current_drop_nth: "n < length xs \<Longrightarrow> current r xs = current r (drop_nth n xs) + current r [xs ! n]"
proof -
  assume "n < length xs"
  then have "xs = take n xs @ [xs ! n] @ drop (Suc n) xs" by (simp add: id_take_nth_drop)
  then have "current r xs = current r (take n xs) + current r [xs ! n] + current r (drop (Suc n) xs)"
    by (metis (no_types) add.assoc current_append)
  then show ?thesis by (simp add: drop_nth_def)
qed

lemma current_filter: "current r (filter P xs) \<subseteq># current r xs"
  unfolding current_def mset_filter by (intro image_mset_subseteq_mono multiset_filter_mono multiset_filter_subset)

lemma round_inv_mono:
  assumes "round_inv r K e" "m_round e' = m_round e" "m_listen_events e' = m_listen_events e"
    "set (rearming e') \<subseteq> set (rearming e)" "\<forall>op \<in> set (calling e'). snd op = r"
    "current r (pending e') \<subseteq># current r (pending e)"
    "mset (delivered e') + current r (calling e') + current r (ready e') \<subseteq># mset (delivered e) + current r (calling e) + current r (ready e)"
  shows "round_inv r K e'"
proof -
  have "current r (pending e') + (mset (delivered e') + current r (calling e') + current r (ready e')) \<subseteq>#
      current r (pending e) + (mset (delivered e) + current r (calling e) + current r (ready e))"
    using assms(6,7) by (rule subset_mset.add_mono)
  moreover have "current r (pending e) + (mset (delivered e) + current r (calling e) + current r (ready e)) \<subseteq># K"
    using assms(1) by (simp add: round_inv_def ac_simps)
  ultimately have "current r (pending e') + (mset (delivered e') + current r (calling e') + current r (ready e')) \<subseteq># K"
    by (rule subset_mset.order_trans)
  then show ?thesis using assms by (auto simp: round_inv_def ac_simps)
qed

lemma round_inv_check:
  assumes "round_inv r K e" "n < length (ready e)"
  shows "round_inv r K (handler_check (ready e ! n) (e \<lparr>ready := drop_nth n (ready e)\<rparr>))" (is "round_inv r K ?e'")
proof -
  obtain k q where op: "ready e ! n = (k, q)" by (cases "ready e ! n")
  have c: "calling ?e' = calling e \<or> q = r \<and> calling ?e' = calling e @ [(k, q)]"
    using assms(1) by (auto simp: op round_inv_def check_defs Let_def split: op_kind.splits)
  have "\<exists>P. pending ?e' = filter P (pending e)"
    by (auto simp: op check_defs Let_def split: op_kind.splits intro: exI [of _ "\<lambda>_. True"])
  then obtain P where P: "pending ?e' = filter P (pending e)" by blast
  show ?thesis
  proof (rule round_inv_mono [OF assms(1)])
    show "\<forall>op \<in> set (calling ?e'). snd op = r" using assms(1) c by (auto simp: round_inv_def)
    show "current r (pending ?e') \<subseteq># current r (pending e)" unfolding P by (rule current_filter)
    show "mset (delivered ?e') + current r (calling ?e') + current r (ready ?e') \<subseteq># mset (delivered e) + current r (calling e) + current r (ready e)"
      using c current_drop_nth [OF assms(2), of r] by (auto simp: op)
  qed simp_all
qed

lemma round_inv_call:
  assumes "round_inv r K e" "n < length (calling e)"
  shows "round_inv r K (call_callback (calling e ! n) (e \<lparr>calling := drop_nth n (calling e)\<rparr>))" (is "round_inv r K ?e'")
proof -
  obtain k q where op: "calling e ! n = (k, q)" by (cases "calling e ! n")
  have q: "q = r" using assms op nth_mem by (fastforce simp: round_inv_def)
  have np: "m_listen_events e AND EV_PERSIST = 0" using assms(1) by (simp add: round_inv_def)
  note sel = op call_callback_def Let_def np
  show ?thesis
  proof (rule round_inv_mono [OF assms(1)])
    show "\<forall>op \<in> set (calling ?e'). snd op = r"
      using assms(1) set_drop_nth [of n "calling e"] by (auto simp: round_inv_def sel)
    show "mset (delivered ?e') + current r (calling ?e') + current r (ready ?e') \<subseteq># mset (delivered e) + current r (calling e) + current r (ready e)"
      using current_drop_nth [OF assms(2), of r] by (simp add: sel q)
  qed (simp_all add: sel)
qed

lemma round_inv_step: "round_inv r K e \<Longrightarrow> reactor_exec st e = Some e' \<Longrightarrow> round_inv r K e'"
proof (cases st)
  case (LReady n)
  assume a: "round_inv r K e" "reactor_exec st e = Some e'"
  then have n: "n < length (pending e)" and e': "e' = e \<lparr>pending := drop_nth n (pending e), ready := ready e @ [pending e ! n]\<rparr>"
    using LReady by (simp_all split: if_splits)
  show ?thesis using a(1) current_drop_nth [OF n, of r] by (simp add: round_inv_def e' ac_simps)
next
  case (LCheck n)
  assume "round_inv r K e" "reactor_exec st e = Some e'"
  then show ?thesis using LCheck round_inv_check by (auto split: if_splits)
next
  case (LCall n)
  assume "round_inv r K e" "reactor_exec st e = Some e'"
  then show ?thesis using LCall round_inv_call by (auto split: if_splits)
next
  case (LRearm n)
  assume a: "round_inv r K e" "reactor_exec st e = Some e'"
  then have n: "n < length (rearming e)" and e': "e' = rearm (rearming e ! n) (e \<lparr>rearming := drop_nth n (rearming e)\<rparr>)"
    using LRearm by (simp_all split: if_splits)
  have "snd (rearming e ! n) \<noteq> m_round e" using a(1) n by (simp add: round_inv_def)
  then have "e' = e \<lparr>rearming := drop_nth n (rearming e)\<rparr>" by (simp add: e' rearm_def)
  then show ?thesis
    using set_drop_nth [of n "rearming e"] a(1) by (intro round_inv_mono [OF a(1)]) (auto simp: round_inv_def)
qed auto

interpretation round_machine: invariant_machine reactor_exec "round_inv r K" for r K
  by unfold_locales (rule round_inv_step)


lemma round_inv_start:
  assumes "pending_ok e" "owned e" "calling e = []" "m_listen_events e AND EV_PERSIST = 0"
    "\<forall>op \<in> set (ready e @ rearming e). snd op \<noteq> m_round e + 1"
  shows "round_inv (m_round e + 1) (mset (delivered e) + mset (armed_masks t e)) (snd (StartListen t now e))"
proof -
  note s = StartListen_arms [OF assms(1,2), of t now]
  have "filter_mset (\<lambda>op. snd op = m_round e + 1) (mset (pending (snd (StartListen t now e)))) = mset (pending (snd (StartListen t now e)))"
    using s(2) by (auto intro!: filter_mset_eq_conv [THEN iffD2])
  then have "current (m_round e + 1) (pending (snd (StartListen t now e))) = mset (armed_masks t e)"
    unfolding current_def s(1) [of, symmetric] by simp
  moreover have "current (m_round e + 1) (ready e) = {#}"
    using assms(5) by (auto simp: current_def filter_mset_eq_conv)
  ultimately show ?thesis using assms s(4-9) by (auto simp: round_inv_def)
qed

text \<open>Rounds of \<open>Event::StartListen\<close> do not mix: when a one-shot event (no \<open>EV_PERSIST\<close>) that is
  not inside a callback is restarted, completions of earlier rounds that are already queued are
  discarded by the round check, whatever the reactor does; together all deliveries of the new round are
  among the operations it armed, each at most once (fd readability, fd writability, one timeout).
  The round counter is 64 bits wide; the last hypothesis says that no handler has been queued for
  a whole turn of it.\<close>

lemma event_round_isolated:
  assumes "NewEvent ok fd evm = Some e0" "reaches loop_exec e0 e" "owned e" "calling e = []"
    "m_listen_events e AND EV_PERSIST = 0" "\<forall>op \<in> set (ready e @ rearming e). snd op \<noteq> m_round e + 1"
    "reaches reactor_exec (snd (StartListen t now e)) e'"
  shows "mset (delivered e') \<subseteq># mset (delivered e) + mset (armed_masks t e)"
proof -
  have "pending_ok e" using object_machine.reaches_inv [OF assms(2)] NewEvent_ok [OF assms(1)] by blast
  note round_inv_start [OF this assms(3-6), of t now]
  note round_machine.reaches_inv [OF assms(7) this]
  then have "mset (delivered e') + (current (m_round e + 1) (pending e') + current (m_round e + 1) (ready e') +
      current (m_round e + 1) (calling e')) \<subseteq># mset (delivered e) + mset (armed_masks t e)"
    by (simp add: round_inv_def add.assoc)
  then show ?thesis by (rule subset_mset.order_trans [OF mset_subset_eq_add_left])
qed

section \<open>A zero timeout\<close>

lemma NewEvent_timer:
  "NewEvent ok (-1) EV_TIMEOUT = Some \<lparr>m_round = 0, m_fd = -1, m_listen_events = EV_TIMEOUT, m_timeout = -1, m_sd = False,
     m_timer = True, m_internal_fd = False, internal_closes = 0, owned = True, registered = True,
     pending = [], ready = [], calling = [], rearming = [], delivered = []\<rparr>"
  by (simp add: NewEvent_def EV_TIMEOUT_def)

text \<open>A timer wait with timeout 0 is never completed by the loop: \<open>StartListen(0)\<close> succeeds but
  arms nothing, so no reactor step is possible at all, whereas with any positive timeout the reactor
  can complete the wait and deliver \<open>EV_TIMEOUT\<close>. Callers that pass a zero timeout down to this layer
  (\<open>YieldUntilTimeout(0)\<close>, \<open>TryLock(0)\<close>, \<open>WaitWithTimeout(0)\<close>) therefore have no deadline.\<close>

lemma zero_timeout_never_fires:
  "\<exists>e. NewEvent ok (-1) EV_TIMEOUT = Some e \<and>
     fst (StartListen 0 now e) = 0 \<and> (\<forall>st. reactor_exec st (snd (StartListen 0 now e)) = None) \<and>
     (\<forall>t. fst (StartListen (Suc t) now e) = 0 \<and>
        map_option delivered (run reactor_exec [LReady 0, LCheck 0, LCall 0] (snd (StartListen (Suc t) now e))) = Some [EV_TIMEOUT])"
proof (intro exI conjI allI, rule NewEvent_timer)
  fix st
  show "reactor_exec st (snd (StartListen 0 now \<lparr>m_round = 0, m_fd = -1, m_listen_events = EV_TIMEOUT, m_timeout = -1, m_sd = False,
     m_timer = True, m_internal_fd = False, internal_closes = 0, owned = True, registered = True,
     pending = [], ready = [], calling = [], rearming = [], delivered = []\<rparr>)) = None"
    by (cases st) (simp_all add: StartListen_def CancelPendingLocked_def Let_def)
qed (simp_all add: StartListen_def CancelPendingLocked_def ArmTimerLocked_def check_defs call_callback_def drop_nth_def Let_def)

end
