(* ===== verification/StackModel.thy ===== *)
theory StackModel
  imports Prelude
begin

text \<open>
  \<open>detail/Stack.{hpp,cc}\<close>: a fixed coroutine stack. Sizes and addresses are 64-bit words, so that every
  overflow check of the code is there to matter; the page size (\<open>sysconf\<close>), the allocator's answer
  (\<open>memalign\<close>, 0 for a null pointer) and the results of \<open>mprotect\<close> are arguments.
\<close>

datatype stack_error = SysconfFailed | InvalidSize | AlignOverflow | SizeTooLarge | GuardOverflow | BadAlloc | MprotectFailed

record stack =
  m_mem_chunk :: u64
  m_mem_chunk_size :: u64
  m_stack_protect_flag :: bool
  m_useable_size :: u64

definition stack0 :: stack where
  "stack0 = \<lparr>m_mem_chunk = 0, m_mem_chunk_size = 0, m_stack_protect_flag = False, m_useable_size = 0\<rparr>"

definition PageSize :: "64 word \<Rightarrow> stack_error + u64" where
  "PageSize sysconf = (if sint sysconf \<le> 0 then Inl SysconfFailed else Inr sysconf)"

definition PointerDiffLimit :: u64 where
  "PointerDiffLimit = 0x7FFFFFFFFFFFFFFF"

definition NormalizeSize :: "64 word \<Rightarrow> u64 \<Rightarrow> stack_error + u64" where
  "NormalizeSize sysconf stack_size =
     (if stack_size = 0 then Inl InvalidSize
      else case PageSize sysconf of Inl err \<Rightarrow> Inl err | Inr page_size \<Rightarrow>
        let remainder = stack_size mod page_size;
            padding = (if remainder = 0 then 0 else page_size - remainder) in
        if stack_size > - 1 - padding then Inl AlignOverflow
        else let aligned_size = stack_size + padding in
          if aligned_size > PointerDiffLimit then Inl SizeTooLarge else Inr aligned_size)"

text \<open>The constructor. A block whose guard page cannot be protected is freed before the exception leaves.\<close>

definition NewStack :: "64 word \<Rightarrow> u64 \<Rightarrow> bool \<Rightarrow> u64 \<Rightarrow> bool \<Rightarrow> stack_error + stack" where
  "NewStack sysconf stack_size protect alloc mprotect_ok =
     (case NormalizeSize sysconf stack_size of Inl err \<Rightarrow> Inl err | Inr useable \<Rightarrow>
      case PageSize sysconf of Inl err \<Rightarrow> Inl err | Inr page_size \<Rightarrow>
      if protect \<and> useable > PointerDiffLimit - page_size then Inl GuardOverflow
      else let chunk_size = (if protect then useable + page_size else useable) in
        if alloc = 0 then Inl BadAlloc
        else if protect \<and> \<not> mprotect_ok then Inl MprotectFailed
        else Inr \<lparr>m_mem_chunk = alloc, m_mem_chunk_size = chunk_size, m_stack_protect_flag = protect, m_useable_size = useable\<rparr>)"

text \<open>\<open>_Release\<close>: the number of blocks freed and the empty stack, or \<open>None\<close> for the fail-stop when the guard
  page cannot be unprotected.\<close>

definition StackRelease :: "bool \<Rightarrow> stack \<Rightarrow> (nat \<times> stack) option" where
  "StackRelease mprotect_ok st =
     (if m_mem_chunk st = 0 then Some (0, st)
      else if m_stack_protect_flag st \<and> \<not> mprotect_ok then None
      else Some (1, stack0))"

definition StackTop :: "stack \<Rightarrow> u64" where
  "StackTop st = (if m_mem_chunk st = 0 then 0 else m_mem_chunk st + m_mem_chunk_size st)"

definition StackBottom :: "64 word \<Rightarrow> stack \<Rightarrow> stack_error + u64" where
  "StackBottom sysconf st =
     (if m_mem_chunk st = 0 \<or> m_useable_size st = 0 then Inr 0
      else if m_stack_protect_flag st then (case PageSize sysconf of Inl err \<Rightarrow> Inl err | Inr p \<Rightarrow> Inr (m_mem_chunk st + p))
      else Inr (m_mem_chunk st))"

definition StackSwap :: "stack \<Rightarrow> stack \<Rightarrow> stack \<times> stack" where
  "StackSwap this other = (other, stack0)"

section \<open>Sizes\<close>

lemma PointerDiffLimit_unat: "unat PointerDiffLimit = 2 ^ 63 - 1"
  by (simp add: PointerDiffLimit_def)

lemma PageSize_Inr: "PageSize sc = Inr p \<longleftrightarrow> p = sc \<and> 0 < sint sc"
  by (auto simp: PageSize_def)

lemma sint_pos_unat: "0 < sint (w :: u64) \<Longrightarrow> 0 < unat w \<and> unat w < 2 ^ 63"
proof -
  assume a: "0 < sint w"
  have lt: "sint w < 2 ^ 63" using sint_lt [of w] by simp
  have "uint w = take_bit 64 (sint w)" using uint_sint [of w] by simp
  also have "\<dots> = sint w" using a lt by (intro take_bit_int_eq_self) auto
  finally have "int (unat w) = sint w" by simp
  then have "0 < int (unat w)" "int (unat w) < int (2 ^ 63)" using a lt by simp_all
  then show ?thesis by (simp only: of_nat_less_iff of_nat_0_less_iff)
qed

lemma pad_least:
  fixes s p :: nat
  assumes "0 < p" "0 < s"
  defines "pad \<equiv> if s mod p = 0 then 0 else p - s mod p"
  shows "p dvd s + pad" "pad < p" "p dvd m \<Longrightarrow> s \<le> m \<Longrightarrow> s + pad \<le> m"
proof -
  have r: "s mod p < p" using assms(1) by simp
  have s: "s = p * (s div p) + s mod p" by simp
  have v: "s + pad = p * (s div p + (if s mod p = 0 then 0 else 1))"
  proof (cases "s mod p = 0")
    case False
    then have "s + pad = (s - s mod p) + p" using r by (simp add: pad_def)
    then show ?thesis using False by (simp add: minus_mod_eq_mult_div)
  qed (use s in \<open>simp add: pad_def\<close>)
  show "p dvd s + pad" unfolding v by simp
  show "pad < p" using r assms(1) by (simp add: pad_def)
  assume m: "p dvd m" "s \<le> m"
  then obtain c where c: "m = p * c" by blast
  have "s div p \<le> c" using m(2) c assms(1) by (metis div_le_mono nonzero_mult_div_cancel_left not_less_zero)
  moreover have "s mod p \<noteq> 0 \<Longrightarrow> s div p \<noteq> c" using m(2) c s by (metis add_le_same_cancel1 le_zero_eq)
  ultimately show "s + pad \<le> m" unfolding v c by (intro mult_le_mono2) (auto simp: Suc_le_eq)
qed

text \<open>The sum of the request and its padding is computed in the naturals exactly when the check passes.\<close>

lemma NormalizeSize_nat:
  assumes "0 < sint sc" "stack_size \<noteq> 0"
  defines "p \<equiv> unat sc" and "s \<equiv> unat stack_size"
  defines "n \<equiv> s + (if s mod p = 0 then 0 else p - s mod p)"
  shows "NormalizeSize sc stack_size = (if 2 ^ 64 \<le> n then Inl AlignOverflow
     else if 2 ^ 63 \<le> n then Inl SizeTooLarge else Inr (of_nat n))"
proof -
  let ?rem = "stack_size mod sc"
  let ?pad = "if ?rem = 0 then 0 else sc - ?rem"
  have p: "0 < p" using sint_pos_unat [OF assms(1)] by (simp add: p_def)
  have rem: "unat ?rem = s mod p" by (simp add: s_def p_def unat_mod)
  have le: "?rem \<le> sc" using p rem by (simp add: word_le_nat_alt p_def less_imp_le)
  have pad: "unat ?pad = (if s mod p = 0 then 0 else p - s mod p)"
  proof (cases "s mod p = 0")
    case False
    then have "?rem \<noteq> 0" using rem by (metis unat_0)
    then show ?thesis using False rem le by (simp only: if_False unat_sub p_def)
  next
    case True
    then have "?rem = 0" using rem by (simp add: unat_eq_zero)
    then show ?thesis using True by simp
  qed
  have m1: "unat (- 1 - ?pad) = 2 ^ 64 - 1 - unat ?pad"
    by (subst unat_sub) (simp_all add: unsigned_minus_1_eq_mask mask_eq_exp_minus_1)
  have padlt: "unat ?pad < 2 ^ 64" using unsigned_less [of ?pad] by simp
  have over: "stack_size > - 1 - ?pad \<longleftrightarrow> 2 ^ 64 \<le> n"
  proof -
    have "n = unat stack_size + unat ?pad" using pad by (simp add: n_def s_def)
    then show ?thesis unfolding word_less_nat_alt m1 using padlt by linarith
  qed
  have sum: "\<not> 2 ^ 64 \<le> n \<Longrightarrow> unat (stack_size + ?pad) = n"
    using pad by (simp add: unat_word_ariths n_def s_def)
  show ?thesis
  proof (cases "2 ^ 64 \<le> n")
    case True
    then show ?thesis using assms(1,2) over by (simp add: NormalizeSize_def PageSize_def Let_def)
  next
    case False
    then have big: "stack_size + ?pad > PointerDiffLimit \<longleftrightarrow> 2 ^ 63 \<le> n"
      using sum by (auto simp: word_less_nat_alt PointerDiffLimit_unat)
    have "stack_size + ?pad = of_nat n" using sum [OF False] by (metis of_nat_unat ucast_id)
    then show ?thesis using assms(1,2) over False big
      by (simp add: NormalizeSize_def PageSize_def Let_def)
  qed
qed


lemma NormalizeSize_ok:
  assumes "NormalizeSize sc sz = Inr u"
  shows "0 < sint sc" "unat sc dvd unat u" "unat sz \<le> unat u" "unat u < 2 ^ 63" "0 < unat u"
    "unat sc dvd m \<Longrightarrow> unat sz \<le> m \<Longrightarrow> unat u \<le> m"
proof -
  show sc: "0 < sint sc" using assms by (auto simp: NormalizeSize_def PageSize_def split: if_splits)
  have nz: "sz \<noteq> 0" using assms by (auto simp: NormalizeSize_def)
  define pad where "pad = (if unat sz mod unat sc = 0 then 0 else unat sc - unat sz mod unat sc)"
  have "unat sz + pad < 2 ^ 63" and u: "u = of_nat (unat sz + pad)"
    using assms unfolding NormalizeSize_nat [OF sc nz] pad_def [symmetric] by (auto split: if_splits)
  moreover from this have n: "unat u = unat sz + pad" unfolding u by (simp only: unat_of_nat) simp
  ultimately show "unat u < 2 ^ 63" by simp
  have pos: "0 < unat sc" "0 < unat sz" using sint_pos_unat [OF sc] nz by (simp_all add: unat_gt_0)
  note pad_least [OF pos, folded pad_def]
  then show "unat sc dvd unat u" "unat sz \<le> unat u" "0 < unat u"
    "unat sc dvd m \<Longrightarrow> unat sz \<le> m \<Longrightarrow> unat u \<le> m"
    using pos by (simp_all add: n)
qed

text \<open>C40. A constructed stack has the layout its users rely on, for every page size and every request up to the
  64-bit limits: the useable size is the least multiple of the page size that is not smaller than the request,
  the useable region between \<open>StackBottom\<close> and \<open>StackTop\<close> has exactly that many bytes, and with protection
  the guard page lies directly below it inside the block. The hypothesis on the allocator says that the
  block does not wrap around the address space.\<close>

theorem stack_layout:
  assumes "NewStack sc sz prot alloc ok = Inr st" "unat alloc + unat (m_mem_chunk_size st) < 2 ^ 64"
  shows "unat sc dvd unat (m_useable_size st) \<and> unat sz \<le> unat (m_useable_size st) \<and>
    (\<forall>m. unat sc dvd m \<longrightarrow> unat sz \<le> m \<longrightarrow> unat (m_useable_size st) \<le> m) \<and>
    (\<exists>b. StackBottom sc st = Inr b \<and> unat b = unat (m_mem_chunk st) + (if prot then unat sc else 0) \<and>
       unat (StackTop st) = unat b + unat (m_useable_size st))"
proof -
  obtain u where u: "NormalizeSize sc sz = Inr u" using assms(1) by (auto simp: NewStack_def split: sum.splits)
  note n = NormalizeSize_ok [OF u]
  have sc: "PageSize sc = Inr sc" using n(1) by (simp add: PageSize_def)
  have st: "st = \<lparr>m_mem_chunk = alloc, m_mem_chunk_size = (if prot then u + sc else u), m_stack_protect_flag = prot, m_useable_size = u\<rparr>"
    and a: "alloc \<noteq> 0"
    using assms(1) by (auto simp: NewStack_def u sc Let_def split: if_splits)
  have "unat u + unat sc < 2 ^ 64" using n(4) sint_pos_unat [OF n(1)] by simp
  then have us: "unat (u + sc) = unat u + unat sc" by (simp add: unat_word_ariths)
  have u0: "u \<noteq> 0" using n(5) by (auto simp: unat_gt_0)
  have top: "unat (alloc + m_mem_chunk_size st) = unat alloc + unat (m_mem_chunk_size st)"
    using assms(2) by (simp add: unat_word_ariths)
  show ?thesis
  proof (cases prot)
    case True
    then have "unat alloc + unat sc < 2 ^ 64" using assms(2) us by (simp add: st)
    then have "unat (alloc + sc) = unat alloc + unat sc" by (simp add: unat_word_ariths)
    then show ?thesis using True n(2,3,6) top us a u0 sc by (simp add: st StackBottom_def StackTop_def)
  next
    case False
    then show ?thesis using n(2,3,6) top a u0 by (simp add: st StackBottom_def StackTop_def)
  qed
qed

theorem stack_layout_witness:
  "\<exists>st b. NewStack 4096 10000 True 0x7f0000000000 True = Inr st \<and> unat (m_useable_size st) = 12288 \<and>
     StackBottom 4096 st = Inr b \<and> unat (StackTop st) = unat b + 12288"
proof -
  define st where "st = \<lparr>m_mem_chunk = 0x7f0000000000, m_mem_chunk_size = 16384, m_stack_protect_flag = True, m_useable_size = 12288 :: u64\<rparr>"
  have n: "NewStack 4096 10000 True 0x7f0000000000 True = Inr st" unfolding st_def by code_simp
  have a: "unat (0x7f0000000000 :: u64) + unat (m_mem_chunk_size st) < 2 ^ 64" by (simp add: st_def)
  have "unat (m_useable_size st) = 12288" by (simp add: st_def)
  then show ?thesis using stack_layout [OF n a] n by auto
qed

end
