(* ===== verification/StackPoolModel.thy ===== *)
theory StackPoolModel
  imports StackModel Binary64 "HOL-Library.Multiset"
begin

text \<open>
  \<open>detail/StackPool.{hpp,cc}\<close>: exact-size reuse of stacks, bucket by (useable size, protection). Everything is
  guarded by one mutex, and each critical section is one operation of the model; \<open>Apply\<close> allocates between
  two of them, so its three sections (\<open>ApplyReserve\<close>, \<open>ApplyCommit\<close>, \<open>ApplyRollback\<close>) interleave with everything else.
  Counters are integers, so that an underflow of the code's \<open>size_t\<close> would show as a negative number;
  the invariant excludes it. The clock and the results of allocations and of vector growth are arguments.
\<close>

type_synonym bucket_key = "u64 \<times> bool"

record bucket =
  pool :: "stack list"
  live :: int
  idle :: int
  borrowed :: int
  pending :: int

record stack_pool =
  m_buckets :: "(bucket_key \<times> bucket) list"
  m_live_count :: int
  m_borrowed_count :: int
  m_pending_count :: int
  m_co_avg :: int
  m_prev_adjust_pool_ts :: int
  m_prev_rtts_sample_ts :: int

record pool_config =
  max_alloc :: int
  min_alloc :: int
  sample_interval :: int
  adjust_interval :: int

definition bucket0 :: bucket where
  "bucket0 = \<lparr>pool = [], live = 0, idle = 0, borrowed = 0, pending = 0\<rparr>"

definition stack_key :: "stack \<Rightarrow> bucket_key" where
  "stack_key st = (m_useable_size st, m_stack_protect_flag st)"

definition Push :: "bool \<Rightarrow> stack \<Rightarrow> bucket \<Rightarrow> bucket option" where
  "Push grow_ok st b = (if grow_ok then Some (b \<lparr>pool := pool b @ [st]\<rparr>) else None)"

definition Pop :: "bucket \<Rightarrow> (stack \<times> bucket) option" where
  "Pop b = (if pool b = [] then None else Some (last (pool b), b \<lparr>pool := butlast (pool b)\<rparr>))"

text \<open>The \<open>std::map\<close> of buckets, in key order: unprotected before protected buckets of one size.\<close>

definition key_less :: "bucket_key \<Rightarrow> bucket_key \<Rightarrow> bool" where
  "key_less k k' \<longleftrightarrow> fst k < fst k' \<or> fst k = fst k' \<and> \<not> snd k \<and> snd k'"

fun put_bucket :: "bucket_key \<Rightarrow> bucket \<Rightarrow> (bucket_key \<times> bucket) list \<Rightarrow> (bucket_key \<times> bucket) list" where
  "put_bucket k b [] = [(k, b)]"
| "put_bucket k b ((k', b') # bs) =
     (if k = k' then (k, b) # bs else if key_less k k' then (k, b) # (k', b') # bs else (k', b') # put_bucket k b bs)"

definition GetBucketLocked :: "bucket_key \<Rightarrow> stack_pool \<Rightarrow> bucket" where
  "GetBucketLocked k p = (case map_of (m_buckets p) k of None \<Rightarrow> bucket0 | Some b \<Rightarrow> b)"

definition set_bucket :: "bucket_key \<Rightarrow> bucket \<Rightarrow> stack_pool \<Rightarrow> stack_pool" where
  "set_bucket k b p = p \<lparr>m_buckets := put_bucket k b (m_buckets p)\<rparr>"

definition bucket_empty :: "bucket \<Rightarrow> bool" where
  "bucket_empty b \<longleftrightarrow> idle b = 0 \<and> borrowed b = 0 \<and> pending b = 0"

definition EraseBucketIfEmptyLocked :: "bucket_key \<Rightarrow> bucket \<Rightarrow> stack_pool \<Rightarrow> stack_pool" where
  "EraseBucketIfEmptyLocked k b p =
     (if bucket_empty b then p \<lparr>m_buckets := filter (\<lambda>(k', _). k' \<noteq> k) (m_buckets p)\<rparr> else p)"

text \<open>\<open>_TakeIdleLocked\<close>: the scan over the buckets, then the counters.\<close>

fun take_scan :: "(bucket_key \<times> bucket) list \<Rightarrow> stack option \<times> (bucket_key \<times> bucket) list" where
  "take_scan [] = (None, [])"
| "take_scan ((k, b) # bs) =
     (if idle b = 0 then (let (r, bs') = take_scan bs in (r, (k, b) # bs'))
      else case Pop b of
        None \<Rightarrow> (let (r, bs') = take_scan bs in (r, (k, b \<lparr>idle := 0\<rparr>) # bs'))
      | Some (item, b1) \<Rightarrow>
          (let b2 = b1 \<lparr>idle := idle b1 - 1, live := live b1 - 1\<rparr> in
           (Some item, if bucket_empty b2 then bs else (k, b2) # bs)))"

definition TakeIdleLocked :: "stack_pool \<Rightarrow> stack option \<times> stack_pool" where
  "TakeIdleLocked p = (case take_scan (m_buckets p) of
       (None, bs) \<Rightarrow> (None, p \<lparr>m_buckets := bs\<rparr>)
     | (Some item, bs) \<Rightarrow> (Some item, p \<lparr>m_buckets := bs, m_live_count := m_live_count p - 1\<rparr>))"

datatype apply_result = Refused | Reused stack | Reserved

definition ApplyReserve :: "pool_config \<Rightarrow> bucket_key \<Rightarrow> stack_pool \<Rightarrow> apply_result \<times> stack_pool" where
  "ApplyReserve cfg k p =
     (if max_alloc cfg \<le> m_borrowed_count p + m_pending_count p then (Refused, p)
      else let b = GetBucketLocked k p in
        case Pop b of
          Some (item, b1) \<Rightarrow>
            (Reused item, (set_bucket k (b1 \<lparr>idle := idle b1 - 1, borrowed := borrowed b1 + 1\<rparr>) p)
               \<lparr>m_borrowed_count := m_borrowed_count p + 1\<rparr>)
        | None \<Rightarrow> (Reserved, (set_bucket k (b \<lparr>pending := pending b + 1\<rparr>) p) \<lparr>m_pending_count := m_pending_count p + 1\<rparr>))"

definition ApplyRollback :: "bucket_key \<Rightarrow> stack_pool \<Rightarrow> stack_pool" where
  "ApplyRollback k p =
     (let b = GetBucketLocked k p; b1 = b \<lparr>pending := pending b - 1\<rparr> in
      EraseBucketIfEmptyLocked k b1 ((set_bucket k b1 p) \<lparr>m_pending_count := m_pending_count p - 1\<rparr>))"

definition ApplyCommit :: "bucket_key \<Rightarrow> stack_pool \<Rightarrow> stack_pool" where
  "ApplyCommit k p =
     (let b = GetBucketLocked k p in
      (set_bucket k (b \<lparr>pending := pending b - 1, live := live b + 1, borrowed := borrowed b + 1\<rparr>) p)
        \<lparr>m_pending_count := m_pending_count p - 1, m_live_count := m_live_count p + 1, m_borrowed_count := m_borrowed_count p + 1\<rparr>)"

text \<open>\<open>Apply\<close> run without interruption; \<open>new\<close> is the result of constructing a stack of the normalised size.\<close>

definition Apply :: "64 word \<Rightarrow> pool_config \<Rightarrow> u64 \<Rightarrow> bool \<Rightarrow> (stack_error + stack) \<Rightarrow> stack_pool \<Rightarrow>
    (stack_error + stack option) \<times> stack_pool" where
  "Apply sysconf cfg stack_size protect new p =
     (case NormalizeSize sysconf stack_size of Inl err \<Rightarrow> (Inl err, p) | Inr useable \<Rightarrow>
      let k = (useable, protect) in
      case ApplyReserve cfg k p of
        (Refused, p1) \<Rightarrow> (Inr None, p1)
      | (Reused item, p1) \<Rightarrow> (Inr (Some item), p1)
      | (Reserved, p1) \<Rightarrow> (case new of
            Inl err \<Rightarrow> (Inl err, ApplyRollback k p1)
          | Inr item \<Rightarrow> (Inr (Some item), ApplyCommit k p1)))"

text \<open>\<open>Release\<close>; the second component says whether the object is destroyed after the lock is dropped.\<close>

definition Release :: "bool \<Rightarrow> stack \<Rightarrow> stack_pool \<Rightarrow> stack_pool \<times> bool" where
  "Release grow_ok item p =
     (let k = stack_key item in
      case map_of (m_buckets p) k of
        None \<Rightarrow> (p, True)
      | Some b \<Rightarrow>
          if borrowed b \<le> 0 then (EraseBucketIfEmptyLocked k b p, True)
          else case Push grow_ok item b of
            Some b1 \<Rightarrow>
              (let b2 = b1 \<lparr>borrowed := borrowed b1 - 1, idle := idle b1 + 1\<rparr> in
               (EraseBucketIfEmptyLocked k b2 ((set_bucket k b2 p) \<lparr>m_borrowed_count := m_borrowed_count p - 1\<rparr>), False))
          | None \<Rightarrow>
              (let b2 = b \<lparr>borrowed := borrowed b - 1, live := live b - 1\<rparr> in
               (EraseBucketIfEmptyLocked k b2 ((set_bucket k b2 p)
                  \<lparr>m_borrowed_count := m_borrowed_count p - 1, m_live_count := m_live_count p - 1\<rparr>), True)))"

text \<open>\<open>OnUpdate\<close>: the sampling section (\<open>None\<close> when it is not yet time to adjust) and one turn of the release loop.\<close>

definition sample_avg :: "int \<Rightarrow> int \<Rightarrow> int" where
  "sample_avg avg cur = \<lfloor>dadd (dmul (7 / 8) (fl53 (of_int avg))) (dmul (1 / 8) (fl53 (of_int cur)))\<rfloor>"

definition OnUpdateSample :: "pool_config \<Rightarrow> int \<Rightarrow> stack_pool \<Rightarrow> (int \<times> int) option \<times> stack_pool" where
  "OnUpdateSample cfg now p =
     (let cur = m_borrowed_count p + m_pending_count p;
          p1 = (if m_co_avg p = 0 then p \<lparr>m_co_avg := cur\<rparr> else p);
          p2 = (if m_prev_rtts_sample_ts p1 + sample_interval cfg \<le> now
                then p1 \<lparr>m_co_avg := sample_avg (m_co_avg p1) cur, m_prev_rtts_sample_ts := now\<rparr> else p1);
          allowable = \<lfloor>dmul 1 (fl53 (of_int (m_co_avg p2)))\<rfloor> in
      if \<not> m_prev_adjust_pool_ts p2 + adjust_interval cfg \<le> now then (None, p2)
      else let keep = max (min_alloc cfg) allowable in
        (Some (keep, if keep < m_live_count p2 then m_live_count p2 - keep else 0), p2 \<lparr>m_prev_adjust_pool_ts := now\<rparr>))"

definition OnUpdateTake :: "int \<Rightarrow> stack_pool \<Rightarrow> stack option \<times> stack_pool" where
  "OnUpdateTake keep p = (if m_live_count p \<le> keep then (None, p) else TakeIdleLocked p)"



text \<open>\<open>_Preload\<close> publishes the stacks it built, up to the first failing push.\<close>

fun preload_push :: "(stack \<times> bool) list \<Rightarrow> bucket \<Rightarrow> int \<Rightarrow> bucket \<times> int" where
  "preload_push [] b n = (b, n)"
| "preload_push ((item, grow_ok) # its) b n = (case Push grow_ok item b of
       None \<Rightarrow> (b, n)
     | Some b1 \<Rightarrow> preload_push its (b1 \<lparr>idle := idle b1 + 1, live := live b1 + 1\<rparr>) (n + 1))"

definition Preload :: "bucket_key \<Rightarrow> (stack \<times> bool) list \<Rightarrow> stack_pool \<Rightarrow> stack_pool" where
  "Preload k its p =
     (if its = [] then p
      else let (b, n) = preload_push its (GetBucketLocked k p) (m_live_count p) in
        EraseBucketIfEmptyLocked k b ((set_bucket k b p) \<lparr>m_live_count := n\<rparr>))"

definition NewStackPool :: "int \<Rightarrow> stack_pool" where
  "NewStackPool now = \<lparr>m_buckets = [], m_live_count = 0, m_borrowed_count = 0, m_pending_count = 0, m_co_avg = 0,
     m_prev_adjust_pool_ts = now, m_prev_rtts_sample_ts = 0\<rparr>"

definition AllocSize :: "stack_pool \<Rightarrow> int" where "AllocSize p = m_live_count p"
definition GetCurCoNum :: "stack_pool \<Rightarrow> int" where "GetCurCoNum p = m_borrowed_count p + m_pending_count p"
definition GetCoAvgCount :: "stack_pool \<Rightarrow> int" where "GetCoAvgCount p = m_co_avg p"


section \<open>The bucket map\<close>

abbreviation sorted_buckets :: "(bucket_key \<times> bucket) list \<Rightarrow> bool" where
  "sorted_buckets bs \<equiv> sorted_wrt key_less (map fst bs)"

definition idle_stacks :: "(bucket_key \<times> bucket) list \<Rightarrow> stack list" where
  "idle_stacks bs = concat (map (pool \<circ> snd) bs)"

definition get_bucket :: "(bucket_key \<times> bucket) list \<Rightarrow> bucket_key \<Rightarrow> bucket" where
  "get_bucket bs k = (case map_of bs k of None \<Rightarrow> bucket0 | Some b \<Rightarrow> b)"

lemma idle_stacks_simps [simp]: "idle_stacks [] = []" "idle_stacks ((k, b) # bs) = pool b @ idle_stacks bs"
  by (simp_all add: idle_stacks_def)





lemma key_less_irrefl [simp]: "\<not> key_less k k"
  and key_less_trans: "key_less i j \<Longrightarrow> key_less j k \<Longrightarrow> key_less i k"
  and key_less_total: "i \<noteq> j \<Longrightarrow> \<not> key_less i j \<Longrightarrow> key_less j i"
  by (auto simp: key_less_def prod_eq_iff)

lemma key_less_not_sym: "key_less i j \<Longrightarrow> \<not> key_less j i"
  using key_less_trans key_less_irrefl by blast

lemma put_bucket_keys: "set (map fst (put_bucket k b bs)) = insert k (set (map fst bs))"
  by (induction k b bs rule: put_bucket.induct) auto

lemma put_bucket_entries: "(k', b') \<in> set (put_bucket k b bs) \<Longrightarrow> (k', b') = (k, b) \<or> (k', b') \<in> set bs"
  by (induction k b bs rule: put_bucket.induct) (auto split: if_splits)

lemma put_bucket_sorted: "sorted_buckets bs \<Longrightarrow> sorted_buckets (put_bucket k b bs)"
proof (induction k b bs rule: put_bucket.induct)
  case (2 k b k' b' bs)
  consider "k = k'" | "k \<noteq> k'" "key_less k k'" | "k \<noteq> k'" "\<not> key_less k k'" "key_less k' k" using key_less_total by blast
  then show ?case
  proof cases
    case 3
    then show ?thesis using 2 put_bucket_keys [of k b bs] by auto
  qed (use 2 in \<open>auto intro: key_less_trans\<close>)
qed simp

lemma sorted_notin: "sorted_buckets ((k', b') # bs) \<Longrightarrow> key_less k k' \<or> k = k' \<Longrightarrow> map_of bs k = None"
  by (auto simp: map_of_eq_None_iff dest: key_less_trans)

lemma map_of_put: "sorted_buckets bs \<Longrightarrow> map_of (put_bucket k b bs) = (map_of bs)(k \<mapsto> b)"
proof (induction k b bs rule: put_bucket.induct)
  case (2 k b k' b' bs)
  then show ?case by (auto simp: fun_eq_iff)
qed simp

lemma map_of_erase: "map_of (filter (\<lambda>(k', _). k' \<noteq> k) bs) = (map_of bs)(k := None)"
  by (induction bs) auto

lemma idle_put:
  "sorted_buckets bs \<Longrightarrow> mset (idle_stacks (put_bucket k b bs)) + mset (pool (get_bucket bs k)) = mset (idle_stacks bs) + mset (pool b)"
proof (induction k b bs rule: put_bucket.induct)
  case (2 k b k' b' bs)
  then have "sorted_buckets bs" by simp
  moreover have "k \<noteq> k' \<Longrightarrow> key_less k k' \<Longrightarrow> map_of bs k = None" using sorted_notin [OF 2(2)] by blast
  ultimately show ?case using 2 by (auto simp: get_bucket_def bucket0_def ac_simps)
qed (simp add: get_bucket_def bucket0_def)

lemma filter_sorted_wrt: "sorted_wrt P xs \<Longrightarrow> sorted_wrt P (filter Q xs)"
  by (induction xs) auto

lemma erase_sorted: "sorted_buckets bs \<Longrightarrow> sorted_buckets (filter (\<lambda>(k', _). k' \<noteq> k) bs)"
proof -
  assume "sorted_buckets bs"
  then have "sorted_wrt key_less (filter (\<lambda>k'. k' \<noteq> k) (map fst bs))" by (rule filter_sorted_wrt)
  also have "filter (\<lambda>k'. k' \<noteq> k) (map fst bs) = map fst (filter (\<lambda>(k', _). k' \<noteq> k) bs)"
    by (induction bs) auto
  finally show ?thesis .
qed

lemma idle_erase: "\<forall>b. (k, b) \<in> set bs \<longrightarrow> pool b = [] \<Longrightarrow> idle_stacks (filter (\<lambda>(k', _). k' \<noteq> k) bs) = idle_stacks bs"
  by (induction bs) auto

lemma sorted_distinct: "sorted_wrt key_less ks \<Longrightarrow> distinct ks"
  by (induction ks) auto

text \<open>Storing a bucket and dropping it when empty, as one function on the map.\<close>

definition store :: "bucket_key \<Rightarrow> bucket \<Rightarrow> (bucket_key \<times> bucket) list \<Rightarrow> (bucket_key \<times> bucket) list" where
  "store k b bs = (let bs' = put_bucket k b bs in if bucket_empty b then filter (\<lambda>(k', _). k' \<noteq> k) bs' else bs')"

lemma store_facts:
  assumes "sorted_buckets bs" "bucket_empty b \<longrightarrow> b = bucket0" "\<forall>(k, b) \<in> set bs. \<not> bucket_empty b"
  shows "sorted_buckets (store k b bs)" "\<forall>(k, b) \<in> set (store k b bs). \<not> bucket_empty b"
    "get_bucket (store k b bs) = (get_bucket bs)(k := b)"
    "mset (idle_stacks (store k b bs)) + mset (pool (get_bucket bs k)) = mset (idle_stacks bs) + mset (pool b)"
proof -
  note put = put_bucket_sorted [OF assms(1), of k b] map_of_put [OF assms(1), of k b] idle_put [OF assms(1), of k b]
  show "sorted_buckets (store k b bs)" using put(1) erase_sorted by (simp add: store_def Let_def)
  show "\<forall>(k, b) \<in> set (store k b bs). \<not> bucket_empty b"
  proof clarify
    fix k' b' assume a: "(k', b') \<in> set (store k b bs)" "bucket_empty b'"
    then have "(k', b') \<in> set (put_bucket k b bs)" by (auto simp: store_def Let_def split: if_splits)
    then have "(k', b') = (k, b) \<or> (k', b') \<in> set bs" by (rule put_bucket_entries)
    then show False using a assms(3) by (auto simp: store_def Let_def split: if_splits)
  qed
  show "get_bucket (store k b bs) = (get_bucket bs)(k := b)"
    using assms(2) put(2) by (auto simp: store_def Let_def get_bucket_def map_of_erase fun_eq_iff)
  have "distinct (map fst (put_bucket k b bs))" using put(1) by (rule sorted_distinct)
  then have "(k, b') \<in> set (put_bucket k b bs) \<Longrightarrow> b' = b" for b'
    using put(2) by (metis fun_upd_same map_of_eq_Some_iff option.inject)
  then have "bucket_empty b \<Longrightarrow> \<forall>b'. (k, b') \<in> set (put_bucket k b bs) \<longrightarrow> pool b' = []"
    using assms(2) by (metis bucket.select_convs(1) bucket0_def)
  then have "idle_stacks (store k b bs) = idle_stacks (put_bucket k b bs)"
    using idle_erase [of k "put_bucket k b bs"] by (cases "bucket_empty b") (simp_all add: store_def Let_def)
  then show "mset (idle_stacks (store k b bs)) + mset (pool (get_bucket bs k)) = mset (idle_stacks bs) + mset (pool b)"
    using put(3) by simp
qed


lemma get_bucket_sub: "mset (pool (get_bucket bs k)) \<subseteq># mset (idle_stacks bs)"
proof (induction bs)
  case (Cons x bs)
  then show ?case by (cases x) (auto simp: get_bucket_def intro: subset_mset.order_trans)
qed (simp add: get_bucket_def bucket0_def)

lemma GetBucketLocked_get: "GetBucketLocked k p = get_bucket (m_buckets p) k"
  by (simp add: GetBucketLocked_def get_bucket_def)

section \<open>The pool in use\<close>

text \<open>The clients: \<open>out\<close> are the stacks they hold, \<open>waiting\<close> the allocations under way between the two
  critical sections of \<open>Apply\<close>. A commit brings a stack whose memory block no live stack has (that is what
  an allocator promises); a release gives back a stack that is held.\<close>

record pool_sys =
  sp :: stack_pool
  out :: "stack list"
  waiting :: "bucket_key list"

datatype pool_step =
    PApply bucket_key
  | PCommit stack
  | PRollback bucket_key
  | PRelease stack bool
  | PTakeIdle
  | PSample int
  | PUpdateTake int

fun pool_exec :: "pool_config \<Rightarrow> pool_step \<Rightarrow> pool_sys \<Rightarrow> pool_sys option" where
  "pool_exec cfg (PApply k) s = (case ApplyReserve cfg k (sp s) of
       (Refused, p) \<Rightarrow> Some (s \<lparr>sp := p\<rparr>)
     | (Reused item, p) \<Rightarrow> Some (s \<lparr>sp := p, out := item # out s\<rparr>)
     | (Reserved, p) \<Rightarrow> Some (s \<lparr>sp := p, waiting := k # waiting s\<rparr>))"
| "pool_exec cfg (PCommit st) s =
     (if stack_key st \<in> set (waiting s) \<and> m_mem_chunk st \<notin> m_mem_chunk ` set (idle_stacks (m_buckets (sp s)) @ out s)
      then Some (s \<lparr>sp := ApplyCommit (stack_key st) (sp s), out := st # out s, waiting := remove1 (stack_key st) (waiting s)\<rparr>)
      else None)"
| "pool_exec cfg (PRollback k) s =
     (if k \<in> set (waiting s) then Some (s \<lparr>sp := ApplyRollback k (sp s), waiting := remove1 k (waiting s)\<rparr>) else None)"
| "pool_exec cfg (PRelease st g) s =
     (if st \<in> set (out s) then Some (s \<lparr>sp := fst (Release g st (sp s)), out := remove1 st (out s)\<rparr>) else None)"
| "pool_exec cfg PTakeIdle s = Some (s \<lparr>sp := snd (TakeIdleLocked (sp s))\<rparr>)"
| "pool_exec cfg (PSample now) s = Some (s \<lparr>sp := snd (OnUpdateSample cfg now (sp s))\<rparr>)"
| "pool_exec cfg (PUpdateTake keep) s = Some (s \<lparr>sp := snd (OnUpdateTake keep (sp s))\<rparr>)"

definition bucket_ok :: "bucket_key \<Rightarrow> bucket \<Rightarrow> stack list \<Rightarrow> bucket_key list \<Rightarrow> bool" where
  "bucket_ok k b os ws \<longleftrightarrow> idle b = int (length (pool b)) \<and> live b = idle b + borrowed b \<and>
     borrowed b = int (count_list (map stack_key os) k) \<and> pending b = int (count_list ws k) \<and>
     (\<forall>st \<in> set (pool b). stack_key st = k)"

definition pool_inv :: "pool_config \<Rightarrow> pool_sys \<Rightarrow> bool" where
  "pool_inv cfg s \<longleftrightarrow>
     (let bs = m_buckets (sp s) in
      sorted_buckets bs \<and> (\<forall>(k, b) \<in> set bs. \<not> bucket_empty b) \<and>
      (\<forall>k. bucket_ok k (get_bucket bs k) (out s) (waiting s)) \<and>
      m_live_count (sp s) = int (length (idle_stacks bs)) + int (length (out s)) \<and>
      m_borrowed_count (sp s) = int (length (out s)) \<and> m_pending_count (sp s) = int (length (waiting s)) \<and>
      int (length (out s)) + int (length (waiting s)) \<le> max_alloc cfg \<and>
      distinct (map m_mem_chunk (idle_stacks bs @ out s)))"

lemma bucket_ok_empty: "bucket_ok k b os ws \<Longrightarrow> bucket_empty b \<Longrightarrow> b = bucket0"
  by (auto simp: bucket_ok_def bucket_empty_def bucket0_def)

text \<open>The one preservation lemma: an operation rewrites one bucket and the client lists.\<close>

lemma pool_inv_update:
  assumes inv: "pool_inv cfg s" and b: "b = get_bucket (m_buckets (sp s)) k"
    and ok: "bucket_ok k b' os' ws'"
    and others: "\<forall>k'. k' \<noteq> k \<longrightarrow> count_list (map stack_key os') k' = count_list (map stack_key (out s)) k' \<and>
       count_list ws' k' = count_list (waiting s) k'"
    and bs: "m_buckets (sp s') = store k b' (m_buckets (sp s))" and cl: "out s' = os'" "waiting s' = ws'"
    and cnt: "m_live_count (sp s') = m_live_count (sp s) + int (length (pool b')) - int (length (pool b)) + int (length os') - int (length (out s))"
      "m_borrowed_count (sp s') = int (length os')" "m_pending_count (sp s') = int (length ws')"
    and bound: "int (length os') + int (length ws') \<le> max_alloc cfg"
    and dist: "\<And>rest. mset (idle_stacks (m_buckets (sp s))) = mset rest + mset (pool b) \<Longrightarrow>
       distinct (map m_mem_chunk (rest @ pool b @ out s)) \<Longrightarrow> distinct (map m_mem_chunk (rest @ pool b' @ os'))"
  shows "pool_inv cfg s'"
proof -
  let ?bs = "m_buckets (sp s)"
  have i: "sorted_buckets ?bs" "\<forall>(k, b) \<in> set ?bs. \<not> bucket_empty b" "\<forall>k. bucket_ok k (get_bucket ?bs k) (out s) (waiting s)"
    "m_live_count (sp s) = int (length (idle_stacks ?bs)) + int (length (out s))" "distinct (map m_mem_chunk (idle_stacks ?bs @ out s))"
    using inv by (auto simp: pool_inv_def Let_def)
  note st = store_facts [OF i(1) _ i(2), of b' k]
  have e: "bucket_empty b' \<longrightarrow> b' = bucket0" using bucket_ok_empty [OF ok] by blast
  note st = st [OF e]
  have sub: "mset (pool b) \<subseteq># mset (idle_stacks ?bs)" unfolding b by (rule get_bucket_sub)
  obtain rest where rest: "mset (idle_stacks ?bs) = mset rest + mset (pool b)"
    using sub by (metis mset_subset_eq_exists_conv ex_mset union_commute)
  have idle': "mset (idle_stacks (store k b' ?bs)) = mset rest + mset (pool b')"
    using st(4) rest by (simp add: b [symmetric])
  have len: "length (idle_stacks (store k b' ?bs)) = length rest + length (pool b')" "length (idle_stacks ?bs) = length rest + length (pool b)"
    using idle' rest by (metis size_mset size_union)+
  have "mset (map m_mem_chunk (idle_stacks ?bs @ out s)) = mset (map m_mem_chunk (rest @ pool b @ out s))"
    using rest by simp
  then have "distinct (map m_mem_chunk (rest @ pool b' @ os'))"
    using dist [OF rest] i(5) mset_eq_imp_distinct_iff by blast
  moreover have "mset (map m_mem_chunk (idle_stacks (store k b' ?bs) @ os')) = mset (map m_mem_chunk (rest @ pool b' @ os'))"
    using idle' by simp
  ultimately have "distinct (map m_mem_chunk (idle_stacks (store k b' ?bs) @ os'))"
    using mset_eq_imp_distinct_iff by blast
  moreover have "bucket_ok k' (get_bucket (store k b' ?bs) k') os' ws'" for k'
    using st(3) ok i(3) [rule_format, of k'] others [rule_format, of k'] by (cases "k' = k") (simp_all add: bucket_ok_def)
  ultimately show ?thesis
    unfolding pool_inv_def Let_def bs cl using st(1,2) cnt bound i(4) len by simp
qed


text \<open>\<open>_TakeIdleLocked\<close> rewrites one bucket, the first with an idle stack.\<close>

lemma take_scan_spec:
  assumes "\<forall>(k, b) \<in> set bs. idle b = int (length (pool b))" "sorted_buckets bs"
  shows "case take_scan bs of (None, bs') \<Rightarrow> bs' = bs \<and> idle_stacks bs = []
     | (Some item, bs') \<Rightarrow> \<exists>k b. map_of bs k = Some b \<and> pool b \<noteq> [] \<and> item = last (pool b) \<and>
         bs' = store k (b \<lparr>pool := butlast (pool b), idle := idle b - 1, live := live b - 1\<rparr>) bs"
  using assms
proof (induction bs)
  case (Cons x bs)
  obtain k b where x: "x = (k, b)" by (cases x)
  have notin: "map_of bs k = None" using sorted_notin [of k b bs k] Cons.prems(2) by (simp add: x)
  show ?case
  proof (cases "pool b = []")
    case True
    then have i: "idle b = 0" using Cons.prems(1) by (simp add: x)
    have IH: "case take_scan bs of (None, bs') \<Rightarrow> bs' = bs \<and> idle_stacks bs = []
     | (Some item, bs') \<Rightarrow> \<exists>k b. map_of bs k = Some b \<and> pool b \<noteq> [] \<and> item = last (pool b) \<and>
         bs' = store k (b \<lparr>pool := butlast (pool b), idle := idle b - 1, live := live b - 1\<rparr>) bs"
      using Cons by auto
    have st: "(k, b) # store k' b' bs = store k' b' ((k, b) # bs)" if "map_of bs k' \<noteq> None" for k' b'
    proof -
      have "k' \<in> fst ` set bs" using that by (meson map_of_eq_None_iff)
      then have "key_less k k'" using Cons.prems(2) by (auto simp: x)
      then have "k \<noteq> k'" "\<not> key_less k' k" using key_less_not_sym by auto
      then show ?thesis by (simp add: store_def Let_def)
    qed
    obtain r bs' where ts: "take_scan bs = (r, bs')" by (cases "take_scan bs")
    show ?thesis
    proof (cases r)
      case None
      then show ?thesis using IH i True ts by (simp add: x)
    next
      case (Some item)
      then obtain k' b' where k': "map_of bs k' = Some b'" "pool b' \<noteq> []" "item = last (pool b')"
        "bs' = store k' (b' \<lparr>pool := butlast (pool b'), idle := idle b' - 1, live := live b' - 1\<rparr>) bs"
        using IH ts by auto
      then have "k' \<noteq> k" using notin by auto
      then have "map_of (x # bs) k' = Some b'" using k'(1) by (simp add: x)
      moreover have "take_scan (x # bs) = (Some item,
          store k' (b' \<lparr>pool := butlast (pool b'), idle := idle b' - 1, live := live b' - 1\<rparr>) (x # bs))"
        using Some i ts k'(1,4) st [of k'] by (simp add: x)
      ultimately show ?thesis using k'(2,3) by (simp only: prod.case option.case) blast
    qed
  next
    case False
    then have i: "idle b \<noteq> 0" using Cons.prems(1) by (simp add: x)
    have e: "filter (\<lambda>(k', _). k' \<noteq> k) bs = bs" using notin
      by (induction bs) (auto simp: map_of_eq_None_iff split: if_splits)
    have "take_scan (x # bs) = (Some (last (pool b)),
        store k (b \<lparr>pool := butlast (pool b), idle := idle b - 1, live := live b - 1\<rparr>) (x # bs))"
      using False i e by (simp add: x Pop_def Let_def store_def)
    moreover have "map_of (x # bs) k = Some b" by (simp add: x)
    ultimately show ?thesis using False by (simp only: prod.case option.case) blast
  qed
qed simp


section \<open>Every step keeps the invariant\<close>

lemma store_nonempty: "\<not> bucket_empty b \<Longrightarrow> put_bucket k b bs = store k b bs"
  by (simp add: store_def)

lemma Erase_sel [simp]:
  "m_buckets (EraseBucketIfEmptyLocked k b p) =
     (if bucket_empty b then filter (\<lambda>(k', _). k' \<noteq> k) (m_buckets p) else m_buckets p)"
  "m_live_count (EraseBucketIfEmptyLocked k b p) = m_live_count p"
  "m_borrowed_count (EraseBucketIfEmptyLocked k b p) = m_borrowed_count p"
  "m_pending_count (EraseBucketIfEmptyLocked k b p) = m_pending_count p"
  by (simp_all add: EraseBucketIfEmptyLocked_def)

lemma set_bucket_sel [simp]:
  "m_buckets (set_bucket k b p) = put_bucket k b (m_buckets p)" "m_live_count (set_bucket k b p) = m_live_count p"
  "m_borrowed_count (set_bucket k b p) = m_borrowed_count p" "m_pending_count (set_bucket k b p) = m_pending_count p"
  by (simp_all add: set_bucket_def)

lemma pool_invD:
  assumes "pool_inv cfg s"
  shows "bucket_ok k (get_bucket (m_buckets (sp s)) k) (out s) (waiting s)"
    "m_live_count (sp s) = int (length (idle_stacks (m_buckets (sp s)))) + int (length (out s))"
    "m_borrowed_count (sp s) = int (length (out s))" "m_pending_count (sp s) = int (length (waiting s))"
    "int (length (out s)) + int (length (waiting s)) \<le> max_alloc cfg" "sorted_buckets (m_buckets (sp s))"
    "distinct (map m_mem_chunk (idle_stacks (m_buckets (sp s)) @ out s))"
  using assms unfolding pool_inv_def Let_def by blast+

lemma count_map_pos: "x \<in> set xs \<Longrightarrow> 0 < count_list (map f xs) (f x)"
  by (induction xs) auto

lemma count_list_remove1: "x \<in> set xs \<Longrightarrow> count_list (remove1 x xs) y = (if x = y then count_list xs y - 1 else count_list xs y)"
  by (induction xs) auto

lemma count_list_remove1_map:
  "x \<in> set xs \<Longrightarrow> count_list (map f (remove1 x xs)) y = (if f x = y then count_list (map f xs) y - 1 else count_list (map f xs) y)"
  using count_map_pos [of x _ f] by (induction xs) fastforce+

lemmas count_list_pos = count_map_pos [of _ _ "\<lambda>x. x", simplified]

lemma pool_inv_PApply: "pool_inv cfg s \<Longrightarrow> pool_exec cfg (PApply k) s = Some s' \<Longrightarrow> pool_inv cfg s'"
proof -
  assume inv: "pool_inv cfg s" and ex: "pool_exec cfg (PApply k) s = Some s'"
  define b where "b = get_bucket (m_buckets (sp s)) k"
  note D = pool_invD [OF inv]
  have ok: "bucket_ok k b (out s) (waiting s)" using D(1) by (simp add: b_def)
  show ?thesis
  proof (cases "max_alloc cfg \<le> m_borrowed_count (sp s) + m_pending_count (sp s)")
    case True
    then show ?thesis using ex inv by (simp add: ApplyReserve_def)
  next
    case room: False
    show ?thesis
    proof (cases "pool b = []")
      case True
      define b' where "b' = b \<lparr>pending := pending b + 1\<rparr>"
      have ne: "\<not> bucket_empty b'" using ok by (auto simp: b'_def bucket_empty_def bucket_ok_def)
      have s': "s' = s \<lparr>sp := (set_bucket k b' (sp s)) \<lparr>m_pending_count := m_pending_count (sp s) + 1\<rparr>, waiting := k # waiting s\<rparr>"
        using ex room True by (simp add: ApplyReserve_def GetBucketLocked_get b_def [symmetric] Pop_def Let_def b'_def)
      show ?thesis
      proof (rule pool_inv_update [OF inv b_def, of b' "out s'" "waiting s'"])
        show "m_buckets (sp s') = store k b' (m_buckets (sp s))" using store_nonempty [OF ne] by (simp add: s')
        show "bucket_ok k b' (out s') (waiting s')" using ok by (simp add: bucket_ok_def b'_def s')
      qed (use D(3-5) room in \<open>auto simp: s' b'_def\<close>)
    next
      case False
      define b' where "b' = b \<lparr>pool := butlast (pool b), idle := idle b - 1, borrowed := borrowed b + 1\<rparr>"
      have ne: "\<not> bucket_empty b'" using ok by (auto simp: b'_def bucket_empty_def bucket_ok_def)
      have s': "s' = s \<lparr>sp := (set_bucket k b' (sp s)) \<lparr>m_borrowed_count := m_borrowed_count (sp s) + 1\<rparr>, out := last (pool b) # out s\<rparr>"
        using ex room False by (simp add: ApplyReserve_def GetBucketLocked_get b_def [symmetric] Pop_def Let_def b'_def)
      have split: "pool b = butlast (pool b) @ [last (pool b)]" using False by simp
      have key: "stack_key (last (pool b)) = k" using ok False by (simp add: bucket_ok_def)
      show ?thesis
      proof (rule pool_inv_update [OF inv b_def, of b' "out s'" "waiting s'"])
        show "m_buckets (sp s') = store k b' (m_buckets (sp s))" using store_nonempty [OF ne] by (simp add: s')
        show "bucket_ok k b' (out s') (waiting s')"
          using ok False key by (auto simp: bucket_ok_def b'_def s' Suc_le_eq of_nat_diff dest: in_set_butlastD)
        show "distinct (map m_mem_chunk (rest @ pool b' @ out s'))" if "distinct (map m_mem_chunk (rest @ pool b @ out s))" for rest
          using that unfolding s' b'_def by (subst (asm) split) auto
      qed (use D(3-5) room False key in \<open>auto simp: s' b'_def Suc_le_eq of_nat_diff\<close>)
    qed
  qed
qed


lemma int_length_remove1: "x \<in> set xs \<Longrightarrow> int (length (remove1 x xs)) = int (length xs) - 1"
  using length_pos_if_in_set [of x xs] by (simp add: length_remove1 of_nat_diff Suc_le_eq)

lemma remove1_count:
  assumes "k \<in> set ws"
  shows "int (count_list (remove1 k ws) k) = int (count_list ws k) - 1" "int (length (remove1 k ws)) = int (length ws) - 1"
    "k' \<noteq> k \<Longrightarrow> count_list (remove1 k ws) k' = count_list ws k'"
  using assms count_list_pos [OF assms] by (simp_all add: count_list_remove1 int_length_remove1 of_nat_diff Suc_le_eq)

lemma pool_inv_PRollback: "pool_inv cfg s \<Longrightarrow> pool_exec cfg (PRollback k) s = Some s' \<Longrightarrow> pool_inv cfg s'"
proof -
  assume inv: "pool_inv cfg s" and ex: "pool_exec cfg (PRollback k) s = Some s'"
  define b where "b = get_bucket (m_buckets (sp s)) k"
  define b' where "b' = b \<lparr>pending := pending b - 1\<rparr>"
  note D = pool_invD [OF inv]
  have ok: "bucket_ok k b (out s) (waiting s)" using D(1) by (simp add: b_def)
  have k: "k \<in> set (waiting s)" and s': "s' = s \<lparr>sp := ApplyRollback k (sp s), waiting := remove1 k (waiting s)\<rparr>"
    using ex by (auto split: if_splits)
  have sp': "ApplyRollback k (sp s) =
      EraseBucketIfEmptyLocked k b' ((set_bucket k b' (sp s)) \<lparr>m_pending_count := m_pending_count (sp s) - 1\<rparr>)"
    by (simp add: ApplyRollback_def Let_def GetBucketLocked_get b_def b'_def)
  show ?thesis
  proof (rule pool_inv_update [OF inv b_def, of b' "out s'" "waiting s'"])
    show "m_buckets (sp s') = store k b' (m_buckets (sp s))" by (simp add: s' sp' store_def Let_def)
    show "bucket_ok k b' (out s') (waiting s')" using ok remove1_count [OF k] by (simp add: bucket_ok_def b'_def s')
  qed (use D(3-5) remove1_count [OF k] in \<open>auto simp: s' sp' b'_def\<close>)
qed

lemma pool_inv_PCommit: "pool_inv cfg s \<Longrightarrow> pool_exec cfg (PCommit st) s = Some s' \<Longrightarrow> pool_inv cfg s'"
proof -
  assume inv: "pool_inv cfg s" and ex: "pool_exec cfg (PCommit st) s = Some s'"
  define k where "k = stack_key st"
  define b where "b = get_bucket (m_buckets (sp s)) k"
  define b' where "b' = b \<lparr>pending := pending b - 1, live := live b + 1, borrowed := borrowed b + 1\<rparr>"
  note D = pool_invD [OF inv]
  have ok: "bucket_ok k b (out s) (waiting s)" using D(1) by (simp add: b_def)
  have k: "k \<in> set (waiting s)" and fresh: "m_mem_chunk st \<notin> m_mem_chunk ` set (idle_stacks (m_buckets (sp s)) @ out s)"
    and s': "s' = s \<lparr>sp := ApplyCommit k (sp s), out := st # out s, waiting := remove1 k (waiting s)\<rparr>"
    using ex by (auto simp: k_def split: if_splits)
  have ne: "\<not> bucket_empty b'" using ok by (auto simp: b'_def bucket_empty_def bucket_ok_def)
  have sp': "ApplyCommit k (sp s) = (set_bucket k b' (sp s)) \<lparr>m_pending_count := m_pending_count (sp s) - 1,
      m_live_count := m_live_count (sp s) + 1, m_borrowed_count := m_borrowed_count (sp s) + 1\<rparr>"
    by (simp add: ApplyCommit_def Let_def GetBucketLocked_get b_def b'_def)
  show ?thesis
  proof (rule pool_inv_update [OF inv b_def, of b' "out s'" "waiting s'"])
    show "m_buckets (sp s') = store k b' (m_buckets (sp s))" using store_nonempty [OF ne] by (simp add: s' sp')
    show "bucket_ok k b' (out s') (waiting s')"
      using ok remove1_count [OF k] by (simp add: bucket_ok_def b'_def s' k_def)
    show "distinct (map m_mem_chunk (rest @ pool b' @ out s'))"
      if r: "mset (idle_stacks (m_buckets (sp s))) = mset rest + mset (pool b)" "distinct (map m_mem_chunk (rest @ pool b @ out s))" for rest
    proof -
      have "set (idle_stacks (m_buckets (sp s))) = set rest \<union> set (pool b)" using r(1) by (metis set_mset_mset set_mset_union)
      then show ?thesis using fresh r(2) by (auto simp: s' b'_def)
    qed
  qed (use D(3-5) remove1_count [OF k] in \<open>auto simp: s' sp' b'_def k_def [symmetric]\<close>)
qed

lemma pool_inv_PRelease: "pool_inv cfg s \<Longrightarrow> pool_exec cfg (PRelease st g) s = Some s' \<Longrightarrow> pool_inv cfg s'"
proof -
  assume inv: "pool_inv cfg s" and ex: "pool_exec cfg (PRelease st g) s = Some s'"
  define k where "k = stack_key st"
  define b where "b = get_bucket (m_buckets (sp s)) k"
  define b' where "b' = (if g then b \<lparr>pool := pool b @ [st], borrowed := borrowed b - 1, idle := idle b + 1\<rparr>
    else b \<lparr>borrowed := borrowed b - 1, live := live b - 1\<rparr>)"
  note D = pool_invD [OF inv]
  have ok: "bucket_ok k b (out s) (waiting s)" using D(1) by (simp add: b_def)
  have st: "st \<in> set (out s)" and s': "s' = s \<lparr>sp := fst (Release g st (sp s)), out := remove1 st (out s)\<rparr>"
    using ex by (auto split: if_splits)
  have pos: "0 < borrowed b" using ok count_map_pos [OF st, of stack_key] by (simp add: bucket_ok_def k_def)
  then have mo: "map_of (m_buckets (sp s)) k = Some b" by (auto simp: b_def get_bucket_def bucket0_def split: option.splits)
  have sp': "fst (Release g st (sp s)) = EraseBucketIfEmptyLocked k b' ((set_bucket k b' (sp s))
      \<lparr>m_borrowed_count := m_borrowed_count (sp s) - 1, m_live_count := m_live_count (sp s) - (if g then 0 else 1)\<rparr>)"
    using pos by (simp add: Release_def Let_def k_def [symmetric] mo Push_def b'_def set_bucket_def)
  have cnt: "int (count_list (map stack_key (remove1 st (out s))) k) = int (count_list (map stack_key (out s)) k) - 1"
    using count_list_remove1_map [OF st, of stack_key k] count_map_pos [OF st, of stack_key] by (simp add: k_def of_nat_diff Suc_le_eq)
  have len: "int (length (remove1 st (out s))) = int (length (out s)) - 1"
    using st by (rule int_length_remove1)
  have out: "mset (out s) = add_mset st (mset (remove1 st (out s)))" using st by simp
  show ?thesis
  proof (rule pool_inv_update [OF inv b_def, of b' "out s'" "waiting s'"])
    show "m_buckets (sp s') = store k b' (m_buckets (sp s))" by (simp add: s' sp' store_def Let_def)
    show "bucket_ok k b' (out s') (waiting s')" using ok cnt by (auto simp: bucket_ok_def b'_def s' k_def)
    show "distinct (map m_mem_chunk (rest @ pool b' @ out s'))" if r: "distinct (map m_mem_chunk (rest @ pool b @ out s))" for rest
    proof -
      have "mset (map m_mem_chunk (rest @ pool b @ out s)) = mset (map m_mem_chunk (st # rest @ pool b @ remove1 st (out s)))"
        using arg_cong [OF out, of "image_mset m_mem_chunk"] by (simp del: mset_remove1)
      then have "distinct (map m_mem_chunk (st # rest @ pool b @ remove1 st (out s)))" using r mset_eq_imp_distinct_iff by blast
      then show ?thesis by (auto simp: s' b'_def)
    qed
  qed (use D(3-5) len count_list_remove1_map [OF st, of stack_key] in \<open>auto simp: s' sp' b'_def k_def [symmetric]\<close>)
qed

lemma pool_inv_take: "pool_inv cfg s \<Longrightarrow> pool_inv cfg (s \<lparr>sp := snd (TakeIdleLocked (sp s))\<rparr>)" (is "_ \<Longrightarrow> pool_inv cfg ?s'")
proof -
  assume inv: "pool_inv cfg s"
  note D = pool_invD [OF inv]
  have "\<forall>(k, b) \<in> set (m_buckets (sp s)). idle b = int (length (pool b))"
  proof clarify
    fix k b assume "(k, b) \<in> set (m_buckets (sp s))"
    then have "get_bucket (m_buckets (sp s)) k = b" using sorted_distinct [OF D(6)] by (simp add: get_bucket_def)
    then show "idle b = int (length (pool b))" using D(1) [of k] by (simp add: bucket_ok_def)
  qed
  note ts = take_scan_spec [OF this D(6)]
  obtain r bs' where t: "take_scan (m_buckets (sp s)) = (r, bs')" by (cases "take_scan (m_buckets (sp s))")
  show ?thesis
  proof (cases r)
    case None
    then show ?thesis using inv ts t by (simp add: TakeIdleLocked_def)
  next
    case (Some item)
    with ts t obtain k b where kb: "map_of (m_buckets (sp s)) k = Some b" "pool b \<noteq> []"
      "bs' = store k (b \<lparr>pool := butlast (pool b), idle := idle b - 1, live := live b - 1\<rparr>) (m_buckets (sp s))" by auto
    have b: "b = get_bucket (m_buckets (sp s)) k" using kb(1) by (simp add: get_bucket_def)
    have split: "pool b = butlast (pool b) @ [last (pool b)]" using kb(2) by simp
    show ?thesis
    proof (rule pool_inv_update [OF inv b, of "b \<lparr>pool := butlast (pool b), idle := idle b - 1, live := live b - 1\<rparr>" "out s" "waiting s"])
      show "distinct (map m_mem_chunk (rest @ pool (b \<lparr>pool := butlast (pool b), idle := idle b - 1, live := live b - 1\<rparr>) @ out s))"
        if "distinct (map m_mem_chunk (rest @ pool b @ out s))" for rest
        using that by (subst (asm) split) auto
    qed (use D(1) [of k] D(3-5) kb t Some b in
        \<open>auto simp: TakeIdleLocked_def bucket_ok_def of_nat_diff Suc_le_eq dest: in_set_butlastD\<close>)
  qed
qed

lemma OnUpdateSample_frame:
  "m_buckets (snd (OnUpdateSample cfg now p)) = m_buckets p" "m_live_count (snd (OnUpdateSample cfg now p)) = m_live_count p"
  "m_borrowed_count (snd (OnUpdateSample cfg now p)) = m_borrowed_count p" "m_pending_count (snd (OnUpdateSample cfg now p)) = m_pending_count p"
  by (simp_all add: OnUpdateSample_def Let_def)

lemma pool_inv_step: "pool_inv cfg s \<Longrightarrow> pool_exec cfg e s = Some s' \<Longrightarrow> pool_inv cfg s'"
proof -
  assume a: "pool_inv cfg s" "pool_exec cfg e s = Some s'"
  show ?thesis
  proof (cases e)
    case (PSample now)
    then have "s' = s \<lparr>sp := snd (OnUpdateSample cfg now (sp s))\<rparr>" using a by simp
    then show ?thesis using a(1) by (simp only: pool_inv_def) (simp add: OnUpdateSample_frame)
  next
    case PTakeIdle
    then show ?thesis using a pool_inv_take by auto
  next
    case (PUpdateTake keep)
    then show ?thesis using a pool_inv_take by (auto simp: OnUpdateTake_def split: if_splits)
  qed (use a pool_inv_PApply pool_inv_PCommit pool_inv_PRollback pool_inv_PRelease in blast)+
qed

interpretation pool_machine: invariant_machine "pool_exec cfg" "pool_inv cfg" for cfg
  by unfold_locales (rule pool_inv_step)


section \<open>The properties of the pool\<close>

lemma preload_push_spec:
  "preload_push its b n = (b', n') \<Longrightarrow> \<exists>j. pool b' = pool b @ map fst (take j its) \<and> n' = n + int (length (take j its)) \<and>
     idle b' = idle b + int (length (take j its)) \<and> live b' = live b + int (length (take j its)) \<and> borrowed b' = borrowed b \<and> pending b' = pending b"
proof (induction its b n rule: preload_push.induct)
  case (2 item g its b n)
  show ?case
  proof (cases g)
    case True
    with 2 obtain j where "pool b' = (pool b @ [item]) @ map fst (take j its)" "n' = n + 1 + int (length (take j its))"
      "idle b' = idle b + 1 + int (length (take j its))" "live b' = live b + 1 + int (length (take j its))"
      "borrowed b' = borrowed b" "pending b' = pending b"
      by (fastforce simp: Push_def)
    then show ?thesis by (intro exI [of _ "Suc j"]) auto
  next
    case False
    then show ?thesis using 2(2) by (intro exI [of _ 0]) (auto simp: Push_def)
  qed
qed simp

text \<open>A pool as the process builds it: the preloaded stacks are distinct blocks of the default size.\<close>

definition initial_pool :: "pool_config \<Rightarrow> int \<Rightarrow> bucket_key \<Rightarrow> (stack \<times> bool) list \<Rightarrow> pool_sys \<Rightarrow> bool" where
  "initial_pool cfg now k its s \<longleftrightarrow> 0 \<le> max_alloc cfg \<and> distinct (map (m_mem_chunk \<circ> fst) its) \<and>
     (\<forall>it \<in> set its. stack_key (fst it) = k) \<and> s = \<lparr>sp = Preload k its (NewStackPool now), out = [], waiting = []\<rparr>"

lemma pool_inv_empty: "0 \<le> max_alloc cfg \<Longrightarrow> pool_inv cfg \<lparr>sp = NewStackPool now, out = [], waiting = []\<rparr>"
  by (simp add: pool_inv_def NewStackPool_def get_bucket_def bucket0_def bucket_ok_def)

lemma initial_pool_inv: "initial_pool cfg now k its s \<Longrightarrow> pool_inv cfg s"
proof -
  assume a: "initial_pool cfg now k its s"
  let ?s0 = "\<lparr>sp = NewStackPool now, out = [], waiting = []\<rparr> :: pool_sys"
  have inv: "pool_inv cfg ?s0" using a pool_inv_empty by (simp add: initial_pool_def)
  show ?thesis
  proof (cases "its = []")
    case True
    then show ?thesis using a inv by (simp add: initial_pool_def Preload_def)
  next
    case False
    obtain b n where pp: "preload_push its bucket0 0 = (b, n)" by fastforce
    then obtain j where j: "pool b = map fst (take j its)" "n = int (length (take j its))" "idle b = int (length (take j its))"
      "live b = int (length (take j its))" "borrowed b = 0" "pending b = 0"
      using preload_push_spec [OF pp] by (auto simp: bucket0_def)
    have g: "bucket0 = get_bucket (m_buckets (sp ?s0)) k" by (simp add: get_bucket_def NewStackPool_def)
    have sp: "sp s = EraseBucketIfEmptyLocked k b ((set_bucket k b (NewStackPool now)) \<lparr>m_live_count := n\<rparr>)"
      using a False pp by (simp add: initial_pool_def Preload_def GetBucketLocked_def NewStackPool_def Let_def)
    have m0: "0 \<le> max_alloc cfg" using a by (simp add: initial_pool_def)
    have cl: "out s = []" "waiting s = []" using a by (auto simp: initial_pool_def)
    have "distinct (map m_mem_chunk (map fst (take j its)))"
      using a by (simp add: initial_pool_def comp_def distinct_take flip: take_map)
    moreover have "\<forall>st \<in> set (pool b). stack_key st = k" using a j(1) by (auto simp: initial_pool_def dest: in_set_takeD)
    ultimately show ?thesis
    proof (intro pool_inv_update [OF inv g, of b "[]" "[]"])
      show "m_buckets (sp s) = store k b (m_buckets (sp ?s0))" by (simp add: sp store_def Let_def)
      show "bucket_ok k b [] []" using \<open>\<forall>st \<in> set (pool b). stack_key st = k\<close> j by (simp add: bucket_ok_def)
    qed (use m0 j in \<open>simp_all add: cl sp NewStackPool_def bucket0_def\<close>)
  qed
qed

text \<open>C36. The stack pool never shares a stack: over every interleaving of applications, allocations that finish
  or fail, releases, trims and \<open>ReleaseUnused\<close>, the stacks held by coroutines and those cached have pairwise
  different memory blocks, a cached stack is in the bucket of exactly its own useable size and protection,
  the counters are exact (\<open>AllocSize\<close> = cached + held, \<open>GetCurCoNum\<close> = held + being allocated, per bucket too,
  so none underflows) and the held and reserved stacks never exceed the configured maximum.\<close>

theorem pool_exclusive:
  assumes "initial_pool cfg now k0 its s0" "reaches (pool_exec cfg) s0 s"
  shows "distinct (map m_mem_chunk (idle_stacks (m_buckets (sp s)) @ out s)) \<and>
    AllocSize (sp s) = int (length (idle_stacks (m_buckets (sp s)))) + int (length (out s)) \<and>
    GetCurCoNum (sp s) = int (length (out s)) + int (length (waiting s)) \<and> GetCurCoNum (sp s) \<le> max_alloc cfg \<and>
    (\<forall>k. let b = GetBucketLocked k (sp s) in (\<forall>st \<in> set (pool b). stack_key st = k) \<and> live b = idle b + borrowed b \<and>
       idle b = int (length (pool b)) \<and> borrowed b = int (count_list (map stack_key (out s)) k) \<and> pending b = int (count_list (waiting s) k))"
proof -
  have "pool_inv cfg s" using pool_machine.reaches_inv [OF assms(2)] initial_pool_inv [OF assms(1)] by blast
  then show ?thesis
    unfolding pool_inv_def bucket_ok_def Let_def GetBucketLocked_get AllocSize_def GetCurCoNum_def by auto
qed


abbreviation demo_config :: pool_config where
  "demo_config \<equiv> \<lparr>max_alloc = 2, min_alloc = 1, sample_interval = 10, adjust_interval = 5000\<rparr>"

abbreviation demo_stack :: "u64 \<Rightarrow> stack" where
  "demo_stack a \<equiv> \<lparr>m_mem_chunk = a, m_mem_chunk_size = 16384, m_stack_protect_flag = True, m_useable_size = 12288\<rparr>"

abbreviation demo_pool :: pool_sys where
  "demo_pool \<equiv> \<lparr>sp = Preload (12288, True) [(demo_stack 0x10000, True)] (NewStackPool 0), out = [], waiting = []\<rparr>"

lemma demo_pool_initial: "initial_pool demo_config 0 (12288, True) [(demo_stack 0x10000, True)] demo_pool"
  by (simp add: initial_pool_def stack_key_def)

lemma demo_pool_run:
  "case run (pool_exec demo_config) [PApply (12288, True), PApply (12288, True), PCommit (demo_stack 0x20000), PApply (12288, True)] demo_pool of
     None \<Rightarrow> False
   | Some s \<Rightarrow> out s = [demo_stack 0x20000, demo_stack 0x10000] \<and> waiting s = [] \<and> GetCurCoNum (sp s) = 2 \<and> AllocSize (sp s) = 2 \<and>
       m_prev_adjust_pool_ts (sp s) = 0"
  by code_simp

theorem pool_exclusive_witness:
  "\<exists>s. reaches (pool_exec demo_config) demo_pool s \<and> out s = [demo_stack 0x20000, demo_stack 0x10000] \<and>
     distinct (map m_mem_chunk (idle_stacks (m_buckets (sp s)) @ out s)) \<and> GetCurCoNum (sp s) \<le> 2"
proof -
  obtain s where s: "run (pool_exec demo_config) [PApply (12288, True), PApply (12288, True), PCommit (demo_stack 0x20000), PApply (12288, True)] demo_pool = Some s"
    and o: "out s = [demo_stack 0x20000, demo_stack 0x10000]"
    using demo_pool_run by (auto split: option.splits)
  have "distinct (map m_mem_chunk (idle_stacks (m_buckets (sp s)) @ out s)) \<and> GetCurCoNum (sp s) \<le> max_alloc demo_config"
    using pool_exclusive [OF demo_pool_initial run_reaches [OF s]] by blast
  then show ?thesis using run_reaches [OF s] o by (intro exI [of _ s]) simp
qed

lemma pool_get_store: "sorted_buckets (m_buckets p) \<Longrightarrow> GetBucketLocked k ((set_bucket k b p) \<lparr>m_borrowed_count := n\<rparr>) = b"
  by (simp add: GetBucketLocked_def map_of_put)

text \<open>A stack given back is the one the next request of its size and protection gets: \<open>Release\<close> caches it
  without freeing or allocating, and \<open>Apply\<close> then reuses exactly it, with all counters as before. When
  the cache vector cannot grow the stack is destroyed instead, and no longer counted.\<close>

lemma pool_release_apply:
  assumes "initial_pool cfg now k0 its s0" "reaches (pool_exec cfg) s0 s" "st \<in> set (out s)"
  shows "\<exists>p1 p2 p3. Release True st (sp s) = (p1, False) \<and> AllocSize p1 = AllocSize (sp s) \<and> GetCurCoNum p1 = GetCurCoNum (sp s) - 1 \<and>
    ApplyReserve cfg (stack_key st) p1 = (Reused st, p2) \<and> AllocSize p2 = AllocSize (sp s) \<and> GetCurCoNum p2 = GetCurCoNum (sp s) \<and>
    Release False st (sp s) = (p3, True) \<and> AllocSize p3 = AllocSize (sp s) - 1 \<and> GetCurCoNum p3 = GetCurCoNum (sp s) - 1"
proof -
  have inv: "pool_inv cfg s" using pool_machine.reaches_inv [OF assms(2)] initial_pool_inv [OF assms(1)] by blast
  define k where "k = stack_key st"
  define b where "b = get_bucket (m_buckets (sp s)) k"
  note D = pool_invD [OF inv]
  have ok: "bucket_ok k b (out s) (waiting s)" using D(1) by (simp add: b_def)
  have pos: "0 < borrowed b" using ok count_map_pos [OF assms(3), of stack_key] by (simp add: bucket_ok_def k_def)
  then have mo: "map_of (m_buckets (sp s)) k = Some b" by (auto simp: b_def get_bucket_def bucket0_def split: option.splits)
  define b2 where "b2 = b \<lparr>pool := pool b @ [st], borrowed := borrowed b - 1, idle := idle b + 1\<rparr>"
  define p1 where "p1 = (set_bucket k b2 (sp s)) \<lparr>m_borrowed_count := m_borrowed_count (sp s) - 1\<rparr>"
  have ne: "\<not> bucket_empty b2" using ok by (auto simp: b2_def bucket_empty_def bucket_ok_def)
  have r: "Release True st (sp s) = (p1, False)"
    using pos ne by (simp add: Release_def Let_def k_def [symmetric] mo Push_def b2_def [symmetric] p1_def EraseBucketIfEmptyLocked_def)
  have g: "GetBucketLocked k p1 = b2" unfolding p1_def by (rule pool_get_store [OF D(6)])
  have "\<exists>p2. ApplyReserve cfg k p1 = (Reused st, p2) \<and> m_live_count p2 = m_live_count p1 \<and>
      m_borrowed_count p2 + m_pending_count p2 = m_borrowed_count (sp s) + m_pending_count (sp s)"
    using D(3-5) by (simp add: ApplyReserve_def Let_def g Pop_def b2_def) (simp add: p1_def)
  moreover have "\<exists>p3. Release False st (sp s) = (p3, True) \<and> m_live_count p3 = m_live_count (sp s) - 1 \<and>
      m_borrowed_count p3 + m_pending_count p3 = m_borrowed_count (sp s) + m_pending_count (sp s) - 1"
    using pos by (simp add: Release_def Let_def k_def [symmetric] mo Push_def)
  ultimately show ?thesis using r by (auto simp: AllocSize_def GetCurCoNum_def k_def p1_def)
qed

section \<open>Trimming\<close>








end
