(* ===== verification/WaiterModel.thy ===== *)
theory WaiterModel
  imports Notify
begin

text \<open>
  \<open>sync/CoWaiter.{hpp,cc}\<close> and \<open>sync/WaitTypes.hpp\<close>: the one-slot waiter. Each wait has two critical
  sections: the entry (checks, creation of the event, taking the slot) and, after the suspension, the exit
  (freeing the slot, reading the payload, the result). Entries, suspensions, notifications, timers and
  cancellations of any number of coroutines interleave. Times are nanoseconds of the steady clock; the two
  readings an entry makes of it are separate arguments. Results of \<open>RegistCustom\<close> and of the suspension are
  arguments too.
\<close>

section \<open>Data\<close>

datatype CoCondStatus = COND_DEFAULT | COND_FREE | COND_WAIT | COND_ACTIVE

datatype WaitStatus = Completed | TimedOut | Cancelled | InvalidContext | AlreadyWaiting | RuntimeUnavailable

datatype CombinedWaitStatus = CFdReadable | CFdWriteable | CCompleted | CTimedOut | CCancelled | CAlreadyWaiting
  | CInvalidContext | CInvalidOptions | CRuntimeUnavailable

record CombinedWaitOptions =
  want_readable :: bool
  want_writeable :: bool
  fd :: int
  deadline :: int

datatype wait_result = RInt int | RStatus WaitStatus | RCombined CombinedWaitStatus

datatype wait_kind = KWait | KWaitCallback | KTimeout | KNarrow | KCombined

record co_waiter =
  m_co_event :: "nat option"
  m_run_status :: CoCondStatus

datatype wt_pc = WtIdle | WtSetup wait_kind nat | WtParked wait_kind nat | WtFailed wait_kind nat

text \<open>The waiter with its clients: events are numbered; \<open>payload\<close> is \<open>SetNotifyValue\<close>'s slot of an event
  (\<open>None\<close> the empty value), \<open>timer\<close> the milliseconds its timer is armed with, \<open>wins\<close> the successful
  notifications, \<open>results\<close> what finished waits returned, \<open>marked\<close> the events bound when \<open>Cancel\<close> was called.\<close>

record wt_sys =
  wt :: co_waiter
  st :: event_store
  payload :: "nat \<Rightarrow> nat option"
  timer :: "nat \<Rightarrow> int"
  next_ev :: nat
  pcs :: "co_id \<Rightarrow> wt_pc"
  wins :: "(nat \<times> nat option) list"
  results :: "(nat \<times> wait_result \<times> nat option) list"
  marked :: "nat set"

definition wt_init :: wt_sys where
  "wt_init = \<lparr>wt = \<lparr>m_co_event = None, m_run_status = COND_FREE\<rparr>, st = \<lambda>_. Gone, payload = \<lambda>_. None, timer = \<lambda>_. -1,
     next_ev = 0, pcs = \<lambda>_. WtIdle, wins = [], results = [], marked = {}\<rparr>"

section \<open>Entry sections\<close>

text \<open>\<open>RegistCustom\<close> without or with a timeout: a negative timeout is refused by \<open>InitFdEvent\<close>, \<open>ok\<close> is the
  answer of the rest of it. \<open>bind\<close> makes the event, takes the slot and sets \<open>COND_WAIT\<close>.\<close>

definition regist_custom :: "int option \<Rightarrow> bool \<Rightarrow> bool" where
  "regist_custom tmo ok = (ok \<and> (case tmo of None \<Rightarrow> True | Some ms \<Rightarrow> 0 \<le> ms))"

definition bind :: "co_id \<Rightarrow> wait_kind \<Rightarrow> int \<Rightarrow> wt_sys \<Rightarrow> wt_sys" where
  "bind c k ms s = (let e = next_ev s in
     s \<lparr>wt := \<lparr>m_co_event = Some e, m_run_status = COND_WAIT\<rparr>, st := (st s) (e := Waiting), timer := (timer s) (e := ms),
        payload := (payload s) (e := None), next_ev := Suc e, pcs := (pcs s) (c := WtSetup k e)\<rparr>)"

text \<open>The entries return \<open>Some\<close> of the value the call returns at once, or \<open>None\<close> when it goes on to suspend.\<close>

definition Wait_enter :: "co_id \<Rightarrow> bool \<Rightarrow> wt_sys \<Rightarrow> wait_result option \<times> wt_sys" where
  "Wait_enter c ok s =
     (if m_co_event (wt s) \<noteq> None then (Some (RInt (-1)), s)
      else if \<not> regist_custom None ok then (Some (RInt (-1)), s)
      else (None, bind c KWait (-1) s))"

definition WaitWithCallback_enter :: "co_id \<Rightarrow> bool \<Rightarrow> wt_sys \<Rightarrow> wait_result option \<times> wt_sys" where
  "WaitWithCallback_enter c ok s =
     (if m_co_event (wt s) \<noteq> None then (Some (RInt (-1)), s)
      else if \<not> regist_custom None ok then (Some (RInt (-1)), s)
      else (None, bind c KWaitCallback (-1) s))"

definition WaitWithTimeout_enter :: "co_id \<Rightarrow> int \<Rightarrow> bool \<Rightarrow> wt_sys \<Rightarrow> wait_result option \<times> wt_sys" where
  "WaitWithTimeout_enter c ms ok s =
     (if m_co_event (wt s) \<noteq> None then (Some (RInt (-1)), s)
      else if \<not> regist_custom (Some ms) ok then (Some (RInt (-1)), s)
      else (None, bind c KTimeout ms s))"

definition ceil_ms :: "int \<Rightarrow> int" where
  "ceil_ms ns = - ((- ns) div 1000000)"

definition INT_MAX :: int where
  "INT_MAX = 2147483647"

text \<open>An event that is decided but whose waiter has not come back yet gives up the slot; \<open>fin\<close> says
  whether its phase is already final.\<close>

definition slot_free :: "bool \<Rightarrow> wt_sys \<Rightarrow> bool" where
  "slot_free fin s = (case m_co_event (wt s) of None \<Rightarrow> True | Some e \<Rightarrow> st s e = Gone \<or> (fin \<and> st s e \<noteq> Waiting))"

definition clear_slot :: "wt_sys \<Rightarrow> wt_sys" where
  "clear_slot s = (if m_co_event (wt s) = None then s else s \<lparr>wt := \<lparr>m_co_event = None, m_run_status = COND_FREE\<rparr>\<rparr>)"

definition Narrow_enter :: "bool \<Rightarrow> co_id \<Rightarrow> bool \<Rightarrow> int \<Rightarrow> int \<Rightarrow> int \<Rightarrow> bool \<Rightarrow> bool \<Rightarrow> wt_sys \<Rightarrow> wait_result option \<times> wt_sys" where
  "Narrow_enter in_co c cancel dl now1 now2 fin ok s =
     (if \<not> in_co then (Some (RStatus InvalidContext), s)
      else if cancel then (Some (RStatus Cancelled), s)
      else if dl \<le> now1 then (Some (RStatus TimedOut), s)
      else if \<not> slot_free fin s then (Some (RStatus AlreadyWaiting), s)
      else let s1 = clear_slot s; remain_ms = ceil_ms (dl - now2); has_timer = remain_ms < INT_MAX in
        if \<not> regist_custom (if has_timer then Some remain_ms else None) ok then (Some (RStatus RuntimeUnavailable), s1)
        else (None, bind c KNarrow (if has_timer then remain_ms else -1) s1))"

definition Combined_enter :: "bool \<Rightarrow> co_id \<Rightarrow> bool \<Rightarrow> CombinedWaitOptions \<Rightarrow> int \<Rightarrow> int \<Rightarrow> bool \<Rightarrow> bool \<Rightarrow> bool \<Rightarrow> wt_sys \<Rightarrow>
    wait_result option \<times> wt_sys" where
  "Combined_enter in_co c cancel opts now1 now2 fin ok init_ok s =
     (if \<not> in_co then (Some (RCombined CInvalidContext), s)
      else if (want_readable opts \<or> want_writeable opts) \<and> fd opts < 0 then (Some (RCombined CInvalidOptions), s)
      else if cancel then (Some (RCombined CCancelled), s)
      else if deadline opts \<le> now1 then (Some (RCombined CTimedOut), s)
      else if \<not> slot_free fin s then (Some (RCombined CAlreadyWaiting), s)
      else let s1 = clear_slot s; remain_ms = ceil_ms (deadline opts - now2) in
        if remain_ms \<le> 0 then (Some (RCombined CTimedOut), s1)
        else let has_timer = remain_ms < INT_MAX in
          if \<not> regist_custom None ok then (Some (RCombined CRuntimeUnavailable), s1)
          else if (want_readable opts \<or> want_writeable opts \<or> has_timer) \<and> \<not> init_ok
            then (Some (RCombined CRuntimeUnavailable), s1 \<lparr>wt := \<lparr>m_co_event = None, m_run_status = COND_FREE\<rparr>\<rparr>)
          else (None, bind c KCombined (if has_timer then remain_ms else -1) s1))"

section \<open>Suspension, exit, notification\<close>

text \<open>\<open>YieldWithCallback\<close>: parked; not registered (the event is given up if nobody decided it); or an
  exception, whose handler frees the slot.\<close>

definition unbind :: "nat \<Rightarrow> wt_sys \<Rightarrow> wt_sys" where
  "unbind e s = (if m_co_event (wt s) = Some e then s \<lparr>wt := \<lparr>m_co_event = None, m_run_status = COND_FREE\<rparr>\<rparr> else s)"

definition drop_event :: "nat \<Rightarrow> wt_sys \<Rightarrow> wt_sys" where
  "drop_event e s = (if st s e = Waiting then s \<lparr>st := (st s) (e := Gone)\<rparr> else s)"

definition suspend :: "co_id \<Rightarrow> wait_kind \<Rightarrow> nat \<Rightarrow> wait_setup \<Rightarrow> wt_sys \<Rightarrow> wt_sys" where
  "suspend c k e su s = (case su of
       WaitParked \<Rightarrow> s \<lparr>pcs := (pcs s) (c := WtParked k e)\<rparr>
     | WaitThrew \<Rightarrow> (unbind e (drop_event e s)) \<lparr>pcs := (pcs s) (c := WtIdle)\<rparr>
     | _ \<Rightarrow> (drop_event e s) \<lparr>pcs := (pcs s) (c := WtFailed k e)\<rparr>)"

definition narrow_status :: "u16 \<Rightarrow> WaitStatus" where
  "narrow_status f =
     (if f AND POLL_EVENT_CANCELLED \<noteq> 0 then Cancelled
      else if f AND POLL_EVENT_TIMEOUT \<noteq> 0 then TimedOut
      else if f AND POLL_EVENT_CUSTOM \<noteq> 0 then Completed
      else Cancelled)"

definition combined_status :: "u16 \<Rightarrow> CombinedWaitStatus" where
  "combined_status f =
     (if f AND POLL_EVENT_CANCELLED \<noteq> 0 then CCancelled
      else if f AND POLL_EVENT_TIMEOUT \<noteq> 0 then CTimedOut
      else if f AND POLL_EVENT_CUSTOM \<noteq> 0 then CCompleted
      else if f AND POLL_EVENT_READABLE \<noteq> 0 then CFdReadable
      else if f AND POLL_EVENT_WRITEABLE \<noteq> 0 then CFdWriteable
      else CCancelled)"

text \<open>The value of a wait, from the return value of the suspension and the mask that woke it.\<close>

fun wait_value :: "wait_kind \<Rightarrow> int \<Rightarrow> u16 \<Rightarrow> wait_result" where
  "wait_value KWait ret f = RInt 0"
| "wait_value KWaitCallback ret f = RInt ret"
| "wait_value KTimeout ret f =
     RInt (if ret = 0 \<and> f AND (POLL_EVENT_TIMEOUT OR POLL_EVENT_CANCELLED) \<noteq> 0 then 1 else ret)"
| "wait_value KNarrow ret f = RStatus (if ret \<noteq> 0 then RuntimeUnavailable else narrow_status f)"
| "wait_value KCombined ret f = RCombined (if ret \<noteq> 0 then CRuntimeUnavailable else combined_status f)"

definition wait_exit :: "co_id \<Rightarrow> wait_kind \<Rightarrow> nat \<Rightarrow> int \<Rightarrow> u16 \<Rightarrow> wt_sys \<Rightarrow> wt_sys" where
  "wait_exit c k e ret f s =
     (let s1 = unbind e s;
          v = (if k \<in> {KNarrow, KCombined} \<and> ret = 0 \<and> f AND POLL_EVENT_CUSTOM \<noteq> 0 then payload s e else None) in
      s1 \<lparr>pcs := (pcs s) (c := WtIdle), results := results s @ [(e, wait_value k ret f, v)]\<rparr>)"

text \<open>\<open>Notify\<close> with and without a payload, and \<open>Cancel\<close>.\<close>

definition Notify_value :: "nat option \<Rightarrow> wt_sys \<Rightarrow> int \<times> wt_sys" where
  "Notify_value v s = (case m_co_event (wt s) of
       None \<Rightarrow> (-1, s)
     | Some e \<Rightarrow>
         if m_run_status (wt s) \<noteq> COND_WAIT then (-1, s)
         else case ev_trigger e POLL_EVENT_CUSTOM (st s) of (r, t) \<Rightarrow>
           (r, s \<lparr>payload := (payload s) (e := v), wt := (wt s) \<lparr>m_run_status := COND_ACTIVE\<rparr>, st := t,
                 wins := (if r = 0 then wins s @ [(e, v)] else wins s)\<rparr>))"

definition Notify :: "wt_sys \<Rightarrow> int \<times> wt_sys" where
  "Notify s = (case m_co_event (wt s) of
       None \<Rightarrow> (-1, s)
     | Some e \<Rightarrow>
         if m_run_status (wt s) \<noteq> COND_WAIT then (-1, s)
         else case ev_trigger e POLL_EVENT_CUSTOM (st s) of (r, t) \<Rightarrow>
           (r, s \<lparr>wt := (wt s) \<lparr>m_run_status := COND_ACTIVE\<rparr>, st := t,
                 wins := (if r = 0 then wins s @ [(e, payload s e)] else wins s)\<rparr>))"

definition Cancel :: "wt_sys \<Rightarrow> wt_sys" where
  "Cancel s = s \<lparr>wt := (wt s) \<lparr>m_run_status := COND_FREE\<rparr>, marked := marked s \<union> set_option (m_co_event (wt s))\<rparr>"

section \<open>The machine\<close>

datatype wt_event =
    WWait co_id bool
  | WWaitCallback co_id bool
  | WTimeout co_id int bool
  | WNarrow co_id bool bool int int int bool bool
  | WCombined co_id bool bool CombinedWaitOptions int int bool bool bool
  | WSuspend co_id wait_setup
  | WExit co_id
  | WNotify
  | WNotifyValue "nat option"
  | WCancel
  | WDecide nat u16

fun wt_exec :: "wt_event \<Rightarrow> wt_sys \<Rightarrow> wt_sys option" where
  "wt_exec (WWait c ok) s = (if pcs s c = WtIdle then Some (snd (Wait_enter c ok s)) else None)"
| "wt_exec (WWaitCallback c ok) s = (if pcs s c = WtIdle then Some (snd (WaitWithCallback_enter c ok s)) else None)"
| "wt_exec (WTimeout c ms ok) s = (if pcs s c = WtIdle then Some (snd (WaitWithTimeout_enter c ms ok s)) else None)"
| "wt_exec (WNarrow c ic ca dl n1 n2 fin ok) s =
     (if pcs s c = WtIdle then Some (snd (Narrow_enter ic c ca dl n1 n2 fin ok s)) else None)"
| "wt_exec (WCombined c ic ca opts n1 n2 fin ok iok) s =
     (if pcs s c = WtIdle then Some (snd (Combined_enter ic c ca opts n1 n2 fin ok iok s)) else None)"
| "wt_exec (WSuspend c su) s = (case pcs s c of WtSetup k e \<Rightarrow> Some (suspend c k e su s) | _ \<Rightarrow> None)"
| "wt_exec (WExit c) s = (case pcs s c of
       WtParked k e \<Rightarrow> (case st s e of Won f \<Rightarrow> Some (wait_exit c k e 0 f s) | _ \<Rightarrow> None)
     | WtFailed k e \<Rightarrow> Some (wait_exit c k e (-1) 0 s)
     | _ \<Rightarrow> None)"
| "wt_exec WNotify s = Some (snd (Notify s))"
| "wt_exec (WNotifyValue v) s = Some (snd (Notify_value v s))"
| "wt_exec WCancel s = Some (Cancel s)"
| "wt_exec (WDecide e f) s =
     (if st s e = Waiting \<and> (f = POLL_EVENT_CANCELLED \<or> f = POLL_EVENT_TIMEOUT \<and> 0 < timer s e \<or>
         f \<in> {POLL_EVENT_READABLE, POLL_EVENT_WRITEABLE})
      then Some (s \<lparr>st := (st s) (e := Won f)\<rparr>) else None)"


section \<open>Invariant\<close>

fun ev_of :: "wt_pc \<Rightarrow> nat option" where
  "ev_of WtIdle = None"
| "ev_of (WtSetup k e) = Some e"
| "ev_of (WtParked k e) = Some e"
| "ev_of (WtFailed k e) = Some e"

definition waits_on :: "wt_pc \<Rightarrow> nat \<Rightarrow> bool" where
  "waits_on p e \<longleftrightarrow> (\<exists>k. p = WtSetup k e \<or> p = WtParked k e)"

definition is_completed :: "wait_result \<Rightarrow> bool" where
  "is_completed r \<longleftrightarrow> r = RStatus Completed \<or> r = RCombined CCompleted"

definition wake_masks :: "u16 set" where
  "wake_masks = {POLL_EVENT_CUSTOM, POLL_EVENT_CANCELLED, POLL_EVENT_TIMEOUT, POLL_EVENT_READABLE, POLL_EVENT_WRITEABLE}"

definition wt_slot :: "wt_sys \<Rightarrow> bool" where
  "wt_slot s \<longleftrightarrow>
     (\<forall>c e. ev_of (pcs s c) = Some e \<longrightarrow> e < next_ev s) \<and>
     (\<forall>c c' e. ev_of (pcs s c) = Some e \<longrightarrow> ev_of (pcs s c') = Some e \<longrightarrow> c = c') \<and>
     (\<forall>e. st s e = Waiting \<longrightarrow> m_co_event (wt s) = Some e \<and> (m_run_status (wt s) = COND_WAIT \<or> e \<in> marked s) \<and>
        (\<exists>c. waits_on (pcs s c) e)) \<and>
     (\<forall>e. m_co_event (wt s) = Some e \<longrightarrow> e < next_ev s)"

definition wt_payload :: "wt_sys \<Rightarrow> bool" where
  "wt_payload s \<longleftrightarrow>
     (\<forall>e. m_run_status (wt s) = COND_WAIT \<longrightarrow> m_co_event (wt s) = Some e \<longrightarrow> e \<notin> fst ` set (wins s) \<and> payload s e = None) \<and>
     (\<forall>e v. (e, v) \<in> set (wins s) \<longrightarrow> st s e = Won POLL_EVENT_CUSTOM \<and> payload s e = v \<and> e < next_ev s) \<and>
     distinct (map fst (wins s)) \<and>
     (\<forall>e. st s e = Won POLL_EVENT_CUSTOM \<longrightarrow> e \<in> fst ` set (wins s)) \<and>
     (\<forall>e f. st s e = Won f \<longrightarrow> f \<in> wake_masks) \<and>
     (\<forall>e r v. (e, r, v) \<in> set (results s) \<longrightarrow> (if is_completed r then (e, v) \<in> set (wins s) else v = None))"

definition wt_inv :: "wt_sys \<Rightarrow> bool" where
  "wt_inv s \<longleftrightarrow> wt_slot s \<and> wt_payload s"

lemma wt_init_inv: "wt_inv wt_init"
  by (simp add: wt_inv_def wt_slot_def wt_payload_def wt_init_def)

lemma inv_bind: "wt_inv s \<Longrightarrow> pcs s c = WtIdle \<Longrightarrow> \<forall>e. st s e \<noteq> Waiting \<Longrightarrow> wt_inv (bind c k ms s)"
proof -
  assume a: "wt_inv s" "pcs s c = WtIdle" "\<forall>e. st s e \<noteq> Waiting"
  let ?s = "bind c k ms s" and ?e = "next_ev s"
  have lt: "ev_of (pcs s c') = Some e \<Longrightarrow> e < ?e" for c' e using a(1) by (simp add: wt_inv_def wt_slot_def)
  have "wt_slot ?s"
    unfolding wt_slot_def
  proof (intro conjI allI impI)
    fix c' e assume "ev_of (pcs ?s c') = Some e"
    then show "e < next_ev ?s" using lt [of c' e] by (auto simp: bind_def Let_def split: if_splits)
  next
    fix c1 c2 e assume "ev_of (pcs ?s c1) = Some e" "ev_of (pcs ?s c2) = Some e"
    then show "c1 = c2" using lt [of c1 e] lt [of c2 e] a(1)
      by (auto simp: bind_def Let_def wt_inv_def wt_slot_def split: if_splits)
  qed (use a in \<open>auto simp: bind_def Let_def waits_on_def split: if_splits\<close>)
  moreover have "wt_payload ?s"
  proof -
    have p: "wt_payload s" using a(1) by (simp add: wt_inv_def)
    then have w: "(e, v) \<in> set (wins s) \<Longrightarrow> e < ?e" for e v by (auto simp: wt_payload_def)
    then have "?e \<notin> fst ` set (wins s)" by fastforce
    then show ?thesis using p unfolding wt_payload_def bind_def Let_def by (auto simp: less_Suc_eq)
  qed
  ultimately show ?thesis by (simp add: wt_inv_def)
qed

lemma inv_clear_slot: "wt_inv s \<Longrightarrow> slot_free fin s \<Longrightarrow> wt_inv (clear_slot s) \<and> (\<forall>e. st (clear_slot s) e \<noteq> Waiting) \<and> pcs (clear_slot s) = pcs s"
proof -
  assume a: "wt_inv s" "slot_free fin s"
  have n: "st s e \<noteq> Waiting" for e
    using a by (auto simp: wt_inv_def wt_slot_def slot_free_def split: option.splits)
  have "wt_slot (clear_slot s)" using a(1) n by (auto simp: clear_slot_def wt_inv_def wt_slot_def)
  moreover have "wt_payload (clear_slot s)" using a(1) by (auto simp: clear_slot_def wt_inv_def wt_payload_def)
  ultimately show ?thesis using n by (simp add: wt_inv_def) (simp add: clear_slot_def)
qed


lemma inv_after_clear: "wt_inv s \<Longrightarrow> slot_free fin s \<Longrightarrow> pcs s c = WtIdle \<Longrightarrow> wt_inv (bind c k ms (clear_slot s))"
  using inv_clear_slot inv_bind by simp

lemma slot_none: "m_co_event (wt s) = None \<Longrightarrow> slot_free fin s \<and> clear_slot s = s"
  by (simp add: slot_free_def clear_slot_def)

lemma inv_enter:
  assumes "wt_inv s" "pcs s c = WtIdle"
  shows "wt_inv (snd (Wait_enter c ok s))" "wt_inv (snd (WaitWithCallback_enter c ok s))" "wt_inv (snd (WaitWithTimeout_enter c ms ok s))"
    "wt_inv (snd (Narrow_enter ic c ca dl n1 n2 fin ok s))" "wt_inv (snd (Combined_enter ic c ca opts n1 n2 fin ok iok s))"
proof -
  have b: "m_co_event (wt s) = None \<Longrightarrow> wt_inv (bind c k ms s)" for k ms
    using slot_none [of s fin] inv_after_clear [OF assms(1) _ assms(2), of fin] by simp
  show "wt_inv (snd (Wait_enter c ok s))" "wt_inv (snd (WaitWithCallback_enter c ok s))" "wt_inv (snd (WaitWithTimeout_enter c ms ok s))"
    using assms(1) b by (simp_all add: Wait_enter_def WaitWithCallback_enter_def WaitWithTimeout_enter_def)
  show "wt_inv (snd (Narrow_enter ic c ca dl n1 n2 fin ok s))"
    using assms inv_clear_slot [OF assms(1), of fin] inv_after_clear [OF assms(1) _ assms(2), of fin]
    by (simp add: Narrow_enter_def Let_def)
  have "slot_free fin s \<Longrightarrow> (clear_slot s) \<lparr>wt := \<lparr>m_co_event = None, m_run_status = COND_FREE\<rparr>\<rparr> = clear_slot s \<or> m_co_event (wt s) = None"
    by (auto simp: clear_slot_def)
  moreover have "m_co_event (wt s) = None \<Longrightarrow> wt_inv (s \<lparr>wt := \<lparr>m_co_event = None, m_run_status = COND_FREE\<rparr>\<rparr>)"
    using assms(1) by (simp add: wt_inv_def wt_slot_def wt_payload_def)
  ultimately have "slot_free fin s \<Longrightarrow> wt_inv ((clear_slot s) \<lparr>wt := \<lparr>m_co_event = None, m_run_status = COND_FREE\<rparr>\<rparr>)"
    using inv_clear_slot [OF assms(1), of fin] slot_none [of s fin] by metis
  then show "wt_inv (snd (Combined_enter ic c ca opts n1 n2 fin ok iok s))"
    using assms inv_clear_slot [OF assms(1), of fin] inv_after_clear [OF assms(1) _ assms(2), of fin]
    by (simp add: Combined_enter_def Let_def)
qed

lemma wt_invD:
  assumes "wt_inv s"
  shows "ev_of (pcs s c) = Some e \<Longrightarrow> e < next_ev s"
    "ev_of (pcs s c) = Some e \<Longrightarrow> ev_of (pcs s c') = Some e \<Longrightarrow> c = c'"
    "st s e = Waiting \<Longrightarrow> m_co_event (wt s) = Some e" "st s e = Waiting \<Longrightarrow> m_run_status (wt s) = COND_WAIT \<or> e \<in> marked s"
    "st s e = Waiting \<Longrightarrow> \<exists>c. waits_on (pcs s c) e" "m_co_event (wt s) = Some e \<Longrightarrow> e < next_ev s"
    "m_run_status (wt s) = COND_WAIT \<Longrightarrow> m_co_event (wt s) = Some e \<Longrightarrow> e \<notin> fst ` set (wins s) \<and> payload s e = None"
    "(e, v) \<in> set (wins s) \<Longrightarrow> st s e = Won POLL_EVENT_CUSTOM \<and> payload s e = v"
    "st s e = Won POLL_EVENT_CUSTOM \<Longrightarrow> (e, payload s e) \<in> set (wins s)"
    "st s e = Won f \<Longrightarrow> f \<in> wake_masks"
proof -
  have sl: "wt_slot s" and pl: "wt_payload s" using assms by (simp_all add: wt_inv_def)
  show "ev_of (pcs s c) = Some e \<Longrightarrow> e < next_ev s"
    "ev_of (pcs s c) = Some e \<Longrightarrow> ev_of (pcs s c') = Some e \<Longrightarrow> c = c'"
    "st s e = Waiting \<Longrightarrow> m_co_event (wt s) = Some e" "st s e = Waiting \<Longrightarrow> m_run_status (wt s) = COND_WAIT \<or> e \<in> marked s"
    "st s e = Waiting \<Longrightarrow> \<exists>c. waits_on (pcs s c) e" "m_co_event (wt s) = Some e \<Longrightarrow> e < next_ev s"
    using sl unfolding wt_slot_def by blast+
  show "m_run_status (wt s) = COND_WAIT \<Longrightarrow> m_co_event (wt s) = Some e \<Longrightarrow> e \<notin> fst ` set (wins s) \<and> payload s e = None"
    "(e, v) \<in> set (wins s) \<Longrightarrow> st s e = Won POLL_EVENT_CUSTOM \<and> payload s e = v" for v
    using pl unfolding wt_payload_def by blast+
  show "st s e = Won f \<Longrightarrow> f \<in> wake_masks"
    using pl unfolding wt_payload_def by blast
  show "(e, payload s e) \<in> set (wins s)" if "st s e = Won POLL_EVENT_CUSTOM"
  proof -
    have "e \<in> fst ` set (wins s)" using that pl unfolding wt_payload_def by blast
    then obtain v where "(e, v) \<in> set (wins s)" by auto
    then show ?thesis using pl unfolding wt_payload_def by blast
  qed
qed


lemma wt_payloadI:
  assumes "\<And>e. m_run_status (wt s) = COND_WAIT \<Longrightarrow> m_co_event (wt s) = Some e \<Longrightarrow> e \<notin> fst ` set (wins s) \<and> payload s e = None"
    "\<And>e v. (e, v) \<in> set (wins s) \<Longrightarrow> st s e = Won POLL_EVENT_CUSTOM \<and> payload s e = v \<and> e < next_ev s" "distinct (map fst (wins s))"
    "\<And>e. st s e = Won POLL_EVENT_CUSTOM \<Longrightarrow> e \<in> fst ` set (wins s)"
    "\<And>e f. st s e = Won f \<Longrightarrow> f \<in> wake_masks"
    "\<And>e r v. (e, r, v) \<in> set (results s) \<Longrightarrow> if is_completed r then (e, v) \<in> set (wins s) else v = None"
  shows "wt_payload s"
  using assms unfolding wt_payload_def by blast

lemma wt_payload_frame:
  assumes "wt_payload s" "m_run_status (wt s') = COND_WAIT \<longrightarrow> wt s' = wt s" "wins s' = wins s" "payload s' = payload s" "next_ev s' = next_ev s"
    "\<forall>e. st s' e = st s e \<or> st s e = Waiting \<and> (st s' e = Gone \<or> (\<exists>f. st s' e = Won f \<and>
       f \<in> {POLL_EVENT_CANCELLED, POLL_EVENT_TIMEOUT, POLL_EVENT_READABLE, POLL_EVENT_WRITEABLE}))"
    "results s' = results s"
  shows "wt_payload s'"
proof (rule wt_payloadI)
  have d: "POLL_EVENT_CUSTOM \<notin> {POLL_EVENT_CANCELLED, POLL_EVENT_TIMEOUT, POLL_EVENT_READABLE, POLL_EVENT_WRITEABLE}"
    by (simp add: poll_bits)
  note p = assms(1) [unfolded wt_payload_def]
  show "e \<notin> fst ` set (wins s') \<and> payload s' e = None" if "m_run_status (wt s') = COND_WAIT" "m_co_event (wt s') = Some e" for e
    using that p assms(2-4) by auto
  show "st s' e = Won POLL_EVENT_CUSTOM \<and> payload s' e = v \<and> e < next_ev s'" if "(e, v) \<in> set (wins s')" for e v
  proof -
    have "st s e = Won POLL_EVENT_CUSTOM \<and> payload s e = v \<and> e < next_ev s" using that p assms(3) by simp
    then show ?thesis using assms(4,5) assms(6) [rule_format, of e] by auto
  qed
  show "distinct (map fst (wins s'))" using p assms(3) by simp
  show "e \<in> fst ` set (wins s')" if "st s' e = Won POLL_EVENT_CUSTOM" for e
  proof -
    have "st s e = Won POLL_EVENT_CUSTOM" using that assms(6) [rule_format, of e] d by auto
    then show ?thesis using p assms(3) by simp
  qed
  show "f \<in> wake_masks" if w: "st s' e = Won f" for e f
  proof (cases "st s e = Won f")
    case True
    then show ?thesis using p by blast
  next
    case False
    then show ?thesis using assms(6) [rule_format, of e] w by (auto simp: wake_masks_def)
  qed
  show "if is_completed r then (e, v) \<in> set (wins s') else v = None" if "(e, r, v) \<in> set (results s')" for e r v
    using that assms(3,7) p by auto
qed

lemma inv_decide:
  assumes "wt_inv s" "st s e = Waiting" "f \<in> {POLL_EVENT_CANCELLED, POLL_EVENT_TIMEOUT, POLL_EVENT_READABLE, POLL_EVENT_WRITEABLE}"
  shows "wt_inv (s \<lparr>st := (st s) (e := Won f)\<rparr>)"
proof -
  have "wt_slot (s \<lparr>st := (st s) (e := Won f)\<rparr>)" using assms(1) by (auto simp: wt_inv_def wt_slot_def)
  moreover have "wt_payload (s \<lparr>st := (st s) (e := Won f)\<rparr>)"
    by (rule wt_payload_frame [of s]) (use assms in \<open>auto simp: wt_inv_def\<close>)
  ultimately show ?thesis by (simp add: wt_inv_def)
qed

lemma inv_cancel: "wt_inv s \<Longrightarrow> wt_inv (Cancel s)"
proof -
  assume a: "wt_inv s"
  then have "wt_slot (Cancel s)" by (auto simp: Cancel_def wt_inv_def wt_slot_def)
  moreover have "wt_payload (Cancel s)" by (rule wt_payload_frame [of s]) (use a in \<open>auto simp: wt_inv_def Cancel_def\<close>)
  ultimately show ?thesis by (simp add: wt_inv_def)
qed

lemma inv_notify:
  assumes inv: "wt_inv s" and e: "m_co_event (wt s) = Some e" "m_run_status (wt s) = COND_WAIT"
    and t: "ev_trigger e POLL_EVENT_CUSTOM (st s) = (r, t)"
  shows "wt_inv (s \<lparr>payload := (payload s) (e := v), wt := (wt s) \<lparr>m_run_status := COND_ACTIVE\<rparr>, st := t,
     wins := (if r = 0 then wins s @ [(e, v)] else wins s)\<rparr>)" (is "wt_inv ?s")
proof -
  note D = wt_invD [OF inv]
  have nw: "e \<notin> fst ` set (wins s)" using D(7) [OF e(2,1)] by simp
  have others: "st s x = Waiting \<Longrightarrow> x = e" for x using D(3) [of x] e by simp
  have t': "t = (if st s e = Waiting then (st s) (e := Won POLL_EVENT_CUSTOM) else st s)" "r = 0 \<longleftrightarrow> st s e = Waiting"
    using t by (auto simp: ev_trigger_def split: if_splits)
  have "wt_slot ?s"
  proof -
    have "st ?s x \<noteq> Waiting" for x using t'(1) others [of x] by (auto split: if_splits)
    moreover have "\<forall>x. m_co_event (wt ?s) = Some x \<longrightarrow> x < next_ev ?s" using D(6) by simp
    moreover have "\<forall>c x. ev_of (pcs ?s c) = Some x \<longrightarrow> x < next_ev ?s" using D(1) by simp
    moreover have "\<forall>c c' x. ev_of (pcs ?s c) = Some x \<longrightarrow> ev_of (pcs ?s c') = Some x \<longrightarrow> c = c'" using D(2) by simp
    ultimately show ?thesis unfolding wt_slot_def by blast
  qed
  moreover have "wt_payload ?s"
  proof (rule wt_payloadI)
    have p: "wt_payload s" using inv by (simp add: wt_inv_def)
    note p = p [unfolded wt_payload_def]
    show "st ?s x = Won POLL_EVENT_CUSTOM \<and> payload ?s x = w \<and> x < next_ev ?s" if "(x, w) \<in> set (wins ?s)" for x w
    proof (cases "(x, w) \<in> set (wins s)")
      case True
      then have "x \<noteq> e" using nw by force
      then show ?thesis using True p t'(1) by auto
    next
      case False
      then have "x = e" "w = v" "r = 0" using that by (auto split: if_splits)
      then show ?thesis using t' D(6) [OF e(1)] by simp
    qed
    show "distinct (map fst (wins ?s))" using p nw by auto
    show "x \<in> fst ` set (wins ?s)" if "st ?s x = Won POLL_EVENT_CUSTOM" for x
      using that p t' by (auto split: if_splits)
    show "f \<in> wake_masks" if "st ?s x = Won f" for x f
      using that D(10) [of x f] t' by (auto simp: wake_masks_def split: if_splits)
    show "if is_completed q then (x, w) \<in> set (wins ?s) else w = None" if "(x, q, w) \<in> set (results ?s)" for x q w
      using that p by auto
  qed simp
  ultimately show ?thesis by (simp add: wt_inv_def)
qed


lemma inv_drop_event: "wt_inv s \<Longrightarrow> wt_inv (drop_event e s)"
proof -
  assume a: "wt_inv s"
  have "wt_slot (drop_event e s)" 
  proof -
    have "st s x = Waiting \<Longrightarrow> st s y = Waiting \<Longrightarrow> x = y" for x y
      using wt_invD(3) [OF a, of x] wt_invD(3) [OF a, of y] by simp
    then show ?thesis using a unfolding wt_inv_def wt_slot_def by (simp add: drop_event_def)
  qed
  moreover have "wt_payload (drop_event e s)"
    by (rule wt_payload_frame [of s]) (use a in \<open>auto simp: wt_inv_def drop_event_def\<close>)
  ultimately show ?thesis by (simp add: wt_inv_def)
qed

lemma drop_event_sel [simp]:
  "pcs (drop_event e s) = pcs s" "wt (drop_event e s) = wt s" "results (drop_event e s) = results s" "st (drop_event e s) e \<noteq> Waiting"
  "payload (drop_event e s) = payload s"
  by (auto simp: drop_event_def)

lemma unbind_sel [simp]:
  "pcs (unbind e s) = pcs s" "st (unbind e s) = st s" "results (unbind e s) = results s" "payload (unbind e s) = payload s"
  "wins (unbind e s) = wins s" "next_ev (unbind e s) = next_ev s" "marked (unbind e s) = marked s" "timer (unbind e s) = timer s"
  by (simp_all add: unbind_def)

text \<open>Moving a coroutine along its wait, and leaving it.\<close>

lemma inv_move:
  assumes inv: "wt_inv s" and c: "ev_of (pcs s c) = Some e" "ev_of p = Some e" and w: "st s e = Waiting \<Longrightarrow> waits_on p e"
  shows "wt_inv (s \<lparr>pcs := (pcs s) (c := p)\<rparr>)" (is "wt_inv ?s")
proof -
  note D = wt_invD [OF inv]
  have ev: "ev_of (pcs ?s c') = ev_of (pcs s c')" for c' using c by simp
  have "\<exists>c'. waits_on (pcs ?s c') x" if x: "st s x = Waiting" for x
  proof (cases "x = e")
    case True
    then show ?thesis using w x by (auto intro: exI [of _ c])
  next
    case False
    obtain c' where c': "waits_on (pcs s c') x" using D(5) [OF x] by blast
    then have "c' \<noteq> c" using c(1) False by (auto simp: waits_on_def)
    then show ?thesis using c' by (auto intro: exI [of _ c'])
  qed
  then have "wt_slot ?s" unfolding wt_slot_def ev using D(1-4,6) by simp
  moreover have "wt_payload ?s" by (rule wt_payload_frame [of s]) (use inv in \<open>auto simp: wt_inv_def\<close>)
  ultimately show ?thesis by (simp add: wt_inv_def)
qed

lemma wt_payload_results:
  assumes "wt_payload s" "\<forall>x q v. (x, q, v) \<in> set rs \<longrightarrow> (if is_completed q then (x, v) \<in> set (wins s) else v = None)"
  shows "wt_payload (s \<lparr>results := results s @ rs\<rparr>)"
proof -
  have "if is_completed q then (x, v) \<in> set (wins s) else v = None" if "(x, q, v) \<in> set (results s) \<union> set rs" for x q v
    using that assms unfolding wt_payload_def by blast
  then show ?thesis by (intro wt_payloadI) (use assms(1) in \<open>simp_all add: wt_payload_def\<close>)
qed

lemma inv_leave:
  assumes inv: "wt_inv s" and c: "ev_of (pcs s c) = Some e" and nw: "st s e \<noteq> Waiting"
    and r: "\<forall>x q v. (x, q, v) \<in> set rs \<longrightarrow> (if is_completed q then (x, v) \<in> set (wins s) else v = None)"
  shows "wt_inv ((unbind e s) \<lparr>pcs := (pcs s) (c := WtIdle), results := results s @ rs\<rparr>)" (is "wt_inv ?s")
proof -
  note D = wt_invD [OF inv]
  have ev: "ev_of (pcs ?s c') = Some x \<Longrightarrow> ev_of (pcs s c') = Some x" for c' x by (simp split: if_splits)
  have wt1: "m_co_event (wt ?s) = Some x \<Longrightarrow> m_co_event (wt s) = Some x" for x by (simp add: unbind_def split: if_splits)
  have wt2: "wt ?s = wt s" if x: "st s x = Waiting" for x
  proof -
    have "m_co_event (wt s) \<noteq> Some e" using D(3) [OF x] nw x by auto
    then show ?thesis by (simp add: unbind_def)
  qed
  have "\<exists>c'. waits_on (pcs ?s c') x" if x: "st s x = Waiting" for x
  proof -
    obtain c' where c': "waits_on (pcs s c') x" using D(5) [OF x] by blast
    then have "c' \<noteq> c" using c nw x by (auto simp: waits_on_def)
    then show ?thesis using c' by (auto intro: exI [of _ c'])
  qed
  note ex = this
  have "\<forall>x. st ?s x = Waiting \<longrightarrow> m_co_event (wt ?s) = Some x \<and> (m_run_status (wt ?s) = COND_WAIT \<or> x \<in> marked ?s) \<and>
      (\<exists>c'. waits_on (pcs ?s c') x)"
  proof (intro allI impI)
    fix x assume "st ?s x = Waiting"
    then have x: "st s x = Waiting" by simp
    show "m_co_event (wt ?s) = Some x \<and> (m_run_status (wt ?s) = COND_WAIT \<or> x \<in> marked ?s) \<and> (\<exists>c'. waits_on (pcs ?s c') x)"
      unfolding wt2 [OF x] using D(3) [OF x] D(4) [OF x] ex [OF x] by simp
  qed
  moreover have "\<forall>c' x. ev_of (pcs ?s c') = Some x \<longrightarrow> x < next_ev ?s"
  proof (intro allI impI)
    fix c' x assume "ev_of (pcs ?s c') = Some x"
    then show "x < next_ev ?s" using D(1) [OF ev] by simp
  qed
  moreover have "\<forall>c1 c2 x. ev_of (pcs ?s c1) = Some x \<longrightarrow> ev_of (pcs ?s c2) = Some x \<longrightarrow> c1 = c2"
  proof (intro allI impI)
    fix c1 c2 x assume "ev_of (pcs ?s c1) = Some x" "ev_of (pcs ?s c2) = Some x"
    then show "c1 = c2" using D(2) [OF ev ev] by blast
  qed
  moreover have "\<forall>x. m_co_event (wt ?s) = Some x \<longrightarrow> x < next_ev ?s"
  proof (intro allI impI)
    fix x assume "m_co_event (wt ?s) = Some x"
    then show "x < next_ev ?s" using D(6) [OF wt1] by simp
  qed
  ultimately have "wt_slot ?s" unfolding wt_slot_def by blast
  moreover have "wt_payload ?s"
  proof -
    have p: "wt_payload ((unbind e s) \<lparr>pcs := (pcs s) (c := WtIdle)\<rparr>)"
      by (rule wt_payload_frame [of s]) (use inv in \<open>auto simp: wt_inv_def unbind_def\<close>)
    show ?thesis using wt_payload_results [OF p, of rs] r by simp
  qed
  ultimately show ?thesis by (simp add: wt_inv_def)
qed

lemma inv_suspend: "wt_inv s \<Longrightarrow> pcs s c = WtSetup k e \<Longrightarrow> wt_inv (suspend c k e su s)"
proof -
  assume a: "wt_inv s" "pcs s c = WtSetup k e"
  note d = inv_drop_event [OF a(1), of e]
  show ?thesis
  proof (cases su)
    case WaitParked
    then show ?thesis using inv_move [OF a(1), of c e "WtParked k e"] a(2) by (simp add: suspend_def waits_on_def)
  next
    case WaitThrew
    have "(unbind e (drop_event e s)) \<lparr>pcs := (pcs s) (c := WtIdle), results := results s @ []\<rparr> =
        (unbind e (drop_event e s)) \<lparr>pcs := (pcs s) (c := WtIdle)\<rparr>" by (rule wt_sys.equality) simp_all
    note l = inv_leave [OF d, of c e "[]", unfolded drop_event_sel, unfolded this]
    show ?thesis using l a(2) WaitThrew drop_event_sel(4) [of e s] by (simp add: suspend_def)
  qed (use inv_move [OF d, of c e "WtFailed k e"] a(2) in \<open>simp_all add: suspend_def\<close>)
qed


text \<open>Only a win by \<open>Notify\<close> makes a wait complete, and then its payload is the winner's.\<close>

lemma wait_value_completed: "f \<in> wake_masks \<Longrightarrow> is_completed (wait_value k 0 f) \<longleftrightarrow> k \<in> {KNarrow, KCombined} \<and> f = POLL_EVENT_CUSTOM"
  by (cases k) (auto simp: is_completed_def wake_masks_def narrow_status_def combined_status_def poll_bits)

lemma custom_bit: "f \<in> wake_masks \<Longrightarrow> f AND POLL_EVENT_CUSTOM \<noteq> 0 \<longleftrightarrow> f = POLL_EVENT_CUSTOM"
  by (auto simp: wake_masks_def poll_bits)

lemma inv_exit:
  assumes inv: "wt_inv s" and c: "pcs s c = WtParked k e \<and> ret = 0 \<and> st s e = Won f \<or> pcs s c = WtFailed k e \<and> ret = -1"
  shows "wt_inv (wait_exit c k e ret f s)"
proof -
  note D = wt_invD [OF inv]
  have ev: "ev_of (pcs s c) = Some e" using c by auto
  have nw: "st s e \<noteq> Waiting"
  proof
    assume w: "st s e = Waiting"
    then obtain c' where c': "waits_on (pcs s c') e" using D(5) by blast
    then have "ev_of (pcs s c') = Some e" by (auto simp: waits_on_def)
    then have "c' = c" using D(2) [OF _ ev] by blast
    then show False using c c' w by (auto simp: waits_on_def)
  qed
  define v where "v = (if k \<in> {KNarrow, KCombined} \<and> ret = 0 \<and> f AND POLL_EVENT_CUSTOM \<noteq> 0 then payload s e else None)"
  have "if is_completed (wait_value k ret f) then (e, v) \<in> set (wins s) else v = None"
  proof (cases "ret = 0")
    case True
    then have w: "st s e = Won f" using c by auto
    note m = D(10) [OF w]
    show ?thesis using wait_value_completed [OF m, of k] custom_bit [OF m] D(9) [of e] w True by (auto simp: v_def)
  next
    case False
    then show ?thesis by (cases k) (auto simp: v_def is_completed_def)
  qed
  then have r: "\<forall>x q w. (x, q, w) \<in> set [(e, wait_value k ret f, v)] \<longrightarrow> (if is_completed q then (x, w) \<in> set (wins s) else w = None)"
    by simp
  show ?thesis using inv_leave [OF inv ev nw r] by (simp add: wait_exit_def Let_def v_def)
qed

lemma wt_inv_step: "wt_inv s \<Longrightarrow> wt_exec ev s = Some s' \<Longrightarrow> wt_inv s'"
proof -
  assume inv: "wt_inv s" and ex: "wt_exec ev s = Some s'"
  note D = wt_invD [OF inv]
  show ?thesis
  proof (cases ev)
    case (WSuspend c su)
    then show ?thesis using ex inv_suspend [OF inv] by (auto split: wt_pc.splits)
  next
    case (WExit c)
    then show ?thesis using ex inv_exit [OF inv] by (auto split: wt_pc.splits outcome.splits)
  next
    case WNotify
    show ?thesis
    proof (cases "m_co_event (wt s)")
      case (Some e)
      obtain r t where t: "ev_trigger e POLL_EVENT_CUSTOM (st s) = (r, t)" by fastforce
      have "(payload s) (e := payload s e) = payload s" by simp
      then show ?thesis using WNotify ex inv Some t inv_notify [OF inv Some _ t, of "payload s e"]
        by (simp add: Notify_def split: if_splits)
    qed (use WNotify ex inv in \<open>simp add: Notify_def\<close>)
  next
    case (WNotifyValue v)
    show ?thesis
    proof (cases "m_co_event (wt s)")
      case (Some e)
      obtain r t where t: "ev_trigger e POLL_EVENT_CUSTOM (st s) = (r, t)" by fastforce
      then show ?thesis using WNotifyValue ex inv Some inv_notify [OF inv Some _ t, of v]
        by (simp add: Notify_value_def split: if_splits)
    qed (use WNotifyValue ex inv in \<open>simp add: Notify_value_def\<close>)
  next
    case WCancel
    then show ?thesis using ex inv_cancel [OF inv] by simp
  next
    case (WDecide e f)
    then show ?thesis using ex inv_decide [OF inv] by (auto split: if_splits)
  qed (use ex inv_enter [OF inv] in \<open>auto split: if_splits\<close>)
qed

interpretation waiter: invariant_machine wt_exec wt_inv
  by unfold_locales (rule wt_inv_step)


section \<open>Properties\<close>

text \<open>C27. A notification reaches the waiter: in every interleaving, while a coroutine is between taking the slot
  and being decided (suspended already or not), and nobody has called \<open>Cancel\<close> on that wait,
  \<open>Notify(value)\<close> returns 0, decides exactly that wait, and the wait, once parked, returns
  \<open>Completed\<close> with that value when the coroutine runs again. There is never a second undecided wait.\<close>

theorem waiter_notify_delivers:
  assumes "reaches wt_exec wt_init s" "waits_on (pcs s c) e" "st s e = Waiting" "e \<notin> marked s"
  shows "\<exists>s'. Notify_value v s = (0, s') \<and> st s' = (st s) (e := Won POLL_EVENT_CUSTOM) \<and> payload s' e = v \<and>
    (pcs s c = WtParked KNarrow e \<longrightarrow>
      (\<exists>s''. wt_exec (WExit c) s' = Some s'' \<and> results s'' = results s @ [(e, RStatus Completed, v)] \<and>
        m_co_event (wt s'') = None)) \<and>
    (\<forall>x. st s x = Waiting \<longrightarrow> x = e)"
proof -
  have inv: "wt_inv s" using waiter.reaches_inv [OF assms(1)] wt_init_inv by blast
  note D = wt_invD [OF inv]
  have slot: "m_co_event (wt s) = Some e" "m_run_status (wt s) = COND_WAIT"
    using D(3,4) [OF assms(3)] assms(4) by auto
  define s' where "s' = s \<lparr>payload := (payload s) (e := v), wt := (wt s) \<lparr>m_run_status := COND_ACTIVE\<rparr>,
    st := (st s) (e := Won POLL_EVENT_CUSTOM), wins := wins s @ [(e, v)]\<rparr>"
  have n: "Notify_value v s = (0, s')"
    using slot assms(3) by (simp add: Notify_value_def ev_trigger_def s'_def)
  have "\<exists>s''. wt_exec (WExit c) s' = Some s'' \<and> results s'' = results s @ [(e, RStatus Completed, v)] \<and> m_co_event (wt s'') = None"
    if "pcs s c = WtParked KNarrow e"
    using that slot(1) by (simp add: s'_def wait_exit_def Let_def unbind_def narrow_status_def poll_bits)
  moreover have "st s x = Waiting \<Longrightarrow> x = e" for x using D(3) [of x] slot(1) by simp
  ultimately show ?thesis using n by (intro exI [of _ s']) (auto simp: s'_def)
qed

lemma waiter_demo:
  "case run wt_exec [WNarrow 1 True False 50000000 0 10 False True, WSuspend 1 WaitParked] wt_init of
     None \<Rightarrow> False | Some s \<Rightarrow> pcs s 1 = WtParked KNarrow 0 \<and> st s 0 = Waiting \<and> 0 \<notin> marked s \<and> timer s 0 = 50"
  by code_simp

theorem waiter_notify_delivers_witness:
  "\<exists>s s' s''. reaches wt_exec wt_init s \<and> Notify_value (Some 7) s = (0, s') \<and> wt_exec (WExit 1) s' = Some s'' \<and>
     results s'' = results s @ [(0, RStatus Completed, Some 7)]"
proof -
  obtain s where s: "run wt_exec [WNarrow 1 True False 50000000 0 10 False True, WSuspend 1 WaitParked] wt_init = Some s"
    "pcs s 1 = WtParked KNarrow 0" "st s 0 = Waiting" "0 \<notin> marked s"
    using waiter_demo by (auto split: option.splits)
  have "waits_on (pcs s 1) 0" using s(2) by (simp add: waits_on_def)
  from waiter_notify_delivers [OF run_reaches [OF s(1)] this s(3,4), of "Some 7"]
  show ?thesis using run_reaches [OF s(1)] s(2) by blast
qed

text \<open>C28. The payload belongs to the winner: a finished wait that reports \<open>Completed\<close> returns the value of the one
  notification that decided its event, and a wait ended by a timer, a cancellation, a ready descriptor or a
  failed registration returns the empty value; no event is won by two notifications.\<close>

theorem waiter_payload_of_winner:
  assumes "reaches wt_exec wt_init s" "(e, r, v) \<in> set (results s)"
  shows "(r = RStatus Completed \<or> r = RCombined CCompleted \<longrightarrow>
      (e, v) \<in> set (wins s) \<and> (\<forall>w. (e, w) \<in> set (wins s) \<longrightarrow> w = v) \<and> st s e = Won POLL_EVENT_CUSTOM) \<and>
    (r \<noteq> RStatus Completed \<and> r \<noteq> RCombined CCompleted \<longrightarrow> v = None) \<and> distinct (map fst (wins s))"
proof -
  have inv: "wt_inv s" using waiter.reaches_inv [OF assms(1)] wt_init_inv by blast
  have p: "wt_payload s" using inv by (simp add: wt_inv_def)
  have "if is_completed r then (e, v) \<in> set (wins s) else v = None" using p assms(2) unfolding wt_payload_def by blast
  moreover have "distinct (map fst (wins s))" using p by (simp add: wt_payload_def)
  moreover have "w = w' \<and> st s e = Won POLL_EVENT_CUSTOM" if "(e, w) \<in> set (wins s)" "(e, w') \<in> set (wins s)" for w w'
    using wt_invD(8) [OF inv that(1)] wt_invD(8) [OF inv that(2)] by simp
  ultimately show ?thesis by (simp add: is_completed_def split: if_splits)
qed

lemma waiter_demo2:
  "case run wt_exec [WNarrow 1 True False 50000000 0 10 False True, WSuspend 1 WaitParked, WDecide 0 POLL_EVENT_TIMEOUT,
       WNarrow 2 True False 90000000 60000000 60000000 True True, WNotifyValue (Some 4), WExit 1, WSuspend 2 WaitParked, WExit 2] wt_init of
     None \<Rightarrow> False | Some s \<Rightarrow> results s = [(0, RStatus TimedOut, None), (1, RStatus Completed, Some 4)]"
  by code_simp

theorem waiter_payload_of_winner_witness:
  "\<exists>s. reaches wt_exec wt_init s \<and> (1, RStatus Completed, Some 4) \<in> set (results s) \<and> (1, Some 4) \<in> set (wins s) \<and>
     (0, RStatus TimedOut, None) \<in> set (results s)"
proof -
  obtain s where s: "run wt_exec [WNarrow 1 True False 50000000 0 10 False True, WSuspend 1 WaitParked, WDecide 0 POLL_EVENT_TIMEOUT,
       WNarrow 2 True False 90000000 60000000 60000000 True True, WNotifyValue (Some 4), WExit 1, WSuspend 2 WaitParked, WExit 2] wt_init = Some s"
    "results s = [(0, RStatus TimedOut, None), (1, RStatus Completed, Some 4)]"
    using waiter_demo2 by (auto split: option.splits)
  have "(1, RStatus Completed, Some 4) \<in> set (results s)" by (simp add: s(2))
  from waiter_payload_of_winner [OF run_reaches [OF s(1)] this] have "(1, Some 4) \<in> set (wins s)" by blast
  then show ?thesis using run_reaches [OF s(1)] s(2) by (intro exI [of _ s]) simp
qed

text \<open>The timer of an event is fixed when the event is made.\<close>

lemma timer_frame: "wt_exec ev s = Some s' \<Longrightarrow> e < next_ev s \<Longrightarrow> timer s' e = timer s e \<and> e < next_ev s'"
proof -
  assume a: "wt_exec ev s = Some s'" "e < next_ev s"
  have b: "timer (bind c k ms s) e = timer s e \<and> e < next_ev (bind c k ms s)"
    "timer (bind c k ms (clear_slot s)) e = timer s e \<and> e < next_ev (bind c k ms (clear_slot s))"
    "timer (clear_slot s) e = timer s e" "next_ev (clear_slot s) = next_ev s" for c k ms
    using a(2) by (auto simp: bind_def Let_def clear_slot_def)
  show ?thesis
  proof (cases ev)
    case (WWait c ok)
    then show ?thesis using a b by (auto simp: Wait_enter_def split: if_splits)
  next
    case (WWaitCallback c ok)
    then show ?thesis using a b by (auto simp: WaitWithCallback_enter_def split: if_splits)
  next
    case (WTimeout c ms ok)
    then show ?thesis using a b by (auto simp: WaitWithTimeout_enter_def split: if_splits)
  next
    case (WNarrow c ic ca dl n1 n2 fin ok)
    then have "s' = snd (Narrow_enter ic c ca dl n1 n2 fin ok s)" using a by (simp split: if_splits)
    then show ?thesis using a(2) b by (simp add: Narrow_enter_def Let_def)
  next
    case (WCombined c ic ca opts n1 n2 fin ok iok)
    then have "s' = snd (Combined_enter ic c ca opts n1 n2 fin ok iok s)" using a by (simp split: if_splits)
    then show ?thesis using a(2) b by (simp add: Combined_enter_def Let_def)
  next
    case (WSuspend c su)
    then show ?thesis using a by (cases su) (auto simp: suspend_def drop_event_def split: wt_pc.splits)
  next
    case (WExit c)
    then show ?thesis using a by (auto simp: wait_exit_def Let_def split: wt_pc.splits outcome.splits)
  next
    case WNotify
    then show ?thesis using a by (auto simp: Notify_def split: option.splits prod.splits)
  next
    case (WNotifyValue v)
    then show ?thesis using a by (auto simp: Notify_value_def split: option.splits prod.splits)
  next
    case WCancel
    then show ?thesis using a by (auto simp: Cancel_def)
  next
    case (WDecide e f)
    then show ?thesis using a by (auto split: if_splits)
  qed
qed

interpretation timers: invariant_machine wt_exec "\<lambda>s. timer s e = ms \<and> e < next_ev s" for e ms
  by unfold_locales (use timer_frame in auto)


lemma ceil_ms_0: "0 \<le> d \<Longrightarrow> d < 1000000 \<Longrightarrow> ceil_ms (- d) = 0"
  by (simp add: ceil_ms_def)

text \<open>The deadline race of the narrow wait. If the deadline falls between the two clock readings of
  \<open>WaitWithCallback(options)\<close> (less than a millisecond before the second), the wait is set up with a 0 ms
  timer, so in no later state can it time out, although its deadline has passed; with the same readings the
  combined \<open>Wait\<close> returns \<open>TimedOut\<close> at once.\<close>

lemma narrow_deadline_race:
  assumes "m_co_event (wt s) = None" "now1 < dl" "dl \<le> now2" "now2 - dl < 1000000" "deadline opts = dl" "0 \<le> fd opts"
  shows "\<exists>e s'. Narrow_enter True c False dl now1 now2 fin True s = (None, s') \<and> pcs s' c = WtSetup KNarrow e \<and> st s' e = Waiting \<and>
    (\<forall>s''. reaches wt_exec s' s'' \<longrightarrow> wt_exec (WDecide e POLL_EVENT_TIMEOUT) s'' = None) \<and>
    fst (Combined_enter True c False opts now1 now2 fin True True s) = Some (RCombined CTimedOut)"
proof -
  have r: "ceil_ms (dl - now2) = 0" using ceil_ms_0 [of "now2 - dl"] assms(3,4) by simp
  define s' where "s' = bind c KNarrow 0 s"
  have sl: "slot_free fin s" "clear_slot s = s" using slot_none [OF assms(1)] by auto
  have n: "Narrow_enter True c False dl now1 now2 fin True s = (None, s')"
    using assms(2) sl by (simp add: Narrow_enter_def Let_def r regist_custom_def INT_MAX_def s'_def)
  have e: "pcs s' c = WtSetup KNarrow (next_ev s)" "st s' (next_ev s) = Waiting" "timer s' (next_ev s) = 0 \<and> next_ev s < next_ev s'"
    by (simp_all add: s'_def bind_def Let_def)
  have "wt_exec (WDecide (next_ev s) POLL_EVENT_TIMEOUT) s'' = None" if "reaches wt_exec s' s''" for s''
  proof -
    have "timer s'' (next_ev s) = 0" using timers.reaches_inv [OF that e(3)] by simp
    then show ?thesis by (simp add: poll_bits)
  qed
  moreover have "fst (Combined_enter True c False opts now1 now2 fin True True s) = Some (RCombined CTimedOut)"
    using assms(2,5,6) sl by (simp add: Combined_enter_def Let_def r)
  ultimately show ?thesis using n e(1,2) by blast
qed

end
