(* ===== verification/ChanModel.thy ===== *)
theory ChanModel
  imports Notify
begin

text \<open>
  \<open>sync/Chan.hpp\<close> and \<open>sync/__TChan.hpp\<close>: the buffered channel. Every section under \<open>m_item_queue_mutex\<close> is one
  step, and so are the unlocked reads of the closed flag, the set-up of a wait and the return from it; the
  coroutines interleave freely. A wait of \<open>CoWaiter\<close> is an event of the store: a writer owns a fresh waiter
  per wait, the reader uses the one of the channel. The set-up step includes the registration callback, which
  re-checks under the lock; \<open>early\<close> is a timeout or cancellation that decides the event before that.
\<close>

section \<open>Data\<close>

datatype ChanStatus = CHAN_DEFAUTL | CHAN_OPEN | CHAN_CLOSE

record chan =
  m_max_size :: nat
  m_item_queue :: "nat list"
  m_run_status :: ChanStatus
  m_is_reading :: bool
  m_enable_read_cond :: "nat option"
  m_enable_write_conds :: "nat list"
  m_read_watchers :: "nat list"
  m_write_watchers :: "nat list"

datatype read_mode = RdOne | RdAll | RdNow | RdTimed

datatype ch_pc =
    ChIdle
  | WrUnlocked nat bool
  | WrParked nat bool nat
  | WrChecked nat bool
  | RdStart read_mode
  | RdUnlocked read_mode
  | RdParked read_mode nat
  | RdDone

text \<open>The channel with its clients: \<open>written\<close> and \<open>taken\<close> are the items in the order they entered and left,
  \<open>rets\<close> the values the calls returned, \<open>poked\<close> the watchers notified.\<close>

record ch_sys =
  ch :: chan
  st :: event_store
  next_ev :: nat
  pcs :: "co_id \<Rightarrow> ch_pc"
  written :: "nat list"
  taken :: "nat list"
  rets :: "(co_id \<times> int) list"
  poked :: "nat list"

definition NewChan :: "nat \<Rightarrow> chan" where
  "NewChan n = \<lparr>m_max_size = n, m_item_queue = [], m_run_status = CHAN_OPEN, m_is_reading = False,
     m_enable_read_cond = None, m_enable_write_conds = [], m_read_watchers = [], m_write_watchers = []\<rparr>"

definition ch_init :: "nat \<Rightarrow> ch_sys" where
  "ch_init n = \<lparr>ch = NewChan n, st = \<lambda>_. Gone, next_ev = 0, pcs = \<lambda>_. ChIdle, written = [], taken = [], rets = [], poked = []\<rparr>"

definition IsClosed :: "ch_sys \<Rightarrow> bool" where
  "IsClosed s \<longleftrightarrow> m_run_status (ch s) = CHAN_CLOSE"

definition goto_pc :: "co_id \<Rightarrow> ch_pc \<Rightarrow> ch_sys \<Rightarrow> ch_sys" where
  "goto_pc c p s = s \<lparr>pcs := (pcs s) (c := p)\<rparr>"

definition ret :: "co_id \<Rightarrow> ch_pc \<Rightarrow> int \<Rightarrow> ch_sys \<Rightarrow> ch_sys" where
  "ret c p r s = s \<lparr>pcs := (pcs s) (c := p), rets := rets s @ [(c, r)]\<rparr>"

section \<open>Wake-ups\<close>

definition OnEnableRead :: "ch_sys \<Rightarrow> ch_sys" where
  "OnEnableRead s =
     (let t = (case m_enable_read_cond (ch s) of None \<Rightarrow> st s | Some e \<Rightarrow> snd (ev_trigger e POLL_EVENT_CUSTOM (st s))) in
      s \<lparr>st := t, poked := poked s @ m_read_watchers (ch s)\<rparr>)"

definition OnEnableWrite :: "ch_sys \<Rightarrow> ch_sys" where
  "OnEnableWrite s = (case notify_one ev_trigger POLL_EVENT_CUSTOM (map Some (m_enable_write_conds (ch s))) (st s) of
     (_, q, t) \<Rightarrow> s \<lparr>ch := (ch s) \<lparr>m_enable_write_conds := map the q\<rparr>, st := t, poked := poked s @ m_write_watchers (ch s)\<rparr>)"

section \<open>Writing\<close>

definition push_item :: "nat \<Rightarrow> ch_sys \<Rightarrow> ch_sys" where
  "push_item i s =
     (let s1 = s \<lparr>ch := (ch s) \<lparr>m_item_queue := m_item_queue (ch s) @ [i]\<rparr>, written := written s @ [i]\<rparr> in
      if m_is_reading (ch s) \<or> m_read_watchers (ch s) \<noteq> [] then OnEnableRead s1 else s1)"

text \<open>From the head of the waiting loop, with the lock held, to the next release of it. \<open>timed\<close> says that
  the call has a timeout, \<open>expired\<close> that none of it remains.\<close>

definition write_section :: "co_id \<Rightarrow> nat \<Rightarrow> bool \<Rightarrow> bool \<Rightarrow> ch_sys \<Rightarrow> ch_sys" where
  "write_section c i timed expired s =
     (if m_max_size (ch s) \<le> length (m_item_queue (ch s))
      then if timed \<and> expired then ret c ChIdle 1 s else goto_pc c (WrUnlocked i timed) s
      else ret c ChIdle 0 (push_item i s))"

definition Write :: "co_id \<Rightarrow> nat \<Rightarrow> ch_sys \<Rightarrow> ch_sys" where
  "Write c i s = (if IsClosed s then ret c ChIdle (-1) s else write_section c i False False s)"

definition TryWrite :: "co_id \<Rightarrow> nat \<Rightarrow> ch_sys \<Rightarrow> ch_sys" where
  "TryWrite c i s =
     (if IsClosed s then ret c ChIdle (-1) s
      else if m_max_size (ch s) \<le> length (m_item_queue (ch s)) then ret c ChIdle (-2) s
      else ret c ChIdle 0 (push_item i s))"

definition TryWrite_ms :: "co_id \<Rightarrow> nat \<Rightarrow> bool \<Rightarrow> ch_sys \<Rightarrow> ch_sys" where
  "TryWrite_ms c i expired s = (if IsClosed s then ret c ChIdle (-1) s else write_section c i True expired s)"

definition RegisterEnableWriteCond :: "nat \<Rightarrow> bool \<Rightarrow> ch_sys \<Rightarrow> ch_sys" where
  "RegisterEnableWriteCond e need_wait s =
     (if need_wait then s \<lparr>ch := (ch s) \<lparr>m_enable_write_conds := m_enable_write_conds (ch s) @ [e]\<rparr>\<rparr>
      else s \<lparr>st := snd (ev_trigger e POLL_EVENT_CUSTOM (st s))\<rparr>)"

definition first_outcome :: "u16 option \<Rightarrow> outcome" where
  "first_outcome early = (case early of None \<Rightarrow> Waiting | Some f \<Rightarrow> Won f)"

definition write_park :: "co_id \<Rightarrow> nat \<Rightarrow> bool \<Rightarrow> wait_setup \<Rightarrow> u16 option \<Rightarrow> ch_sys \<Rightarrow> ch_sys" where
  "write_park c i timed su early s = (case su of
       WaitParked \<Rightarrow>
         (let e = next_ev s; s1 = s \<lparr>st := (st s) (e := first_outcome early), next_ev := Suc e\<rparr> in
          goto_pc c (WrParked i timed e)
            (RegisterEnableWriteCond e (\<not> IsClosed s \<and> m_max_size (ch s) \<le> length (m_item_queue (ch s))) s1))
     | WaitThrew \<Rightarrow> goto_pc c ChIdle s
     | _ \<Rightarrow> ret c ChIdle (-2) s)"

text \<open>Back from the wait: a timed wait that ended by its timer or a cancellation returns 1, otherwise the closed
  flag is read without the lock.\<close>

definition write_wake :: "co_id \<Rightarrow> nat \<Rightarrow> bool \<Rightarrow> u16 \<Rightarrow> ch_sys \<Rightarrow> ch_sys" where
  "write_wake c i timed f s =
     (if timed \<and> f AND (POLL_EVENT_TIMEOUT OR POLL_EVENT_CANCELLED) \<noteq> 0 then ret c ChIdle 1 s
      else if IsClosed s then ret c ChIdle (-1) s
      else goto_pc c (WrChecked i timed) s)"

section \<open>Reading\<close>

definition pop_item :: "ch_sys \<Rightarrow> ch_sys" where
  "pop_item s = OnEnableWrite (s \<lparr>ch := (ch s) \<lparr>m_item_queue := tl (m_item_queue (ch s))\<rparr>, taken := taken s @ [hd (m_item_queue (ch s))]\<rparr>)"

fun pop_n :: "nat \<Rightarrow> ch_sys \<Rightarrow> ch_sys" where
  "pop_n 0 s = s"
| "pop_n (Suc n) s = pop_n n (pop_item s)"

text \<open>\<open>Read\<close>, \<open>ReadAll\<close>, \<open>TryRead\<close> and \<open>TryRead(timeout)\<close> up to taking the reading flag.\<close>

definition read_begin :: "co_id \<Rightarrow> read_mode \<Rightarrow> ch_sys \<Rightarrow> ch_sys" where
  "read_begin c m s =
     (if m \<in> {RdNow, RdTimed} \<and> IsClosed s then ret c ChIdle (-1) s
      else if m_is_reading (ch s) then ret c ChIdle (-2) s
      else goto_pc c (RdStart m) (s \<lparr>ch := (ch s) \<lparr>m_is_reading := True\<rparr>\<rparr>))"

text \<open>The section from taking the lock to releasing it: the loop condition and, when it fails, the tail.\<close>

definition read_tail :: "co_id \<Rightarrow> read_mode \<Rightarrow> ch_sys \<Rightarrow> ch_sys" where
  "read_tail c m s =
     (if m_item_queue (ch s) = [] then ret c RdDone (-1) s
      else ret c RdDone 0 (if m = RdAll then pop_n (length (m_item_queue (ch s))) s else pop_item s))"

definition read_section :: "co_id \<Rightarrow> read_mode \<Rightarrow> bool \<Rightarrow> ch_sys \<Rightarrow> ch_sys" where
  "read_section c m expired s =
     (if m = RdNow then if m_item_queue (ch s) = [] then ret c RdDone (-2) s else ret c RdDone 0 (pop_item s)
      else if m_item_queue (ch s) = [] \<and> \<not> IsClosed s
        then if m = RdTimed \<and> expired then ret c RdDone 1 s else goto_pc c (RdUnlocked m) s
      else read_tail c m s)"

definition RecheckEnableRead :: "nat \<Rightarrow> ch_sys \<Rightarrow> ch_sys" where
  "RecheckEnableRead e s =
     (if m_item_queue (ch s) \<noteq> [] \<or> IsClosed s then s \<lparr>st := snd (ev_trigger e POLL_EVENT_CUSTOM (st s))\<rparr> else s)"

definition read_park :: "co_id \<Rightarrow> read_mode \<Rightarrow> wait_setup \<Rightarrow> u16 option \<Rightarrow> ch_sys \<Rightarrow> ch_sys" where
  "read_park c m su early s = (case su of
       WaitParked \<Rightarrow>
         (let e = next_ev s in
          goto_pc c (RdParked m e) (RecheckEnableRead e (s \<lparr>st := (st s) (e := first_outcome early), next_ev := Suc e,
            ch := (ch s) \<lparr>m_enable_read_cond := Some e\<rparr>\<rparr>)))
     | WaitThrew \<Rightarrow> goto_pc c RdDone s
     | _ \<Rightarrow> ret c RdDone (-2) s)"

definition read_wake :: "co_id \<Rightarrow> read_mode \<Rightarrow> ch_sys \<Rightarrow> ch_sys" where
  "read_wake c m s = goto_pc c (RdStart m) (s \<lparr>ch := (ch s) \<lparr>m_enable_read_cond := None\<rparr>\<rparr>)"

definition read_end :: "co_id \<Rightarrow> ch_sys \<Rightarrow> ch_sys" where
  "read_end c s = goto_pc c ChIdle (s \<lparr>ch := (ch s) \<lparr>m_is_reading := False\<rparr>\<rparr>)"

section \<open>Closing, watchers\<close>

definition Close :: "ch_sys \<Rightarrow> ch_sys" where
  "Close s =
     (if IsClosed s then s
      else let s1 = s \<lparr>ch := (ch s) \<lparr>m_run_status := CHAN_CLOSE\<rparr>\<rparr>;
               s2 = (if m_is_reading (ch s1) then OnEnableRead s1 else s1);
               s3 = s2 \<lparr>ch := (ch s2) \<lparr>m_enable_write_conds := []\<rparr>,
                 st := notify_all ev_trigger POLL_EVENT_CUSTOM (map Some (m_enable_write_conds (ch s2))) (st s2)\<rparr>
           in s3 \<lparr>poked := poked s3 @ m_read_watchers (ch s3) @ m_write_watchers (ch s3)\<rparr>)"

definition AddReadWatcher :: "nat \<Rightarrow> ch_sys \<Rightarrow> ch_sys" where
  "AddReadWatcher w s = s \<lparr>ch := (ch s) \<lparr>m_read_watchers := m_read_watchers (ch s) @ [w]\<rparr>\<rparr>"
definition RemoveReadWatcher :: "nat \<Rightarrow> ch_sys \<Rightarrow> ch_sys" where
  "RemoveReadWatcher w s = s \<lparr>ch := (ch s) \<lparr>m_read_watchers := removeAll w (m_read_watchers (ch s))\<rparr>\<rparr>"
definition AddWriteWatcher :: "nat \<Rightarrow> ch_sys \<Rightarrow> ch_sys" where
  "AddWriteWatcher w s = s \<lparr>ch := (ch s) \<lparr>m_write_watchers := m_write_watchers (ch s) @ [w]\<rparr>\<rparr>"
definition RemoveWriteWatcher :: "nat \<Rightarrow> ch_sys \<Rightarrow> ch_sys" where
  "RemoveWriteWatcher w s = s \<lparr>ch := (ch s) \<lparr>m_write_watchers := removeAll w (m_write_watchers (ch s))\<rparr>\<rparr>"

section \<open>The machine\<close>

datatype ch_event =
    CWrite co_id nat
  | CTryWrite co_id nat
  | CTryWriteMs co_id nat bool
  | CWritePark co_id wait_setup "u16 option"
  | CWriteWake co_id
  | CWriteLock co_id bool
  | CReadBegin co_id read_mode
  | CReadSection co_id bool
  | CReadPark co_id wait_setup "u16 option"
  | CReadWake co_id
  | CReadEnd co_id
  | CClose
  | CAddRead nat | CRemoveRead nat | CAddWrite nat | CRemoveWrite nat
  | CDecide nat u16

definition early_ok :: "bool \<Rightarrow> u16 option \<Rightarrow> bool" where
  "early_ok timed early \<longleftrightarrow> (case early of None \<Rightarrow> True | Some f \<Rightarrow> f = POLL_EVENT_CANCELLED \<or> timed \<and> f = POLL_EVENT_TIMEOUT)"

fun ch_exec :: "ch_event \<Rightarrow> ch_sys \<Rightarrow> ch_sys option" where
  "ch_exec (CWrite c i) s = (if pcs s c = ChIdle then Some (Write c i s) else None)"
| "ch_exec (CTryWrite c i) s = (if pcs s c = ChIdle then Some (TryWrite c i s) else None)"
| "ch_exec (CTryWriteMs c i x) s = (if pcs s c = ChIdle then Some (TryWrite_ms c i x s) else None)"
| "ch_exec (CWritePark c su early) s = (case pcs s c of
       WrUnlocked i timed \<Rightarrow> if early_ok timed early then Some (write_park c i timed su early s) else None | _ \<Rightarrow> None)"
| "ch_exec (CWriteWake c) s = (case pcs s c of
       WrParked i timed e \<Rightarrow> (case st s e of Won f \<Rightarrow> Some (write_wake c i timed f s) | _ \<Rightarrow> None) | _ \<Rightarrow> None)"
| "ch_exec (CWriteLock c x) s = (case pcs s c of WrChecked i timed \<Rightarrow> Some (write_section c i timed x s) | _ \<Rightarrow> None)"
| "ch_exec (CReadBegin c m) s = (if pcs s c = ChIdle then Some (read_begin c m s) else None)"
| "ch_exec (CReadSection c x) s = (case pcs s c of RdStart m \<Rightarrow> Some (read_section c m x s) | _ \<Rightarrow> None)"
| "ch_exec (CReadPark c su early) s = (case pcs s c of
       RdUnlocked m \<Rightarrow> if early_ok (m = RdTimed) early then Some (read_park c m su early s) else None | _ \<Rightarrow> None)"
| "ch_exec (CReadWake c) s = (case pcs s c of
       RdParked m e \<Rightarrow> (case st s e of Won f \<Rightarrow> Some (read_wake c m s) | _ \<Rightarrow> None) | _ \<Rightarrow> None)"
| "ch_exec (CReadEnd c) s = (case pcs s c of RdDone \<Rightarrow> Some (read_end c s) | _ \<Rightarrow> None)"
| "ch_exec CClose s = Some (Close s)"
| "ch_exec (CAddRead w) s = Some (AddReadWatcher w s)"
| "ch_exec (CRemoveRead w) s = Some (RemoveReadWatcher w s)"
| "ch_exec (CAddWrite w) s = Some (AddWriteWatcher w s)"
| "ch_exec (CRemoveWrite w) s = Some (RemoveWriteWatcher w s)"
| "ch_exec (CDecide e f) s = (if st s e = Waiting \<and> f \<in> {POLL_EVENT_TIMEOUT, POLL_EVENT_CANCELLED}
     then Some (s \<lparr>st := (st s) (e := Won f)\<rparr>) else None)"


section \<open>What each operation leaves alone\<close>

lemma OnEnableRead_sel [simp]:
  "ch (OnEnableRead s) = ch s" "next_ev (OnEnableRead s) = next_ev s" "pcs (OnEnableRead s) = pcs s"
  "written (OnEnableRead s) = written s" "taken (OnEnableRead s) = taken s" "rets (OnEnableRead s) = rets s"
  by (simp_all add: OnEnableRead_def Let_def)

lemma OnEnableWrite_sel [simp]:
  "m_item_queue (ch (OnEnableWrite s)) = m_item_queue (ch s)" "m_max_size (ch (OnEnableWrite s)) = m_max_size (ch s)"
  "m_run_status (ch (OnEnableWrite s)) = m_run_status (ch s)" "m_is_reading (ch (OnEnableWrite s)) = m_is_reading (ch s)"
  "m_enable_read_cond (ch (OnEnableWrite s)) = m_enable_read_cond (ch s)" "next_ev (OnEnableWrite s) = next_ev s"
  "pcs (OnEnableWrite s) = pcs s" "written (OnEnableWrite s) = written s" "taken (OnEnableWrite s) = taken s" "rets (OnEnableWrite s) = rets s"
  by (simp_all add: OnEnableWrite_def split: prod.splits)

lemma push_item_sel [simp]:
  "m_item_queue (ch (push_item i s)) = m_item_queue (ch s) @ [i]" "m_max_size (ch (push_item i s)) = m_max_size (ch s)"
  "m_run_status (ch (push_item i s)) = m_run_status (ch s)" "m_is_reading (ch (push_item i s)) = m_is_reading (ch s)"
  "m_enable_read_cond (ch (push_item i s)) = m_enable_read_cond (ch s)"
  "m_enable_write_conds (ch (push_item i s)) = m_enable_write_conds (ch s)" "next_ev (push_item i s) = next_ev s"
  "pcs (push_item i s) = pcs s" "written (push_item i s) = written s @ [i]" "taken (push_item i s) = taken s" "rets (push_item i s) = rets s"
  by (simp_all add: push_item_def Let_def)

lemma pop_item_sel [simp]:
  "m_item_queue (ch (pop_item s)) = tl (m_item_queue (ch s))" "m_max_size (ch (pop_item s)) = m_max_size (ch s)"
  "m_run_status (ch (pop_item s)) = m_run_status (ch s)" "m_is_reading (ch (pop_item s)) = m_is_reading (ch s)"
  "m_enable_read_cond (ch (pop_item s)) = m_enable_read_cond (ch s)" "next_ev (pop_item s) = next_ev s"
  "pcs (pop_item s) = pcs s" "written (pop_item s) = written s" "taken (pop_item s) = taken s @ [hd (m_item_queue (ch s))]"
  "rets (pop_item s) = rets s"
  by (simp_all add: pop_item_def)

lemma goto_sel [simp]:
  "ch (goto_pc c p s) = ch s" "st (goto_pc c p s) = st s" "next_ev (goto_pc c p s) = next_ev s" "pcs (goto_pc c p s) = (pcs s) (c := p)"
  "written (goto_pc c p s) = written s" "taken (goto_pc c p s) = taken s" "rets (goto_pc c p s) = rets s"
  "ch (ret c p r s) = ch s" "st (ret c p r s) = st s" "next_ev (ret c p r s) = next_ev s" "pcs (ret c p r s) = (pcs s) (c := p)"
  "written (ret c p r s) = written s" "taken (ret c p r s) = taken s" "rets (ret c p r s) = rets s @ [(c, r)]"
  by (simp_all add: goto_pc_def ret_def)

lemma Register_sel [simp]:
  "m_item_queue (ch (RegisterEnableWriteCond e b s)) = m_item_queue (ch s)" "m_max_size (ch (RegisterEnableWriteCond e b s)) = m_max_size (ch s)"
  "m_run_status (ch (RegisterEnableWriteCond e b s)) = m_run_status (ch s)" "m_is_reading (ch (RegisterEnableWriteCond e b s)) = m_is_reading (ch s)"
  "m_enable_read_cond (ch (RegisterEnableWriteCond e b s)) = m_enable_read_cond (ch s)" "next_ev (RegisterEnableWriteCond e b s) = next_ev s"
  "pcs (RegisterEnableWriteCond e b s) = pcs s" "written (RegisterEnableWriteCond e b s) = written s" "taken (RegisterEnableWriteCond e b s) = taken s"
  "rets (RegisterEnableWriteCond e b s) = rets s"
  by (simp_all add: RegisterEnableWriteCond_def)

lemma Recheck_sel [simp]:
  "ch (RecheckEnableRead e s) = ch s" "next_ev (RecheckEnableRead e s) = next_ev s" "pcs (RecheckEnableRead e s) = pcs s"
  "written (RecheckEnableRead e s) = written s" "taken (RecheckEnableRead e s) = taken s" "rets (RecheckEnableRead e s) = rets s"
  by (simp_all add: RecheckEnableRead_def)

lemma Close_sel [simp]:
  "m_item_queue (ch (Close s)) = m_item_queue (ch s)" "m_max_size (ch (Close s)) = m_max_size (ch s)"
  "m_is_reading (ch (Close s)) = m_is_reading (ch s)" "m_enable_read_cond (ch (Close s)) = m_enable_read_cond (ch s)"
  "m_run_status (ch (Close s)) = CHAN_CLOSE" "next_ev (Close s) = next_ev s"
  "pcs (Close s) = pcs s" "written (Close s) = written s" "taken (Close s) = taken s" "rets (Close s) = rets s"
  by (auto simp: Close_def Let_def IsClosed_def)

lemma pop_n_frame [simp]: "m_max_size (ch (pop_n n s)) = m_max_size (ch s)" "written (pop_n n s) = written s" "rets (pop_n n s) = rets s"
  "m_run_status (ch (pop_n n s)) = m_run_status (ch s)" "m_is_reading (ch (pop_n n s)) = m_is_reading (ch s)"
  "m_enable_read_cond (ch (pop_n n s)) = m_enable_read_cond (ch s)" "next_ev (pop_n n s) = next_ev s" "pcs (pop_n n s) = pcs s"
  by (induction n arbitrary: s) simp_all

lemmas ch_defs = Write_def TryWrite_def TryWrite_ms_def write_section_def write_park_def write_wake_def read_begin_def
  read_section_def read_tail_def read_park_def read_wake_def read_end_def AddReadWatcher_def RemoveReadWatcher_def
  AddWriteWatcher_def RemoveWriteWatcher_def Let_def

section \<open>First in, first out\<close>

definition ch_fifo :: "ch_sys \<Rightarrow> bool" where
  "ch_fifo s \<longleftrightarrow> written s = taken s @ m_item_queue (ch s) \<and> length (m_item_queue (ch s)) \<le> m_max_size (ch s)"

lemma fifo_pop: "ch_fifo s \<Longrightarrow> m_item_queue (ch s) \<noteq> [] \<Longrightarrow> ch_fifo (pop_item s)"
  by (cases "m_item_queue (ch s)") (simp_all add: ch_fifo_def)

lemma fifo_pop_n: "ch_fifo s \<Longrightarrow> n \<le> length (m_item_queue (ch s)) \<Longrightarrow> ch_fifo (pop_n n s)"
proof (induction n arbitrary: s)
  case (Suc n)
  then have "m_item_queue (ch s) \<noteq> []" by auto
  then show ?case using Suc fifo_pop [OF Suc.prems(1)] by simp
qed simp

lemma fifo_frame: "ch_fifo s \<Longrightarrow> written s' = written s \<Longrightarrow> taken s' = taken s \<Longrightarrow> m_item_queue (ch s') = m_item_queue (ch s) \<Longrightarrow>
    m_max_size (ch s') = m_max_size (ch s) \<Longrightarrow> ch_fifo s'"
  by (simp add: ch_fifo_def)

lemma fifo_goto [simp]: "ch_fifo (goto_pc c p s) = ch_fifo s" "ch_fifo (ret c p r s) = ch_fifo s"
  by (simp_all add: ch_fifo_def)

lemma fifo_write_section: "ch_fifo s \<Longrightarrow> ch_fifo (write_section c i timed x s)"
  by (auto simp: write_section_def ch_fifo_def)

lemma fifo_read_section: "ch_fifo s \<Longrightarrow> ch_fifo (read_section c m x s)"
  by (auto simp: read_section_def read_tail_def intro: fifo_pop fifo_pop_n)

lemma ch_fifo_step: "ch_fifo s \<Longrightarrow> ch_exec e s = Some s' \<Longrightarrow> ch_fifo s'"
proof (cases e)
  case (CWritePark c su early)
  assume "ch_fifo s" "ch_exec e s = Some s'"
  then show ?thesis using CWritePark
    by (cases su) (auto simp: write_park_def Let_def split: ch_pc.splits if_splits intro: fifo_frame)
next
  case (CTryWrite c i)
  assume "ch_fifo s" "ch_exec e s = Some s'"
  then show ?thesis using CTryWrite by (auto simp: TryWrite_def ch_fifo_def split: if_splits)
next
  case (CReadPark c su early)
  assume "ch_fifo s" "ch_exec e s = Some s'"
  then show ?thesis using CReadPark
    by (cases su) (auto simp: read_park_def Let_def split: ch_pc.splits if_splits intro: fifo_frame)
qed (auto simp: Write_def TryWrite_def TryWrite_ms_def write_wake_def read_begin_def read_wake_def read_end_def
    AddReadWatcher_def RemoveReadWatcher_def AddWriteWatcher_def RemoveWriteWatcher_def
    split: if_splits ch_pc.splits outcome.splits intro: fifo_frame fifo_write_section fifo_read_section)


section \<open>Who waits for what\<close>

fun is_rd :: "ch_pc \<Rightarrow> bool" where
  "is_rd (RdStart m) = True" | "is_rd (RdUnlocked m) = True" | "is_rd (RdParked m e) = True" | "is_rd RdDone = True"
| "is_rd p = False"

fun ev_of :: "ch_pc \<Rightarrow> nat option" where
  "ev_of (WrParked i timed e) = Some e" | "ev_of (RdParked m e) = Some e" | "ev_of p = None"

definition ch_base :: "ch_sys \<Rightarrow> bool" where
  "ch_base s \<longleftrightarrow>
     (m_is_reading (ch s) \<longleftrightarrow> (\<exists>c. is_rd (pcs s c))) \<and>
     (\<forall>c c'. is_rd (pcs s c) \<longrightarrow> is_rd (pcs s c') \<longrightarrow> c = c') \<and>
     (\<forall>c e. ev_of (pcs s c) = Some e \<longrightarrow> e < next_ev s) \<and>
     (\<forall>c c' e. ev_of (pcs s c) = Some e \<longrightarrow> ev_of (pcs s c') = Some e \<longrightarrow> c = c') \<and>
     (\<forall>e \<in> set (m_enable_write_conds (ch s)). e < next_ev s) \<and>
     (\<forall>c m e. pcs s c = RdParked m e \<longrightarrow>
        m_enable_read_cond (ch s) = Some e \<and> (st s e = Waiting \<longrightarrow> m_item_queue (ch s) = [] \<and> \<not> IsClosed s)) \<and>
     (\<forall>e. m_enable_read_cond (ch s) = Some e \<longrightarrow> (\<exists>c m. pcs s c = RdParked m e)) \<and>
     (\<forall>e. st s e = Waiting \<longrightarrow> (\<exists>c. ev_of (pcs s c) = Some e)) \<and>
     (\<forall>c i t e. pcs s c = WrParked i t e \<longrightarrow> st s e = Waiting \<longrightarrow> e \<in> set (m_enable_write_conds (ch s)) \<and> \<not> IsClosed s) \<and>
     finite {c. pcs s c \<noteq> ChIdle}"

lemma ch_baseD:
  assumes "ch_base s"
  shows "m_is_reading (ch s) \<longleftrightarrow> (\<exists>c. is_rd (pcs s c))"
    "is_rd (pcs s c) \<Longrightarrow> is_rd (pcs s c') \<Longrightarrow> c = c'"
    "ev_of (pcs s c) = Some e \<Longrightarrow> e < next_ev s"
    "ev_of (pcs s c) = Some e \<Longrightarrow> ev_of (pcs s c') = Some e \<Longrightarrow> c = c'"
    "e \<in> set (m_enable_write_conds (ch s)) \<Longrightarrow> e < next_ev s"
    "pcs s c = RdParked m e \<Longrightarrow> m_enable_read_cond (ch s) = Some e"
    "pcs s c = RdParked m e \<Longrightarrow> st s e = Waiting \<Longrightarrow> m_item_queue (ch s) = [] \<and> \<not> IsClosed s"
    "m_enable_read_cond (ch s) = Some e \<Longrightarrow> \<exists>c m. pcs s c = RdParked m e"
    "st s e = Waiting \<Longrightarrow> \<exists>c. ev_of (pcs s c) = Some e"
    "pcs s c = WrParked i t e \<Longrightarrow> st s e = Waiting \<Longrightarrow> e \<in> set (m_enable_write_conds (ch s)) \<and> \<not> IsClosed s"
    "finite {c. pcs s c \<noteq> ChIdle}"
  using assms unfolding ch_base_def by blast+

lemma ch_baseI:
  assumes "m_is_reading (ch s) \<longleftrightarrow> (\<exists>c. is_rd (pcs s c))"
    "\<And>c c'. is_rd (pcs s c) \<Longrightarrow> is_rd (pcs s c') \<Longrightarrow> c = c'"
    "\<And>c e. ev_of (pcs s c) = Some e \<Longrightarrow> e < next_ev s"
    "\<And>c c' e. ev_of (pcs s c) = Some e \<Longrightarrow> ev_of (pcs s c') = Some e \<Longrightarrow> c = c'"
    "\<And>e. e \<in> set (m_enable_write_conds (ch s)) \<Longrightarrow> e < next_ev s"
    "\<And>c m e. pcs s c = RdParked m e \<Longrightarrow> m_enable_read_cond (ch s) = Some e"
    "\<And>c m e. pcs s c = RdParked m e \<Longrightarrow> st s e = Waiting \<Longrightarrow> m_item_queue (ch s) = [] \<and> \<not> IsClosed s"
    "\<And>e. m_enable_read_cond (ch s) = Some e \<Longrightarrow> \<exists>c m. pcs s c = RdParked m e"
    "\<And>e. st s e = Waiting \<Longrightarrow> \<exists>c. ev_of (pcs s c) = Some e"
    "\<And>c i t e. pcs s c = WrParked i t e \<Longrightarrow> st s e = Waiting \<Longrightarrow> e \<in> set (m_enable_write_conds (ch s)) \<and> \<not> IsClosed s"
    "finite {c. pcs s c \<noteq> ChIdle}"
  shows "ch_base s"
  unfolding ch_base_def using assms by blast

text \<open>Operations that only decide events and change the queue, the status or the watchers.\<close>

definition only_decides :: "ch_sys \<Rightarrow> ch_sys \<Rightarrow> bool" where
  "only_decides s s' \<longleftrightarrow> (\<forall>e. st s' e = st s e \<or> st s e = Waiting \<and> (\<exists>f. st s' e = Won f))"

lemma base_decide:
  assumes b: "ch_base s" and d: "only_decides s s'"
    and fr: "pcs s' = pcs s" "next_ev s' = next_ev s" "m_is_reading (ch s') = m_is_reading (ch s)"
      "m_enable_read_cond (ch s') = m_enable_read_cond (ch s)" "set (m_enable_write_conds (ch s')) \<subseteq> set (m_enable_write_conds (ch s))"
    and rd: "\<And>e. m_enable_read_cond (ch s) = Some e \<Longrightarrow> st s' e = Waiting \<Longrightarrow> m_item_queue (ch s) = [] \<and> \<not> IsClosed s \<Longrightarrow>
      m_item_queue (ch s') = [] \<and> \<not> IsClosed s'"
    and wr: "\<And>e. st s' e = Waiting \<Longrightarrow> e \<in> set (m_enable_write_conds (ch s)) \<Longrightarrow> \<not> IsClosed s \<Longrightarrow>
      e \<in> set (m_enable_write_conds (ch s')) \<and> \<not> IsClosed s'"
  shows "ch_base s'"
proof -
  note D = ch_baseD [OF b]
  have w: "st s' e = Waiting \<Longrightarrow> st s e = Waiting" for e
    using d [unfolded only_decides_def, rule_format, of e] by auto
  show ?thesis
  proof (rule ch_baseI)
    fix c m e assume p: "pcs s' c = RdParked m e" "st s' e = Waiting"
    then show "m_item_queue (ch s') = [] \<and> \<not> IsClosed s'"
      using rd [of e] D(6) [of c m e] D(7) [of c m e] w [of e] fr(1) by simp
  next
    fix c i t e assume p: "pcs s' c = WrParked i t e" "st s' e = Waiting"
    then show "e \<in> set (m_enable_write_conds (ch s')) \<and> \<not> IsClosed s'"
      using wr [of e] D(10) [of c i t e] w [of e] fr(1) by simp
  next
    fix e assume "st s' e = Waiting"
    then show "\<exists>c. ev_of (pcs s' c) = Some e" using D(9) [of e] w fr(1) by simp
  next
    fix e assume "e \<in> set (m_enable_write_conds (ch s'))"
    then show "e < next_ev s'" using D(5) [of e] fr(2,5) by auto
  qed (use D(1-4,6,8,11) fr in \<open>simp_all\<close>)
qed

lemma decides_refl [simp]: "only_decides s s"
  by (simp add: only_decides_def)

lemma decides_OnEnableRead: "only_decides s (OnEnableRead s)"
  by (auto simp: only_decides_def OnEnableRead_def ev_trigger_def Let_def split: option.splits)

lemma decides_notify_one: "notify_one ev_trigger POLL_EVENT_CUSTOM q t = (w, q', t') \<Longrightarrow>
    \<forall>e. t' e = t e \<or> t e = Waiting \<and> t' e = Won POLL_EVENT_CUSTOM"
  using store_events.notify_one_spec [OF TrueI custom_neq_0, of q t w q' t'] by (cases w) (auto split: if_splits)


lemma OnEnableWrite_cases:
  obtains e where "e \<in> set (m_enable_write_conds (ch s))" "st s e = Waiting" "st (OnEnableWrite s) = (st s) (e := Won POLL_EVENT_CUSTOM)"
      "\<forall>x \<in> set (m_enable_write_conds (ch s)). x \<noteq> e \<longrightarrow> st s x = Waiting \<longrightarrow> x \<in> set (m_enable_write_conds (ch (OnEnableWrite s)))"
      "set (m_enable_write_conds (ch (OnEnableWrite s))) \<subseteq> set (m_enable_write_conds (ch s))"
  | "\<forall>x \<in> set (m_enable_write_conds (ch s)). st s x \<noteq> Waiting" "st (OnEnableWrite s) = st s" "m_enable_write_conds (ch (OnEnableWrite s)) = []"
proof -
  obtain w q t where n: "notify_one ev_trigger POLL_EVENT_CUSTOM (map Some (m_enable_write_conds (ch s))) (st s) = (w, q, t)"
    by (metis prod_cases3)
  have N: "st (OnEnableWrite s) = t" "m_enable_write_conds (ch (OnEnableWrite s)) = map the q" using n by (simp_all add: OnEnableWrite_def)
  note spec = store_events.notify_one_spec [OF TrueI custom_neq_0 n]
  show ?thesis
  proof (cases w)
    case True
    then obtain pre e where e: "map Some (m_enable_write_conds (ch s)) = pre @ Some e # q" "st s e = Waiting"
      "\<forall>x. Some x \<in> set pre \<longrightarrow> st s x \<noteq> Waiting" "t = (st s) (e := Won POLL_EVENT_CUSTOM)"
      using spec(2) by auto
    have "m_enable_write_conds (ch s) = map the (map Some (m_enable_write_conds (ch s)))" by (simp add: comp_def)
    also have "\<dots> = map the pre @ e # map the q" unfolding e(1) by simp
    finally have c: "m_enable_write_conds (ch s) = map the pre @ e # map the q" .
    have "\<forall>o' \<in> set pre. o' \<in> Some ` set (m_enable_write_conds (ch s))"
      using arg_cong [OF e(1), of set] by auto
    then have "x \<in> the ` set pre \<Longrightarrow> st s x \<noteq> Waiting" for x using e(3) by force
    then show ?thesis by (intro that(1) [of e]) (use e N c in auto)
  next
    case False
    then show ?thesis using that(2) spec(3) N by auto
  qed
qed

lemma decides_OnEnableWrite: "only_decides s (OnEnableWrite s)"
  by (rule OnEnableWrite_cases [of s]) (auto simp: only_decides_def)

lemma decides_cong: "only_decides s s1 \<Longrightarrow> st s1 = st s2 \<Longrightarrow> only_decides s s2"
  by (simp add: only_decides_def)

lemma IsClosed_cong: "m_run_status (ch s) = m_run_status (ch s') \<Longrightarrow> IsClosed s = IsClosed s'"
  by (simp add: IsClosed_def)

lemma st_push: "st (push_item i s) = (if m_is_reading (ch s) \<or> m_read_watchers (ch s) \<noteq> []
    then st (OnEnableRead s) else st s)"
  by (simp add: push_item_def OnEnableRead_def Let_def split: option.splits)

lemma base_push: "ch_base s \<Longrightarrow> ch_base (push_item i s)"
proof (rule base_decide)
  assume b: "ch_base s"
  show "only_decides s (push_item i s)"
    using decides_OnEnableRead [of s] by (simp add: only_decides_def st_push)
  show "m_item_queue (ch (push_item i s)) = [] \<and> \<not> IsClosed (push_item i s)"
    if h: "m_enable_read_cond (ch s) = Some e" "st (push_item i s) e = Waiting" for e
  proof -
    obtain c m where "pcs s c = RdParked m e" using ch_baseD(8) [OF b h(1)] by blast
    then have "m_is_reading (ch s)" using ch_baseD(1) [OF b] by (metis is_rd.simps(3))
    then have "st (push_item i s) e \<noteq> Waiting" using h(1) by (auto simp: st_push OnEnableRead_def ev_trigger_def)
    then show ?thesis using h(2) by simp
  qed
qed (simp_all add: IsClosed_def)

lemma pop_item_st: "st (pop_item s) = st (OnEnableWrite s)"
  "m_enable_write_conds (ch (pop_item s)) = m_enable_write_conds (ch (OnEnableWrite s))"
  by (simp_all add: pop_item_def OnEnableWrite_def split: prod.splits)

lemma base_pop: "ch_base s \<Longrightarrow> ch_base (pop_item s)"
proof (rule base_decide)
  show "only_decides s (pop_item s)" using decides_OnEnableWrite [of s] by (simp add: only_decides_def pop_item_st)
  show "set (m_enable_write_conds (ch (pop_item s))) \<subseteq> set (m_enable_write_conds (ch s))"
    unfolding pop_item_st by (rule OnEnableWrite_cases [of s]) auto
  show "e \<in> set (m_enable_write_conds (ch (pop_item s))) \<and> \<not> IsClosed (pop_item s)"
    if "st (pop_item s) e = Waiting" "e \<in> set (m_enable_write_conds (ch s))" "\<not> IsClosed s" for e
    using that unfolding pop_item_st by (rule_tac OnEnableWrite_cases [of s]) (auto simp: IsClosed_def split: if_splits)
qed (simp_all add: IsClosed_def)

lemma base_pop_n: "ch_base s \<Longrightarrow> ch_base (pop_n n s)"
  by (induction n arbitrary: s) (auto intro: base_pop)

text \<open>A coroutine moves on, to a point without an event or to a wait on a fresh one.\<close>

lemma base_move:
  assumes b: "ch_base s" and old: "\<forall>e. ev_of (pcs s c) = Some e \<longrightarrow> st s e \<noteq> Waiting"
    and pc: "pcs s' = (pcs s) (c := p)" and ne: "next_ev s \<le> next_ev s'"
    and new: "ev_of p = None \<or> ev_of p = Some (next_ev s) \<and> next_ev s < next_ev s'"
    and st: "\<forall>x. x \<noteq> next_ev s \<or> ev_of p = None \<longrightarrow> st s' x = st s x"
    and conds: "set (m_enable_write_conds (ch s)) \<subseteq> set (m_enable_write_conds (ch s'))"
      "\<forall>x \<in> set (m_enable_write_conds (ch s')). x \<in> set (m_enable_write_conds (ch s)) \<or> x < next_ev s'"
    and rd: "m_is_reading (ch s') \<longleftrightarrow> is_rd p \<or> (\<exists>c'. c' \<noteq> c \<and> is_rd (pcs s c'))" "is_rd p \<longrightarrow> (\<forall>c'. c' \<noteq> c \<longrightarrow> \<not> is_rd (pcs s c'))"
    and fr: "m_item_queue (ch s') = m_item_queue (ch s)" "m_run_status (ch s') = m_run_status (ch s)"
    and cond: "m_enable_read_cond (ch s') = (case p of RdParked m e \<Rightarrow> Some e | _ \<Rightarrow>
      if \<exists>m e. pcs s c = RdParked m e then None else m_enable_read_cond (ch s))"
    and prd: "\<forall>m e. p = RdParked m e \<longrightarrow> st s' e = Waiting \<longrightarrow> m_item_queue (ch s') = [] \<and> \<not> IsClosed s'"
    and pwr: "\<forall>i t e. p = WrParked i t e \<longrightarrow> st s' e = Waiting \<longrightarrow> e \<in> set (m_enable_write_conds (ch s')) \<and> \<not> IsClosed s'"
  shows "ch_base s'"
proof -
  note D = ch_baseD [OF b]
  have cl: "IsClosed s' = IsClosed s" using fr(2) by (simp add: IsClosed_def)
  have fresh: "ev_of (pcs s c') \<noteq> Some (next_ev s)" for c' using D(3) [of c' "next_ev s"] by auto
  have keep: "st s' x = st s x" if "ev_of (pcs s c') = Some x" for c' x using st that fresh [of c'] by auto
  have solo: "is_rd (pcs s c') \<Longrightarrow> c' \<noteq> c \<Longrightarrow> \<not> is_rd p" for c' using rd(2) by blast
  have wr: "e \<in> set (m_enable_write_conds (ch s')) \<and> \<not> IsClosed s'" if h: "pcs s' c' = WrParked i t e" "st s' e = Waiting" for c' i t e
  proof (cases "c' = c")
    case False
    then have o': "pcs s c' = WrParked i t e" using h(1) pc by simp
    then have "st s e = Waiting" using keep [of c' e] h(2) by simp
    then show ?thesis using D(10) [OF o'] conds(1) cl by auto
  qed (use h pc pwr in simp)
  have rdp: "m_enable_read_cond (ch s') = Some e \<and> (st s' e = Waiting \<longrightarrow> m_item_queue (ch s') = [] \<and> \<not> IsClosed s')"
    if h: "pcs s' c' = RdParked m e" for c' m e
  proof (cases "c' = c")
    case True
    then show ?thesis using h pc cond prd by simp
  next
    case False
    then have o': "pcs s c' = RdParked m e" using h pc by simp
    then have "\<not> is_rd p" using solo [of c'] False by simp
    moreover have "\<not> (\<exists>m e. pcs s c = RdParked m e)" using D(2) [of c c'] o' False by auto
    ultimately have "m_enable_read_cond (ch s') = m_enable_read_cond (ch s)" using cond by (cases p) auto
    then show ?thesis using D(6) [OF o'] D(7) [OF o'] keep [of c' e] o' fr(1) cl by simp
  qed
  show ?thesis
  proof (rule ch_baseI)
    show "m_is_reading (ch s') = (\<exists>c. is_rd (pcs s' c))" using rd(1) pc by auto
    show "c1 = c2" if "is_rd (pcs s' c1)" "is_rd (pcs s' c2)" for c1 c2
      using that pc D(2) [of c1 c2] solo by (auto split: if_splits)
    show "x < next_ev s'" if "ev_of (pcs s' c1) = Some x" for c1 x
      using that pc D(3) [of c1 x] ne new by (auto split: if_splits)
    show "c1 = c2" if "ev_of (pcs s' c1) = Some x" "ev_of (pcs s' c2) = Some x" for c1 c2 x
      using that pc D(4) [of c1 x c2] new fresh by (auto split: if_splits)
    show "x < next_ev s'" if "x \<in> set (m_enable_write_conds (ch s'))" for x using conds(2) that D(5) [of x] ne by auto
    show "\<exists>c m. pcs s' c = RdParked m x" if h: "m_enable_read_cond (ch s') = Some x" for x
    proof (cases "\<exists>m e. p = RdParked m e")
      case True
      then show ?thesis using h cond pc by auto
    next
      case False
      then have "\<not> (\<exists>m e. pcs s c = RdParked m e)" "m_enable_read_cond (ch s) = Some x"
        using h cond by (auto split: ch_pc.splits if_splits)
      moreover from this obtain c' m where "pcs s c' = RdParked m x" using D(8) by blast
      ultimately show ?thesis using pc by (metis fun_upd_other)
    qed
    show "\<exists>c. ev_of (pcs s' c) = Some x" if h: "st s' x = Waiting" for x
    proof (cases "ev_of p = Some x")
      case True
      then show ?thesis using pc by (intro exI [of _ c]) simp
    next
      case False
      then have w: "st s x = Waiting" using st h new by (metis)
      then obtain c' where c': "ev_of (pcs s c') = Some x" using D(9) by blast
      then have "c' \<noteq> c" using old w by auto
      then show ?thesis using c' pc by (intro exI [of _ c']) simp
    qed
    show "finite {c. pcs s' c \<noteq> ChIdle}"
      by (rule finite_subset [of _ "insert c {c. pcs s c \<noteq> ChIdle}"]) (use pc D(11) in auto)
  qed (use rdp wr in blast)+
qed


text \<open>Moves between points of the same kind that hold no event.\<close>

lemma base_plain:
  assumes "ch_base s" "ev_of (pcs s c) = None" "ev_of p = None" "is_rd p = is_rd (pcs s c)"
  shows "ch_base (goto_pc c p s)" "ch_base (ret c p r s)"
proof -
  note D = ch_baseD [OF assms(1)]
  have rd: "m_is_reading (ch s) \<longleftrightarrow> is_rd p \<or> (\<exists>c'. c' \<noteq> c \<and> is_rd (pcs s c'))"
    using D(1) assms(4) by metis
  have solo: "is_rd p \<longrightarrow> (\<forall>c'. c' \<noteq> c \<longrightarrow> \<not> is_rd (pcs s c'))" using D(2) assms(4) by metis
  have np: "\<nexists>m e. pcs s c = RdParked m e" using assms(2) by auto
  have cs: "(case p of RdParked m e \<Rightarrow> Some e | _ \<Rightarrow> x) = x" for x using assms(3) by (cases p) auto
  show "ch_base (goto_pc c p s)"
    by (rule base_move [OF assms(1), of c _ p]) (use assms rd solo np cs in auto)
  show "ch_base (ret c p r s)"
    by (rule base_move [OF assms(1), of c _ p]) (use assms rd solo np cs in auto)
qed

lemma base_write_section: "ch_base s \<Longrightarrow> ev_of (pcs s c) = None \<Longrightarrow> \<not> is_rd (pcs s c) \<Longrightarrow> ch_base (write_section c i timed x s)"
  using base_push [of s i] by (auto simp: write_section_def intro!: base_plain)

lemma base_write_park:
  assumes b: "ch_base s" and pc: "pcs s c = WrUnlocked i timed"
  shows "ch_base (write_park c i timed su early s)"
proof (cases su)
  case WaitParked
  define nw where "nw \<longleftrightarrow> \<not> IsClosed s \<and> m_max_size (ch s) \<le> length (m_item_queue (ch s))"
  define s' where "s' = write_park c i timed su early s"
  note D = ch_baseD [OF b]
  have s': "s' = goto_pc c (WrParked i timed (next_ev s)) (RegisterEnableWriteCond (next_ev s) nw
      (s \<lparr>st := (st s) (next_ev s := first_outcome early), next_ev := Suc (next_ev s)\<rparr>))"
    using WaitParked by (simp add: s'_def write_park_def Let_def nw_def)
  have w: "nw" if "st s' (next_ev s) = Waiting"
    using that by (auto simp: s' RegisterEnableWriteCond_def ev_trigger_def split: if_splits)
  have "m_is_reading (ch s) \<longleftrightarrow> (\<exists>c'. c' \<noteq> c \<and> is_rd (pcs s c'))" using D(1) pc by (metis is_rd.simps(6))
  then have "ch_base s'"
    by (intro base_move [OF b, of c s' "WrParked i timed (next_ev s)"])
      (use pc w in \<open>auto simp: s' RegisterEnableWriteCond_def ev_trigger_def nw_def IsClosed_def\<close>)
  then show ?thesis by (simp add: s'_def)
qed (use base_plain [OF b, of c ChIdle] pc in \<open>simp_all add: write_park_def\<close>)

lemma base_write_wake:
  assumes b: "ch_base s" and pc: "pcs s c = WrParked i timed e" and w: "st s e = Won f"
  shows "ch_base (write_wake c i timed f s)"
proof -
  have rd: "m_is_reading (ch s) \<longleftrightarrow> (\<exists>c'. c' \<noteq> c \<and> is_rd (pcs s c'))" using ch_baseD(1) [OF b] pc by (metis is_rd.simps(7))
  have "ch_base s'" if "pcs s' = (pcs s) (c := p)" "ch s' = ch s" "st s' = st s" "next_ev s' = next_ev s" "p = ChIdle \<or> p = WrChecked i timed" for s' p
    by (rule base_move [OF b, of c s' p]) (use that pc w rd in auto)
  from this [of _ ChIdle] this [of _ "WrChecked i timed"] show ?thesis by (simp add: write_wake_def)
qed


lemma base_read_begin:
  assumes b: "ch_base s" and pc: "pcs s c = ChIdle"
  shows "ch_base (read_begin c m s)"
proof (cases "m_is_reading (ch s)")
  case False
  then have "\<not> is_rd (pcs s c')" for c' using ch_baseD(1) [OF b] by blast
  then have "ch_base (goto_pc c (RdStart m) (s \<lparr>ch := (ch s) \<lparr>m_is_reading := True\<rparr>\<rparr>))"
    by (intro base_move [OF b, of c _ "RdStart m"]) (use pc in auto)
  then show ?thesis using base_plain [OF b, of c ChIdle] pc False by (simp add: read_begin_def)
qed (use base_plain [OF b, of c ChIdle] pc in \<open>simp add: read_begin_def\<close>)

lemma base_read_section: "ch_base s \<Longrightarrow> pcs s c = RdStart m \<Longrightarrow> ch_base (read_section c m x s)"
  using base_pop [of s] base_pop_n [of s] by (auto simp: read_section_def read_tail_def intro!: base_plain)

lemma base_read_park:
  assumes b: "ch_base s" and pc: "pcs s c = RdUnlocked m"
  shows "ch_base (read_park c m su early s)"
proof (cases su)
  case WaitParked
  note D = ch_baseD [OF b]
  let ?e = "next_ev s"
  define s1 where "s1 = s \<lparr>st := (st s) (?e := first_outcome early), next_ev := Suc ?e, ch := (ch s) \<lparr>m_enable_read_cond := Some ?e\<rparr>\<rparr>"
  define s' where "s' = goto_pc c (RdParked m ?e) (RecheckEnableRead ?e s1)"
  have solo: "c' \<noteq> c \<Longrightarrow> \<not> is_rd (pcs s c')" for c' using D(2) [of c c'] pc by auto
  have rd: "m_is_reading (ch s)" using D(1) pc by (metis is_rd.simps(2))
  have w: "m_item_queue (ch s) = [] \<and> \<not> IsClosed s" if "st s' ?e = Waiting"
    using that by (auto simp: s'_def s1_def RecheckEnableRead_def ev_trigger_def IsClosed_def split: if_splits)
  have "ch_base s'"
  proof (rule base_move [OF b, of c s' "RdParked m ?e"])
    show "\<forall>x. x \<noteq> next_ev s \<or> ev_of (RdParked m ?e) = None \<longrightarrow> st s' x = st s x"
      by (auto simp: s'_def s1_def RecheckEnableRead_def ev_trigger_def)
    show "\<forall>n e. RdParked m ?e = RdParked n e \<longrightarrow> st s' e = Waiting \<longrightarrow> m_item_queue (ch s') = [] \<and> \<not> IsClosed s'"
      using w by (simp add: s'_def s1_def IsClosed_def)
  qed (use pc solo rd in \<open>auto simp: s'_def s1_def dest: D(5)\<close>)
  then show ?thesis using WaitParked by (simp add: read_park_def Let_def s'_def s1_def)
qed (use base_plain [OF b, of c RdDone] pc in \<open>simp_all add: read_park_def\<close>)

lemma base_read_wake:
  assumes b: "ch_base s" and pc: "pcs s c = RdParked m e" and w: "st s e = Won f"
  shows "ch_base (read_wake c m s)"
proof -
  note D = ch_baseD [OF b]
  have "c' \<noteq> c \<Longrightarrow> \<not> is_rd (pcs s c')" for c' using D(2) [of c c'] pc by auto
  moreover have "m_is_reading (ch s)" using D(1) pc by (metis is_rd.simps(3))
  ultimately show ?thesis
    unfolding read_wake_def by (intro base_move [OF b, of c _ "RdStart m"]) (use pc w in auto)
qed

lemma base_read_end:
  assumes b: "ch_base s" and pc: "pcs s c = RdDone"
  shows "ch_base (read_end c s)"
proof -
  have "c' \<noteq> c \<Longrightarrow> \<not> is_rd (pcs s c')" for c' using ch_baseD(2) [OF b, of c c'] pc by auto
  then show ?thesis unfolding read_end_def by (intro base_move [OF b, of c _ ChIdle]) (use pc in auto)
qed

lemma Close_st: "\<not> IsClosed s \<Longrightarrow> st (Close s) = (\<lambda>e. if (e \<in> set (m_enable_write_conds (ch s)) \<or> m_is_reading (ch s) \<and> m_enable_read_cond (ch s) = Some e)
    \<and> st s e = Waiting then Won POLL_EVENT_CUSTOM else st s e)"
  using store_events.notify_all_spec(2) [OF TrueI custom_neq_0]
  by (auto simp: Close_def Let_def OnEnableRead_def ev_trigger_def fun_eq_iff split: option.splits)

lemma Close_conds: "\<not> IsClosed s \<Longrightarrow> m_enable_write_conds (ch (Close s)) = []"
  by (simp add: Close_def Let_def)

lemma base_Close: "ch_base s \<Longrightarrow> ch_base (Close s)"
proof (cases "IsClosed s")
  case True
  then show "ch_base s \<Longrightarrow> ?thesis" by (simp add: Close_def)
next
  case False
  assume b: "ch_base s"
  have rd: "m_enable_read_cond (ch s) = Some e \<Longrightarrow> m_is_reading (ch s)" for e
    using ch_baseD(1,8) [OF b] by (metis is_rd.simps(3))
  show ?thesis
  proof (rule base_decide [OF b])
    show "only_decides s (Close s)" by (auto simp: only_decides_def Close_st [OF False])
  qed (use rd Close_st [OF False] Close_conds [OF False] in \<open>auto split: if_splits\<close>)
qed

lemma ch_base_step: "ch_base s \<Longrightarrow> ch_exec e s = Some s' \<Longrightarrow> ch_base s'"
proof -
  assume b: "ch_base s" and ex: "ch_exec e s = Some s'"
  show ?thesis
  proof (cases e)
    case (CWrite c i)
    then show ?thesis using ex base_write_section [OF b, of c] base_plain [OF b, of c ChIdle] by (auto simp: Write_def split: if_splits)
  next
    case (CTryWrite c i)
    then show ?thesis using ex base_push [OF b, of i] base_plain [OF b, of c ChIdle] base_plain [of "push_item i s" c ChIdle]
      by (auto simp: TryWrite_def split: if_splits)
  next
    case (CTryWriteMs c i x)
    then show ?thesis using ex base_write_section [OF b, of c] base_plain [OF b, of c ChIdle] by (auto simp: TryWrite_ms_def split: if_splits)
  next
    case (CWritePark c su early)
    then show ?thesis using ex base_write_park [OF b] by (auto split: ch_pc.splits if_splits)
  next
    case (CWriteWake c)
    then show ?thesis using ex base_write_wake [OF b] by (auto split: ch_pc.splits outcome.splits)
  next
    case (CWriteLock c x)
    then show ?thesis using ex base_write_section [OF b, of c] by (auto split: ch_pc.splits)
  next
    case (CReadBegin c m)
    then show ?thesis using ex base_read_begin [OF b] by (auto split: if_splits)
  next
    case (CReadSection c x)
    then show ?thesis using ex base_read_section [OF b] by (auto split: ch_pc.splits)
  next
    case (CReadPark c su early)
    then show ?thesis using ex base_read_park [OF b] by (auto split: ch_pc.splits if_splits)
  next
    case (CReadWake c)
    then show ?thesis using ex base_read_wake [OF b] by (auto split: ch_pc.splits outcome.splits)
  next
    case (CReadEnd c)
    then show ?thesis using ex base_read_end [OF b] by (auto split: ch_pc.splits)
  next
    case CClose
    then show ?thesis using ex base_Close [OF b] by simp
  next
    case (CDecide e' f)
    then have "s' = s \<lparr>st := (st s) (e' := Won f)\<rparr>" "st s e' = Waiting" using ex by (auto split: if_splits)
    then show ?thesis by (intro base_decide [OF b]) (auto simp: only_decides_def IsClosed_def)
  qed (use ex in \<open>auto intro!: base_decide [OF b] simp: AddReadWatcher_def RemoveReadWatcher_def AddWriteWatcher_def
      RemoveWriteWatcher_def IsClosed_def only_decides_def\<close>)
qed


section \<open>No writer is forgotten\<close>

text \<open>The reader's event is never in the writers' queue.\<close>

definition ch_sep :: "ch_sys \<Rightarrow> bool" where
  "ch_sep s \<longleftrightarrow> (\<forall>c m e. pcs s c = RdParked m e \<longrightarrow> e \<notin> set (m_enable_write_conds (ch s)))"

lemma conds_pop: "set (m_enable_write_conds (ch (pop_item s))) \<subseteq> set (m_enable_write_conds (ch s))"
  unfolding pop_item_st by (rule OnEnableWrite_cases [of s]) auto

lemma conds_pop_n: "set (m_enable_write_conds (ch (pop_n n s))) \<subseteq> set (m_enable_write_conds (ch s))"
proof (induction n arbitrary: s)
  case (Suc n)
  show ?case using Suc [of "pop_item s"] conds_pop [of s] by auto
qed simp

lemma sep_mono:
  "ch_sep s \<Longrightarrow> set (m_enable_write_conds (ch s')) \<subseteq> set (m_enable_write_conds (ch s)) \<Longrightarrow>
   (\<And>c m e. pcs s' c = RdParked m e \<Longrightarrow> pcs s c = RdParked m e) \<Longrightarrow> ch_sep s'"
  unfolding ch_sep_def by blast

lemma ch_sep_step: "ch_base s \<Longrightarrow> ch_sep s \<Longrightarrow> ch_exec e s = Some s' \<Longrightarrow> ch_sep s'"
proof -
  assume b: "ch_base s" and sep: "ch_sep s" and ex: "ch_exec e s = Some s'"
  show ?thesis
  proof (cases e)
    case (CWritePark c su early)
    then obtain i timed where pc: "pcs s c = WrUnlocked i timed" and s': "s' = write_park c i timed su early s"
      using ex by (auto split: ch_pc.splits if_splits)
    have "pcs s' c' = RdParked m x \<Longrightarrow> pcs s c' = RdParked m x" for c' m x
      using pc by (cases su) (auto simp: s' write_park_def Let_def split: if_splits)
    moreover have "x \<in> set (m_enable_write_conds (ch s')) \<Longrightarrow> x \<in> set (m_enable_write_conds (ch s)) \<or> x = next_ev s" for x
      by (cases su) (auto simp: s' write_park_def Let_def RegisterEnableWriteCond_def split: if_splits)
    moreover have "pcs s c' = RdParked m x \<Longrightarrow> x < next_ev s" for c' m x using ch_baseD(3) [OF b, of c' x] by simp
    ultimately show ?thesis using sep unfolding ch_sep_def by blast
  next
    case (CReadPark c su early)
    then obtain m where pc: "pcs s c = RdUnlocked m" and s': "s' = read_park c m su early s"
      using ex by (auto split: ch_pc.splits if_splits)
    have "pcs s' c' = RdParked n x \<Longrightarrow> pcs s c' = RdParked n x \<or> x = next_ev s" for c' n x
      using pc by (cases su) (auto simp: s' read_park_def Let_def split: if_splits)
    moreover have "m_enable_write_conds (ch s') = m_enable_write_conds (ch s)"
      by (cases su) (auto simp: s' read_park_def Let_def)
    moreover have "next_ev s \<notin> set (m_enable_write_conds (ch s))" using ch_baseD(5) [OF b, of "next_ev s"] by auto
    ultimately show ?thesis using sep unfolding ch_sep_def by metis
  next
    case (CReadSection c x)
    then obtain m where pc: "pcs s c = RdStart m" and s': "s' = read_section c m x s" using ex by (auto split: ch_pc.splits)
    show ?thesis
    proof (rule sep_mono [OF sep])
      show "set (m_enable_write_conds (ch s')) \<subseteq> set (m_enable_write_conds (ch s))"
        unfolding s' read_section_def read_tail_def using conds_pop [of s] conds_pop_n [of _ s] by simp
      show "pcs s c' = RdParked n y" if "pcs s' c' = RdParked n y" for c' n y
        using that unfolding s' read_section_def read_tail_def by (simp split: if_splits)
    qed
  next
    case CClose
    have "set (m_enable_write_conds (ch (Close s))) \<subseteq> set (m_enable_write_conds (ch s))"
      using Close_conds [of s] by (cases "IsClosed s") (simp_all add: Close_def)
    then show ?thesis using CClose ex by (auto intro: sep_mono [OF sep])
  qed (use ex in \<open>auto intro!: sep_mono [OF sep] simp: Write_def TryWrite_def TryWrite_ms_def write_section_def write_wake_def
      read_begin_def read_wake_def read_end_def AddReadWatcher_def RemoveReadWatcher_def AddWriteWatcher_def RemoveWriteWatcher_def
      split: if_splits ch_pc.splits outcome.splits\<close>)
qed

definition notified :: "ch_sys \<Rightarrow> co_id \<Rightarrow> bool" where
  "notified s c \<longleftrightarrow> (\<exists>i t e. pcs s c = WrParked i t e \<and> st s e = Won POLL_EVENT_CUSTOM) \<or> (\<exists>i t. pcs s c = WrChecked i t)"

definition writer_waits :: "ch_sys \<Rightarrow> bool" where
  "writer_waits s \<longleftrightarrow> (\<exists>c i t e. pcs s c = WrParked i t e \<and> st s e = Waiting)"

definition free_slots :: "ch_sys \<Rightarrow> nat" where
  "free_slots s = m_max_size (ch s) - length (m_item_queue (ch s))"

definition ch_progress :: "ch_sys \<Rightarrow> bool" where
  "ch_progress s \<longleftrightarrow> (\<not> IsClosed s \<longrightarrow> writer_waits s \<longrightarrow> free_slots s \<le> card {c. notified s c})"

definition ch_inv :: "ch_sys \<Rightarrow> bool" where
  "ch_inv s \<longleftrightarrow> ch_fifo s \<and> ch_base s \<and> ch_sep s \<and> ch_progress s"

lemma finite_notified: "ch_base s \<Longrightarrow> finite {c. notified s c}"
  by (rule finite_subset [OF _ ch_baseD(11)]) (auto simp: notified_def)

lemma progress_mono:
  assumes "ch_progress s" "finite {c. notified s' c}" "IsClosed s \<Longrightarrow> IsClosed s'" "free_slots s' \<le> free_slots s"
    "writer_waits s' \<Longrightarrow> writer_waits s" "\<And>c. notified s c \<Longrightarrow> notified s' c"
  shows "ch_progress s'"
proof -
  have "card {c. notified s c} \<le> card {c. notified s' c}" using assms(2,6) by (intro card_mono) auto
  then show ?thesis using assms unfolding ch_progress_def by (meson le_trans)
qed

lemma decides_notified: "only_decides s s' \<Longrightarrow> pcs s' = pcs s \<Longrightarrow> notified s c \<Longrightarrow> notified s' c"
proof -
  assume a: "only_decides s s'" "pcs s' = pcs s" "notified s c"
  have "st s e = Won POLL_EVENT_CUSTOM \<Longrightarrow> st s' e = Won POLL_EVENT_CUSTOM" for e
    using a(1) [unfolded only_decides_def, rule_format, of e] by auto
  then show ?thesis using a(2,3) unfolding notified_def by metis
qed

lemma decides_waits: "only_decides s s' \<Longrightarrow> pcs s' = pcs s \<Longrightarrow> writer_waits s' \<Longrightarrow> writer_waits s"
proof -
  assume a: "only_decides s s'" "pcs s' = pcs s" "writer_waits s'"
  have "st s' e = Waiting \<Longrightarrow> st s e = Waiting" for e using a(1) [unfolded only_decides_def, rule_format, of e] by auto
  then show ?thesis using a(2,3) unfolding writer_waits_def by metis
qed

lemma progress_push: "ch_base s \<Longrightarrow> ch_progress s \<Longrightarrow> ch_progress (push_item i s)"
proof (rule progress_mono)
  assume b: "ch_base s"
  have d: "only_decides s (push_item i s)" using decides_OnEnableRead [of s] by (simp add: only_decides_def st_push)
  show "finite {c. notified (push_item i s) c}" using finite_notified [OF base_push [OF b]] .
  show "writer_waits (push_item i s) \<Longrightarrow> writer_waits s" "\<And>c. notified s c \<Longrightarrow> notified (push_item i s) c"
    using decides_waits [OF d] decides_notified [OF d] by simp_all
qed (simp_all add: IsClosed_def free_slots_def)

text \<open>Taking an item makes a slot and, when somebody waits for it, a notified writer.\<close>

lemma progress_pop: "ch_base s \<Longrightarrow> ch_sep s \<Longrightarrow> ch_progress s \<Longrightarrow> ch_progress (pop_item s)"
proof -
  assume b: "ch_base s" and sep: "ch_sep s" and pr: "ch_progress s"
  note D = ch_baseD [OF b]
  have d: "only_decides s (pop_item s)" using decides_OnEnableWrite [of s] by (simp add: only_decides_def pop_item_st)
  show ?thesis
    unfolding ch_progress_def
  proof (intro impI)
    assume op: "\<not> IsClosed (pop_item s)" and ww: "writer_waits (pop_item s)"
    have le: "free_slots s \<le> card {c. notified s c}"
      using pr op decides_waits [OF d _ ww] by (simp add: ch_progress_def IsClosed_def)
    have fs: "free_slots (pop_item s) \<le> Suc (free_slots s)" by (simp add: free_slots_def)
    have sub: "{c. notified s c} \<subseteq> {c. notified (pop_item s) c}" using decides_notified [OF d] by auto
    have fin: "finite {c. notified (pop_item s) c}" using finite_notified [OF base_pop [OF b]] .
    show "free_slots (pop_item s) \<le> card {c. notified (pop_item s) c}"
    proof (cases rule: OnEnableWrite_cases [of s])
      case (1 e)
      obtain c where c: "ev_of (pcs s c) = Some e" using D(9) 1(2) by blast
      then obtain i t where pc: "pcs s c = WrParked i t e" using sep 1(1) by (cases "pcs s c") (auto simp: ch_sep_def)
      have "notified (pop_item s) c" "\<not> notified s c" using pc 1(2,3) by (simp_all add: notified_def pop_item_st)
      then have "{c. notified s c} \<subset> {c. notified (pop_item s) c}" using sub by auto
      then have "card {c. notified s c} < card {c. notified (pop_item s) c}" using fin by (rule psubset_card_mono [rotated])
      then show ?thesis using le fs by linarith
    next
      case 2
      obtain c i t e where w: "pcs s c = WrParked i t e" "st s e = Waiting"
        using ww 2(2) by (auto simp: writer_waits_def pop_item_st)
      then show ?thesis using D(10) [OF w] 2(1) by blast
    qed
  qed
qed

lemma sep_pop: "ch_sep s \<Longrightarrow> ch_sep (pop_item s)"
  by (rule sep_mono) (use conds_pop in auto)

lemma progress_pop_n: "ch_base s \<Longrightarrow> ch_sep s \<Longrightarrow> ch_progress s \<Longrightarrow> ch_progress (pop_n n s)"
  by (induction n arbitrary: s) (auto intro: base_pop sep_pop progress_pop)


lemma progress_goto:
  assumes b: "ch_base s" and pr: "ch_progress s" and o: "\<not> notified s c"
    and fr: "st s' = st s" "pcs s' = (pcs s) (c := p)" "m_item_queue (ch s') = m_item_queue (ch s)" "m_max_size (ch s') = m_max_size (ch s)"
      "m_run_status (ch s') = m_run_status (ch s)"
    and p: "\<forall>i t e. p = WrParked i t e \<longrightarrow> st s' e \<noteq> Waiting" and b': "ch_base s'"
  shows "ch_progress s'"
proof (rule progress_mono [OF pr finite_notified [OF b']])
  show "notified s c' \<Longrightarrow> notified s' c'" for c' using o fr(1,2) by (cases "c' = c") (auto simp: notified_def)
  show "writer_waits s' \<Longrightarrow> writer_waits s" using p fr(1,2) by (auto simp: writer_waits_def split: if_splits)
qed (simp_all add: IsClosed_def free_slots_def fr)

lemma progress_full: "m_max_size (ch s) \<le> length (m_item_queue (ch s)) \<Longrightarrow> ch_progress s"
  by (simp add: ch_progress_def free_slots_def)

lemma progress_closed: "IsClosed s \<Longrightarrow> ch_progress s"
  by (simp add: ch_progress_def)

text \<open>A writer that uses its slot, whether it was notified or came fresh.\<close>

lemma progress_write_section:
  assumes b: "ch_base s" and pr: "ch_progress s" and pc: "ev_of (pcs s c) = None" "\<not> is_rd (pcs s c)"
  shows "ch_progress (write_section c i timed x s)"
proof (cases "m_max_size (ch s) \<le> length (m_item_queue (ch s))")
  case True
  then show ?thesis by (intro progress_full) (simp add: write_section_def)
next
  case False
  define s1 where "s1 = push_item i s"
  have b1: "ch_base s1" using base_push [OF b] by (simp add: s1_def)
  have p1: "pcs s1 = pcs s" by (simp add: s1_def)
  have fs: "free_slots s = Suc (free_slots s1)" using False by (simp add: free_slots_def s1_def)
  have d: "only_decides s s1" using decides_OnEnableRead [of s] by (simp add: only_decides_def st_push s1_def)
  have sub: "{c'. notified s c'} - {c} \<subseteq> {c'. notified (ret c ChIdle 0 s1) c'}"
  proof -
    have "notified (ret c ChIdle 0 s1) c' \<longleftrightarrow> c' \<noteq> c \<and> notified s1 c'" for c' by (simp add: notified_def)
    then show ?thesis using decides_notified [OF d p1] by auto
  qed
  have b2: "ch_base (ret c ChIdle 0 s1)" using base_plain [OF b1, of c ChIdle] pc p1 by simp
  have "free_slots (ret c ChIdle 0 s1) \<le> card {c'. notified (ret c ChIdle 0 s1) c'}"
    if "\<not> IsClosed (ret c ChIdle 0 s1)" "writer_waits (ret c ChIdle 0 s1)"
  proof -
    have "writer_waits s1" using that(2) by (auto simp: writer_waits_def split: if_splits)
    then have "free_slots s \<le> card {c. notified s c}"
      using pr that(1) decides_waits [OF d p1] by (simp add: ch_progress_def IsClosed_def s1_def)
    moreover have "card {c'. notified s c'} - 1 \<le> card ({c'. notified s c'} - {c})"
      using finite_notified [OF b] by (simp add: card_Diff_singleton_if)
    moreover have "card ({c'. notified s c'} - {c}) \<le> card {c'. notified (ret c ChIdle 0 s1) c'}"
      using sub finite_notified [OF b2] by (intro card_mono)
    ultimately show ?thesis using fs by (simp add: free_slots_def)
  qed
  then show ?thesis using False by (simp add: ch_progress_def write_section_def s1_def)
qed

lemma ch_progress_step: "ch_base s \<Longrightarrow> ch_sep s \<Longrightarrow> ch_progress s \<Longrightarrow> ch_exec e s = Some s' \<Longrightarrow> ch_progress s'"
proof -
  assume b: "ch_base s" and sep: "ch_sep s" and pr: "ch_progress s" and ex: "ch_exec e s = Some s'"
  have b': "ch_base s'" by (rule ch_base_step [OF b ex])
  note G = progress_goto [OF b pr _ _ _ _ _ _ _ b']
  show ?thesis
  proof (cases e)
    case (CWrite c i)
    then show ?thesis using ex progress_write_section [OF b pr, of c]
      by (auto simp: Write_def split: if_splits intro: progress_closed [of "ret c p r s" for p r] simp: IsClosed_def)
  next
    case (CTryWrite c i)
    then have pc: "pcs s c = ChIdle" and s': "s' = (if IsClosed s then ret c ChIdle (-1) s
        else if m_max_size (ch s) \<le> length (m_item_queue (ch s)) then ret c ChIdle (-2) s else write_section c i False False s)"
      using ex by (auto simp: TryWrite_def write_section_def split: if_splits)
    show ?thesis unfolding s' using progress_write_section [OF b pr, of c i False False] pc
      by (auto intro: progress_closed progress_full simp: IsClosed_def)
  next
    case (CTryWriteMs c i x)
    then show ?thesis using ex progress_write_section [OF b pr, of c]
      by (auto simp: TryWrite_ms_def IsClosed_def split: if_splits intro: progress_closed)
  next
    case (CWritePark c su early)
    then obtain i timed where pc: "pcs s c = WrUnlocked i timed" and s': "s' = write_park c i timed su early s" and ok: "early_ok timed early"
      using ex by (auto split: ch_pc.splits if_splits)
    show ?thesis
    proof (cases su)
      case WaitParked
      show ?thesis
      proof (cases "IsClosed s \<or> m_max_size (ch s) \<le> length (m_item_queue (ch s))")
        case True
        then show ?thesis using WaitParked s'
          by (auto simp: write_park_def Let_def IsClosed_def intro: progress_closed progress_full)
      next
        case False
        have ev: "pcs s c' = WrParked j t x \<Longrightarrow> x \<noteq> next_ev s" for c' j t x using ch_baseD(3) [OF b, of c' x] by auto
        have st: "st s' x = st s x" if "x \<noteq> next_ev s" for x
          using that False WaitParked by (simp add: s' write_park_def Let_def RegisterEnableWriteCond_def ev_trigger_def)
        have nw: "st s' (next_ev s) \<noteq> Waiting"
          using False WaitParked by (auto simp: s' write_park_def Let_def RegisterEnableWriteCond_def ev_trigger_def)
        have pcs: "pcs s' = (pcs s) (c := WrParked i timed (next_ev s))" using WaitParked by (simp add: s' write_park_def Let_def)
        show ?thesis
        proof (rule progress_mono [OF pr finite_notified [OF b']])
          show "notified s c' \<Longrightarrow> notified s' c'" for c'
            using pc ev [of c'] st by (cases "c' = c") (auto simp: notified_def pcs)
          show "writer_waits s' \<Longrightarrow> writer_waits s" using nw ev st by (auto simp: writer_waits_def pcs split: if_splits)
        qed (use WaitParked in \<open>simp_all add: s' write_park_def Let_def IsClosed_def free_slots_def\<close>)
      qed
    qed (use G [of c ChIdle] pc s' in \<open>simp_all add: write_park_def notified_def\<close>)
  next
    case (CWriteWake c)
    then obtain i timed x f where pc: "pcs s c = WrParked i timed x" "st s x = Won f" and s': "s' = write_wake c i timed f s"
      using ex by (auto split: ch_pc.splits outcome.splits)
    show ?thesis
    proof (cases "timed \<and> f AND (POLL_EVENT_TIMEOUT OR POLL_EVENT_CANCELLED) \<noteq> 0")
      case True
      then have "\<not> notified s c" using pc custom_not_timeout by (auto simp: notified_def)
      then show ?thesis using G [of c ChIdle] s' True by (simp add: write_wake_def)
    next
      case False
      show ?thesis
      proof (cases "IsClosed s")
        case True
        then show ?thesis using s' False by (auto simp: write_wake_def IsClosed_def intro: progress_closed)
      next
        case op: False
        have "s' = goto_pc c (WrChecked i timed) s" using s' False op unfolding write_wake_def by (simp only: if_False)
        then show ?thesis
          by (intro progress_mono [OF pr finite_notified [OF b']])
            (auto simp: notified_def writer_waits_def IsClosed_def free_slots_def split: if_splits)
      qed
    qed
  next
    case (CWriteLock c x)
    then show ?thesis using ex progress_write_section [OF b pr, of c] by (auto split: ch_pc.splits)
  next
    case (CReadSection c x)
    then obtain m where pc: "pcs s c = RdStart m" and s': "s' = read_section c m x s" using ex by (auto split: ch_pc.splits)
    have R: "ch_progress t \<Longrightarrow> ch_base t \<Longrightarrow> pcs t = pcs s \<Longrightarrow> ch_progress (ret c RdDone r t)" for t r
      using progress_goto [of t c "ret c RdDone r t" RdDone] base_plain [of t c RdDone] pc by (simp add: notified_def)
    have P: "ch_progress (ret c RdDone r (pop_item s))" "ch_progress (ret c RdDone r (pop_n n s))" "ch_progress (ret c RdDone r s)" for r n
      using R progress_pop [OF b sep pr] progress_pop_n [OF b sep pr] base_pop [OF b] base_pop_n [OF b] b pr by simp_all
    have "ch_progress (goto_pc c (RdUnlocked m) s)"
      using progress_goto [OF b pr, of c "goto_pc c (RdUnlocked m) s" "RdUnlocked m"] base_plain [OF b, of c "RdUnlocked m"] pc
      by (simp add: notified_def)
    then show ?thesis unfolding s' read_section_def read_tail_def using P by simp
  next
    case (CReadPark c su early)
    then obtain m where pc: "pcs s c = RdUnlocked m" and s': "s' = read_park c m su early s"
      using ex by (auto split: ch_pc.splits if_splits)
    show ?thesis
    proof (cases su)
      case WaitParked
      have ev: "pcs s c' = WrParked j t x \<Longrightarrow> x \<noteq> next_ev s" for c' j t x using ch_baseD(3) [OF b, of c' x] by auto
      have st: "st s' x = st s x" if "x \<noteq> next_ev s" for x
        using that WaitParked by (simp add: s' read_park_def Let_def RecheckEnableRead_def ev_trigger_def)
      have pcs: "pcs s' = (pcs s) (c := RdParked m (next_ev s))" using WaitParked by (simp add: s' read_park_def Let_def)
      show ?thesis
      proof (rule progress_mono [OF pr finite_notified [OF b']])
        show "notified s c' \<Longrightarrow> notified s' c'" for c'
          using pc ev [of c'] st by (cases "c' = c") (auto simp: notified_def pcs)
        show "writer_waits s' \<Longrightarrow> writer_waits s" using ev st by (auto simp: writer_waits_def pcs split: if_splits)
      qed (use WaitParked in \<open>simp_all add: s' read_park_def Let_def IsClosed_def free_slots_def\<close>)
    qed (use G [of c RdDone] pc s' in \<open>simp_all add: read_park_def notified_def\<close>)
  next
    case CClose
    then show ?thesis using ex by (auto intro: progress_closed simp: IsClosed_def)
  next
    case (CDecide e' f)
    then have "s' = s \<lparr>st := (st s) (e' := Won f)\<rparr>" "st s e' = Waiting" using ex by (auto split: if_splits)
    then have "only_decides s s'" "pcs s' = pcs s" by (auto simp: only_decides_def)
    then show ?thesis using \<open>s' = _\<close> decides_notified [of s s'] decides_waits [of s s']
      by (intro progress_mono [OF pr finite_notified [OF b']]) (simp_all add: IsClosed_def free_slots_def)
  next
    case (CReadBegin c m)
    then have pc: "pcs s c = ChIdle" "s' = read_begin c m s" using ex by (auto split: if_splits)
    then show ?thesis using G [of c ChIdle] G [of c "RdStart m"] by (auto simp: read_begin_def notified_def split: if_splits)
  next
    case (CReadWake c)
    then show ?thesis using ex G [of c] by (auto simp: read_wake_def notified_def split: ch_pc.splits outcome.splits)
  next
    case (CReadEnd c)
    then show ?thesis using ex G [of c ChIdle] by (auto simp: read_end_def notified_def split: ch_pc.splits)
  qed (use ex pr in \<open>auto simp: AddReadWatcher_def RemoveReadWatcher_def AddWriteWatcher_def RemoveWriteWatcher_def
      ch_progress_def IsClosed_def free_slots_def writer_waits_def notified_def\<close>)
qed

lemma ch_inv_step: "ch_inv s \<Longrightarrow> ch_exec e s = Some s' \<Longrightarrow> ch_inv s'"
  unfolding ch_inv_def using ch_fifo_step ch_base_step ch_sep_step ch_progress_step by blast

interpretation channel: invariant_machine ch_exec ch_inv
  by unfold_locales (rule ch_inv_step)

lemma ch_init_inv: "ch_inv (ch_init n)"
  by (simp add: ch_inv_def ch_fifo_def ch_base_def ch_sep_def ch_progress_def ch_init_def NewChan_def writer_waits_def IsClosed_def)

lemma chan_reaches: "reaches ch_exec (ch_init n) s \<Longrightarrow> ch_inv s"
  using channel.reaches_inv ch_init_inv by blast

section \<open>Properties\<close>

text \<open>C15. The buffered channel is a bounded queue: in every interleaving of any number of writers, readers, closers
  and cancellations, the items ever accepted are exactly those taken followed by those buffered, in the order
  they were accepted (none lost, duplicated or reordered), and the buffer never exceeds its capacity.\<close>

theorem chan_fifo:
  assumes "reaches ch_exec (ch_init n) s"
  shows "written s = taken s @ m_item_queue (ch s) \<and> length (m_item_queue (ch s)) \<le> m_max_size (ch s)"
  using chan_reaches [OF assms] by (simp add: ch_inv_def ch_fifo_def)

lemma chan_demo:
  "case run ch_exec [CWrite 1 10, CWrite 2 20, CWritePark 2 WaitParked None, CReadBegin 3 RdOne, CReadSection 3 False, CReadEnd 3,
       CTryWrite 4 40, CWriteWake 2, CWriteLock 2 False, CWritePark 2 WaitParked None, CReadBegin 3 RdAll, CReadSection 3 False,
       CReadEnd 3, CWriteWake 2] (ch_init 1) of
     None \<Rightarrow> False | Some s \<Rightarrow> taken s = [10, 40] \<and> m_item_queue (ch s) = [] \<and> pcs s 2 = WrChecked 20 False"
  by code_simp

theorem chan_fifo_witness:
  "\<exists>s. reaches ch_exec (ch_init 1) s \<and> taken s = [10, 40] \<and> written s = taken s @ m_item_queue (ch s)"
  using run_demo [OF chan_demo] chan_fifo by blast

text \<open>C16. No lost wake-up on the buffered channel. Whatever the interleaving: a reader parked and undecided means
  that the buffer is empty and the channel open, and it is the only reader; a writer parked and undecided means
  that the channel is open and that every free slot has a notified writer on its way to it (so with no such
  writer the buffer is full); and each of those can take its next step.\<close>

theorem chan_no_lost_wakeup:
  assumes "reaches ch_exec (ch_init n) s"
  shows "(\<forall>c m e. pcs s c = RdParked m e \<longrightarrow> st s e = Waiting \<longrightarrow>
      m_item_queue (ch s) = [] \<and> \<not> IsClosed s \<and> (\<forall>c'. is_rd (pcs s c') \<longrightarrow> c' = c)) \<and>
    (writer_waits s \<longrightarrow> \<not> IsClosed s \<and> m_max_size (ch s) \<le> length (m_item_queue (ch s)) + card {c. notified s c}) \<and>
    (\<forall>c. notified s c \<longrightarrow> ch_exec (CWriteWake c) s \<noteq> None \<or> ch_exec (CWriteLock c False) s \<noteq> None)"
proof -
  have inv: "ch_base s" "ch_progress s" using chan_reaches [OF assms] by (simp_all add: ch_inv_def)
  note D = ch_baseD [OF inv(1)]
  have "m_item_queue (ch s) = [] \<and> \<not> IsClosed s \<and> (\<forall>c'. is_rd (pcs s c') \<longrightarrow> c' = c)"
    if h: "pcs s c = RdParked m e" "st s e = Waiting" for c m e
    using D(7) [OF h] D(2) [of _ c] h(1) by auto
  moreover have "\<not> IsClosed s \<and> m_max_size (ch s) \<le> length (m_item_queue (ch s)) + card {c. notified s c}" if "writer_waits s"
  proof -
    have "\<not> IsClosed s" using that D(10) by (auto simp: writer_waits_def)
    then show ?thesis using inv(2) that by (auto simp: ch_progress_def free_slots_def)
  qed
  moreover have "ch_exec (CWriteWake c) s \<noteq> None \<or> ch_exec (CWriteLock c False) s \<noteq> None" if "notified s c" for c
    using that by (auto simp: notified_def)
  ultimately show ?thesis by blast
qed

lemma chan_demo2:
  "case run ch_exec [CWrite 1 10, CWrite 2 20, CWritePark 2 WaitParked None, CWrite 5 50, CWritePark 5 WaitParked None,
      CReadBegin 3 RdOne, CReadSection 3 False] (ch_init 1) of
     None \<Rightarrow> False | Some s \<Rightarrow> pcs s 5 = WrParked 50 False 1 \<and> st s 1 = Waiting \<and> m_item_queue (ch s) = [] \<and> m_max_size (ch s) = 1"
  by code_simp

theorem chan_no_lost_wakeup_witness:
  "\<exists>s c. reaches ch_exec (ch_init 1) s \<and> writer_waits s \<and> m_item_queue (ch s) = [] \<and> notified s c"
proof -
  obtain s where s: "reaches ch_exec (ch_init 1) s" "pcs s 5 = WrParked 50 False 1" "st s 1 = Waiting" "m_item_queue (ch s) = []"
    "m_max_size (ch s) = 1"
    using run_demo [OF chan_demo2] by blast
  have w: "writer_waits s" using s(2,3) by (auto simp: writer_waits_def)
  have "m_max_size (ch s) \<le> card {c. notified s c}" using chan_no_lost_wakeup [OF s(1)] w s(4) by simp
  then have "{c. notified s c} \<noteq> {}" using s(5) card.empty by (metis not_one_le_zero)
  then show ?thesis using s(1,4) w by blast
qed

text \<open>A write can succeed after the channel was closed and reported as finished: a writer that was woken
  reads the closed flag before it takes the lock and does not look at it again in the loop. If \<open>Close\<close> and a
  \<open>Read\<close> that returns -1 (closed and empty) come between the two, the writer then appends its item and returns 0.\<close>

lemma chan_write_after_close:
  "\<exists>s. reaches ch_exec (ch_init 1) s \<and> IsClosed s \<and> m_item_queue (ch s) = [20] \<and>
     rets s = [(1, 0), (3, 0), (3, -1), (2, 0)]"
proof -
  have "case run ch_exec [CWrite 1 10, CWrite 2 20, CWritePark 2 WaitParked None, CReadBegin 3 RdOne, CReadSection 3 False, CReadEnd 3,
       CWriteWake 2, CClose, CReadBegin 3 RdOne, CReadSection 3 False, CReadEnd 3, CWriteLock 2 False] (ch_init 1) of
     None \<Rightarrow> False | Some s \<Rightarrow> IsClosed s \<and> m_item_queue (ch s) = [20] \<and> rets s = [(1, 0), (3, 0), (3, -1), (2, 0)]"
    by code_simp
  then show ?thesis by (rule run_demo)
qed

text \<open>A cancelled writer of a full channel spins: its waits complete at once with the cancellation, \<open>Write\<close>
  does not look at that result, so it waits again and every turn leaves one more dead waiter in
  \<open>m_enable_write_conds\<close>: for every \<open>n\<close> there is a run in which a single blocked \<open>Write\<close> has queued \<open>n\<close> of them.\<close>

lemma chan_cancelled_writer_spins:
  "\<exists>s. reaches ch_exec (ch_init 1) s \<and> pcs s 2 = WrUnlocked 20 False \<and> length (m_enable_write_conds (ch s)) = n \<and> rets s = [(1, 0)]"
proof -
  have "\<exists>s. reaches ch_exec (ch_init 1) s \<and> pcs s 2 = WrUnlocked 20 False \<and> length (m_enable_write_conds (ch s)) = n \<and> rets s = [(1, 0)] \<and>
      m_item_queue (ch s) = [10] \<and> m_max_size (ch s) = 1 \<and> m_run_status (ch s) = CHAN_OPEN"
  proof (induction n)
    case 0
    have "case run ch_exec [CWrite 1 10, CWrite 2 20] (ch_init 1) of None \<Rightarrow> False
      | Some s \<Rightarrow> pcs s 2 = WrUnlocked 20 False \<and> m_enable_write_conds (ch s) = [] \<and> rets s = [(1, 0)] \<and>
      m_item_queue (ch s) = [10] \<and> m_max_size (ch s) = 1 \<and> m_run_status (ch s) = CHAN_OPEN" by code_simp
    from run_demo [OF this] show ?case by auto
  next
    case (Suc n)
    then obtain s where s: "reaches ch_exec (ch_init 1) s" "pcs s 2 = WrUnlocked 20 False" "length (m_enable_write_conds (ch s)) = n"
      "rets s = [(1, 0)]" "m_item_queue (ch s) = [10]" "m_max_size (ch s) = 1" "m_run_status (ch s) = CHAN_OPEN" by blast
    have "\<exists>t. run ch_exec [CWritePark 2 WaitParked (Some POLL_EVENT_CANCELLED), CWriteWake 2, CWriteLock 2 False] s = Some t \<and>
        pcs t 2 = WrUnlocked 20 False \<and> length (m_enable_write_conds (ch t)) = Suc n \<and> rets t = [(1, 0)] \<and>
        m_item_queue (ch t) = [10] \<and> m_max_size (ch t) = 1 \<and> m_run_status (ch t) = CHAN_OPEN"
      using s(2-7) by (simp add: write_park_def write_wake_def write_section_def Let_def early_ok_def first_outcome_def
          RegisterEnableWriteCond_def IsClosed_def)
    then show ?case using run_reaches_aux [OF _ s(1)] by blast
  qed
  then show ?thesis by blast
qed

end
