(* ===== verification/ScalingModel.thy ===== *)
theory ScalingModel
  imports Prelude
begin

text \<open>
  Growing and shrinking the set of workers: \<open>GlobalConfig::ResolveProcesserScalingBounds\<close> and the part of
  \<open>detail/Scheduler.cc\<close> that owns the active set (\<open>SetProcesserNum\<close>, \<open>SetProcesserAutoScale\<close>, the automatic
  policy, expansion, retirement and the reaper). Every section under \<open>m_lifecycle_mutex\<close> is one step; worker
  exits, driver bindings and the joins of the reaper interleave with them. \<open>size_t\<close> is a 64-bit word; what the
  runtime environment decides (thread creation, allocation, clock, queue lengths) is an argument.
\<close>

section \<open>Data\<close>

datatype ProcesserLifecycleState = Preparing | Active | Retiring | Exited | Joined

datatype ProcesserScalingMode = Manual | Auto

datatype ProcesserResizeResult = Ok | Pending | NotInitialized | InvalidTarget | DriverBound | CreateFailed | SelfRetire | Busy

datatype StartState = NotStarted | Starting | Initialized

record global_config =
  m_cfg_static_thread_num :: u64
  m_cfg_processer_auto_scale :: bool
  m_cfg_processer_min_num :: u64
  m_cfg_processer_max_num :: u64
  m_cfg_processer_scale_interval_ms :: u64
  m_cfg_processer_scale_up_samples :: u64
  m_cfg_processer_scale_down_samples :: u64
  m_cfg_processer_scale_step :: u64
  m_cfg_processer_scale_up_busy_percent :: u64
  m_cfg_processer_scale_down_busy_percent :: u64
  m_cfg_processer_scale_up_queue_watermark :: u64
  m_cfg_processer_scale_down_queue_watermark :: u64

record ProcesserScalingBounds =
  m_initial_num :: u64
  bound_min_num :: u64
  bound_max_num :: u64

text \<open>What a resize looks at in a Processer; \<open>driver_owned\<close> says that its driver slot is occupied.\<close>

record processer =
  m_lifecycle :: ProcesserLifecycleState
  m_admission_open :: bool
  m_retire_requested :: bool
  m_busy :: bool
  driver_owned :: bool

record worker_record =
  m_processer :: nat
  m_claimed :: bool
  thread_exited :: bool

record ScalingLoad =
  m_queue_total :: u64
  m_busy_percent :: u64

record scheduler =
  m_start_state :: StartState
  m_initialized :: bool
  procs :: "nat \<Rightarrow> processer"
  next_id :: nat
  m_processer_map :: "nat list"
  m_active_snapshot :: "nat list"
  m_workers :: "worker_record list"
  m_min_num :: u64
  m_max_num :: u64
  m_target_num :: u64
  m_scaling_mode :: ProcesserScalingMode
  m_scale_interval_ms :: u64
  m_scale_up_samples :: u64
  m_scale_down_samples :: u64
  m_scale_step :: u64
  m_scale_up_busy_percent :: u64
  m_scale_down_busy_percent :: u64
  m_scale_up_queue_watermark :: u64
  m_scale_down_queue_watermark :: u64
  m_scale_up_hits :: u64
  m_scale_down_hits :: u64
  m_last_auto_sample :: int
  history :: "ScalingLoad list"

definition kMaxOutstandingRetire :: u64 where "kMaxOutstandingRetire = 32"
definition kMaxReapPerTick :: nat where "kMaxReapPerTick = 8"

section \<open>Configuration\<close>

definition INT_MAX :: u64 where "INT_MAX = 2147483647"
definition MILLISECONDS_REP_MAX :: u64 where "MILLISECONDS_REP_MAX = 9223372036854775807"

definition ResolveProcesserScalingBounds :: "global_config \<Rightarrow> ProcesserScalingBounds option" where
  "ResolveProcesserScalingBounds c =
     (let initial = m_cfg_static_thread_num c;
          min_num = (if m_cfg_processer_min_num c = 0 then initial else m_cfg_processer_min_num c);
          max_num = (if m_cfg_processer_max_num c = 0 then initial else m_cfg_processer_max_num c);
          max_count = INT_MAX
      in if min_num = 0 \<or> max_num < min_num \<or> max_count < max_num \<or> initial < min_num \<or> max_num < initial then None
         else if m_cfg_processer_scale_interval_ms c = 0 \<or> MILLISECONDS_REP_MAX < m_cfg_processer_scale_interval_ms c \<or>
             m_cfg_processer_scale_up_samples c = 0 \<or> m_cfg_processer_scale_down_samples c = 0 \<or>
             m_cfg_processer_scale_step c = 0 \<or> max_count < m_cfg_processer_scale_step c then None
         else if 100 < m_cfg_processer_scale_up_busy_percent c \<or>
             m_cfg_processer_scale_up_busy_percent c < m_cfg_processer_scale_down_busy_percent c \<or>
             m_cfg_processer_scale_up_queue_watermark c = 0 \<or>
             m_cfg_processer_scale_up_queue_watermark c < m_cfg_processer_scale_down_queue_watermark c then None
         else Some \<lparr>m_initial_num = initial, bound_min_num = min_num, bound_max_num = max_num\<rparr>)"

section \<open>Start\<close>

definition processer0 :: processer where
  "processer0 = \<lparr>m_lifecycle = Preparing, m_admission_open = False, m_retire_requested = False, m_busy = False, driver_owned = False\<rparr>"

definition NewScheduler :: scheduler where
  "NewScheduler = \<lparr>m_start_state = NotStarted, m_initialized = False, procs = \<lambda>_. processer0, next_id = 1, m_processer_map = [],
     m_active_snapshot = [], m_workers = [], m_min_num = 1, m_max_num = 1, m_target_num = 0, m_scaling_mode = Manual,
     m_scale_interval_ms = 100, m_scale_up_samples = 3, m_scale_down_samples = 3, m_scale_step = 1,
     m_scale_up_busy_percent = 80, m_scale_down_busy_percent = 20, m_scale_up_queue_watermark = 1,
     m_scale_down_queue_watermark = 0, m_scale_up_hits = 0, m_scale_down_hits = 0, m_last_auto_sample = 0, history = []\<rparr>"

definition Init :: "global_config \<Rightarrow> ProcesserScalingBounds \<Rightarrow> int \<Rightarrow> scheduler \<Rightarrow> scheduler" where
  "Init c b now s = s \<lparr>m_active_snapshot := [], m_processer_map := [], m_workers := [],
     m_min_num := bound_min_num b, m_max_num := bound_max_num b, m_target_num := m_initial_num b,
     m_scaling_mode := (if m_cfg_processer_auto_scale c then Auto else Manual),
     m_scale_interval_ms := m_cfg_processer_scale_interval_ms c,
     m_scale_up_samples := m_cfg_processer_scale_up_samples c,
     m_scale_down_samples := m_cfg_processer_scale_down_samples c,
     m_scale_step := m_cfg_processer_scale_step c,
     m_scale_up_busy_percent := m_cfg_processer_scale_up_busy_percent c,
     m_scale_down_busy_percent := m_cfg_processer_scale_down_busy_percent c,
     m_scale_up_queue_watermark := m_cfg_processer_scale_up_queue_watermark c,
     m_scale_down_queue_watermark := m_cfg_processer_scale_down_queue_watermark c,
     m_scale_up_hits := 0, m_scale_down_hits := 0, m_last_auto_sample := now\<rparr>"

section \<open>Expansion\<close>

definition upd_proc :: "nat \<Rightarrow> (processer \<Rightarrow> processer) \<Rightarrow> scheduler \<Rightarrow> scheduler" where
  "upd_proc i f s = s \<lparr>procs := (procs s) (i := f (procs s i))\<rparr>"

definition Activate :: "processer \<Rightarrow> processer" where
  "Activate p = p \<lparr>m_admission_open := True, m_lifecycle := Active\<rparr>"

definition BeginRetire :: "processer \<Rightarrow> processer" where
  "BeginRetire p = p \<lparr>m_admission_open := False, m_lifecycle := Retiring, m_retire_requested := True\<rparr>"

text \<open>\<open>fail = Some k\<close>: the batch fails after \<open>k\<close> Processers were created (thread creation, allocation or the
  initialisation of a thread); it is cancelled and joined and never published.\<close>

definition PrepareExpansion :: "u64 \<Rightarrow> nat option \<Rightarrow> scheduler \<Rightarrow> bool \<times> nat list \<times> scheduler" where
  "PrepareExpansion need fail s =
     (if need = 0 then (True, [], s)
      else case fail of
        Some k \<Rightarrow> (False, [], s \<lparr>next_id := next_id s + k\<rparr>)
      | None \<Rightarrow>
          let new = [next_id s ..< next_id s + unat need] in
          (True, new, s \<lparr>next_id := next_id s + unat need,
             m_processer_map := m_processer_map s @ new,
             m_active_snapshot := m_active_snapshot s @ new,
             m_workers := m_workers s @ map (\<lambda>i. \<lparr>m_processer = i, m_claimed = False, thread_exited = False\<rparr>) new,
             procs := (\<lambda>i. if i \<in> set new then Activate processer0 else procs s i)\<rparr>))"

definition CreateProcessers :: "u64 \<Rightarrow> nat option \<Rightarrow> scheduler \<Rightarrow> bool \<times> scheduler" where
  "CreateProcessers initial_num fail s =
     (case PrepareExpansion initial_num fail s of (ok, _, s1) \<Rightarrow>
        if ok then (True, s1 \<lparr>m_target_num := initial_num\<rparr>) else (False, s1))"

text \<open>\<open>Start\<close>: \<open>Inl\<close> is the exception (invalid configuration, already started, no Processers).\<close>

datatype start_error = InvalidConfig | AlreadyStarted | CreateProcessersFailed

definition Start :: "global_config \<Rightarrow> int \<Rightarrow> nat option \<Rightarrow> scheduler \<Rightarrow> (start_error + unit) \<times> scheduler" where
  "Start c now fail s =
     (case ResolveProcesserScalingBounds c of
        None \<Rightarrow> (Inl InvalidConfig, s)
      | Some b \<Rightarrow>
          if m_start_state s \<noteq> NotStarted then (Inl AlreadyStarted, s)
          else let s1 = Init c b now (s \<lparr>m_start_state := Starting\<rparr>) in
            case CreateProcessers (m_initial_num b) fail s1 of (ok, s2) \<Rightarrow>
              if ok then (Inr (), s2 \<lparr>m_initialized := True\<rparr>)
              else (Inl CreateProcessersFailed, s2 \<lparr>m_start_state := NotStarted\<rparr>))"

section \<open>Shrinking\<close>

definition ActiveCount :: "scheduler \<Rightarrow> u64" where
  "ActiveCount s = of_nat (length (m_active_snapshot s))"

definition outstanding :: "scheduler \<Rightarrow> worker_record list" where
  "outstanding s = filter (\<lambda>r. m_lifecycle (procs s (m_processer r)) \<in> {Retiring, Exited}) (m_workers s)"

definition CountOutstandingRetire :: "scheduler \<Rightarrow> u64" where
  "CountOutstandingRetire s = of_nat (length (outstanding s))"

text \<open>Which allocation of the commit throws, if any.\<close>

datatype shrink_alloc = AllocOk | AllocCandidates | AllocSelected | AllocSnapshot

definition candidates :: "scheduler \<Rightarrow> nat list" where
  "candidates s = filter (\<lambda>i. m_lifecycle (procs s i) = Active \<and> \<not> driver_owned (procs s i)) (m_active_snapshot s)"

definition CommitShrink :: "u64 \<Rightarrow> u64 \<Rightarrow> nat option \<Rightarrow> shrink_alloc \<Rightarrow> scheduler
    \<Rightarrow> ProcesserResizeResult \<times> nat list \<times> scheduler" where
  "CommitShrink need target self alloc s =
     (let cand = candidates s;
          selected = take (unat need) (filter (\<lambda>i. Some i \<noteq> self) cand)
      in if alloc = AllocCandidates then (Busy, [], s)
         else if length cand < unat need then (DriverBound, [], s)
         else if alloc = AllocSelected then (Busy, [], s)
         else if length selected < unat need then (SelfRetire, [], s)
         else if kMaxOutstandingRetire < CountOutstandingRetire s + need then (Busy, [], s)
         else if alloc = AllocSnapshot then (Busy, [], s)
         else (Pending, selected, s \<lparr>
           procs := (\<lambda>i. if i \<in> set selected then BeginRetire (procs s i) else procs s i),
           m_processer_map := filter (\<lambda>i. i \<notin> set selected) (m_processer_map s),
           m_active_snapshot := filter (\<lambda>i. i \<notin> set selected) (m_active_snapshot s),
           m_target_num := target\<rparr>))"

definition ApplyTarget :: "u64 \<Rightarrow> nat option \<Rightarrow> nat option \<Rightarrow> shrink_alloc \<Rightarrow> scheduler
    \<Rightarrow> ProcesserResizeResult \<times> nat list \<times> scheduler" where
  "ApplyTarget target fail self alloc s =
     (let active = ActiveCount s in
      if active < target then
        (case PrepareExpansion (target - active) fail s of (ok, new, s1) \<Rightarrow>
           if ok then (Ok, new, s1 \<lparr>m_target_num := target\<rparr>) else (CreateFailed, [], s1))
      else if target < active then CommitShrink (active - target) target self alloc s
      else (Ok, [], s \<lparr>m_target_num := target\<rparr>))"

section \<open>Control\<close>

definition ResetScalingSamples :: "int \<Rightarrow> scheduler \<Rightarrow> scheduler" where
  "ResetScalingSamples now s = s \<lparr>m_scale_up_hits := 0, m_scale_down_hits := 0, m_last_auto_sample := now\<rparr>"

definition SetProcesserNum :: "u64 \<Rightarrow> nat option \<Rightarrow> nat option \<Rightarrow> shrink_alloc \<Rightarrow> int \<Rightarrow> scheduler
    \<Rightarrow> ProcesserResizeResult \<times> scheduler" where
  "SetProcesserNum num fail self alloc now s =
     (if \<not> m_initialized s then (NotInitialized, s)
      else if num < m_min_num s \<or> m_max_num s < num then (InvalidTarget, s)
      else case ApplyTarget num fail self alloc s of (r, _, s1) \<Rightarrow>
        (r, if r \<in> {Ok, Pending} then ResetScalingSamples now (s1 \<lparr>m_scaling_mode := Manual\<rparr>) else s1))"

definition SetProcesserAutoScale :: "bool \<Rightarrow> int \<Rightarrow> scheduler \<Rightarrow> ProcesserResizeResult \<times> scheduler" where
  "SetProcesserAutoScale enable now s =
     (if \<not> m_initialized s then (NotInitialized, s)
      else (Ok, ResetScalingSamples now (s \<lparr>m_scaling_mode := (if enable then Auto else Manual)\<rparr>)))"

definition GetProcesserNum :: "scheduler \<Rightarrow> u64" where
  "GetProcesserNum s = (if m_initialized s then ActiveCount s else 0)"

definition GetProcesserRetiringNum :: "scheduler \<Rightarrow> nat" where
  "GetProcesserRetiringNum s = (if m_initialized s
     then length (filter (\<lambda>r. m_lifecycle (procs s (m_processer r)) = Retiring) (m_workers s)) else 0)"

definition GetProcesserExitedUnjoinedNum :: "scheduler \<Rightarrow> nat" where
  "GetProcesserExitedUnjoinedNum s = (if m_initialized s
     then length (filter (\<lambda>r. m_lifecycle (procs s (m_processer r)) = Exited) (m_workers s)) else 0)"

section \<open>The automatic policy\<close>

definition AdvanceHits :: "u64 \<Rightarrow> bool \<Rightarrow> u64 \<Rightarrow> u64" where
  "AdvanceHits hits hit samples = (if \<not> hit then 0 else if hits < samples then hits + 1 else hits)"

definition ClaimAutoSample :: "int \<Rightarrow> scheduler \<Rightarrow> bool \<times> scheduler" where
  "ClaimAutoSample now s =
     (if m_scaling_mode s \<noteq> Auto then (False, s)
      else if now - m_last_auto_sample s < uint (m_scale_interval_ms s) * 1000000 then (False, s)
      else (True, s \<lparr>m_last_auto_sample := now\<rparr>))"

text \<open>\<open>globals\<close> and \<open>lens\<close> are the approximate lengths of the global queues and of the queue of each active worker.\<close>

definition SampleScalingLoad :: "u64 list \<Rightarrow> (nat \<Rightarrow> u64) \<Rightarrow> scheduler \<Rightarrow> ScalingLoad option" where
  "SampleScalingLoad globals lens s =
     (let snap = m_active_snapshot s in
      if snap = [] then None
      else Some \<lparr>m_queue_total = sum_list globals + sum_list (map lens snap),
        m_busy_percent = (of_nat (length (filter (\<lambda>i. m_busy (procs s i)) snap)) * 100) div of_nat (length snap)\<rparr>)"

definition up_hit :: "scheduler \<Rightarrow> ScalingLoad \<Rightarrow> bool" where
  "up_hit s l \<longleftrightarrow> m_scale_up_queue_watermark s \<le> m_queue_total l \<or> m_scale_up_busy_percent s \<le> m_busy_percent l"

definition down_hit :: "scheduler \<Rightarrow> ScalingLoad \<Rightarrow> bool" where
  "down_hit s l \<longleftrightarrow> m_queue_total l \<le> m_scale_down_queue_watermark s \<and> m_busy_percent l \<le> m_scale_down_busy_percent s"

definition AccumulateScalingHits :: "ScalingLoad \<Rightarrow> scheduler \<Rightarrow> scheduler" where
  "AccumulateScalingHits l s = s \<lparr>
     m_scale_up_hits := AdvanceHits (m_scale_up_hits s) (up_hit s l) (m_scale_up_samples s),
     m_scale_down_hits := AdvanceHits (m_scale_down_hits s) (down_hit s l) (m_scale_down_samples s),
     history := l # history s\<rparr>"

text \<open>A failed expansion gives the lock up while it cancels its batch; its reset of the counter comes after that.
  The result says whether that reset is still to come.\<close>

definition ScaleUpOneStep :: "nat option \<Rightarrow> nat option \<Rightarrow> shrink_alloc \<Rightarrow> scheduler \<Rightarrow> bool \<times> nat list \<times> scheduler" where
  "ScaleUpOneStep fail self alloc s =
     (let target = m_target_num s in
      if m_max_num s \<le> target then (False, [], s \<lparr>m_scale_up_hits := 0\<rparr>)
      else let remain = m_max_num s - target;
               next = (if remain \<le> m_scale_step s then m_max_num s else target + m_scale_step s)
           in case ApplyTarget next fail self alloc s of (r, notify, s1) \<Rightarrow>
             if r = Ok then (False, notify, s1 \<lparr>m_scale_up_hits := 0, m_scale_down_hits := 0\<rparr>)
             else if r = CreateFailed then (True, notify, s1)
             else (False, notify, s1 \<lparr>m_scale_up_hits := 0\<rparr>))"

definition ScaleUpFailed :: "scheduler \<Rightarrow> scheduler" where
  "ScaleUpFailed s = s \<lparr>m_scale_up_hits := 0\<rparr>"

definition ScaleDownOneStep :: "nat option \<Rightarrow> nat option \<Rightarrow> shrink_alloc \<Rightarrow> scheduler \<Rightarrow> bool \<times> nat list \<times> scheduler" where
  "ScaleDownOneStep fail self alloc s =
     (let target = m_target_num s in
      if target \<le> m_min_num s then (False, [], s \<lparr>m_scale_down_hits := 0\<rparr>)
      else let remain = target - m_min_num s;
               next = (if remain \<le> m_scale_step s then m_min_num s else target - m_scale_step s)
           in case ApplyTarget next fail self alloc s of (r, notify, s1) \<Rightarrow>
             if r \<in> {Ok, Pending} then (False, notify, s1 \<lparr>m_scale_up_hits := 0, m_scale_down_hits := 0\<rparr>)
             else (False, notify, s1 \<lparr>m_scale_down_hits := 0\<rparr>))"

definition ApplyScalingDecision :: "nat option \<Rightarrow> nat option \<Rightarrow> shrink_alloc \<Rightarrow> scheduler \<Rightarrow> bool \<times> nat list \<times> scheduler" where
  "ApplyScalingDecision fail self alloc s =
     (if m_scale_up_samples s \<le> m_scale_up_hits s then ScaleUpOneStep fail self alloc s
      else if m_scale_down_samples s \<le> m_scale_down_hits s then ScaleDownOneStep fail self alloc s
      else (False, [], s))"

definition AutoScaleTick :: "int \<Rightarrow> u64 list \<Rightarrow> (nat \<Rightarrow> u64) \<Rightarrow> nat option \<Rightarrow> nat option \<Rightarrow> shrink_alloc \<Rightarrow> scheduler
    \<Rightarrow> bool \<times> nat list \<times> scheduler" where
  "AutoScaleTick now globals lens fail self alloc s =
     (if \<not> m_initialized s \<or> m_scaling_mode s \<noteq> Auto then (False, [], s)
      else case ClaimAutoSample now s of (ok, s1) \<Rightarrow>
        if \<not> ok then (False, [], s1)
        else case SampleScalingLoad globals lens s1 of
          None \<Rightarrow> (False, [], s1)
        | Some l \<Rightarrow> ApplyScalingDecision fail self alloc (AccumulateScalingHits l s1))"

section \<open>The reaper\<close>

definition claimable :: "scheduler \<Rightarrow> worker_record \<Rightarrow> bool" where
  "claimable s r \<longleftrightarrow> \<not> m_claimed r \<and> m_lifecycle (procs s (m_processer r)) = Exited \<and> thread_exited r"

fun claim_first :: "(worker_record \<Rightarrow> bool) \<Rightarrow> worker_record list \<Rightarrow> (nat \<times> worker_record list) option" where
  "claim_first p [] = None"
| "claim_first p (r # rs) =
     (if p r then Some (m_processer r, r \<lparr>m_claimed := True\<rparr> # rs)
      else map_option (\<lambda>(i, qs). (i, r # qs)) (claim_first p rs))"

definition ReapClaim :: "scheduler \<Rightarrow> (nat \<times> scheduler) option" where
  "ReapClaim s = map_option (\<lambda>(i, ws). (i, s \<lparr>m_workers := ws\<rparr>)) (claim_first (claimable s) (m_workers s))"

definition ReapJoinFailed :: "nat \<Rightarrow> scheduler \<Rightarrow> scheduler" where
  "ReapJoinFailed i s = s \<lparr>m_workers := map (\<lambda>r. if m_processer r = i then r \<lparr>m_claimed := False\<rparr> else r) (m_workers s)\<rparr>"

definition MarkJoined :: "processer \<Rightarrow> processer" where
  "MarkJoined p = p \<lparr>m_lifecycle := Joined\<rparr>"

definition ReapJoined :: "nat \<Rightarrow> scheduler \<Rightarrow> scheduler" where
  "ReapJoined i s = (upd_proc i MarkJoined s) \<lparr>m_workers := filter (\<lambda>r. m_processer r \<noteq> i) (m_workers s)\<rparr>"

text \<open>\<open>_ReapRetiredWorkers\<close> run without interruption; \<open>joins\<close> says of each join whether it succeeds.\<close>

fun reap_loop :: "nat \<Rightarrow> (nat \<Rightarrow> bool) \<Rightarrow> scheduler \<Rightarrow> scheduler" where
  "reap_loop 0 joins s = s"
| "reap_loop (Suc n) joins s = (case ReapClaim s of
       None \<Rightarrow> s
     | Some (i, s1) \<Rightarrow> if joins i then reap_loop n joins (ReapJoined i s1) else ReapJoinFailed i s1)"

definition ReapRetiredWorkers :: "(nat \<Rightarrow> bool) \<Rightarrow> scheduler \<Rightarrow> scheduler" where
  "ReapRetiredWorkers joins s = (if m_initialized s then reap_loop kMaxReapPerTick joins s else s)"

section \<open>The machine\<close>

datatype sc_event =
    SStart global_config int "nat option"
  | SSetNum u64 "nat option" "nat option" shrink_alloc int
  | SSetAuto bool int
  | STick int "u64 list" "nat \<Rightarrow> u64" "nat option" "nat option" shrink_alloc
  | SScaleUpFailed
  | SBusy nat bool
  | SBindDriver nat
  | SUnbindDriver nat
  | SWorkerExit nat
  | SThreadExit nat
  | SReapClaim
  | SReapJoined nat
  | SReapJoinFailed nat

fun sc_exec :: "sc_event \<Rightarrow> scheduler \<Rightarrow> scheduler option" where
  "sc_exec (SStart c now fail) s = Some (snd (Start c now fail s))"
| "sc_exec (SSetNum n fail self alloc now) s = Some (snd (SetProcesserNum n fail self alloc now s))"
| "sc_exec (SSetAuto b now) s = Some (snd (SetProcesserAutoScale b now s))"
| "sc_exec (STick now gs lens fail self alloc) s = Some (snd (snd (AutoScaleTick now gs lens fail self alloc s)))"
| "sc_exec SScaleUpFailed s = Some (ScaleUpFailed s)"
| "sc_exec (SBusy i b) s = Some (upd_proc i (\<lambda>p. p \<lparr>m_busy := b\<rparr>) s)"
| "sc_exec (SBindDriver i) s = (if i \<in> set (m_processer_map s) \<and> m_lifecycle (procs s i) = Active
     then Some (upd_proc i (\<lambda>p. p \<lparr>driver_owned := True\<rparr>) s) else None)"
| "sc_exec (SUnbindDriver i) s = Some (upd_proc i (\<lambda>p. p \<lparr>driver_owned := False\<rparr>) s)"
| "sc_exec (SWorkerExit i) s = (if m_lifecycle (procs s i) = Retiring \<and> m_retire_requested (procs s i)
     then Some (upd_proc i (\<lambda>p. p \<lparr>m_lifecycle := Exited\<rparr>) s) else None)"
| "sc_exec (SThreadExit i) s = (if m_lifecycle (procs s i) = Exited
     then Some (s \<lparr>m_workers := map (\<lambda>r. if m_processer r = i then r \<lparr>thread_exited := True\<rparr> else r) (m_workers s)\<rparr>) else None)"
| "sc_exec SReapClaim s = (if m_initialized s then map_option snd (ReapClaim s) else None)"
| "sc_exec (SReapJoined i) s = (if \<exists>r \<in> set (m_workers s). m_processer r = i \<and> m_claimed r then Some (ReapJoined i s) else None)"
| "sc_exec (SReapJoinFailed i) s = (if \<exists>r \<in> set (m_workers s). m_processer r = i \<and> m_claimed r then Some (ReapJoinFailed i s) else None)"


section \<open>The sets of workers\<close>

definition sc_sets :: "scheduler \<Rightarrow> bool" where
  "sc_sets s \<longleftrightarrow> m_processer_map s = m_active_snapshot s \<and> distinct (m_active_snapshot s) \<and>
     distinct (map m_processer (m_workers s)) \<and> set (m_active_snapshot s) \<subseteq> m_processer ` set (m_workers s) \<and>
     (\<forall>r \<in> set (m_workers s). m_processer r < next_id s) \<and>
     (\<forall>i \<in> set (m_active_snapshot s). m_lifecycle (procs s i) = Active \<and> m_admission_open (procs s i) \<and> \<not> m_retire_requested (procs s i)) \<and>
     (\<forall>r \<in> set (m_workers s). m_processer r \<notin> set (m_active_snapshot s) \<longrightarrow>
        m_lifecycle (procs s (m_processer r)) \<in> {Retiring, Exited} \<and> \<not> m_admission_open (procs s (m_processer r)) \<and>
        m_retire_requested (procs s (m_processer r)) \<and> \<not> driver_owned (procs s (m_processer r))) \<and>
     (\<forall>r \<in> set (m_workers s). (m_claimed r \<longrightarrow> thread_exited r) \<and> (thread_exited r \<longrightarrow> m_lifecycle (procs s (m_processer r)) = Exited)) \<and>
     length (outstanding s) \<le> 32"

lemma sc_setsD:
  assumes "sc_sets s"
  shows "m_processer_map s = m_active_snapshot s" "distinct (m_active_snapshot s)" "distinct (map m_processer (m_workers s))"
    "set (m_active_snapshot s) \<subseteq> m_processer ` set (m_workers s)" "r \<in> set (m_workers s) \<Longrightarrow> m_processer r < next_id s"
    "i \<in> set (m_active_snapshot s) \<Longrightarrow> m_lifecycle (procs s i) = Active \<and> m_admission_open (procs s i) \<and> \<not> m_retire_requested (procs s i)"
    "r \<in> set (m_workers s) \<Longrightarrow> m_processer r \<notin> set (m_active_snapshot s) \<Longrightarrow>
        m_lifecycle (procs s (m_processer r)) \<in> {Retiring, Exited} \<and> \<not> m_admission_open (procs s (m_processer r)) \<and>
        m_retire_requested (procs s (m_processer r)) \<and> \<not> driver_owned (procs s (m_processer r))"
    "r \<in> set (m_workers s) \<Longrightarrow> m_claimed r \<Longrightarrow> thread_exited r"
    "r \<in> set (m_workers s) \<Longrightarrow> thread_exited r \<Longrightarrow> m_lifecycle (procs s (m_processer r)) = Exited"
    "length (outstanding s) \<le> 32"
  using assms unfolding sc_sets_def by blast+

lemma active_lt_next: "sc_sets s \<Longrightarrow> i \<in> set (m_active_snapshot s) \<Longrightarrow> i < next_id s"
  using sc_setsD(4,5) [of s] by fastforce

text \<open>The same worker sets under a change that keeps the records and Processers.\<close>

lemma sc_sets_cong:
  assumes "m_processer_map t = m_processer_map s" "m_active_snapshot t = m_active_snapshot s" "m_workers t = m_workers s"
    "next_id s \<le> next_id t" "procs t = procs s" "sc_sets s"
  shows "sc_sets t"
proof -
  have "\<forall>r \<in> set (m_workers t). m_processer r < next_id t"
    using sc_setsD(5) [OF assms(6)] assms(3,4) by (fastforce dest: order.strict_trans2)
  then show ?thesis using assms by (simp add: sc_sets_def outstanding_def)
qed

lemma PrepareExpansion_sets:
  assumes inv: "sc_sets s" and ex: "PrepareExpansion need fail s = (ok, new, t)"
  shows "sc_sets t"
proof (cases "need = 0 \<or> fail \<noteq> None")
  case True
  then have "t = s \<or> (\<exists>k. t = s \<lparr>next_id := next_id s + k\<rparr>)"
    using ex by (auto simp: PrepareExpansion_def split: if_splits option.splits)
  then show ?thesis using inv by (auto intro: sc_sets_cong [of _ s])
next
  case False
  define new' where "new' = [next_id s ..< next_id s + unat need]"
  have t: "t = s \<lparr>next_id := next_id s + unat need, m_processer_map := m_processer_map s @ new',
      m_active_snapshot := m_active_snapshot s @ new',
      m_workers := m_workers s @ map (\<lambda>i. \<lparr>m_processer = i, m_claimed = False, thread_exited = False\<rparr>) new',
      procs := (\<lambda>i. if i \<in> set new' then Activate processer0 else procs s i)\<rparr>"
    using ex False by (auto simp: PrepareExpansion_def Let_def new'_def split: option.splits)
  note D = sc_setsD [OF inv]
  have fresh: "m_processer r \<notin> set new'" if "r \<in> set (m_workers s)" for r using D(5) [OF that] by (auto simp: new'_def)
  have fresha: "i \<notin> set new'" if "i \<in> set (m_active_snapshot s)" for i using active_lt_next [OF inv that] by (auto simp: new'_def)
  have out: "outstanding t = outstanding s"
    using fresh by (auto simp: outstanding_def t Activate_def processer0_def filter_empty_conv o_def intro!: filter_cong)
  have ids: "map m_processer (m_workers t) = map m_processer (m_workers s) @ new'" by (simp add: t o_def)
  show ?thesis unfolding sc_sets_def out
  proof (intro conjI)
    show "m_processer_map t = m_active_snapshot t" using D(1) by (simp add: t)
    show "distinct (m_active_snapshot t)" using D(2) fresha by (auto simp: t new'_def)
    show "distinct (map m_processer (m_workers t))" unfolding ids using D(3) fresh by (auto simp: new'_def)
    show "set (m_active_snapshot t) \<subseteq> m_processer ` set (m_workers t)" using D(4) by (auto simp: t image_Un image_image)
    show "\<forall>r\<in>set (m_workers t). m_processer r < next_id t" using D(5) by (fastforce simp: t new'_def)
    show "\<forall>i\<in>set (m_active_snapshot t). m_lifecycle (procs t i) = Active \<and> m_admission_open (procs t i) \<and> \<not> m_retire_requested (procs t i)"
      using D(6) by (auto simp: t Activate_def processer0_def)
    show "\<forall>r\<in>set (m_workers t). m_processer r \<notin> set (m_active_snapshot t) \<longrightarrow>
       m_lifecycle (procs t (m_processer r)) \<in> {Retiring, Exited} \<and> \<not> m_admission_open (procs t (m_processer r)) \<and>
       m_retire_requested (procs t (m_processer r)) \<and> \<not> driver_owned (procs t (m_processer r))"
      using D(7) by (auto simp: t)
    show "\<forall>r\<in>set (m_workers t). (m_claimed r \<longrightarrow> thread_exited r) \<and> (thread_exited r \<longrightarrow> m_lifecycle (procs t (m_processer r)) = Exited)"
      using D(8,9) fresh by (auto simp: t)
  qed (rule D(10))
qed

lemma length_filter_ids:
  assumes "distinct (map f xs)" "set ys \<subseteq> f ` set xs" "distinct ys"
  shows "length (filter (\<lambda>x. f x \<in> set ys) xs) = length ys"
proof -
  have "length (filter (\<lambda>x. f x \<in> set ys) xs) = length (filter (\<lambda>y. y \<in> set ys) (map f xs))" by (simp add: filter_map o_def)
  also have "\<dots> = card (set (filter (\<lambda>y. y \<in> set ys) (map f xs)))" using assms(1) by (metis distinct_card distinct_filter)
  also have "set (filter (\<lambda>y. y \<in> set ys) (map f xs)) = set ys" using assms(2) by auto
  finally show ?thesis using assms(3) by (simp add: distinct_card)
qed

lemma length_filter_disj:
  "(\<And>x. x \<in> set xs \<Longrightarrow> P x \<Longrightarrow> \<not> Q x) \<Longrightarrow> length (filter (\<lambda>x. P x \<or> Q x) xs) = length (filter P xs) + length (filter Q xs)"
  by (induction xs) auto

text \<open>Retiring a selection of idle active workers.\<close>

definition retire :: "nat list \<Rightarrow> scheduler \<Rightarrow> scheduler" where
  "retire sel s = s \<lparr>procs := (\<lambda>i. if i \<in> set sel then BeginRetire (procs s i) else procs s i),
     m_processer_map := filter (\<lambda>i. i \<notin> set sel) (m_processer_map s),
     m_active_snapshot := filter (\<lambda>i. i \<notin> set sel) (m_active_snapshot s)\<rparr>"

lemma outstanding_retire:
  assumes inv: "sc_sets s" and sel: "set sel \<subseteq> set (m_active_snapshot s)" "distinct sel"
  shows "length (outstanding (retire sel s)) = length (outstanding s) + length sel"
proof -
  note D = sc_setsD [OF inv]
  let ?W = "m_workers s" and ?o = "\<lambda>r. m_lifecycle (procs s (m_processer r)) \<in> {Retiring, Exited}"
  have a: "\<not> ?o r" if "m_processer r \<in> set sel" for r using D(6) sel(1) that by auto
  have "outstanding (retire sel s) = filter (\<lambda>r. ?o r \<or> m_processer r \<in> set sel) ?W"
    by (auto simp: outstanding_def retire_def BeginRetire_def intro!: filter_cong)
  also have "length \<dots> = length (filter ?o ?W) + length (filter (\<lambda>r. m_processer r \<in> set sel) ?W)"
    using a by (intro length_filter_disj) blast
  also have "length (filter (\<lambda>r. m_processer r \<in> set sel) ?W) = length sel"
    using D(3,4) sel by (intro length_filter_ids) auto
  finally show ?thesis by (simp add: outstanding_def)
qed

lemma retire_sets:
  assumes inv: "sc_sets s" and sel: "set sel \<subseteq> set (candidates s)" "distinct sel"
    and bound: "length (outstanding s) + length sel \<le> 32"
  shows "sc_sets (retire sel s)"
proof -
  note D = sc_setsD [OF inv]
  have sub: "set sel \<subseteq> set (m_active_snapshot s)" using sel(1) by (auto simp: candidates_def)
  have free: "\<not> driver_owned (procs s i)" if "i \<in> set sel" for i using sel(1) that by (auto simp: candidates_def)
  have ex: "\<not> thread_exited r" if "r \<in> set (m_workers s)" "m_processer r \<in> set sel" for r
    using D(9) [OF that(1)] D(6) [of "m_processer r"] sub that(2) by auto
  show ?thesis unfolding sc_sets_def outstanding_retire [OF inv sub sel(2)]
  proof (intro conjI)
    show "distinct (map m_processer (m_workers (retire sel s)))" using D(3) by (simp add: retire_def)
    show "set (m_active_snapshot (retire sel s)) \<subseteq> m_processer ` set (m_workers (retire sel s))" using D(4) by (auto simp: retire_def)
    show "\<forall>r\<in>set (m_workers (retire sel s)). m_processer r \<notin> set (m_active_snapshot (retire sel s)) \<longrightarrow>
       m_lifecycle (procs (retire sel s) (m_processer r)) \<in> {Retiring, Exited} \<and> \<not> m_admission_open (procs (retire sel s) (m_processer r)) \<and>
       m_retire_requested (procs (retire sel s) (m_processer r)) \<and> \<not> driver_owned (procs (retire sel s) (m_processer r))"
      using D(7) free by (auto simp: retire_def BeginRetire_def)
    show "\<forall>r\<in>set (m_workers (retire sel s)). (m_claimed r \<longrightarrow> thread_exited r) \<and>
       (thread_exited r \<longrightarrow> m_lifecycle (procs (retire sel s) (m_processer r)) = Exited)"
      using D(8,9) ex by (auto simp: retire_def)
  qed (use D bound in \<open>auto simp: retire_def\<close>)
qed

lemma CommitShrink_cases:
  assumes "CommitShrink need target self alloc s = (r, sel, t)"
  obtains "r \<in> {Busy, DriverBound, SelfRetire}" "sel = []" "t = s"
  | "r = Pending" "t = retire sel s \<lparr>m_target_num := target\<rparr>" "sel = take (unat need) (filter (\<lambda>i. Some i \<noteq> self) (candidates s))"
    "length sel = unat need" "\<not> kMaxOutstandingRetire < CountOutstandingRetire s + need"
proof -
  define sl where "sl = take (unat need) (filter (\<lambda>i. Some i \<noteq> self) (candidates s))"
  define u where "u = retire sl s \<lparr>m_target_num := target\<rparr>"
  have "CommitShrink need target self alloc s =
     (if alloc = AllocCandidates then (Busy, [], s) else if length (candidates s) < unat need then (DriverBound, [], s)
      else if alloc = AllocSelected then (Busy, [], s) else if length sl < unat need then (SelfRetire, [], s)
      else if kMaxOutstandingRetire < CountOutstandingRetire s + need then (Busy, [], s)
      else if alloc = AllocSnapshot then (Busy, [], s) else (Pending, sl, u))"
    unfolding CommitShrink_def Let_def u_def retire_def sl_def by simp
  moreover have "length sl \<le> unat need" by (simp add: sl_def)
  ultimately show thesis using assms that unfolding sl_def [symmetric] u_def [symmetric]
    by (auto simp: u_def sl_def split: if_split_asm)
qed

lemma selected_sub: "set (take n (filter P (candidates s))) \<subseteq> set (candidates s)"
  using set_take_subset by fastforce

lemma selected_distinct: "sc_sets s \<Longrightarrow> distinct (take n (filter P (candidates s)))"
  using sc_setsD(2) by (simp add: candidates_def)

lemma outstanding_guard:
  assumes "length (outstanding s) \<le> 32" "\<not> kMaxOutstandingRetire < CountOutstandingRetire s + need" "need \<le> INT_MAX"
  shows "length (outstanding s) + unat need \<le> 32"
proof -
  have c: "unat (CountOutstandingRetire s) = length (outstanding s)"
    using assms(1) by (simp add: CountOutstandingRetire_def unat_of_nat)
  have "unat need \<le> 2147483647" using assms(3) by (simp add: INT_MAX_def word_le_nat_alt)
  then have "unat (CountOutstandingRetire s + need) = length (outstanding s) + unat need"
    using assms(1) c by (simp add: unat_word_ariths)
  then show ?thesis using assms(2) by (simp add: kMaxOutstandingRetire_def word_less_nat_alt)
qed

lemma CommitShrink_sets:
  assumes inv: "sc_sets s" and ex: "CommitShrink need target self alloc s = (r, sel, t)" and n: "need \<le> INT_MAX"
  shows "sc_sets t"
  using ex
proof (cases rule: CommitShrink_cases)
  case 2
  have sub: "set sel \<subseteq> set (candidates s)" unfolding 2(3) by (rule selected_sub)
  have "distinct sel" unfolding 2(3) by (rule selected_distinct [OF inv])
  then have "sc_sets (retire sel s)"
    using retire_sets [OF inv sub] outstanding_guard [OF sc_setsD(10) [OF inv] 2(5) n] 2(4) by simp
  then show ?thesis using 2(2) by (auto intro: sc_sets_cong)
qed (use inv in simp)

section \<open>What a resize does\<close>

text \<open>A resize touches the worker sets and the target and nothing else.\<close>

definition sets_only :: "scheduler \<Rightarrow> scheduler \<Rightarrow> bool" where
  "sets_only s t \<longleftrightarrow> (\<exists>p n m a w g. t = s \<lparr>procs := p, next_id := n, m_processer_map := m,
     m_active_snapshot := a, m_workers := w, m_target_num := g\<rparr>)"

lemma sets_onlyI:
  "t = s \<lparr>procs := procs t, next_id := next_id t, m_processer_map := m_processer_map t,
     m_active_snapshot := m_active_snapshot t, m_workers := m_workers t, m_target_num := m_target_num t\<rparr> \<Longrightarrow> sets_only s t"
  unfolding sets_only_def by blast

lemma sets_onlyD:
  assumes "sets_only s t"
  shows "m_start_state t = m_start_state s" "m_initialized t = m_initialized s" "m_min_num t = m_min_num s" "m_max_num t = m_max_num s"
    "m_scaling_mode t = m_scaling_mode s" "m_scale_up_samples t = m_scale_up_samples s" "m_scale_down_samples t = m_scale_down_samples s"
    "m_scale_up_hits t = m_scale_up_hits s" "m_scale_down_hits t = m_scale_down_hits s" "history t = history s"
    "up_hit t = up_hit s" "down_hit t = down_hit s" "m_scale_step t = m_scale_step s"
  using assms by (auto simp: sets_only_def up_hit_def [abs_def] down_hit_def [abs_def])

lemma sets_only_target: "sets_only s t \<Longrightarrow> sets_only s (t \<lparr>m_target_num := g\<rparr>)"
  unfolding sets_only_def by fastforce

lemma unat_ActiveCount: "length (m_active_snapshot s) \<le> 2147483647 \<Longrightarrow> unat (ActiveCount s) = length (m_active_snapshot s)"
  by (simp add: ActiveCount_def unat_of_nat)

lemma length_filter_notin:
  assumes "distinct xs" "distinct ys" "set ys \<subseteq> set xs"
  shows "length (filter (\<lambda>x. x \<notin> set ys) xs) = length xs - length ys"
  using sum_length_filter_compl [of "\<lambda>x. x \<in> set ys" xs] length_filter_ids [of "\<lambda>x. x" xs ys] assms by simp

lemma PrepareExpansion_count:
  assumes "PrepareExpansion need fail s = (ok, new, t)"
  shows "sets_only s t \<and> m_target_num t = m_target_num s \<and>
    (if ok then length (m_active_snapshot t) = length (m_active_snapshot s) + unat need
     else m_active_snapshot t = m_active_snapshot s \<and> m_workers t = m_workers s \<and> procs t = procs s)"
  using assms by (auto simp: PrepareExpansion_def Let_def intro!: sets_onlyI split: if_splits option.splits)

lemma CommitShrink_count:
  assumes inv: "sc_sets s" and ex: "CommitShrink need target self alloc s = (r, sel, t)"
  shows "sets_only s t \<and>
    (if r = Pending then m_target_num t = target \<and> length (m_active_snapshot t) = length (m_active_snapshot s) - unat need
     else r \<in> {Busy, DriverBound, SelfRetire} \<and> t = s)"
  using ex
proof (cases rule: CommitShrink_cases)
  case 2
  have "set sel \<subseteq> set (m_active_snapshot s)" using selected_sub unfolding 2(3) candidates_def by fastforce
  moreover have "distinct sel" unfolding 2(3) by (rule selected_distinct [OF inv])
  ultimately have "length (filter (\<lambda>i. i \<notin> set sel) (m_active_snapshot s)) = length (m_active_snapshot s) - unat need"
    using length_filter_notin sc_setsD(2) [OF inv] 2(4) by metis
  moreover have "sets_only s t" unfolding 2(2) by (rule sets_onlyI) (simp add: retire_def)
  ultimately show ?thesis using 2(1,2) by (simp add: retire_def)
qed (auto intro: sets_onlyI)

lemma ApplyTarget_spec:
  assumes inv: "sc_sets s" and n: "length (m_active_snapshot s) \<le> 2147483647"
    and ex: "ApplyTarget target fail self alloc s = (r, notify, t)"
  shows "sc_sets t \<and> sets_only s t \<and>
    (if r \<in> {Ok, Pending} then m_target_num t = target \<and> length (m_active_snapshot t) = unat target
     else r \<in> {CreateFailed, Busy, DriverBound, SelfRetire} \<and> (\<exists>k. t = s \<lparr>next_id := next_id s + k\<rparr>))"
proof -
  note a = unat_ActiveCount [OF n]
  consider "ActiveCount s < target" | "target < ActiveCount s" | "target = ActiveCount s" by (rule linorder_cases)
  then show ?thesis
  proof cases
    case 1
    obtain ok new u where u: "PrepareExpansion (target - ActiveCount s) fail s = (ok, new, u)" by (metis prod_cases3)
    have len: "unat (target - ActiveCount s) = unat target - length (m_active_snapshot s)" "length (m_active_snapshot s) \<le> unat target"
      using 1 a by (simp_all add: unat_sub word_less_nat_alt word_le_nat_alt)
    have i: "sc_sets u" by (rule PrepareExpansion_sets [OF inv u])
    note c = PrepareExpansion_count [OF u]
    show ?thesis
    proof (cases ok)
      case True
      then have t: "r = Ok" "t = u \<lparr>m_target_num := target\<rparr>" using ex 1 u by (auto simp: ApplyTarget_def Let_def)
      have "sc_sets t" using i t(2) by (auto intro: sc_sets_cong)
      moreover have "sets_only s t" using c t(2) sets_only_target by simp
      ultimately show ?thesis using t c len True by simp
    next
      case False
      then have t: "r = CreateFailed" "t = u" using ex 1 u by (auto simp: ApplyTarget_def Let_def)
      have "\<exists>k. u = s \<lparr>next_id := next_id s + k\<rparr>"
        using u False by (auto simp: PrepareExpansion_def Let_def split: if_splits option.splits)
      then show ?thesis using i t c by simp
    qed
  next
    case 2
    then have c: "CommitShrink (ActiveCount s - target) target self alloc s = (r, notify, t)"
      using ex not_less_iff_gr_or_eq [of "ActiveCount s" target] unfolding ApplyTarget_def Let_def by simp
    have "ActiveCount s - target \<le> INT_MAX"
      using 2 a n by (simp add: INT_MAX_def word_le_nat_alt word_less_nat_alt unat_sub)
    then have "sc_sets t" using CommitShrink_sets [OF inv c] by blast
    moreover have "length (m_active_snapshot s) - unat (ActiveCount s - target) = unat target"
      using 2 a by (simp add: unat_sub word_less_nat_alt word_le_nat_alt)
    moreover have "\<exists>k. s = s \<lparr>next_id := next_id s + k\<rparr>" by (rule exI [of _ 0]) simp
    ultimately show ?thesis using CommitShrink_count [OF inv c] by (cases "r = Pending") auto
  next
    case 3
    then have t: "r = Ok" "t = s \<lparr>m_target_num := target\<rparr>" using ex by (auto simp: ApplyTarget_def Let_def)
    have "sc_sets t" using inv t(2) by (auto intro: sc_sets_cong)
    then show ?thesis using t 3 a by (simp add: sets_onlyI)
  qed
qed

section \<open>Numbers\<close>

definition sc_nums :: "scheduler \<Rightarrow> bool" where
  "sc_nums s \<longleftrightarrow> (if m_initialized s
     then m_start_state s \<noteq> NotStarted \<and> 1 \<le> m_min_num s \<and> m_min_num s \<le> m_target_num s \<and> m_target_num s \<le> m_max_num s \<and>
       m_max_num s \<le> INT_MAX \<and> length (m_active_snapshot s) = unat (m_target_num s)
     else m_active_snapshot s = [] \<and> m_workers s = [] \<and> m_processer_map s = [])"

lemma active_bound:
  assumes "sc_nums s" shows "length (m_active_snapshot s) \<le> 2147483647"
proof (cases "m_initialized s")
  case True
  then have "m_target_num s \<le> INT_MAX" using assms by (auto simp: sc_nums_def)
  then show ?thesis using assms True by (simp add: sc_nums_def word_le_nat_alt INT_MAX_def)
qed (use assms in \<open>simp add: sc_nums_def\<close>)

lemma ApplyTarget_nums:
  assumes inv: "sc_sets s" "sc_nums s" and ex: "ApplyTarget target fail self alloc s = (r, notify, t)"
    and i: "m_initialized s" and b: "m_min_num s \<le> target" "target \<le> m_max_num s"
  shows "sc_nums t"
proof -
  note A = ApplyTarget_spec [OF inv(1) active_bound [OF inv(2)] ex]
  then have f: "m_initialized t = m_initialized s" "m_start_state t = m_start_state s" "m_min_num t = m_min_num s" "m_max_num t = m_max_num s"
    using sets_onlyD by blast+
  show ?thesis
  proof (cases "r \<in> {Ok, Pending}")
    case True
    then show ?thesis using A inv(2) i b unfolding sc_nums_def f by simp
  next
    case False
    then obtain k where "t = s \<lparr>next_id := next_id s + k\<rparr>" using A by auto
    then have "m_target_num t = m_target_num s" "m_active_snapshot t = m_active_snapshot s" by simp_all
    then show ?thesis using inv(2) i unfolding sc_nums_def f by simp
  qed
qed

text \<open>The next target of the automatic policy, without wrap-around.\<close>

lemma next_up:
  fixes target mx step :: u64
  assumes "target < mx" "0 < step"
  shows "unat (if mx - target \<le> step then mx else target + step) = min (unat mx) (unat target + unat step)"
    "target < (if mx - target \<le> step then mx else target + step)" "(if mx - target \<le> step then mx else target + step) \<le> mx"
proof -
  have sub: "unat (mx - target) = unat mx - unat target" using assms(1) by (simp add: unat_sub word_less_nat_alt word_le_nat_alt)
  have lt: "unat target < unat mx" using assms(1) by (simp add: word_less_nat_alt)
  have s0: "0 < unat step" using assms(2) by (simp add: word_less_nat_alt)
  have mx: "unat mx < 2 ^ 64" using unsigned_less [of mx, where ?'a = nat] by simp
  show u: "unat (if mx - target \<le> step then mx else target + step) = min (unat mx) (unat target + unat step)"
  proof (cases "mx - target \<le> step")
    case False
    then have "unat step < unat mx - unat target" using sub by (simp add: word_less_nat_alt not_le)
    then show ?thesis using False mx by (simp add: unat_word_ariths)
  qed (use sub lt in \<open>simp add: word_le_nat_alt\<close>)
  show "target < (if mx - target \<le> step then mx else target + step)" "(if mx - target \<le> step then mx else target + step) \<le> mx"
    unfolding word_less_nat_alt word_le_nat_alt u [unfolded word_le_nat_alt] using lt s0 by simp_all
qed

lemma next_down:
  fixes target mn step :: u64
  assumes "mn < target" "0 < step"
  shows "unat (if target - mn \<le> step then mn else target - step) = max (unat mn) (unat target - unat step)"
    "(if target - mn \<le> step then mn else target - step) < target" "mn \<le> (if target - mn \<le> step then mn else target - step)"
proof -
  have sub: "unat (target - mn) = unat target - unat mn" using assms(1) by (simp add: unat_sub word_less_nat_alt word_le_nat_alt)
  have lt: "unat mn < unat target" using assms(1) by (simp add: word_less_nat_alt)
  have s0: "0 < unat step" using assms(2) by (simp add: word_less_nat_alt)
  show u: "unat (if target - mn \<le> step then mn else target - step) = max (unat mn) (unat target - unat step)"
  proof (cases "target - mn \<le> step")
    case False
    then have "unat step < unat target - unat mn" using sub by (simp add: word_less_nat_alt not_le)
    then show ?thesis using False by (simp add: unat_sub word_le_nat_alt)
  qed (use sub lt in \<open>simp add: word_le_nat_alt\<close>)
  show "(if target - mn \<le> step then mn else target - step) < target" "mn \<le> (if target - mn \<le> step then mn else target - step)"
    unfolding word_less_nat_alt word_le_nat_alt u [unfolded word_le_nat_alt] using lt s0 by simp_all
qed

section \<open>Streaks of samples\<close>

definition streak :: "u64 \<Rightarrow> ('l \<Rightarrow> bool) \<Rightarrow> 'l list \<Rightarrow> bool" where
  "streak n P h \<longleftrightarrow> unat n \<le> length h \<and> (\<forall>l \<in> set (take (unat n) h). P l)"

lemma streak_0 [simp]: "streak 0 P h"
  by (simp add: streak_def)

lemma streak_advance:
  assumes "streak n P h" "n \<le> m"
  shows "streak (AdvanceHits n (P l) m) P (l # h)" "AdvanceHits n (P l) m \<le> m"
proof -
  have u: "unat (n + 1) = Suc (unat n)" if "n < m"
    using that unsigned_less [of m, where ?'a = nat] by (simp add: word_less_nat_alt unat_word_ariths)
  show "streak (AdvanceHits n (P l) m) P (l # h)"
  proof (cases "P l \<and> n < m")
    case True
    then show ?thesis using assms(1) u by (simp add: AdvanceHits_def streak_def)
  next
    case False
    have "set (take (unat n) (l # h)) \<subseteq> insert l (set (take (unat n) h))"
      using set_take_subset_set_take [of "unat n - 1" "unat n" h] by (cases "unat n") auto
    then show ?thesis using False assms(1) by (auto simp: AdvanceHits_def streak_def)
  qed
  show "AdvanceHits n (P l) m \<le> m" using assms(2) u by (simp add: AdvanceHits_def word_le_nat_alt word_less_nat_alt)
qed

definition sc_streak :: "scheduler \<Rightarrow> bool" where
  "sc_streak s \<longleftrightarrow> streak (m_scale_up_hits s) (up_hit s) (history s) \<and> streak (m_scale_down_hits s) (down_hit s) (history s) \<and>
     m_scale_up_hits s \<le> m_scale_up_samples s \<and> m_scale_down_hits s \<le> m_scale_down_samples s \<and>
     (m_initialized s \<longrightarrow> 0 < m_scale_up_samples s \<and> 0 < m_scale_down_samples s \<and> 0 < m_scale_step s)"

lemma sc_streak_cong:
  assumes "sets_only s t" "sc_streak s" shows "sc_streak t"
  using assms(2) unfolding sc_streak_def sets_onlyD [OF assms(1)] .

lemma sc_streak_reset:
  assumes "sc_streak s"
  shows "sc_streak (s \<lparr>m_scale_up_hits := 0\<rparr>)" "sc_streak (s \<lparr>m_scale_down_hits := 0\<rparr>)"
    "sc_streak (s \<lparr>m_scale_up_hits := 0, m_scale_down_hits := 0\<rparr>)"
  using assms by (simp_all add: sc_streak_def up_hit_def [abs_def] down_hit_def [abs_def])

lemma Accumulate_streak: "sc_streak s \<Longrightarrow> sc_streak (AccumulateScalingHits l s)"
  unfolding sc_streak_def AccumulateScalingHits_def
  using streak_advance [of "m_scale_up_hits s" "up_hit s" "history s" "m_scale_up_samples s" l]
    streak_advance [of "m_scale_down_hits s" "down_hit s" "history s" "m_scale_down_samples s" l]
  by (simp add: up_hit_def [abs_def] down_hit_def [abs_def])

definition sc_inv :: "scheduler \<Rightarrow> bool" where
  "sc_inv s \<longleftrightarrow> sc_sets s \<and> sc_nums s \<and> sc_streak s"

text \<open>A change of counters, mode or sampling time leaves sets and numbers alone.\<close>

lemma counters_sets [simp]:
  "sc_sets (s \<lparr>m_scale_up_hits := a\<rparr>) = sc_sets s" "sc_sets (s \<lparr>m_scale_down_hits := a\<rparr>) = sc_sets s"
  "sc_sets (s \<lparr>m_scaling_mode := m\<rparr>) = sc_sets s" "sc_sets (s \<lparr>m_last_auto_sample := n\<rparr>) = sc_sets s"
  "sc_sets (s \<lparr>history := h\<rparr>) = sc_sets s"
  by (simp_all add: sc_sets_def outstanding_def)

lemma counters_nums [simp]:
  "sc_nums (s \<lparr>m_scale_up_hits := a\<rparr>) = sc_nums s" "sc_nums (s \<lparr>m_scale_down_hits := a\<rparr>) = sc_nums s"
  "sc_nums (s \<lparr>m_scaling_mode := m\<rparr>) = sc_nums s" "sc_nums (s \<lparr>m_last_auto_sample := n\<rparr>) = sc_nums s"
  "sc_nums (s \<lparr>history := h\<rparr>) = sc_nums s"
  by (simp_all add: sc_nums_def)

lemma streak_mode [simp]:
  "sc_streak (s \<lparr>m_scaling_mode := m\<rparr>) = sc_streak s" "sc_streak (s \<lparr>m_last_auto_sample := n\<rparr>) = sc_streak s"
  by (simp_all add: sc_streak_def up_hit_def [abs_def] down_hit_def [abs_def])

lemma ApplyTarget_inv:
  assumes inv: "sc_inv s" and ex: "ApplyTarget target fail self alloc s = (r, notify, t)"
    and i: "m_initialized s" and b: "m_min_num s \<le> target" "target \<le> m_max_num s"
  shows "sc_inv t"
proof -
  have s: "sc_sets s" "sc_nums s" "sc_streak s" using inv by (simp_all add: sc_inv_def)
  note A = ApplyTarget_spec [OF s(1) active_bound [OF s(2)] ex]
  then show ?thesis using ApplyTarget_nums [OF s(1,2) ex i b] sc_streak_cong [OF _ s(3)] by (simp add: sc_inv_def)
qed

lemma reset_inv:
  assumes "sc_inv s"
  shows "sc_inv (s \<lparr>m_scale_up_hits := 0\<rparr>)" "sc_inv (s \<lparr>m_scale_down_hits := 0\<rparr>)"
    "sc_inv (s \<lparr>m_scale_up_hits := 0, m_scale_down_hits := 0\<rparr>)"
  using assms sc_streak_reset by (simp_all add: sc_inv_def)

lemma Decision_inv:
  assumes inv: "sc_inv s" and i: "m_initialized s" and ex: "ApplyScalingDecision fail self alloc s = (b, notify, t)"
  shows "sc_inv t"
proof -
  have N: "sc_nums s" "0 < m_scale_step s" using inv i by (auto simp: sc_inv_def sc_streak_def)
  have n: "m_min_num s \<le> m_target_num s" "m_target_num s \<le> m_max_num s" using N(1) i by (auto simp: sc_nums_def)
  have up: "sc_inv t" if u: "ScaleUpOneStep fail self alloc s = (b, notify, t)"
  proof (cases "m_max_num s \<le> m_target_num s")
    case True
    then show ?thesis using u reset_inv [OF inv] by (auto simp: ScaleUpOneStep_def Let_def)
  next
    case False
    then have lt: "m_target_num s < m_max_num s" by simp
    define nxt where "nxt = (if m_max_num s - m_target_num s \<le> m_scale_step s then m_max_num s else m_target_num s + m_scale_step s)"
    have nx: "m_target_num s < nxt" "nxt \<le> m_max_num s" using next_up(2,3) [OF lt N(2)] by (simp_all add: nxt_def)
    obtain r no t1 where a: "ApplyTarget nxt fail self alloc s = (r, no, t1)" by (metis prod_cases3)
    have "sc_inv t1" using ApplyTarget_inv [OF inv a i] nx n by auto
    then show ?thesis using u False a reset_inv [of t1] by (auto simp: ScaleUpOneStep_def Let_def nxt_def [symmetric] split: if_splits)
  qed
  have down: "sc_inv t" if u: "ScaleDownOneStep fail self alloc s = (b, notify, t)"
  proof (cases "m_target_num s \<le> m_min_num s")
    case True
    then show ?thesis using u reset_inv [OF inv] by (auto simp: ScaleDownOneStep_def Let_def)
  next
    case False
    then have lt: "m_min_num s < m_target_num s" by simp
    define nxt where "nxt = (if m_target_num s - m_min_num s \<le> m_scale_step s then m_min_num s else m_target_num s - m_scale_step s)"
    have nx: "nxt < m_target_num s" "m_min_num s \<le> nxt" using next_down(2,3) [OF lt N(2)] by (simp_all add: nxt_def)
    obtain r no t1 where a: "ApplyTarget nxt fail self alloc s = (r, no, t1)" by (metis prod_cases3)
    have "sc_inv t1" using ApplyTarget_inv [OF inv a i] nx n by auto
    then show ?thesis using u False a reset_inv [of t1] by (auto simp: ScaleDownOneStep_def Let_def nxt_def [symmetric] split: if_splits)
  qed
  show ?thesis using ex up down inv unfolding ApplyScalingDecision_def by (auto split: if_splits)
qed

section \<open>Steps of workers and of the reaper\<close>

lemma outstanding_ids: "length (outstanding s) = length (filter (\<lambda>i. m_lifecycle (procs s i) \<in> {Retiring, Exited}) (map m_processer (m_workers s)))"
  by (simp add: outstanding_def filter_map o_def)

lemma sc_sets_records:
  assumes inv: "sc_sets s" and ids: "map m_processer ws = map m_processer (m_workers s)"
    and fl: "\<And>r. r \<in> set ws \<Longrightarrow> (m_claimed r \<longrightarrow> thread_exited r) \<and> (thread_exited r \<longrightarrow> m_lifecycle (procs s (m_processer r)) = Exited)"
  shows "sc_sets (s \<lparr>m_workers := ws\<rparr>)"
proof -
  have im: "m_processer ` set ws = m_processer ` set (m_workers s)" using arg_cong [OF ids, of set] by simp
  have same: "\<exists>q \<in> set (m_workers s). m_processer q = m_processer r" if "r \<in> set ws" for r using im that by (metis imageE imageI)
  note D = sc_setsD [OF inv]
  have lt: "\<forall>r\<in>set ws. m_processer r < next_id s" using same D(5) by metis
  have ret: "\<forall>r \<in> set ws. m_processer r \<notin> set (m_active_snapshot s) \<longrightarrow>
        m_lifecycle (procs s (m_processer r)) \<in> {Retiring, Exited} \<and> \<not> m_admission_open (procs s (m_processer r)) \<and>
        m_retire_requested (procs s (m_processer r)) \<and> \<not> driver_owned (procs s (m_processer r))"
    using same D(7) by metis
  have out: "length (outstanding (s \<lparr>m_workers := ws\<rparr>)) = length (outstanding s)" unfolding outstanding_ids by (simp add: ids)
  show ?thesis using D fl lt ret unfolding sc_sets_def out by (simp add: ids im)
qed

lemma sc_sets_upd_proc:
  assumes inv: "sc_sets s"
    and f: "m_lifecycle (f (procs s i)) = m_lifecycle (procs s i)" "m_admission_open (f (procs s i)) = m_admission_open (procs s i)"
      "m_retire_requested (f (procs s i)) = m_retire_requested (procs s i)"
      "driver_owned (f (procs s i)) \<Longrightarrow> driver_owned (procs s i) \<or> i \<in> set (m_active_snapshot s)"
  shows "sc_sets (upd_proc i f s)"
proof -
  have "outstanding (upd_proc i f s) = outstanding s" using f(1) by (auto simp: outstanding_def upd_proc_def intro!: filter_cong)
  then show ?thesis using inv f unfolding sc_sets_def by (auto simp: upd_proc_def)
qed

lemma worker_exit_sets:
  assumes inv: "sc_sets s" and r: "m_lifecycle (procs s i) = Retiring"
  shows "sc_sets (upd_proc i (\<lambda>p. p \<lparr>m_lifecycle := Exited\<rparr>) s)"
proof -
  note D = sc_setsD [OF inv]
  have na: "i \<notin> set (m_active_snapshot s)" using D(6) [of i] r by auto
  have "outstanding (upd_proc i (\<lambda>p. p \<lparr>m_lifecycle := Exited\<rparr>) s) = outstanding s"
    using r by (auto simp: outstanding_def upd_proc_def intro!: filter_cong)
  then show ?thesis using inv na unfolding sc_sets_def by (auto simp: upd_proc_def)
qed

lemma claim_first_Some:
  "claim_first p ws = Some (i, qs) \<Longrightarrow>
   \<exists>xs r ys. ws = xs @ r # ys \<and> p r \<and> i = m_processer r \<and> qs = xs @ r \<lparr>m_claimed := True\<rparr> # ys"
proof (induction ws arbitrary: qs)
  case (Cons a ws)
  show ?case
  proof (cases "p a")
    case True
    then show ?thesis using Cons.prems by (intro exI [of _ "[]"] exI [of _ a] exI [of _ ws]) auto
  next
    case False
    then obtain qs' where q: "claim_first p ws = Some (i, qs')" "qs = a # qs'" using Cons.prems by auto
    from Cons.IH [OF q(1)] obtain xs r ys where "ws = xs @ r # ys" "p r" "i = m_processer r" "qs' = xs @ r \<lparr>m_claimed := True\<rparr> # ys" by blast
    then show ?thesis using q(2) by (intro exI [of _ "a # xs"] exI [of _ r] exI [of _ ys]) simp
  qed
qed simp

lemma ReapClaim_sets:
  assumes inv: "sc_sets s" and ex: "ReapClaim s = Some (i, t)"
  shows "sc_sets t" "\<exists>ws. t = s \<lparr>m_workers := ws\<rparr> \<and> map m_processer ws = map m_processer (m_workers s)"
proof -
  obtain ws where ws: "claim_first (claimable s) (m_workers s) = Some (i, ws)" "t = s \<lparr>m_workers := ws\<rparr>"
    using ex by (auto simp: ReapClaim_def)
  obtain xs r ys where d: "m_workers s = xs @ r # ys" "claimable s r" "ws = xs @ r \<lparr>m_claimed := True\<rparr> # ys"
    using claim_first_Some [OF ws(1)] by blast
  have ids: "map m_processer ws = map m_processer (m_workers s)" using d by simp
  then show "\<exists>ws. t = s \<lparr>m_workers := ws\<rparr> \<and> map m_processer ws = map m_processer (m_workers s)" using ws(2) by blast
  show "sc_sets t" unfolding ws(2)
  proof (rule sc_sets_records [OF inv ids])
    fix q assume "q \<in> set ws"
    then have "q \<in> set (m_workers s) \<or> q = r \<lparr>m_claimed := True\<rparr>" using d by auto
    then show "(m_claimed q \<longrightarrow> thread_exited q) \<and> (thread_exited q \<longrightarrow> m_lifecycle (procs s (m_processer q)) = Exited)"
      using sc_setsD(8,9) [OF inv, of q] d(2) by (auto simp: claimable_def)
  qed
qed

lemma ReapJoined_sets:
  assumes inv: "sc_sets s" and c: "r \<in> set (m_workers s)" "m_claimed r"
  shows "sc_sets (ReapJoined (m_processer r) s)"
proof -
  note D = sc_setsD [OF inv]
  have ex: "m_lifecycle (procs s (m_processer r)) = Exited" using D(8,9) c by blast
  then have na: "m_processer r \<notin> set (m_active_snapshot s)" using D(6) by fastforce
  have "outstanding (ReapJoined (m_processer r) s) = filter (\<lambda>q. m_processer q \<noteq> m_processer r) (outstanding s)"
    by (auto simp: outstanding_def ReapJoined_def upd_proc_def MarkJoined_def intro!: filter_cong)
  then have "length (outstanding (ReapJoined (m_processer r) s)) \<le> 32"
    using D(10) le_trans [OF length_filter_le] by simp
  moreover have "set (m_active_snapshot s) \<subseteq> m_processer ` {q \<in> set (m_workers s). m_processer q \<noteq> m_processer r}"
    using D(4) na by fastforce
  moreover have "distinct (map m_processer (filter (\<lambda>q. m_processer q \<noteq> m_processer r) (m_workers s)))"
    using D(3) by (simp add: distinct_map_filter)
  ultimately show ?thesis using inv na unfolding sc_sets_def by (auto simp: ReapJoined_def upd_proc_def MarkJoined_def)
qed

section \<open>Every step keeps the invariant\<close>

lemma Resolve_bounds:
  assumes "ResolveProcesserScalingBounds c = Some b"
  shows "1 \<le> bound_min_num b" "bound_min_num b \<le> m_initial_num b" "m_initial_num b \<le> bound_max_num b" "bound_max_num b \<le> INT_MAX"
    "0 < m_cfg_processer_scale_up_samples c" "0 < m_cfg_processer_scale_down_samples c" "0 < m_cfg_processer_scale_step c"
  using assms unfolding ResolveProcesserScalingBounds_def Let_def
  by (auto simp: not_less word_gt_0 word_le_nat_alt unat_gt_0 [symmetric] Suc_le_eq split: if_split_asm)

lemma Init_inv:
  assumes r: "ResolveProcesserScalingBounds c = Some b" and n: "\<not> m_initialized s"
  shows "sc_inv (Init c b now s)"
  using assms by (simp add: sc_inv_def sc_sets_def outstanding_def sc_nums_def sc_streak_def Init_def)

lemma Start_inv:
  assumes inv: "sc_inv s" shows "sc_inv (snd (Start c now fail s))"
proof (cases "\<exists>b. ResolveProcesserScalingBounds c = Some b \<and> m_start_state s = NotStarted")
  case True
  then obtain b where b: "ResolveProcesserScalingBounds c = Some b" "m_start_state s = NotStarted" by blast
  have "\<not> m_initialized s" using inv b(2) by (auto simp: sc_inv_def sc_nums_def)
  define s1 where "s1 = Init c b now (s \<lparr>m_start_state := Starting\<rparr>)"
  have i1: "sc_inv s1" using Init_inv [OF b(1), of "s \<lparr>m_start_state := Starting\<rparr>"] \<open>\<not> m_initialized s\<close> by (simp add: s1_def)
  obtain ok new u where u: "PrepareExpansion (m_initial_num b) fail s1 = (ok, new, u)" by (metis prod_cases3)
  have su: "sc_sets u" using PrepareExpansion_sets [OF _ u] i1 by (simp add: sc_inv_def)
  note c = PrepareExpansion_count [OF u]
  have f: "m_initialized u = m_initialized s1" "m_start_state u = m_start_state s1" "m_min_num u = m_min_num s1" "m_max_num u = m_max_num s1"
    "sc_streak u" "m_scale_up_samples u = m_scale_up_samples s1" "m_scale_down_samples u = m_scale_down_samples s1" "m_scale_step u = m_scale_step s1"
    using c sets_onlyD [of s1 u] sc_streak_cong [of s1 u] i1 by (auto simp: sc_inv_def)
  note B = Resolve_bounds [OF b(1)]
  show ?thesis
  proof (cases ok)
    case True
    define t where "t = u \<lparr>m_target_num := m_initial_num b, m_initialized := True\<rparr>"
    have e: "snd (Start c now fail s) = t" using b u True by (simp add: Start_def CreateProcessers_def s1_def t_def)
    have "sc_sets t" using su by (auto simp: t_def intro: sc_sets_cong)
    moreover have "sc_streak t" using f(5) B unfolding sc_streak_def t_def
      by (simp add: f up_hit_def [abs_def] down_hit_def [abs_def]) (simp add: s1_def Init_def)
    moreover have "sc_nums t" using B c True by (simp add: sc_nums_def t_def f) (simp add: s1_def Init_def)
    ultimately show ?thesis unfolding e by (simp add: sc_inv_def)
  next
    case False
    define t where "t = u \<lparr>m_start_state := NotStarted\<rparr>"
    have e: "snd (Start c now fail s) = t" using b u False by (simp add: Start_def CreateProcessers_def s1_def t_def)
    have "sc_sets t" using su by (auto simp: t_def intro: sc_sets_cong)
    moreover have "sc_streak t" using f(5) unfolding sc_streak_def t_def by (simp add: up_hit_def [abs_def] down_hit_def [abs_def])
    moreover have "sc_nums t" using c False sc_setsD(1) [OF su] \<open>\<not> m_initialized s\<close>
      by (simp add: sc_nums_def t_def f) (simp add: s1_def Init_def)
    ultimately show ?thesis unfolding e by (simp add: sc_inv_def)
  qed
qed (use inv in \<open>auto simp: Start_def split: option.splits\<close>)

lemma ResetScalingSamples_inv: "sc_inv s \<Longrightarrow> sc_inv (ResetScalingSamples now (s \<lparr>m_scaling_mode := m\<rparr>))"
  using reset_inv(3) [of "s \<lparr>m_scaling_mode := m\<rparr>"] by (simp add: ResetScalingSamples_def sc_inv_def)

lemma SetProcesserNum_inv: "sc_inv s \<Longrightarrow> sc_inv (snd (SetProcesserNum n fail self alloc now s))"
proof -
  assume inv: "sc_inv s"
  obtain r no t where a: "ApplyTarget n fail self alloc s = (r, no, t)" by (metis prod_cases3)
  show ?thesis
  proof (cases "m_initialized s \<and> m_min_num s \<le> n \<and> n \<le> m_max_num s")
    case True
    then have "sc_inv t" using ApplyTarget_inv [OF inv a] by blast
    then show ?thesis using True a ResetScalingSamples_inv [of t] by (auto simp: SetProcesserNum_def)
  qed (use inv in \<open>auto simp: SetProcesserNum_def not_less\<close>)
qed

lemma SetAuto_inv: "sc_inv s \<Longrightarrow> sc_inv (snd (SetProcesserAutoScale b now s))"
  using ResetScalingSamples_inv by (auto simp: SetProcesserAutoScale_def)

lemma Tick_inv:
  assumes inv: "sc_inv s" and ex: "AutoScaleTick now gs lens fail self alloc s = (b, no, t)"
  shows "sc_inv t"
proof (cases "m_initialized s \<and> m_scaling_mode s = Auto")
  case True
  define s1 where "s1 = s \<lparr>m_last_auto_sample := now\<rparr>"
  have i1: "sc_inv s1" using inv by (simp add: sc_inv_def s1_def)
  have i2: "sc_inv (AccumulateScalingHits l s1)" for l
    using i1 Accumulate_streak [of s1 l] by (simp add: sc_inv_def AccumulateScalingHits_def)
  have "m_initialized (AccumulateScalingHits l s1)" for l using True by (simp add: AccumulateScalingHits_def s1_def)
  then show ?thesis using ex True i1 inv Decision_inv [OF i2]
    by (auto simp: AutoScaleTick_def ClaimAutoSample_def s1_def [symmetric] split: if_splits option.splits)
qed (use inv ex in \<open>auto simp: AutoScaleTick_def\<close>)

lemma workers_inv:
  assumes inv: "sc_inv s" and st: "sc_sets t" and t: "t = s \<lparr>procs := procs t, m_workers := m_workers t\<rparr>"
    and w: "m_workers s = [] \<Longrightarrow> m_workers t = []"
  shows "sc_inv t"
proof -
  obtain p ws where t': "t = s \<lparr>procs := p, m_workers := ws\<rparr>" using t by blast
  show ?thesis using inv st w unfolding sc_inv_def t'
    by (simp add: sc_nums_def sc_streak_def up_hit_def [abs_def] down_hit_def [abs_def])
qed

lemma upd_proc_inv: "sc_inv s \<Longrightarrow> sc_sets (upd_proc i f s) \<Longrightarrow> sc_inv (upd_proc i f s)"
  by (rule workers_inv [of s]) (auto simp: upd_proc_def)

lemma sc_inv_step:
  assumes inv: "sc_inv s" and ex: "sc_exec e s = Some t" shows "sc_inv t"
proof -
  have sets: "sc_sets s" using inv by (simp add: sc_inv_def)
  note D = sc_setsD [OF sets]
  show ?thesis
  proof (cases e)
    case (STick now gs lens fail self alloc)
    then show ?thesis using ex Tick_inv [OF inv] by (metis sc_exec.simps(4) option.inject prod.collapse)
  next
    case (SThreadExit i)
    define ws where "ws = map (\<lambda>r. if m_processer r = i then r \<lparr>thread_exited := True\<rparr> else r) (m_workers s)"
    have t: "t = s \<lparr>m_workers := ws\<rparr>" "m_lifecycle (procs s i) = Exited" using ex SThreadExit by (auto simp: ws_def split: if_splits)
    have "sc_sets t" unfolding t(1) by (rule sc_sets_records [OF sets]) (use D(8,9) t(2) in \<open>auto simp: ws_def\<close>)
    then show ?thesis by (rule workers_inv [OF inv]) (auto simp: t(1) ws_def)
  next
    case SReapClaim
    then obtain i where "ReapClaim s = Some (i, t)" using ex by (auto split: if_splits)
    from ReapClaim_sets [OF sets this] show ?thesis by (auto intro: workers_inv [OF inv])
  next
    case (SReapJoined i)
    then obtain r where r: "r \<in> set (m_workers s)" "m_claimed r" "i = m_processer r" "t = ReapJoined i s" using ex by (auto split: if_splits)
    have "sc_sets t" using ReapJoined_sets [OF sets r(1,2)] r(3,4) by simp
    then show ?thesis by (rule workers_inv [OF inv]) (auto simp: r(4) ReapJoined_def upd_proc_def)
  next
    case (SReapJoinFailed i)
    define ws where "ws = map (\<lambda>r. if m_processer r = i then r \<lparr>m_claimed := False\<rparr> else r) (m_workers s)"
    have t: "t = s \<lparr>m_workers := ws\<rparr>" using ex SReapJoinFailed by (auto simp: ws_def ReapJoinFailed_def split: if_splits)
    have "sc_sets t" unfolding t by (rule sc_sets_records [OF sets]) (use D(8,9) in \<open>auto simp: ws_def\<close>)
    then show ?thesis by (rule workers_inv [OF inv]) (auto simp: t ws_def)
  next
    case (SWorkerExit i)
    then show ?thesis using ex inv worker_exit_sets [OF sets, of i] upd_proc_inv by (auto split: if_splits)
  next
    case (SBusy i b)
    then show ?thesis using ex upd_proc_inv [OF inv sc_sets_upd_proc [OF sets, of "\<lambda>p. p \<lparr>m_busy := b\<rparr>" i]] by simp
  next
    case (SBindDriver i)
    then show ?thesis using ex D(1) upd_proc_inv [OF inv sc_sets_upd_proc [OF sets, of "\<lambda>p. p \<lparr>driver_owned := True\<rparr>" i]]
      by (auto split: if_splits)
  next
    case (SUnbindDriver i)
    then show ?thesis using ex upd_proc_inv [OF inv sc_sets_upd_proc [OF sets, of "\<lambda>p. p \<lparr>driver_owned := False\<rparr>" i]] by simp
  qed (use ex inv Start_inv SetProcesserNum_inv SetAuto_inv reset_inv(1) in \<open>auto simp: ScaleUpFailed_def\<close>)
qed

lemma sc_init_inv: "sc_inv NewScheduler"
  by (simp add: sc_inv_def NewScheduler_def sc_sets_def outstanding_def sc_nums_def sc_streak_def)

interpretation scaling: invariant_machine sc_exec sc_inv
  by unfold_locales (rule sc_inv_step)

lemma sc_reaches: "reaches sc_exec NewScheduler s \<Longrightarrow> sc_inv s"
  using scaling.reaches_inv sc_init_inv by blast

section \<open>Properties\<close>

text \<open>The documented ranges of the configuration, over the natural numbers.\<close>

definition scaling_config_ok :: "global_config \<Rightarrow> bool" where
  "scaling_config_ok c \<longleftrightarrow>
     (let initial = unat (m_cfg_static_thread_num c);
          mn = (if m_cfg_processer_min_num c = 0 then initial else unat (m_cfg_processer_min_num c));
          mx = (if m_cfg_processer_max_num c = 0 then initial else unat (m_cfg_processer_max_num c))
      in mn \<in> {1..initial} \<and> mx \<in> {initial..2 ^ 31 - 1} \<and>
         unat (m_cfg_processer_scale_interval_ms c) \<in> {1..2 ^ 63 - 1} \<and>
         1 \<le> unat (m_cfg_processer_scale_up_samples c) \<and> 1 \<le> unat (m_cfg_processer_scale_down_samples c) \<and>
         unat (m_cfg_processer_scale_step c) \<in> {1..2 ^ 31 - 1} \<and>
         unat (m_cfg_processer_scale_down_busy_percent c) \<le> unat (m_cfg_processer_scale_up_busy_percent c) \<and>
         unat (m_cfg_processer_scale_up_busy_percent c) \<le> 100 \<and>
         unat (m_cfg_processer_scale_down_queue_watermark c) \<le> unat (m_cfg_processer_scale_up_queue_watermark c) \<and>
         1 \<le> unat (m_cfg_processer_scale_up_queue_watermark c))"

lemma Resolve_iff: "ResolveProcesserScalingBounds c \<noteq> None \<longleftrightarrow> scaling_config_ok c"
  unfolding ResolveProcesserScalingBounds_def scaling_config_ok_def Let_def INT_MAX_def MILLISECONDS_REP_MAX_def
  by (auto simp: word_le_nat_alt word_less_nat_alt unat_eq_0 [symmetric] not_less Suc_le_eq simp del: unat_eq_0)

lemma Resolve_initial: "ResolveProcesserScalingBounds c = Some b \<Longrightarrow> m_initial_num b = m_cfg_static_thread_num c"
  by (auto simp: ResolveProcesserScalingBounds_def Let_def split: if_splits)

text \<open>\<open>Start\<close>: it succeeds exactly on a configuration in the documented ranges, on the first call, when the
  workers can be created; then exactly the initial number of workers is active. Every failure leaves the
  scheduler uninitialised or as it was, so that a corrected \<open>Start\<close> can be tried again.\<close>

lemma start_outcomes:
  assumes r: "reaches sc_exec NewScheduler s" and ex: "Start c now fail s = (r, t)"
  shows "(r = Inr () \<longleftrightarrow> scaling_config_ok c \<and> m_start_state s = NotStarted \<and> fail = None) \<and>
    (r = Inr () \<longrightarrow> m_initialized t \<and> length (m_active_snapshot t) = unat (m_cfg_static_thread_num c)) \<and>
    (r \<noteq> Inr () \<longrightarrow> m_start_state t = m_start_state s \<and> m_initialized t = m_initialized s \<and>
       m_active_snapshot t = m_active_snapshot s \<and> m_workers t = m_workers s)"
proof (cases "\<exists>b. ResolveProcesserScalingBounds c = Some b \<and> m_start_state s = NotStarted")
  case False
  then have "r \<noteq> Inr () \<and> t = s" using ex by (auto simp: Start_def split: option.splits)
  then show ?thesis using False Resolve_iff [of c] by auto
next
  case True
  then obtain b where b: "ResolveProcesserScalingBounds c = Some b" "m_start_state s = NotStarted" by blast
  have inv: "sc_inv s" by (rule sc_reaches [OF r])
  then have n: "\<not> m_initialized s" "m_active_snapshot s = []" "m_workers s = []" using b(2) by (auto simp: sc_inv_def sc_nums_def split: if_splits)
  have i: "m_initial_num b \<noteq> 0" using Resolve_bounds(1,2) [OF b(1)] by auto
  show ?thesis
  proof (cases fail)
    case None
    then have "r = Inr () \<and> m_initialized t \<and> length (m_active_snapshot t) = unat (m_initial_num b)"
      using ex b i by (auto simp: Start_def CreateProcessers_def PrepareExpansion_def Init_def Let_def)
    then show ?thesis using None b Resolve_iff [of c] Resolve_initial [OF b(1)] by auto
  next
    case (Some k)
    then have "r \<noteq> Inr () \<and> m_start_state t = NotStarted \<and> \<not> m_initialized t \<and> m_active_snapshot t = [] \<and> m_workers t = []"
      using ex b i n by (auto simp: Start_def CreateProcessers_def PrepareExpansion_def Init_def Let_def)
    then show ?thesis using Some b n by auto
  qed
qed

definition demo_config :: global_config where
  "demo_config = \<lparr>m_cfg_static_thread_num = 2, m_cfg_processer_auto_scale = True, m_cfg_processer_min_num = 1,
     m_cfg_processer_max_num = 4, m_cfg_processer_scale_interval_ms = 100, m_cfg_processer_scale_up_samples = 2,
     m_cfg_processer_scale_down_samples = 3, m_cfg_processer_scale_step = 1, m_cfg_processer_scale_up_busy_percent = 80,
     m_cfg_processer_scale_down_busy_percent = 20, m_cfg_processer_scale_up_queue_watermark = 1,
     m_cfg_processer_scale_down_queue_watermark = 0\<rparr>"

text \<open>C19. Well-formedness of the worker sets in every interleaving of resizes, automatic ticks, driver bindings, worker
  exits and reaping: the registered Processers are the active ones, which accept work and are not being retired;
  their number is the target, within the configured bounds; no identity is used twice; every other worker thread
  not yet joined is retiring or exited, refuses work and owns no driver; only threads that have fully
  exited are claimed for joining; at most 32 retirements are outstanding.\<close>

theorem scaling_wf:
  assumes "reaches sc_exec NewScheduler s" "m_initialized s"
  shows "m_processer_map s = m_active_snapshot s \<and> distinct (map m_processer (m_workers s)) \<and>
    length (m_active_snapshot s) = unat (m_target_num s) \<and> 1 \<le> m_min_num s \<and> m_min_num s \<le> m_target_num s \<and> m_target_num s \<le> m_max_num s \<and>
    (\<forall>r \<in> set (m_workers s). m_processer r < next_id s \<and>
       (if m_processer r \<in> set (m_active_snapshot s)
        then m_lifecycle (procs s (m_processer r)) = Active \<and> m_admission_open (procs s (m_processer r))
        else m_lifecycle (procs s (m_processer r)) \<in> {Retiring, Exited} \<and> \<not> m_admission_open (procs s (m_processer r)) \<and>
          \<not> driver_owned (procs s (m_processer r))) \<and>
       (m_claimed r \<longrightarrow> thread_exited r \<and> m_lifecycle (procs s (m_processer r)) = Exited)) \<and>
    set (m_active_snapshot s) \<subseteq> m_processer ` set (m_workers s) \<and>
    GetProcesserRetiringNum s + GetProcesserExitedUnjoinedNum s \<le> 32"
proof -
  have inv: "sc_sets s" "sc_nums s" using sc_reaches [OF assms(1)] by (simp_all add: sc_inv_def)
  note D = sc_setsD [OF inv(1)]
  have "GetProcesserRetiringNum s + GetProcesserExitedUnjoinedNum s = length (outstanding s)"
    using assms(2) length_filter_disj [of "m_workers s" "\<lambda>r. m_lifecycle (procs s (m_processer r)) = Retiring"
      "\<lambda>r. m_lifecycle (procs s (m_processer r)) = Exited"]
    by (simp add: GetProcesserRetiringNum_def GetProcesserExitedUnjoinedNum_def outstanding_def)
  then show ?thesis using D inv(2) assms(2) by (simp add: sc_nums_def)
qed

lemma scaling_demo:
  "case run sc_exec [SStart demo_config 0 None, SBindDriver 1, SSetNum 1 None None AllocOk 5, SWorkerExit 2, SThreadExit 2, SReapClaim] NewScheduler of
     None \<Rightarrow> False | Some s \<Rightarrow> m_initialized s \<and> m_active_snapshot s = [1] \<and> map m_claimed (m_workers s) = [False, True]"
  by code_simp

theorem scaling_wf_witness:
  "\<exists>s. reaches sc_exec NewScheduler s \<and> m_active_snapshot s = [1] \<and> unat (m_target_num s) = 1 \<and> m_processer_map s = [1]"
proof -
  obtain s where s: "reaches sc_exec NewScheduler s" "m_initialized s" "m_active_snapshot s = [1]"
    using run_demo [OF scaling_demo] by blast
  then show ?thesis using scaling_wf [OF s(1,2)] by auto
qed

text \<open>C21. \<open>SetProcesserNum\<close>: the request is honoured exactly when it answers \<open>Ok\<close> or \<open>Pending\<close>, and then the number of
  active workers is the requested one, the mode is manual and the counters are clear; growing answers \<open>Ok\<close>,
  shrinking \<open>Pending\<close>, and a worker that is retired had no driver and is not the caller. Every other answer leaves the
  scheduler as it was, up to identities used by a cancelled batch.\<close>

theorem resize_outcomes:
  assumes r: "reaches sc_exec NewScheduler s" and ex: "SetProcesserNum n fail self alloc now s = (r, t)"
  shows "(r = NotInitialized \<longleftrightarrow> \<not> m_initialized s) \<and>
    (r = InvalidTarget \<longleftrightarrow> m_initialized s \<and> \<not> (m_min_num s \<le> n \<and> n \<le> m_max_num s)) \<and>
    (if r \<in> {Ok, Pending}
     then m_target_num t = n \<and> length (m_active_snapshot t) = unat n \<and> m_scaling_mode t = Manual \<and> m_scale_up_hits t = 0 \<and>
       m_scale_down_hits t = 0 \<and> (r = Ok \<longleftrightarrow> m_target_num s \<le> n) \<and>
       (\<forall>i \<in> set (m_active_snapshot s) - set (m_active_snapshot t). \<not> driver_owned (procs s i) \<and> Some i \<noteq> self)
     else \<exists>k. t = s \<lparr>next_id := next_id s + k\<rparr>)"
proof (cases "m_initialized s \<and> m_min_num s \<le> n \<and> n \<le> m_max_num s")
  case False
  then have "r = (if m_initialized s then InvalidTarget else NotInitialized) \<and> t = s"
    using ex by (cases "m_initialized s") (auto simp: SetProcesserNum_def not_le)
  moreover have "\<exists>k. s = s \<lparr>next_id := next_id s + k\<rparr>" by (rule exI [of _ 0]) simp
  ultimately show ?thesis using False by (cases "m_initialized s") auto
next
  case True
  have inv: "sc_sets s" "sc_nums s" using sc_reaches [OF r] by (simp_all add: sc_inv_def)
  obtain r' no u where a: "ApplyTarget n fail self alloc s = (r', no, u)" by (metis prod_cases3)
  note A = ApplyTarget_spec [OF inv(1) active_bound [OF inv(2)] a]
  have t: "r = r'" "t = (if r \<in> {Ok, Pending} then ResetScalingSamples now (u \<lparr>m_scaling_mode := Manual\<rparr>) else u)"
    using ex True [folded not_less] a by (auto simp: SetProcesserNum_def)
  have ac: "ActiveCount s = m_target_num s" using inv(2) True by (simp add: sc_nums_def ActiveCount_def)
  show ?thesis
  proof (cases "r \<in> {Ok, Pending}")
    case ok: True
    have K: "(r = Ok \<longleftrightarrow> m_target_num s \<le> n) \<and>
      (\<forall>i \<in> set (m_active_snapshot s) - set (m_active_snapshot u). \<not> driver_owned (procs s i) \<and> Some i \<noteq> self)"
    proof (cases "n < m_target_num s")
      case True
      then have c: "CommitShrink (m_target_num s - n) n self alloc s = (r, no, u)"
        using a t(1) ac less_not_sym [OF True] by (simp add: ApplyTarget_def Let_def)
      then show ?thesis
      proof (cases rule: CommitShrink_cases)
        case 2
        have "set no \<subseteq> {i \<in> set (candidates s). Some i \<noteq> self}" unfolding 2(3) using set_take_subset by fastforce
        then show ?thesis using 2(1,2) True by (auto simp: retire_def candidates_def)
      qed (use ok in auto)
    next
      case False
      then have "r = Ok \<and> set (m_active_snapshot s) \<subseteq> set (m_active_snapshot u)"
        using a t(1) ac ok by (auto simp: ApplyTarget_def PrepareExpansion_def Let_def split: if_splits option.splits)
      then show ?thesis using False by auto
    qed
    show ?thesis using A K ok True t by (auto simp: ResetScalingSamples_def)
  next
    case False
    then show ?thesis using A t True by auto
  qed
qed

theorem resize_outcomes_witness:
  "\<exists>s. reaches sc_exec NewScheduler s \<and> m_active_snapshot (snd (SetProcesserNum 3 None None AllocOk 5 s)) = [1, 2, 3] \<and>
     m_scaling_mode (snd (SetProcesserNum 3 None None AllocOk 5 s)) = Manual"
proof -
  have "case run sc_exec [SStart demo_config 0 None] NewScheduler of None \<Rightarrow> False
    | Some s \<Rightarrow> fst (SetProcesserNum 3 None None AllocOk 5 s) = Ok \<and> m_active_snapshot (snd (SetProcesserNum 3 None None AllocOk 5 s)) = [1, 2, 3]"
    by code_simp
  from run_demo [OF this] obtain s where s: "reaches sc_exec NewScheduler s" "fst (SetProcesserNum 3 None None AllocOk 5 s) = Ok"
    "m_active_snapshot (snd (SetProcesserNum 3 None None AllocOk 5 s)) = [1, 2, 3]" by blast
  then show ?thesis using resize_outcomes [OF s(1) prod.collapse [symmetric], of 3 None None AllocOk 5] by auto
qed




end
