(* ===== verification/WorkModel.thy ===== *)
theory WorkModel
  imports CfsQueue CoroutineModel ScalingModel
begin

text \<open>
  \<open>detail/Processer.cc\<close> and the task side of \<open>detail/Scheduler.cc\<close>: how runnable coroutines travel between the
  ready queues of the Processers, the global queues and the threads that carry them: submission, activation,
  global pull, stealing, the worker loop and the hand-over of a retiring worker. Each atomic access (the
  admission flag, the in-flight counter, one operation of a ready queue or of a global queue) is one step
  and the threads interleave freely. Thread \<open>p\<close> is the worker of Processer \<open>p\<close> for \<open>p\<close> below the number of Processers;
  the other numbers are external threads. The lock-free global queue is a list from which any element may come
  out, since it keeps no order between producers.
\<close>

section \<open>Data\<close>

datatype enq_from =
    FromRegist "nat list"
  | FromRegistOn
  | FromActivate
  | FromReady
  | FromPull
  | FromSteal nat nat

text \<open>The program points of \<open>_EnqueueAdmitted\<close>; \<open>EnqReleasing b\<close> is \<open>_ReleaseEnqueueSlot\<close> with the result to come.\<close>

datatype enq_stage = EnqEnter | EnqLoaded | EnqCounted | EnqAdmitted | EnqReleasing bool

datatype wk_op =
    OpIdle
  | OpEnq enq_from nat nat co_id enq_stage
  | OpGlobal nat co_id
  | OpSteal nat nat

datatype wk_phase =
    WkLoop
  | WkRunning co_id
  | WkYielded co_id CoroutineYieldDisposition
  | WkDrainWait
  | WkDraining
  | WkExited

record wk_sys =
  cfs :: cfs_sys
  wprocs :: "nat \<Rightarrow> processer"
  m_enqueue_inflight :: "nat \<Rightarrow> int"
  wphase :: "nat \<Rightarrow> wk_phase"
  wop :: "nat \<Rightarrow> wk_op"
  m_global_coroutine_queue :: "nat \<Rightarrow> co_id list"
  m_global_pull_priority :: "nat \<Rightarrow> nat"
  parked :: "co_id set"
  finished :: "co_id set"
  next_co :: nat

abbreviation rq :: "wk_sys \<Rightarrow> nat \<Rightarrow> cfs_queue" where
  "rq s p \<equiv> queues (cfs s) ! p"

abbreviation nproc :: "wk_sys \<Rightarrow> nat" where
  "nproc s \<equiv> length (queues (cfs s))"

definition PRIORITY_NORMAL :: nat where "PRIORITY_NORMAL = 1"
definition PRIORITY_COUNT :: nat where "PRIORITY_COUNT = 4"

definition set_op :: "nat \<Rightarrow> wk_op \<Rightarrow> wk_sys \<Rightarrow> wk_sys" where
  "set_op a x s = s \<lparr>wop := (wop s) (a := x)\<rparr>"

definition set_phase :: "nat \<Rightarrow> wk_phase \<Rightarrow> wk_sys \<Rightarrow> wk_sys" where
  "set_phase p x s = s \<lparr>wphase := (wphase s) (p := x)\<rparr>"

definition admission :: "wk_sys \<Rightarrow> nat \<Rightarrow> bool" where
  "admission s p \<longleftrightarrow> m_admission_open (wprocs s p)"

definition IsActive :: "wk_sys \<Rightarrow> nat \<Rightarrow> bool" where
  "IsActive s p \<longleftrightarrow> m_lifecycle (wprocs s p) = Active"

section \<open>Enqueueing\<close>

text \<open>What the caller of \<open>_EnqueueAdmitted\<close> does next: after a success, and with a task that was refused.\<close>

fun enq_done :: "nat \<Rightarrow> enq_from \<Rightarrow> wk_op" where
  "enq_done p (FromSteal v left) = (if left \<le> 1 then OpIdle else OpSteal v (left - 1))"
| "enq_done p from = OpIdle"

definition enq_refused :: "nat \<Rightarrow> enq_from \<Rightarrow> nat \<Rightarrow> co_id \<Rightarrow> wk_sys \<Rightarrow> wk_sys" where
  "enq_refused a from prio c s = (case from of
       FromRegist (p # ps) \<Rightarrow> set_op a (OpEnq (FromRegist ps) p prio c EnqEnter) s
     | FromRegist [] \<Rightarrow> (set_op a OpIdle s) \<lparr>finished := insert c (finished s)\<rparr>
     | FromRegistOn \<Rightarrow> (set_op a OpIdle s) \<lparr>finished := insert c (finished s)\<rparr>
     | _ \<Rightarrow> set_op a (OpGlobal prio c) s)"

fun EnqueueAdmitted :: "nat \<Rightarrow> enq_from \<Rightarrow> nat \<Rightarrow> nat \<Rightarrow> co_id \<Rightarrow> enq_stage \<Rightarrow> (nat \<Rightarrow> u64) \<Rightarrow> wk_sys \<Rightarrow> wk_sys" where
  "EnqueueAdmitted a from p prio c EnqEnter budget s =
     (if \<not> admission s p then enq_refused a from prio c s else set_op a (OpEnq from p prio c EnqLoaded) s)"
| "EnqueueAdmitted a from p prio c EnqLoaded budget s =
     (set_op a (OpEnq from p prio c EnqCounted) s) \<lparr>m_enqueue_inflight := (m_enqueue_inflight s) (p := m_enqueue_inflight s p + 1)\<rparr>"
| "EnqueueAdmitted a from p prio c EnqCounted budget s =
     set_op a (OpEnq from p prio c (if admission s p then EnqAdmitted else EnqReleasing False)) s"
| "EnqueueAdmitted a from p prio c EnqAdmitted budget s =
     (case Enqueue c c (int prio) (budget prio) (ents (cfs s)) (rq s p) of (b, st, q) \<Rightarrow>
        (set_op a (OpEnq from p prio c (EnqReleasing b)) s) \<lparr>cfs := upd_sys (cfs s) p st q\<rparr>)"
| "EnqueueAdmitted a from p prio c (EnqReleasing b) budget s =
     (let s1 = s \<lparr>m_enqueue_inflight := (m_enqueue_inflight s) (p := m_enqueue_inflight s p - 1)\<rparr> in
      if b then set_op a (enq_done p from) s1 else enq_refused a from prio c s1)"

definition EnqueueGlobal :: "nat \<Rightarrow> nat \<Rightarrow> co_id \<Rightarrow> bool \<Rightarrow> wk_sys \<Rightarrow> wk_sys" where
  "EnqueueGlobal a prio c ok s =
     (if ok then (set_op a OpIdle s) \<lparr>m_global_coroutine_queue :=
        (m_global_coroutine_queue s) (prio := m_global_coroutine_queue s prio @ [c])\<rparr> else s)"

section \<open>Submission and activation\<close>

text \<open>The order in which \<open>_LoadBlance2Proc\<close> tries the active workers.\<close>

definition load_order :: "u32 \<Rightarrow> nat list \<Rightarrow> nat list" where
  "load_order start snap = map (\<lambda>i. snap ! ((unat start + i) mod length snap)) [0..<length snap]"

definition RegistCoroutineTask :: "nat \<Rightarrow> u32 \<Rightarrow> nat list \<Rightarrow> wk_sys \<Rightarrow> wk_sys" where
  "RegistCoroutineTask a start snap s =
     enq_refused a (FromRegist (load_order start snap)) PRIORITY_NORMAL (next_co s) (s \<lparr>next_co := Suc (next_co s)\<rparr>)"

definition RegistCoroutineTaskOn :: "nat \<Rightarrow> nat \<Rightarrow> wk_sys \<Rightarrow> wk_sys" where
  "RegistCoroutineTaskOn a p s =
     set_op a (OpEnq FromRegistOn p PRIORITY_NORMAL (next_co s) EnqEnter) (s \<lparr>next_co := Suc (next_co s)\<rparr>)"

definition OnActiveCoroutine :: "nat \<Rightarrow> nat \<Rightarrow> co_id \<Rightarrow> wk_sys \<Rightarrow> wk_sys" where
  "OnActiveCoroutine a prio c s =
     set_op a (if a < nproc s then OpEnq FromActivate a prio c EnqEnter else OpGlobal prio c) (s \<lparr>parked := parked s - {c}\<rparr>)"

section \<open>The worker\<close>

definition PickNext :: "nat \<Rightarrow> wk_sys \<Rightarrow> wk_sys" where
  "PickNext p s = (case Pick (ents (cfs s)) (rq s p) of
       (None, st, q) \<Rightarrow> s \<lparr>cfs := upd_sys (cfs s) p st q\<rparr>
     | (Some c, st, q) \<Rightarrow> set_phase p (WkRunning c) (s \<lparr>cfs := upd_sys (cfs s) p st q\<rparr>))"

definition ResumeDone :: "nat \<Rightarrow> co_id \<Rightarrow> u64 \<Rightarrow> CoroutineYieldDisposition \<Rightarrow> wk_sys \<Rightarrow> wk_sys option" where
  "ResumeDone p c el d s = (case Account c el (d = EVENT_WAIT) (ents (cfs s)) (rq s p) of
       None \<Rightarrow> None
     | Some (st, q) \<Rightarrow> Some (set_phase p (WkYielded c d) (s \<lparr>cfs := upd_sys (cfs s) p st q\<rparr>)))"

definition CommitDisposition :: "nat \<Rightarrow> co_id \<Rightarrow> CoroutineYieldDisposition \<Rightarrow> wk_sys \<Rightarrow> wk_sys" where
  "CommitDisposition p c d s = set_phase p WkLoop (case d of
       READY \<Rightarrow> set_op p (OpEnq FromReady p PRIORITY_NORMAL c EnqEnter) s
     | YIELD_FINAL \<Rightarrow> s \<lparr>finished := insert c (finished s)\<rparr>
     | _ \<Rightarrow> s \<lparr>parked := insert c (parked s)\<rparr>)"

text \<open>One turn of \<open>_TryGetCoroutineFromGlobal\<close>: the level under the cursor gives up its element \<open>k\<close>, if it has one.\<close>

definition PullGlobal :: "nat \<Rightarrow> nat \<Rightarrow> wk_sys \<Rightarrow> wk_sys" where
  "PullGlobal p k s =
     (let prio = m_global_pull_priority s p;
          s1 = s \<lparr>m_global_pull_priority := (m_global_pull_priority s) (p := (prio + PRIORITY_COUNT - 1) mod PRIORITY_COUNT)\<rparr>;
          g = m_global_coroutine_queue s prio
      in if k < length g
         then set_op p (OpEnq FromPull p prio (g ! k) EnqEnter)
           (s1 \<lparr>m_global_coroutine_queue := (m_global_coroutine_queue s1) (prio := take k g @ drop (Suc k) g)\<rparr>)
         else s1)"

definition steal_once_min :: nat where "steal_once_min = 8"

text \<open>\<open>long_running\<close> is the outcome of the time test, which applies only to a fixed number of workers.\<close>

definition StealBegin :: "nat \<Rightarrow> nat \<Rightarrow> bool \<Rightarrow> wk_sys \<Rightarrow> wk_sys" where
  "StealBegin p v long_running s =
     (if IsActive s p \<and> admission s v \<and> IsActive s v \<and> 0 < Size (rq s v) \<and> long_running
      then set_op p (OpSteal v (if steal_once_min > Size (rq s v) div 2 then steal_once_min else Size (rq s v) div 2)) s
      else s)"

definition StealTake :: "nat \<Rightarrow> nat \<Rightarrow> nat \<Rightarrow> wk_sys \<Rightarrow> wk_sys" where
  "StealTake p v left s = (case Take (ents (cfs s)) (rq s v) of
       (None, st, q) \<Rightarrow> set_op p OpIdle s
     | (Some c, st, q) \<Rightarrow> set_op p (OpEnq (FromSteal v left) p (nat (m_priority (st c))) c EnqEnter) (s \<lparr>cfs := upd_sys (cfs s) v st q\<rparr>))"

text \<open>The worker leaves its loop when its retirement is requested, waits until no enqueue is in flight (\<open>None\<close> while
  there is one) and hands its queue over, one task at a time.\<close>

definition LeaveLoop :: "nat \<Rightarrow> wk_sys \<Rightarrow> wk_sys option" where
  "LeaveLoop p s = (if m_retire_requested (wprocs s p) then Some (set_phase p WkDrainWait s) else None)"

definition WaitEnqueueQuiescent :: "nat \<Rightarrow> wk_sys \<Rightarrow> wk_sys option" where
  "WaitEnqueueQuiescent p s = (if m_enqueue_inflight s p = 0 then Some (set_phase p WkDraining s) else None)"

definition DrainStep :: "nat \<Rightarrow> wk_sys \<Rightarrow> wk_sys" where
  "DrainStep p s = (case Take (ents (cfs s)) (rq s p) of
       (None, st, q) \<Rightarrow> set_phase p WkExited (s \<lparr>wprocs := (wprocs s) (p := (wprocs s p) \<lparr>m_lifecycle := Exited\<rparr>)\<rparr>)
     | (Some c, st, q) \<Rightarrow> set_op p (OpGlobal (nat (m_priority (st c))) c) (s \<lparr>cfs := upd_sys (cfs s) p st q\<rparr>))"

section \<open>The machine\<close>

datatype wk_event =
    WRegist nat u32 "nat list"
  | WRegistOn nat nat
  | WActivate nat nat co_id
  | WEnq nat "nat \<Rightarrow> u64"
  | WGlobal nat bool
  | WPick nat
  | WResumeDone nat u64 CoroutineYieldDisposition
  | WCommit nat
  | WPull nat nat
  | WStealBegin nat nat bool
  | WStealTake nat
  | WLeaveLoop nat
  | WQuiescent nat
  | WDrain nat
  | WActivateProc nat
  | WRetire nat

definition thread_ok :: "wk_sys \<Rightarrow> nat \<Rightarrow> bool" where
  "thread_ok s a \<longleftrightarrow> wop s a = OpIdle \<and> (a < nproc s \<longrightarrow> wphase s a \<noteq> WkExited)"

definition in_loop :: "wk_sys \<Rightarrow> nat \<Rightarrow> bool" where
  "in_loop s p \<longleftrightarrow> p < nproc s \<and> wop s p = OpIdle \<and> wphase s p = WkLoop"

fun wk_exec :: "wk_event \<Rightarrow> wk_sys \<Rightarrow> wk_sys option" where
  "wk_exec (WRegist a start snap) s =
     (if thread_ok s a \<and> (\<forall>p \<in> set snap. p < nproc s) then Some (RegistCoroutineTask a start snap s) else None)"
| "wk_exec (WRegistOn a p) s = (if thread_ok s a \<and> p < nproc s then Some (RegistCoroutineTaskOn a p s) else None)"
| "wk_exec (WActivate a prio c) s = (if thread_ok s a \<and> c \<in> parked s then Some (OnActiveCoroutine a prio c s) else None)"
| "wk_exec (WEnq a budget) s = (case wop s a of
       OpEnq from p prio c stage \<Rightarrow> Some (EnqueueAdmitted a from p prio c stage budget s) | _ \<Rightarrow> None)"
| "wk_exec (WGlobal a ok) s = (case wop s a of OpGlobal prio c \<Rightarrow> Some (EnqueueGlobal a prio c ok s) | _ \<Rightarrow> None)"
| "wk_exec (WPick p) s = (if in_loop s p \<and> \<not> m_retire_requested (wprocs s p) then Some (PickNext p s) else None)"
| "wk_exec (WResumeDone p el d) s = (case wphase s p of
       WkRunning c \<Rightarrow> if p < nproc s \<and> wop s p = OpIdle then ResumeDone p c el d s else None | _ \<Rightarrow> None)"
| "wk_exec (WCommit p) s = (case wphase s p of
       WkYielded c d \<Rightarrow> if p < nproc s \<and> wop s p = OpIdle then Some (CommitDisposition p c d s) else None | _ \<Rightarrow> None)"
| "wk_exec (WPull p k) s = (if in_loop s p \<and> admission s p then Some (PullGlobal p k s) else None)"
| "wk_exec (WStealBegin p v t) s = (if in_loop s p \<and> v < nproc s \<and> v \<noteq> p then Some (StealBegin p v t s) else None)"
| "wk_exec (WStealTake p) s = (case wop s p of
       OpSteal v left \<Rightarrow> if p < nproc s then Some (StealTake p v left s) else None | _ \<Rightarrow> None)"
| "wk_exec (WLeaveLoop p) s = (if in_loop s p then LeaveLoop p s else None)"
| "wk_exec (WQuiescent p) s = (if p < nproc s \<and> wphase s p = WkDrainWait \<and> wop s p = OpIdle
     then WaitEnqueueQuiescent p s else None)"
| "wk_exec (WDrain p) s = (if p < nproc s \<and> wphase s p = WkDraining \<and> wop s p = OpIdle then Some (DrainStep p s) else None)"
| "wk_exec (WActivateProc p) s = (if p < nproc s \<and> m_lifecycle (wprocs s p) = Preparing
     then Some (s \<lparr>wprocs := (wprocs s) (p := Activate (wprocs s p))\<rparr>) else None)"
| "wk_exec (WRetire p) s = (if p < nproc s \<and> m_lifecycle (wprocs s p) = Active
     then Some (s \<lparr>wprocs := (wprocs s) (p := BeginRetire (wprocs s p))\<rparr>) else None)"

definition wk_init :: "nat \<Rightarrow> wk_sys" where
  "wk_init n = \<lparr>cfs = cfs_init n, wprocs = \<lambda>_. processer0, m_enqueue_inflight = \<lambda>_. 0, wphase = \<lambda>_. WkLoop, wop = \<lambda>_. OpIdle,
     m_global_coroutine_queue = \<lambda>_. [], m_global_pull_priority = \<lambda>_. 3, parked = {}, finished = {}, next_co = 0\<rparr>"

section \<open>Where a coroutine is\<close>

datatype wk_loc = InQueue nat | OnCpu nat | InYield nat | InGlobal nat | InHand nat | InPark | InFinished

fun held :: "wk_op \<Rightarrow> co_id set" where
  "held (OpEnq from p prio c stage) = (if stage = EnqReleasing True then {} else {c})"
| "held (OpGlobal prio c) = {c}"
| "held _ = {}"

fun yielded :: "wk_phase \<Rightarrow> co_id set" where
  "yielded (WkYielded c d) = {c}"
| "yielded _ = {}"

fun place :: "wk_sys \<Rightarrow> wk_loc \<Rightarrow> co_id set" where
  "place s (InQueue p) = (if p < nproc s then set (m_queue (rq s p)) else {})"
| "place s (OnCpu p) = (if p < nproc s then set_option (m_running (rq s p)) else {})"
| "place s (InYield p) = yielded (wphase s p)"
| "place s (InGlobal k) = set (m_global_coroutine_queue s k)"
| "place s (InHand a) = held (wop s a)"
| "place s InPark = parked s"
| "place s InFinished = finished s"

definition placed :: "wk_sys \<Rightarrow> bool" where
  "placed s \<longleftrightarrow> (\<forall>c l l'. c \<in> place s l \<longrightarrow> c \<in> place s l' \<longrightarrow> l = l') \<and> (\<forall>c. (\<exists>l. c \<in> place s l) \<longleftrightarrow> c < next_co s)"

lemma placedD: "placed s \<Longrightarrow> c \<in> place s l \<Longrightarrow> c \<in> place s l' \<Longrightarrow> l = l'" "placed s \<Longrightarrow> c \<in> place s l \<Longrightarrow> c < next_co s"
  unfolding placed_def by blast+

lemma placed_same: "placed s \<Longrightarrow> (\<And>l. place t l = place s l) \<Longrightarrow> next_co t = next_co s \<Longrightarrow> placed t"
  by (simp add: placed_def)

lemma placed_move:
  assumes p: "placed s" and c: "c \<in> place s l0"
    and t: "\<And>l. place t l = (if l = l1 then insert c (place s l) else if l = l0 then place s l - {c} else place s l)"
    and n: "next_co t = next_co s"
  shows "placed t"
proof -
  have u: "c \<in> place t l \<longleftrightarrow> l = l1" for l using placedD(1) [OF p c, of l] t [of l] by auto
  have o: "c' \<in> place t l \<longleftrightarrow> c' \<in> place s l" if "c' \<noteq> c" for c' l using that t [of l] by auto
  show ?thesis unfolding placed_def n
  proof (intro conjI allI)
    fix c' l l'
    show "c' \<in> place t l \<longrightarrow> c' \<in> place t l' \<longrightarrow> l = l'"
      using u by (cases "c' = c") (simp, metis o placedD(1) [OF p])
  next
    fix c'
    show "(\<exists>l. c' \<in> place t l) \<longleftrightarrow> c' < next_co s"
    proof (cases "c' = c")
      case True
      then show ?thesis using u placedD(2) [OF p c] by blast
    next
      case False
      then show ?thesis using o p by (auto simp: placed_def)
    qed
  qed
qed

lemma placed_new:
  assumes p: "placed s" and t: "\<And>l. place t l = (if l = l1 then insert (next_co s) (place s l) else place s l)"
    and n: "next_co t = Suc (next_co s)"
  shows "placed t"
proof -
  have f: "next_co s \<notin> place s l" for l using placedD(2) [OF p, of "next_co s" l] by auto
  then have u: "next_co s \<in> place t l \<longleftrightarrow> l = l1" for l using t [of l] by auto
  have o: "c' \<in> place t l \<longleftrightarrow> c' \<in> place s l" if "c' \<noteq> next_co s" for c' l using that t [of l] by auto
  show ?thesis unfolding placed_def n
  proof (intro conjI allI)
    fix c' l l'
    show "c' \<in> place t l \<longrightarrow> c' \<in> place t l' \<longrightarrow> l = l'"
      using u by (cases "c' = next_co s") (simp, metis o placedD(1) [OF p])
  next
    fix c'
    show "(\<exists>l. c' \<in> place t l) \<longleftrightarrow> c' < Suc (next_co s)"
      using u o p by (cases "c' = next_co s") (auto simp: placed_def less_Suc_eq)
  qed
qed

section \<open>Invariant\<close>

definition proc_ok :: "processer \<Rightarrow> bool" where
  "proc_ok p \<longleftrightarrow> (m_admission_open p \<longleftrightarrow> m_lifecycle p = Active) \<and> (m_retire_requested p \<longleftrightarrow> m_lifecycle p \<in> {Retiring, Exited})"

fun from_ok :: "nat \<Rightarrow> enq_from \<Rightarrow> bool" where
  "from_ok n (FromRegist ps) \<longleftrightarrow> (\<forall>p \<in> set ps. p < n)"
| "from_ok n (FromSteal v left) \<longleftrightarrow> v < n"
| "from_ok n _ \<longleftrightarrow> True"

fun op_ok :: "nat \<Rightarrow> wk_op \<Rightarrow> bool" where
  "op_ok n (OpEnq from p prio c stage) \<longleftrightarrow> p < n \<and> from_ok n from"
| "op_ok n (OpSteal v left) \<longleftrightarrow> v < n"
| "op_ok n _ \<longleftrightarrow> True"

definition wk_struct :: "wk_sys \<Rightarrow> bool" where
  "wk_struct s \<longleftrightarrow> (\<forall>a. op_ok (nproc s) (wop s a)) \<and> (\<forall>p. proc_ok (wprocs s p)) \<and>
     (\<forall>p < nproc s. \<forall>c. m_running (rq s p) = Some c \<longleftrightarrow> wphase s p = WkRunning c) \<and>
     (\<forall>p. wphase s p \<in> {WkDrainWait, WkDraining, WkExited} \<longrightarrow> m_retire_requested (wprocs s p)) \<and>
     (\<forall>k. distinct (m_global_coroutine_queue s k)) \<and> finite {a. wop s a \<noteq> OpIdle}"

fun counted :: "nat \<Rightarrow> wk_op \<Rightarrow> bool" where
  "counted p (OpEnq from p' prio c stage) \<longleftrightarrow> p' = p \<and> stage \<notin> {EnqEnter, EnqLoaded}"
| "counted p _ \<longleftrightarrow> False"

fun admitted :: "nat \<Rightarrow> wk_op \<Rightarrow> bool" where
  "admitted p (OpEnq from p' prio c stage) \<longleftrightarrow> p' = p \<and> stage = EnqAdmitted"
| "admitted p _ \<longleftrightarrow> False"

text \<open>The in-flight counter counts the threads between their registration and their release, and none of
  them has passed the second check once the retiring worker has found the counter at zero.\<close>

definition wk_flight :: "wk_sys \<Rightarrow> bool" where
  "wk_flight s \<longleftrightarrow> (\<forall>p. m_enqueue_inflight s p = int (card {a. counted p (wop s a)})) \<and>
     (\<forall>p a. admitted p (wop s a) \<longrightarrow> wphase s p \<notin> {WkDraining, WkExited}) \<and>
     (\<forall>p < nproc s. wphase s p = WkExited \<longrightarrow> m_queue (rq s p) = [])"

definition wk_inv :: "wk_sys \<Rightarrow> bool" where
  "wk_inv s \<longleftrightarrow> cfs_inv (cfs s) \<and> wk_struct s \<and> placed s \<and> wk_flight s"

lemma wk_structD:
  assumes "wk_struct s"
  shows "op_ok (nproc s) (wop s a)" "proc_ok (wprocs s p)"
    "p < nproc s \<Longrightarrow> m_running (rq s p) = Some c \<longleftrightarrow> wphase s p = WkRunning c"
    "wphase s p \<in> {WkDrainWait, WkDraining, WkExited} \<Longrightarrow> m_retire_requested (wprocs s p)"
    "distinct (m_global_coroutine_queue s k)" "finite {a. wop s a \<noteq> OpIdle}"
  using assms unfolding wk_struct_def by blast+

lemma wk_flightD:
  assumes "wk_flight s"
  shows "m_enqueue_inflight s p = int (card {a. counted p (wop s a)})"
    "admitted p (wop s a) \<Longrightarrow> wphase s p \<notin> {WkDraining, WkExited}"
    "p < nproc s \<Longrightarrow> wphase s p = WkExited \<Longrightarrow> m_queue (rq s p) = []"
  using assms unfolding wk_flight_def by blast+

lemma finite_counted: "wk_struct s \<Longrightarrow> finite {a. counted p (wop s a)}"
  using wk_structD(6) by (rule finite_subset [rotated]) auto

lemma finite_ops_upd: "finite {a. f a \<noteq> OpIdle} \<Longrightarrow> finite {a. (f (b := x)) a \<noteq> OpIdle}"
  by (rule finite_subset [of _ "insert b {a. f a \<noteq> OpIdle}"]) auto

section \<open>Effects of the elementary updates\<close>

lemma op_sel [simp]:
  "cfs (set_op a x s) = cfs s" "wprocs (set_op a x s) = wprocs s" "m_enqueue_inflight (set_op a x s) = m_enqueue_inflight s"
  "wphase (set_op a x s) = wphase s" "wop (set_op a x s) = (wop s) (a := x)" "m_global_coroutine_queue (set_op a x s) = m_global_coroutine_queue s"
  "m_global_pull_priority (set_op a x s) = m_global_pull_priority s" "parked (set_op a x s) = parked s" "finished (set_op a x s) = finished s"
  "next_co (set_op a x s) = next_co s"
  by (simp_all add: set_op_def)

lemma phase_sel [simp]:
  "cfs (set_phase a y s) = cfs s" "wprocs (set_phase a y s) = wprocs s" "m_enqueue_inflight (set_phase a y s) = m_enqueue_inflight s"
  "wphase (set_phase a y s) = (wphase s) (a := y)" "wop (set_phase a y s) = wop s" "m_global_coroutine_queue (set_phase a y s) = m_global_coroutine_queue s"
  "m_global_pull_priority (set_phase a y s) = m_global_pull_priority s" "parked (set_phase a y s) = parked s" "finished (set_phase a y s) = finished s"
  "next_co (set_phase a y s) = next_co s"
  by (simp_all add: set_phase_def)

lemma nproc_upd_sys [simp]: "length (queues (upd_sys S p st q)) = length (queues S)"
  by (simp add: upd_sys_def)

lemma place_op [simp]: "place (set_op a x s) l = (if l = InHand a then held x else place s l)"
  by (cases l) auto

lemma place_phase [simp]: "place (set_phase p y s) l = (if l = InYield p then yielded y else place s l)"
  by (cases l) auto

lemma place_parked [simp]: "place (s \<lparr>parked := X\<rparr>) l = (if l = InPark then X else place s l)"
  by (cases l) auto

lemma place_finished [simp]: "place (s \<lparr>finished := X\<rparr>) l = (if l = InFinished then X else place s l)"
  by (cases l) auto

lemma place_global [simp]: "place (s \<lparr>m_global_coroutine_queue := (m_global_coroutine_queue s) (k := g)\<rparr>) l = (if l = InGlobal k then set g else place s l)"
  by (cases l) auto

lemma place_cfs: "p < nproc s \<Longrightarrow> place (s \<lparr>cfs := upd_sys (cfs s) p st q\<rparr>) l =
    (if l = InQueue p then set (m_queue q) else if l = OnCpu p then set_option (m_running q) else place s l)"
  by (cases l) (auto simp: upd_sys_def)

lemma place_other [simp]:
  "place (s \<lparr>wprocs := w\<rparr>) l = place s l" "place (s \<lparr>m_enqueue_inflight := f\<rparr>) l = place s l"
  "place (s \<lparr>m_global_pull_priority := g\<rparr>) l = place s l" "place (s \<lparr>next_co := n\<rparr>) l = place s l"
  by (cases l; simp)+

lemma struct_op: "wk_struct s \<Longrightarrow> op_ok (nproc s) x \<Longrightarrow> wk_struct (set_op a x s)"
  using finite_ops_upd [of "wop s" a x] by (auto simp: wk_struct_def)

definition cnt :: "nat \<Rightarrow> wk_op \<Rightarrow> int" where
  "cnt p x = (if counted p x then 1 else 0)"

lemma card_counted:
  assumes "wk_struct s"
  shows "int (card {b. counted p (((wop s) (a := x)) b)}) = int (card {b. counted p (wop s b)}) - cnt p (wop s a) + cnt p x"
proof -
  let ?A = "{b. b \<noteq> a \<and> counted p (wop s b)}"
  have fin: "finite ?A" using finite_counted [OF assms, of p] by (rule finite_subset [rotated]) auto
  have "{b. counted p (((wop s) (a := x)) b)} = (if counted p x then insert a ?A else ?A)" by auto
  moreover have "{b. counted p (wop s b)} = (if counted p (wop s a) then insert a ?A else ?A)" by auto
  ultimately show ?thesis using fin by (simp add: cnt_def)
qed

lemma flight_update:
  assumes f: "wk_flight s" and st: "wk_struct s" and c: "\<And>p. f p = m_enqueue_inflight s p - cnt p (wop s a) + cnt p x"
    and d: "\<And>p. admitted p x \<Longrightarrow> wphase s p \<notin> {WkDraining, WkExited}"
  shows "wk_flight ((set_op a x s) \<lparr>m_enqueue_inflight := f\<rparr>)"
  using f d card_counted [OF st, of _ a x] by (auto simp: wk_flight_def c)

lemma flight_op:
  assumes "wk_flight s" "wk_struct s" "\<And>p. counted p x = counted p (wop s a)"
    "\<And>p. admitted p x \<Longrightarrow> wphase s p \<notin> {WkDraining, WkExited}"
  shows "wk_flight (set_op a x s)"
proof -
  have "wk_flight ((set_op a x s) \<lparr>m_enqueue_inflight := m_enqueue_inflight s\<rparr>)"
    by (rule flight_update [OF assms(1,2)]) (use assms(3,4) in \<open>simp_all add: cnt_def\<close>)
  then show ?thesis by (simp add: wk_flight_def)
qed

lemma struct_other [simp]:
  "wk_struct (s \<lparr>m_enqueue_inflight := f\<rparr>) = wk_struct s" "wk_struct (s \<lparr>m_global_pull_priority := g\<rparr>) = wk_struct s"
  "wk_struct (s \<lparr>parked := X\<rparr>) = wk_struct s" "wk_struct (s \<lparr>finished := X\<rparr>) = wk_struct s" "wk_struct (s \<lparr>next_co := n\<rparr>) = wk_struct s"
  by (simp_all add: wk_struct_def)

lemma flight_other [simp]:
  "wk_flight (s \<lparr>wprocs := w\<rparr>) = wk_flight s" "wk_flight (s \<lparr>m_global_pull_priority := g\<rparr>) = wk_flight s"
  "wk_flight (s \<lparr>parked := X\<rparr>) = wk_flight s" "wk_flight (s \<lparr>finished := X\<rparr>) = wk_flight s" "wk_flight (s \<lparr>next_co := n\<rparr>) = wk_flight s"
  "wk_flight (s \<lparr>m_global_coroutine_queue := gq\<rparr>) = wk_flight s"
  by (simp_all add: wk_flight_def)

lemma struct_global: "wk_struct s \<Longrightarrow> distinct g \<Longrightarrow> wk_struct (s \<lparr>m_global_coroutine_queue := (m_global_coroutine_queue s) (k := g)\<rparr>)"
  by (auto simp: wk_struct_def)

lemma struct_procs: "wk_struct s \<Longrightarrow> proc_ok x \<Longrightarrow> (m_retire_requested (wprocs s p) \<Longrightarrow> m_retire_requested x) \<Longrightarrow> wk_struct (s \<lparr>wprocs := (wprocs s) (p := x)\<rparr>)"
  by (auto simp: wk_struct_def)

lemma struct_cfs:
  assumes "wk_struct s" "p < nproc s" "\<And>c. m_running q = Some c \<longleftrightarrow> wphase s p = WkRunning c"
  shows "wk_struct (s \<lparr>cfs := upd_sys (cfs s) p st q\<rparr>)"
  using assms by (auto simp: wk_struct_def upd_sys_def nth_list_update)

lemma flight_cfs:
  assumes "wk_flight s" "p < nproc s" "wphase s p = WkExited \<Longrightarrow> m_queue q = []"
  shows "wk_flight (s \<lparr>cfs := upd_sys (cfs s) p st q\<rparr>)"
  using assms by (auto simp: wk_flight_def upd_sys_def nth_list_update)

section \<open>Enqueueing keeps the invariant\<close>

lemma hand_unlinked:
  assumes "cfs_inv (cfs s)" "placed s" "c \<in> place s (InHand a)"
  shows "\<not> linked (ents (cfs s) c)" "p < nproc s \<Longrightarrow> m_running (rq s p) \<noteq> Some c"
proof -
  have no: "c \<notin> place s l" if "l \<noteq> InHand a" for l using placedD(1) [OF assms(2,3)] that by metis
  show "\<not> linked (ents (cfs s) c)"
  proof
    assume "linked (ents (cfs s) c)"
    then obtain p where "p < nproc s" "c \<in> set (m_queue (rq s p))" using cfs_inv_linked [OF assms(1)] by blast
    then show False using no [of "InQueue p"] by simp
  qed
  show "p < nproc s \<Longrightarrow> m_running (rq s p) \<noteq> Some c" using no [of "OnCpu p"] by auto
qed

lemma Enqueue_hand:
  assumes inv: "cfs_inv (cfs s)" "placed s" and c: "c \<in> place s (InHand a)" and p: "p < nproc s"
    and e: "Enqueue c c pr w (ents (cfs s)) (rq s p) = (b, st, q)"
  shows "b" "set (m_queue q) = insert c (set (m_queue (rq s p)))" "m_running q = m_running (rq s p)" "cfs_inv (upd_sys (cfs s) p st q)"
proof -
  note u = hand_unlinked [OF inv c]
  show "b" "set (m_queue q) = insert c (set (m_queue (rq s p)))" "m_running q = m_running (rq s p)"
    using e u(1) u(2) [OF p] by (auto simp: Enqueue_def Let_def)
  have "\<not> runs_elsewhere (cfs s) p c" using u(2) by (auto simp: runs_elsewhere_def list_ex_iff)
  then have "cfs_exec (EvEnqueue p c pr w) (cfs s) = Some (upd_sys (cfs s) p st q)" using e p by simp
  then show "cfs_inv (upd_sys (cfs s) p st q)" by (rule cfs_step_inv [OF inv(1)])
qed

lemma enq_refused_cases:
  obtains x where "enq_refused a from prio c s = set_op a x s" "held x = {c}" "\<And>p. \<not> counted p x" "\<And>p. \<not> admitted p x"
    "from_ok n from \<Longrightarrow> op_ok n x"
  | "enq_refused a from prio c s = (set_op a OpIdle s) \<lparr>finished := insert c (finished s)\<rparr>"
proof (cases "from")
  case (FromRegist ps)
  then show thesis using that by (cases ps) (auto simp: enq_refused_def)
next
  case FromRegistOn
  then show thesis using that(2) by (simp add: enq_refused_def)
qed (use that(1) [of "OpGlobal prio c"] in \<open>simp_all add: enq_refused_def\<close>)

lemma refused_inv:
  assumes inv: "cfs_inv (cfs s)" "wk_struct s" "placed s" "wk_flight s"
    and op: "wop s a = OpEnq from p prio c stage" "stage \<noteq> EnqReleasing True"
    and f: "\<And>q. f q = m_enqueue_inflight s q - cnt q (wop s a)"
  shows "wk_inv (enq_refused a from prio c (s \<lparr>m_enqueue_inflight := f\<rparr>))"
proof -
  have hand: "place s (InHand a) = {c}" using op by simp
  have ok: "from_ok (nproc s) from" using wk_structD(1) [OF inv(2), of a] op by simp
  show ?thesis
  proof (rule enq_refused_cases [of a "from" prio c "s \<lparr>m_enqueue_inflight := f\<rparr>" "nproc s"])
    fix x assume x: "enq_refused a from prio c (s \<lparr>m_enqueue_inflight := f\<rparr>) = set_op a x (s \<lparr>m_enqueue_inflight := f\<rparr>)" "held x = {c}"
      "\<And>p. \<not> counted p x" "\<And>p. \<not> admitted p x" "from_ok (nproc s) from \<Longrightarrow> op_ok (nproc s) x"
    have e: "set_op a x (s \<lparr>m_enqueue_inflight := f\<rparr>) = (set_op a x s) \<lparr>m_enqueue_inflight := f\<rparr>" by (simp add: set_op_def)
    have "placed (set_op a x (s \<lparr>m_enqueue_inflight := f\<rparr>))"
      by (rule placed_same [OF inv(3)]) (use hand x(2) in auto)
    moreover have "wk_flight ((set_op a x s) \<lparr>m_enqueue_inflight := f\<rparr>)"
      by (rule flight_update [OF inv(4,2)]) (use f x(3,4) in \<open>simp_all add: cnt_def\<close>)
    ultimately show ?thesis unfolding x(1) wk_inv_def using inv(1) struct_op [OF inv(2) x(5) [OF ok], of a] by (simp add: e)
  next
    assume x: "enq_refused a from prio c (s \<lparr>m_enqueue_inflight := f\<rparr>) =
      (set_op a OpIdle (s \<lparr>m_enqueue_inflight := f\<rparr>)) \<lparr>finished := insert c (finished (s \<lparr>m_enqueue_inflight := f\<rparr>))\<rparr>"
    let ?t = "(set_op a OpIdle s) \<lparr>m_enqueue_inflight := f, finished := insert c (finished s)\<rparr>"
    have e: "enq_refused a from prio c (s \<lparr>m_enqueue_inflight := f\<rparr>) = ?t" unfolding x by (simp add: set_op_def)
    have "placed ?t" by (rule placed_move [OF inv(3), of c "InHand a" _ InFinished]) (use hand in auto)
    moreover have "wk_flight ((set_op a OpIdle s) \<lparr>m_enqueue_inflight := f\<rparr>)"
      by (rule flight_update [OF inv(4,2)]) (use f in \<open>simp_all add: cnt_def\<close>)
    ultimately show ?thesis unfolding e wk_inv_def using inv(1) struct_op [OF inv(2), of OpIdle a] by simp
  qed
qed

text \<open>A step that only changes the program point of a thread and keeps what it holds.\<close>

lemma op_only_inv:
  assumes inv: "wk_inv s" and h: "held x = held (wop s a)" and ok: "op_ok (nproc s) x" and c: "\<And>p. counted p x = counted p (wop s a)"
    and d: "\<And>p. admitted p x \<Longrightarrow> wphase s p \<notin> {WkDraining, WkExited}"
  shows "wk_inv (set_op a x s)"
proof -
  have i: "cfs_inv (cfs s)" "wk_struct s" "placed s" "wk_flight s" using inv by (simp_all add: wk_inv_def)
  have "placed (set_op a x s)" by (rule placed_same [OF i(3)]) (use h in auto)
  then show ?thesis using i struct_op [OF i(2) ok] flight_op [OF i(4,2) c d] by (simp add: wk_inv_def)
qed

lemma open_not_draining:
  assumes "wk_struct s" "admission s p" shows "wphase s p \<notin> {WkDrainWait, WkDraining, WkExited}"
  using wk_structD(2,4) [OF assms(1), of p] assms(2) by (auto simp: admission_def proc_ok_def)

lemma EnqueueAdmitted_inv:
  assumes inv: "wk_inv s" and op: "wop s a = OpEnq from p prio c stage"
  shows "wk_inv (EnqueueAdmitted a from p prio c stage budget s)"
proof -
  have i: "cfs_inv (cfs s)" "wk_struct s" "placed s" "wk_flight s" using inv by (simp_all add: wk_inv_def)
  have ok: "p < nproc s" "from_ok (nproc s) from" using wk_structD(1) [OF i(2), of a] op by simp_all
  have ref: "wk_inv (enq_refused a from prio c s)" if "\<And>q. \<not> counted q (wop s a)" "stage \<noteq> EnqReleasing True"
    using refused_inv [OF i op that(2), of "m_enqueue_inflight s"] that(1) by (simp add: cnt_def)
  show ?thesis
  proof (cases stage)
    case EnqEnter
    have "wk_inv (set_op a (OpEnq from p prio c EnqLoaded) s)" by (rule op_only_inv [OF inv]) (use op ok EnqEnter in auto)
    then show ?thesis using EnqEnter ref op by auto
  next
    case EnqLoaded
    let ?x = "OpEnq from p prio c EnqCounted"
    have "placed ((set_op a ?x s) \<lparr>m_enqueue_inflight := (m_enqueue_inflight s) (p := m_enqueue_inflight s p + 1)\<rparr>)"
      by (rule placed_same [OF i(3)]) (use op EnqLoaded in auto)
    moreover have "wk_flight ((set_op a ?x s) \<lparr>m_enqueue_inflight := (m_enqueue_inflight s) (p := m_enqueue_inflight s p + 1)\<rparr>)"
      by (rule flight_update [OF i(4,2)]) (use op EnqLoaded in \<open>auto simp: cnt_def\<close>)
    ultimately show ?thesis using EnqLoaded i struct_op [OF i(2), of ?x a] ok by (simp add: wk_inv_def)
  next
    case EnqCounted
    have "wk_inv (set_op a (OpEnq from p prio c (if admission s p then EnqAdmitted else EnqReleasing False)) s)"
      by (rule op_only_inv [OF inv]) (use op ok EnqCounted open_not_draining [OF i(2)] in \<open>auto split: if_splits\<close>)
    then show ?thesis using EnqCounted by simp
  next
    case EnqAdmitted
    have hand: "place s (InHand a) = {c}" using op EnqAdmitted by simp
    obtain b st q where e: "Enqueue c c (int prio) (budget prio) (ents (cfs s)) (rq s p) = (b, st, q)" by (metis prod_cases3)
    have ch: "c \<in> place s (InHand a)" using hand by simp
    note E = Enqueue_hand [OF i(1,3) ch ok(1) e]
    let ?u = "s \<lparr>cfs := upd_sys (cfs s) p st q\<rparr>" and ?x = "OpEnq from p prio c (EnqReleasing True)"
    have t: "EnqueueAdmitted a from p prio c stage budget s = set_op a ?x ?u"
      using e E(1) EnqAdmitted by (simp add: set_op_def)
    have nx: "wphase s p \<noteq> WkExited" using wk_flightD(2) [OF i(4), of p a] op EnqAdmitted by simp
    have su: "wk_struct ?u" by (rule struct_cfs [OF i(2) ok(1)]) (use E(3) wk_structD(3) [OF i(2) ok(1)] in simp)
    have fu: "wk_flight ?u" by (rule flight_cfs [OF i(4) ok(1)]) (use nx in simp)
    have "placed (set_op a ?x ?u)"
    proof (rule placed_move [OF i(3), of c "InHand a" _ "InQueue p"])
      show "place (set_op a ?x ?u) l = (if l = InQueue p then insert c (place s l) else if l = InHand a then place s l - {c} else place s l)" for l
        unfolding place_op place_cfs [OF ok(1)] E(2,3) using hand ok(1) by simp
    qed (use hand in simp_all)
    moreover have "wk_struct (set_op a ?x ?u)" by (rule struct_op [OF su]) (use ok in simp)
    moreover have "wk_flight (set_op a ?x ?u)" by (rule flight_op [OF fu su]) (use op EnqAdmitted in auto)
    ultimately show ?thesis unfolding t using E(4) by (simp add: wk_inv_def)
  next
    case (EnqReleasing b)
    define f where "f = (m_enqueue_inflight s) (p := m_enqueue_inflight s p - 1)"
    have f: "f q = m_enqueue_inflight s q - cnt q (wop s a)" for q using op EnqReleasing by (simp add: f_def cnt_def)
    show ?thesis
    proof (cases b)
      case False
      have "wk_inv (enq_refused a from prio c (s \<lparr>m_enqueue_inflight := f\<rparr>))"
        by (rule refused_inv [OF i op]) (use False EnqReleasing f in simp_all)
      then show ?thesis using EnqReleasing False by (simp add: f_def Let_def)
    next
      case True
      let ?x = "enq_done p from"
      have x: "held ?x = {}" "\<And>q. \<not> counted q ?x" "\<And>q. \<not> admitted q ?x" "op_ok (nproc s) ?x"
        using ok(2) by (cases "from"; simp)+
      have t: "EnqueueAdmitted a from p prio c stage budget s = (set_op a ?x s) \<lparr>m_enqueue_inflight := f\<rparr>"
        using EnqReleasing True by (simp add: f_def set_op_def Let_def)
      have "placed ((set_op a ?x s) \<lparr>m_enqueue_inflight := f\<rparr>)"
        by (rule placed_same [OF i(3)]) (use op EnqReleasing True x(1) in auto)
      moreover have "wk_flight ((set_op a ?x s) \<lparr>m_enqueue_inflight := f\<rparr>)"
        by (rule flight_update [OF i(4,2)]) (use f x in \<open>simp_all add: cnt_def\<close>)
      ultimately show ?thesis unfolding t using i struct_op [OF i(2) x(4)] by (simp add: wk_inv_def)
    qed
  qed
qed

section \<open>The other steps\<close>

lemma set_remove_nth: "distinct g \<Longrightarrow> k < length g \<Longrightarrow> set (take k g @ drop (Suc k) g) = set g - {g ! k}"
  and distinct_remove_nth: "distinct g \<Longrightarrow> distinct (take k g @ drop (Suc k) g)"
proof -
  assume d: "distinct g" "k < length g"
  then have g: "g = take k g @ g ! k # drop (Suc k) g" by (simp add: id_take_nth_drop)
  with d(1) have "g ! k \<notin> set (take k g @ drop (Suc k) g)" by (metis distinct.simps(2) distinct_append not_distinct_conv_prefix
      disjoint_iff set_append list.set_intros(1) Un_iff)
  then show "set (take k g @ drop (Suc k) g) = set g - {g ! k}" using g by (metis Diff_insert_absorb Un_insert_right list.simps(15) set_append)
next
  assume "distinct g"
  then show "distinct (take k g @ drop (Suc k) g)" by (simp add: set_take_disj_set_drop_if_distinct)
qed

lemma EnqueueGlobal_inv:
  assumes inv: "wk_inv s" and op: "wop s a = OpGlobal prio c"
  shows "wk_inv (EnqueueGlobal a prio c ok s)"
proof (cases ok)
  case True
  have i: "cfs_inv (cfs s)" "wk_struct s" "placed s" "wk_flight s" using inv by (simp_all add: wk_inv_def)
  have hand: "place s (InHand a) = {c}" using op by simp
  let ?g = "m_global_coroutine_queue s prio @ [c]"
  let ?u = "s \<lparr>m_global_coroutine_queue := (m_global_coroutine_queue s) (prio := ?g)\<rparr>"
  have "c \<notin> set (m_global_coroutine_queue s prio)" using placedD(1) [OF i(3), of c "InHand a" "InGlobal prio"] hand by auto
  then have d: "distinct ?g" using wk_structD(5) [OF i(2)] by simp
  have t: "EnqueueGlobal a prio c ok s = set_op a OpIdle ?u" using True by (simp add: EnqueueGlobal_def set_op_def)
  have su: "wk_struct ?u" by (rule struct_global [OF i(2) d])
  have "placed (set_op a OpIdle ?u)"
    by (rule placed_move [OF i(3), of c "InHand a" _ "InGlobal prio"]) (use hand in auto)
  moreover have "wk_struct (set_op a OpIdle ?u)" by (rule struct_op [OF su]) simp
  moreover have "wk_flight (set_op a OpIdle ?u)" by (rule flight_op) (use i(4) su op in simp_all)
  ultimately show ?thesis unfolding t using i(1) by (simp add: wk_inv_def)
qed (use inv in \<open>simp add: EnqueueGlobal_def\<close>)

lemma new_op_inv:
  assumes inv: "wk_inv s" and idle: "wop s a = OpIdle" and x: "held x = {next_co s}" "op_ok (nproc s) x" "\<And>p. \<not> counted p x" "\<And>p. \<not> admitted p x"
  shows "wk_inv (set_op a x (s \<lparr>next_co := Suc (next_co s)\<rparr>))"
proof -
  have i: "cfs_inv (cfs s)" "wk_struct s" "placed s" "wk_flight s" using inv by (simp_all add: wk_inv_def)
  let ?u = "s \<lparr>next_co := Suc (next_co s)\<rparr>"
  have "placed (set_op a x ?u)" by (rule placed_new [OF i(3), of _ "InHand a"]) (use idle x(1) in auto)
  moreover have "wk_struct (set_op a x ?u)" by (rule struct_op) (use i(2) x(2) in simp_all)
  moreover have "wk_flight (set_op a x ?u)" by (rule flight_op) (use i(2,4) x(3,4) idle in simp_all)
  ultimately show ?thesis using i(1) by (simp add: wk_inv_def)
qed

lemma load_order_ok: "\<forall>p \<in> set snap. p < n \<Longrightarrow> p \<in> set (load_order start snap) \<Longrightarrow> p < n"
  by (auto simp: load_order_def) (metis length_pos_if_in_set less_nat_zero_code mod_less_divisor neq0_conv nth_mem not_gr_zero)

lemma Regist_inv:
  assumes inv: "wk_inv s" and idle: "wop s a = OpIdle" and snap: "\<forall>p \<in> set snap. p < nproc s"
  shows "wk_inv (RegistCoroutineTask a start snap s)"
proof (cases "load_order start snap")
  case Nil
  have i: "cfs_inv (cfs s)" "wk_struct s" "placed s" "wk_flight s" using inv by (simp_all add: wk_inv_def)
  have t: "RegistCoroutineTask a start snap s = s \<lparr>wop := (wop s) (a := OpIdle), finished := insert (next_co s) (finished s), next_co := Suc (next_co s)\<rparr>"
    using Nil by (simp add: RegistCoroutineTask_def enq_refused_def set_op_def)
  have "(wop s) (a := OpIdle) = wop s" using idle by auto
  then have t': "RegistCoroutineTask a start snap s = s \<lparr>finished := insert (next_co s) (finished s), next_co := Suc (next_co s)\<rparr>" using t by simp
  have "placed (s \<lparr>finished := insert (next_co s) (finished s), next_co := Suc (next_co s)\<rparr>)"
    by (rule placed_new [OF i(3), of _ InFinished]) auto
  then show ?thesis unfolding t' using i by (simp add: wk_inv_def)
next
  case (Cons p ps)
  have "\<forall>q \<in> set (p # ps). q < nproc s" using load_order_ok [OF snap] Cons by metis
  then show ?thesis using Cons new_op_inv [OF inv idle, of "OpEnq (FromRegist ps) p PRIORITY_NORMAL (next_co s) EnqEnter"]
    by (simp add: RegistCoroutineTask_def enq_refused_def)
qed

lemma OnActive_inv:
  assumes inv: "wk_inv s" and idle: "wop s a = OpIdle" and c: "c \<in> parked s"
  shows "wk_inv (OnActiveCoroutine a prio c s)"
proof -
  have i: "cfs_inv (cfs s)" "wk_struct s" "placed s" "wk_flight s" using inv by (simp_all add: wk_inv_def)
  define x where "x = (if a < nproc s then OpEnq FromActivate a prio c EnqEnter else OpGlobal prio c)"
  have x: "held x = {c}" "op_ok (nproc s) x" "\<not> counted p x" "\<not> admitted p x" for p by (simp_all add: x_def)
  let ?u = "s \<lparr>parked := parked s - {c}\<rparr>"
  have "placed (set_op a x ?u)" by (rule placed_move [OF i(3), of c InPark _ "InHand a"]) (use c idle x(1) in auto)
  moreover have "wk_struct (set_op a x ?u)" by (rule struct_op) (use i(2) x(2) in simp_all)
  moreover have "wk_flight (set_op a x ?u)" by (rule flight_op) (use i(2,4) x(3,4) idle in simp_all)
  ultimately show ?thesis using i(1) by (simp add: wk_inv_def OnActiveCoroutine_def x_def [symmetric])
qed

text \<open>The queue operations of the worker, as steps of the system of queues.\<close>

lemma Pick_some:
  assumes "cfs_inv S" "p < length (queues S)" "Pick (ents S) (queues S ! p) = (Some c, st, q)"
  shows "m_queue (queues S ! p) = c # m_queue q" "m_running (queues S ! p) = None" "m_running q = Some c" "cfs_inv (upd_sys S p st q)"
proof -
  show "m_queue (queues S ! p) = c # m_queue q" "m_running (queues S ! p) = None" "m_running q = Some c"
    using assms(3) by (auto simp: Pick_def split: if_splits list.splits)
  have "cfs_exec (EvPick p) S = Some (upd_sys S p st q)" using assms by simp
  then show "cfs_inv (upd_sys S p st q)" by (rule cfs_step_inv [OF assms(1)])
qed

lemma Take_some:
  assumes "cfs_inv S" "p < length (queues S)" "Take (ents S) (queues S ! p) = (Some c, st, q)"
  shows "m_queue (queues S ! p) = c # m_queue q" "m_running q = m_running (queues S ! p)" "cfs_inv (upd_sys S p st q)"
proof -
  show "m_queue (queues S ! p) = c # m_queue q" "m_running q = m_running (queues S ! p)"
    using assms(3) by (auto simp: Take_def split: list.splits)
  have "cfs_exec (EvTake p) S = Some (upd_sys S p st q)" using assms by simp
  then show "cfs_inv (upd_sys S p st q)" by (rule cfs_step_inv [OF assms(1)])
qed

lemma queue_distinct: "cfs_inv (cfs s) \<Longrightarrow> p < nproc s \<Longrightarrow> distinct (m_queue (rq s p))"
  using cfs_inv_queue by (auto simp: cfs_queue_ok_def)

text \<open>A coroutine taken from the queue of \<open>v\<close> into the hand of an idle thread.\<close>

lemma take_to_hand:
  assumes inv: "wk_inv s" and idle: "held (wop s a) = {}" "\<And>p. \<not> counted p (wop s a)" and v: "v < nproc s"
    and e: "Take (ents (cfs s)) (rq s v) = (Some c, st, q)"
    and x: "held x = {c}" "op_ok (nproc s) x" "\<And>p. \<not> counted p x" "\<And>p. \<not> admitted p x"
  shows "wk_inv (set_op a x (s \<lparr>cfs := upd_sys (cfs s) v st q\<rparr>))"
proof -
  have i: "cfs_inv (cfs s)" "wk_struct s" "placed s" "wk_flight s" using inv by (simp_all add: wk_inv_def)
  note T = Take_some [OF i(1) v e]
  let ?u = "s \<lparr>cfs := upd_sys (cfs s) v st q\<rparr>"
  have d: "set (m_queue q) = set (m_queue (rq s v)) - {c}" using queue_distinct [OF i(1) v] T(1) by auto
  have su: "wk_struct ?u" by (rule struct_cfs [OF i(2) v]) (use T(2) wk_structD(3) [OF i(2) v] in simp)
  have fu: "wk_flight ?u" by (rule flight_cfs [OF i(4) v]) (use wk_flightD(3) [OF i(4) v] T(1) in simp)
  have "placed (set_op a x ?u)"
  proof (rule placed_move [OF i(3), of c "InQueue v" _ "InHand a"])
    show "place (set_op a x ?u) l = (if l = InHand a then insert c (place s l) else if l = InQueue v then place s l - {c} else place s l)" for l
      unfolding place_op place_cfs [OF v] d T(2) using idle(1) x(1) v by simp
  qed (use T(1) v in simp_all)
  moreover have "wk_struct (set_op a x ?u)" by (rule struct_op [OF su]) (use x(2) in simp)
  moreover have "wk_flight (set_op a x ?u)" by (rule flight_op [OF fu su]) (use x(3,4) idle(2) in simp_all)
  ultimately show ?thesis using T(3) by (simp add: wk_inv_def)
qed

lemma struct_phase:
  assumes "wk_struct s" "\<And>c. y \<noteq> WkRunning c" "\<And>c. wphase s p \<noteq> WkRunning c" "y \<in> {WkDrainWait, WkDraining, WkExited} \<Longrightarrow> m_retire_requested (wprocs s p)"
  shows "wk_struct (set_phase p y s)"
  using assms by (auto simp: wk_struct_def)

lemma flight_phase:
  assumes "wk_flight s" "y \<in> {WkDraining, WkExited} \<Longrightarrow> \<forall>a. \<not> admitted p (wop s a)" "p < nproc s \<Longrightarrow> y = WkExited \<Longrightarrow> m_queue (rq s p) = []"
  shows "wk_flight (set_phase p y s)"
  using assms by (auto simp: wk_flight_def)

lemma PickNext_inv:
  assumes inv: "wk_inv s" and p: "p < nproc s" and ph: "wphase s p = WkLoop"
  shows "wk_inv (PickNext p s)"
proof -
  have i: "cfs_inv (cfs s)" "wk_struct s" "placed s" "wk_flight s" using inv by (simp_all add: wk_inv_def)
  obtain r st q where e: "Pick (ents (cfs s)) (rq s p) = (r, st, q)" by (metis prod_cases3)
  show ?thesis
  proof (cases r)
    case None
    then have "upd_sys (cfs s) p st q = cfs s" using e by (auto simp: Pick_def upd_sys_def split: if_splits list.splits)
    then show ?thesis using e None inv by (simp add: PickNext_def)
  next
    case (Some c)
    note P = Pick_some [OF i(1) p e [unfolded Some]]
    let ?t = "set_phase p (WkRunning c) (s \<lparr>cfs := upd_sys (cfs s) p st q\<rparr>)"
    have d: "set (m_queue q) = set (m_queue (rq s p)) - {c}" using queue_distinct [OF i(1) p] P(1) by auto
    have "placed ?t"
    proof (rule placed_move [OF i(3), of c "InQueue p" _ "OnCpu p"])
      show "place ?t l = (if l = OnCpu p then insert c (place s l) else if l = InQueue p then place s l - {c} else place s l)" for l
        unfolding place_phase place_cfs [OF p] d P(3) using P(2) p ph by simp
    qed (use P(1) p in simp_all)
    moreover have "wk_struct ?t" using i(2) p P(3) by (auto simp: wk_struct_def upd_sys_def nth_list_update)
    moreover have "wk_flight ?t" using i(4) p by (auto simp: wk_flight_def upd_sys_def nth_list_update)
    ultimately show ?thesis using e Some P(4) by (simp add: PickNext_def wk_inv_def)
  qed
qed

lemma ResumeDone_inv:
  assumes inv: "wk_inv s" and p: "p < nproc s" and ph: "wphase s p = WkRunning c" and e: "ResumeDone p c el d s = Some t"
  shows "wk_inv t"
proof -
  have i: "cfs_inv (cfs s)" "wk_struct s" "placed s" "wk_flight s" using inv by (simp_all add: wk_inv_def)
  obtain st q where a: "Account c el (d = EVENT_WAIT) (ents (cfs s)) (rq s p) = Some (st, q)"
    and t: "t = set_phase p (WkYielded c d) (s \<lparr>cfs := upd_sys (cfs s) p st q\<rparr>)"
    using e by (auto simp: ResumeDone_def split: option.splits)
  have run: "m_running (rq s p) = Some c" using wk_structD(3) [OF i(2) p] ph by simp
  have q: "m_running q = None" "m_queue q = m_queue (rq s p)" using a by (auto simp: Account_def Let_def split: if_splits)
  have "cfs_exec (EvAccount p c el (d = EVENT_WAIT)) (cfs s) = Some (upd_sys (cfs s) p st q)" using a p by simp
  then have ci: "cfs_inv (upd_sys (cfs s) p st q)" by (rule cfs_step_inv [OF i(1)])
  have "placed t" unfolding t
  proof (rule placed_move [OF i(3), of c "OnCpu p" _ "InYield p"])
    show "place (set_phase p (WkYielded c d) (s \<lparr>cfs := upd_sys (cfs s) p st q\<rparr>)) l =
        (if l = InYield p then insert c (place s l) else if l = OnCpu p then place s l - {c} else place s l)" for l
      unfolding place_phase place_cfs [OF p] q using run p ph by simp
  qed (use run p in simp_all)
  moreover have "wk_struct t" using i(2) p q(1) by (auto simp: t wk_struct_def upd_sys_def nth_list_update)
  moreover have "wk_flight t" using i(4) p by (auto simp: t wk_flight_def upd_sys_def nth_list_update)
  ultimately show ?thesis using ci by (simp add: t wk_inv_def)
qed

lemma Commit_inv:
  assumes inv: "wk_inv s" and p: "p < nproc s" and ph: "wphase s p = WkYielded c d" and idle: "wop s p = OpIdle"
  shows "wk_inv (CommitDisposition p c d s)"
proof -
  have i: "cfs_inv (cfs s)" "wk_struct s" "placed s" "wk_flight s" using inv by (simp_all add: wk_inv_def)
  let ?x = "OpEnq FromReady p PRIORITY_NORMAL c EnqEnter"
  have st: "wk_struct (set_phase p WkLoop s)" by (rule struct_phase [OF i(2)]) (use ph in auto)
  have fl: "wk_flight (set_phase p WkLoop s)" by (rule flight_phase [OF i(4)]) auto
  have y: "place s (InYield p) = {c}" using ph by simp
  have "placed (set_phase p WkLoop (set_op p ?x s))"
    by (rule placed_move [OF i(3), of c "InYield p" _ "InHand p"]) (use y idle in auto)
  moreover have "wk_struct (set_phase p WkLoop (set_op p ?x s))" by (rule struct_phase [OF struct_op [OF i(2)]]) (use ph p in auto)
  moreover have "wk_flight (set_phase p WkLoop (set_op p ?x s))" by (rule flight_phase [OF flight_op [OF i(4,2)]]) (use idle in auto)
  ultimately have r: "wk_inv (set_phase p WkLoop (set_op p ?x s))" using i(1) by (simp add: wk_inv_def)
  have c1: "set_phase p WkLoop (s \<lparr>finished := X\<rparr>) = (set_phase p WkLoop s) \<lparr>finished := X\<rparr>"
    "set_phase p WkLoop (s \<lparr>parked := X\<rparr>) = (set_phase p WkLoop s) \<lparr>parked := X\<rparr>" for X by (simp_all add: set_phase_def)
  have "placed ((set_phase p WkLoop s) \<lparr>finished := insert c (finished s)\<rparr>)"
    by (rule placed_move [OF i(3), of c "InYield p" _ InFinished]) (use y in auto)
  then have f: "wk_inv (set_phase p WkLoop (s \<lparr>finished := insert c (finished s)\<rparr>))" unfolding c1 using i(1) st fl by (simp add: wk_inv_def)
  have "placed ((set_phase p WkLoop s) \<lparr>parked := insert c (parked s)\<rparr>)"
    by (rule placed_move [OF i(3), of c "InYield p" _ InPark]) (use y in auto)
  then have k: "wk_inv (set_phase p WkLoop (s \<lparr>parked := insert c (parked s)\<rparr>))" unfolding c1 using i(1) st fl by (simp add: wk_inv_def)
  show ?thesis using r f k by (cases d) (simp_all add: CommitDisposition_def)
qed

lemma Pull_inv:
  assumes inv: "wk_inv s" and p: "p < nproc s" and idle: "wop s p = OpIdle"
  shows "wk_inv (PullGlobal p k s)"
proof -
  have i: "cfs_inv (cfs s)" "wk_struct s" "placed s" "wk_flight s" using inv by (simp_all add: wk_inv_def)
  define prio where "prio = m_global_pull_priority s p"
  define cur where "cur = (m_global_pull_priority s) (p := (prio + PRIORITY_COUNT - 1) mod PRIORITY_COUNT)"
  define g where "g = m_global_coroutine_queue s prio"
  have pl: "placed (s \<lparr>m_global_pull_priority := cur\<rparr>)" by (rule placed_same [OF i(3)]) auto
  show ?thesis
  proof (cases "k < length g")
    case False
    then show ?thesis using pl i by (simp add: PullGlobal_def Let_def g_def prio_def cur_def wk_inv_def)
  next
    case True
    let ?x = "OpEnq FromPull p prio (g ! k) EnqEnter" and ?g = "take k g @ drop (Suc k) g"
    define u where "u = s \<lparr>m_global_pull_priority := cur\<rparr>"
    let ?v = "u \<lparr>m_global_coroutine_queue := (m_global_coroutine_queue u) (prio := ?g)\<rparr>"
    have t: "PullGlobal p k s = set_op p ?x ?v"
      using True by (simp add: PullGlobal_def Let_def g_def prio_def cur_def u_def)
    have d: "distinct g" using wk_structD(5) [OF i(2)] by (simp add: g_def)
    have su: "wk_struct ?v" by (rule struct_global [OF _ distinct_remove_nth [OF d]]) (use i(2) in \<open>simp add: u_def\<close>)
    have gp: "g ! k \<in> place u (InGlobal prio)" using True by (simp add: u_def g_def)
    have "placed (set_op p ?x ?v)"
    proof (rule placed_move [OF pl [folded u_def] gp])
      show "place (set_op p ?x ?v) l = (if l = InHand p then insert (g ! k) (place u l) else if l = InGlobal prio then place u l - {g ! k} else place u l)" for l
        unfolding place_op place_global set_remove_nth [OF d True] using idle by (simp add: u_def g_def)
    qed simp
    moreover have "wk_struct (set_op p ?x ?v)" by (rule struct_op [OF su]) (use p in \<open>simp add: u_def\<close>)
    moreover have "wk_flight (set_op p ?x ?v)" by (rule flight_op [OF _ su]) (use i(4) idle in \<open>simp_all add: u_def\<close>)
    ultimately show ?thesis unfolding t using i(1) by (simp add: wk_inv_def u_def)
  qed
qed

lemma Drain_inv:
  assumes inv: "wk_inv s" and p: "p < nproc s" and ph: "wphase s p = WkDraining" and idle: "wop s p = OpIdle"
  shows "wk_inv (DrainStep p s)"
proof -
  have i: "cfs_inv (cfs s)" "wk_struct s" "placed s" "wk_flight s" using inv by (simp_all add: wk_inv_def)
  obtain r st q where e: "Take (ents (cfs s)) (rq s p) = (r, st, q)" by (metis prod_cases3)
  show ?thesis
  proof (cases r)
    case (Some c)
    then show ?thesis using e take_to_hand [OF inv _ _ p, of p c st q "OpGlobal (nat (m_priority (st c))) c"] idle
      by (simp add: DrainStep_def)
  next
    case None
    then have empty: "m_queue (rq s p) = []" using e by (auto simp: Take_def split: list.splits)
    let ?u = "s \<lparr>wprocs := (wprocs s) (p := (wprocs s p) \<lparr>m_lifecycle := Exited\<rparr>)\<rparr>"
    have ret: "m_retire_requested (wprocs s p)" using wk_structD(4) [OF i(2), of p] ph by simp
    have su: "wk_struct ?u"
      by (rule struct_procs [OF i(2)]) (use ret wk_structD(2) [OF i(2), of p] in \<open>auto simp: proc_ok_def\<close>)
    have "placed (set_phase p WkExited ?u)" by (rule placed_same [OF i(3)]) (use ph in auto)
    moreover have "wk_struct (set_phase p WkExited ?u)" by (rule struct_phase [OF su]) (use ph ret in auto)
    moreover have "wk_flight (set_phase p WkExited ?u)"
      by (rule flight_phase) (use i(4) empty wk_flightD(2) [OF i(4), of p] ph in auto)
    ultimately show ?thesis using e None i(1) by (simp add: DrainStep_def wk_inv_def)
  qed
qed

lemma admitted_counted: "admitted p x \<Longrightarrow> counted p x"
  by (cases x) auto

lemma Quiescent_inv:
  assumes inv: "wk_inv s" and ph: "wphase s p = WkDrainWait" and z: "m_enqueue_inflight s p = 0"
  shows "wk_inv (set_phase p WkDraining s)"
proof -
  have i: "cfs_inv (cfs s)" "wk_struct s" "placed s" "wk_flight s" using inv by (simp_all add: wk_inv_def)
  have "{a. counted p (wop s a)} = {}" using wk_flightD(1) [OF i(4), of p] z finite_counted [OF i(2), of p] by simp
  then have no: "\<not> admitted p (wop s a)" for a using admitted_counted [of p "wop s a"] by auto
  have "placed (set_phase p WkDraining s)" by (rule placed_same [OF i(3)]) (use ph in auto)
  moreover have "wk_struct (set_phase p WkDraining s)" by (rule struct_phase [OF i(2)]) (use ph wk_structD(4) [OF i(2), of p] in auto)
  moreover have "wk_flight (set_phase p WkDraining s)" by (rule flight_phase [OF i(4)]) (use no in auto)
  ultimately show ?thesis using i(1) by (simp add: wk_inv_def)
qed

lemma wk_inv_step:
  assumes inv: "wk_inv s" and ex: "wk_exec e s = Some t" shows "wk_inv t"
proof -
  have i: "cfs_inv (cfs s)" "wk_struct s" "placed s" "wk_flight s" using inv by (simp_all add: wk_inv_def)
  have pr: "wk_inv (s \<lparr>wprocs := (wprocs s) (p := x)\<rparr>)" if "proc_ok x" "m_retire_requested (wprocs s p) \<Longrightarrow> m_retire_requested x" for p x
  proof -
    have "placed (s \<lparr>wprocs := (wprocs s) (p := x)\<rparr>)" by (rule placed_same [OF i(3)]) auto
    then show ?thesis using i struct_procs [OF i(2) that] by (simp add: wk_inv_def)
  qed
  show ?thesis
  proof (cases e)
    case (WRegist a start snap)
    then show ?thesis using ex Regist_inv [OF inv] by (auto simp: thread_ok_def split: if_splits)
  next
    case (WRegistOn a p)
    then show ?thesis using ex new_op_inv [OF inv, of a "OpEnq FromRegistOn p PRIORITY_NORMAL (next_co s) EnqEnter"]
      by (auto simp: thread_ok_def RegistCoroutineTaskOn_def split: if_splits)
  next
    case (WActivate a prio c)
    then show ?thesis using ex OnActive_inv [OF inv] by (auto simp: thread_ok_def split: if_splits)
  next
    case (WEnq a budget)
    then show ?thesis using ex EnqueueAdmitted_inv [OF inv] by (auto split: wk_op.splits)
  next
    case (WGlobal a ok)
    then show ?thesis using ex EnqueueGlobal_inv [OF inv] by (auto split: wk_op.splits)
  next
    case (WPick p)
    then show ?thesis using ex PickNext_inv [OF inv] by (auto simp: in_loop_def split: if_splits)
  next
    case (WResumeDone p el d)
    then show ?thesis using ex ResumeDone_inv [OF inv] by (auto split: wk_phase.splits if_splits)
  next
    case (WCommit p)
    then show ?thesis using ex Commit_inv [OF inv] by (auto split: wk_phase.splits if_splits)
  next
    case (WPull p k)
    then show ?thesis using ex Pull_inv [OF inv] by (auto simp: in_loop_def split: if_splits)
  next
    case (WStealBegin p v b)
    then have "p < nproc s" "wop s p = OpIdle" "v < nproc s" "t = StealBegin p v b s" using ex by (auto simp: in_loop_def split: if_splits)
    then show ?thesis using inv op_only_inv [OF inv, of "OpSteal v _" p] by (simp add: StealBegin_def)
  next
    case (WStealTake p)
    then obtain v left where v: "wop s p = OpSteal v left" "p < nproc s" "t = StealTake p v left s" using ex by (auto split: wk_op.splits if_splits)
    then have vn: "v < nproc s" using wk_structD(1) [OF i(2), of p] by simp
    obtain r st q where e: "Take (ents (cfs s)) (rq s v) = (r, st, q)" by (metis prod_cases3)
    show ?thesis
    proof (cases r)
      case None
      then show ?thesis using e v op_only_inv [OF inv, of OpIdle p] by (simp add: StealTake_def)
    next
      case (Some c)
      then show ?thesis using e v vn take_to_hand [OF inv _ _ vn, of p c st q "OpEnq (FromSteal v left) p (nat (m_priority (st c))) c EnqEnter"]
        by (simp add: StealTake_def)
    qed
  next
    case (WLeaveLoop p)
    then have l: "wphase s p = WkLoop" "m_retire_requested (wprocs s p)" "t = set_phase p WkDrainWait s" using ex by (auto simp: in_loop_def LeaveLoop_def split: if_splits)
    have "placed t" unfolding l(3) by (rule placed_same [OF i(3)]) (use l(1) in auto)
    then show ?thesis using i l struct_phase [OF i(2), of WkDrainWait p] flight_phase [OF i(4), of WkDrainWait p] by (simp add: wk_inv_def)
  next
    case (WQuiescent p)
    then show ?thesis using ex Quiescent_inv [OF inv] by (auto simp: WaitEnqueueQuiescent_def split: if_splits)
  next
    case (WDrain p)
    then show ?thesis using ex Drain_inv [OF inv] by (auto split: if_splits)
  next
    case (WActivateProc p)
    then show ?thesis using ex pr [of "Activate (wprocs s p)" p] wk_structD(2) [OF i(2), of p]
      by (auto simp: Activate_def proc_ok_def split: if_splits)
  next
    case (WRetire p)
    then show ?thesis using ex pr [of "BeginRetire (wprocs s p)" p] wk_structD(2) [OF i(2), of p]
      by (auto simp: BeginRetire_def proc_ok_def split: if_splits)
  qed
qed

lemma wk_init_inv: "wk_inv (wk_init n)"
proof -
  have p: "place (wk_init n) l = {}" for l by (cases l) (auto simp: wk_init_def cfs_init_def cfs_queue0_def)
  have "cfs_inv (cfs (wk_init n))" by (simp add: wk_init_def cfs_init_inv)
  moreover have "placed (wk_init n)" unfolding placed_def p by (simp add: wk_init_def)
  moreover have "wk_struct (wk_init n)" by (simp add: wk_struct_def wk_init_def proc_ok_def processer0_def cfs_init_def cfs_queue0_def)
  moreover have "wk_flight (wk_init n)" by (simp add: wk_flight_def wk_init_def)
  ultimately show ?thesis by (simp add: wk_inv_def)
qed

interpretation workers: invariant_machine wk_exec wk_inv
  by unfold_locales (rule wk_inv_step)

lemma wk_reaches: "reaches wk_exec (wk_init n) s \<Longrightarrow> wk_inv s"
  using workers.reaches_inv wk_init_inv by blast

text \<open>The thread of an exited worker carries nothing.\<close>

definition wk_hands :: "wk_sys \<Rightarrow> bool" where
  "wk_hands s \<longleftrightarrow> (\<forall>p < nproc s. wphase s p = WkExited \<longrightarrow> wop s p = OpIdle)"

lemma enq_refused_sel [simp]:
  "cfs (enq_refused a from prio c s) = cfs s" "wphase (enq_refused a from prio c s) = wphase s"
  "b \<noteq> a \<Longrightarrow> wop (enq_refused a from prio c s) b = wop s b"
  by (auto simp: enq_refused_def split: enq_from.splits list.splits)

lemma EnqueueAdmitted_sel:
  "nproc (EnqueueAdmitted a from p prio c stage budget s) = nproc s" "wphase (EnqueueAdmitted a from p prio c stage budget s) = wphase s"
  "b \<noteq> a \<Longrightarrow> wop (EnqueueAdmitted a from p prio c stage budget s) b = wop s b"
  by (cases stage; simp add: Let_def split: prod.splits)+

lemma wk_hands_step:
  assumes h: "wk_hands s" and ex: "wk_exec e s = Some t" shows "wk_hands t"
proof -
  have K: "wk_hands t" if "nproc t = nproc s" "\<And>b. b \<noteq> a \<Longrightarrow> wop t b = wop s b" "\<And>b. b \<noteq> a \<Longrightarrow> wphase t b = wphase s b"
    "a < nproc s \<Longrightarrow> wphase t a \<noteq> WkExited \<or> wop t a = OpIdle" for a
    using h that unfolding wk_hands_def by (metis (no_types))
  show ?thesis
  proof (cases e)
    case (WEnq a budget)
    then obtain fr p prio c stage where o: "wop s a = OpEnq fr p prio c stage" "t = EnqueueAdmitted a fr p prio c stage budget s"
      using ex by (auto split: wk_op.splits)
    show ?thesis by (rule K [of a]) (use o h in \<open>auto simp: EnqueueAdmitted_sel wk_hands_def\<close>)
  next
    case (WGlobal a ok)
    then show ?thesis using ex h by (intro K [of a]) (auto simp: EnqueueGlobal_def wk_hands_def split: wk_op.splits if_splits)
  next
    case (WRegist a start snap)
    then show ?thesis using ex by (intro K [of a]) (auto simp: thread_ok_def RegistCoroutineTask_def split: if_splits)
  next
    case (WRegistOn a p)
    then show ?thesis using ex by (intro K [of a]) (auto simp: thread_ok_def RegistCoroutineTaskOn_def split: if_splits)
  next
    case (WActivate a prio c)
    then show ?thesis using ex by (intro K [of a]) (auto simp: thread_ok_def OnActiveCoroutine_def split: if_splits)
  next
    case (WPick p)
    then show ?thesis using ex by (intro K [of p]) (auto simp: in_loop_def PickNext_def split: if_splits prod.splits option.splits)
  next
    case (WResumeDone p el d)
    then show ?thesis using ex by (intro K [of p]) (auto simp: ResumeDone_def split: wk_phase.splits if_splits option.splits)
  next
    case (WCommit p)
    then show ?thesis using ex by (intro K [of p]) (auto simp: CommitDisposition_def split: wk_phase.splits if_splits CoroutineYieldDisposition.splits)
  next
    case (WPull p k)
    then show ?thesis using ex by (intro K [of p]) (auto simp: in_loop_def PullGlobal_def Let_def split: if_splits)
  next
    case (WStealBegin p v b)
    then show ?thesis using ex by (intro K [of p]) (auto simp: in_loop_def StealBegin_def split: if_splits)
  next
    case (WStealTake p)
    then show ?thesis using ex h by (intro K [of p]) (auto simp: StealTake_def wk_hands_def split: wk_op.splits if_splits prod.splits option.splits)
  next
    case (WDrain p)
    then show ?thesis using ex by (intro K [of p]) (auto simp: DrainStep_def split: if_splits prod.splits option.splits)
  qed (use ex h in \<open>auto simp: wk_hands_def in_loop_def LeaveLoop_def WaitEnqueueQuiescent_def split: if_splits\<close>)
qed

interpretation hands: invariant_machine wk_exec wk_hands
  by unfold_locales (rule wk_hands_step)

text \<open>Every step is a step of the system of ready queues or leaves it alone.\<close>

lemma wk_cfs_step:
  assumes inv: "wk_inv s" and ex: "wk_exec e s = Some t"
  shows "cfs t = cfs s \<or> (\<exists>ev. cfs_exec ev (cfs s) = Some (cfs t))"
proof -
  have i: "cfs_inv (cfs s)" "wk_struct s" "placed s" using inv by (simp_all add: wk_inv_def)
  show ?thesis
  proof (cases e)
    case (WEnq a budget)
    then obtain fr p prio c stage where o: "wop s a = OpEnq fr p prio c stage" "t = EnqueueAdmitted a fr p prio c stage budget s"
      using ex by (auto split: wk_op.splits)
    show ?thesis
    proof (cases "stage = EnqAdmitted")
      case True
      obtain b st q where q: "Enqueue c c (int prio) (budget prio) (ents (cfs s)) (rq s p) = (b, st, q)" by (metis prod_cases3)
      have "c \<in> place s (InHand a)" using o(1) True by simp
      then have "\<not> runs_elsewhere (cfs s) p c" using hand_unlinked(2) [OF i(1,3)] by (auto simp: runs_elsewhere_def list_ex_iff)
      moreover have "p < nproc s" using wk_structD(1) [OF i(2), of a] o(1) by simp
      ultimately have "cfs_exec (EvEnqueue p c (int prio) (budget prio)) (cfs s) = Some (cfs t)" using q o True by simp
      then show ?thesis by blast
    next
      case False
      then show ?thesis using o by (cases stage) (auto simp: Let_def)
    qed
  next
    case (WPick p)
    then have "cfs_exec (EvPick p) (cfs s) = Some (cfs t)"
      using ex by (auto simp: in_loop_def PickNext_def split: if_splits prod.splits option.splits)
    then show ?thesis by blast
  next
    case (WResumeDone p el d)
    then obtain c where "p < nproc s" "ResumeDone p c el d s = Some t" using ex by (auto split: wk_phase.splits if_splits)
    then have "cfs_exec (EvAccount p c el (d = EVENT_WAIT)) (cfs s) = Some (cfs t)"
      by (auto simp: ResumeDone_def split: option.splits)
    then show ?thesis by blast
  next
    case (WStealTake p)
    then obtain v left where v: "wop s p = OpSteal v left" "t = StealTake p v left s" using ex by (auto split: wk_op.splits if_splits)
    then have "v < nproc s" using wk_structD(1) [OF i(2), of p] by simp
    then have "cfs t = cfs s \<or> cfs_exec (EvTake v) (cfs s) = Some (cfs t)" using v by (auto simp: StealTake_def split: prod.splits option.splits)
    then show ?thesis by blast
  next
    case (WDrain p)
    then have "cfs t = cfs s \<or> cfs_exec (EvTake p) (cfs s) = Some (cfs t)"
      using ex by (auto simp: DrainStep_def split: if_splits prod.splits option.splits)
    then show ?thesis by blast
  qed (use ex in \<open>auto simp: RegistCoroutineTask_def RegistCoroutineTaskOn_def OnActiveCoroutine_def EnqueueGlobal_def
      CommitDisposition_def PullGlobal_def Let_def StealBegin_def LeaveLoop_def WaitEnqueueQuiescent_def split: if_splits wk_op.splits wk_phase.splits CoroutineYieldDisposition.splits\<close>)
qed

section \<open>Properties\<close>

text \<open>C1. No runnable coroutine is ever lost or run twice. In every interleaving of submissions, wake-ups, worker loops,
  steals, global pulls, activations and retirements, each coroutine created so far is in exactly one place: one
  ready queue, running on one worker, settled there after its yield, in one global queue, in the hand of one
  thread, waiting for an event, or finished (or rejected at submission); no queue holds it twice. A worker that
  has exited left nothing behind and never receives anything again: its ready queue is empty, it runs
  nothing and its thread carries nothing.\<close>

theorem work_conserved:
  assumes "reaches wk_exec (wk_init n) s"
  shows "(\<forall>c. (c < next_co s \<longrightarrow> (\<exists>!l. c \<in> place s l)) \<and> (next_co s \<le> c \<longrightarrow> (\<forall>l. c \<notin> place s l))) \<and>
    (\<forall>k. distinct (m_global_coroutine_queue s k)) \<and>
    (\<forall>p < nproc s. distinct (m_queue (rq s p)) \<and>
      (wphase s p = WkExited \<longrightarrow> m_queue (rq s p) = [] \<and> m_running (rq s p) = None \<and> wop s p = OpIdle \<and> \<not> admission s p))"
proof -
  have inv: "cfs_inv (cfs s)" "wk_struct s" "placed s" "wk_flight s" using wk_reaches [OF assms] by (simp_all add: wk_inv_def)
  have h: "wk_hands s" by (rule hands.reaches_inv [OF assms]) (simp add: wk_hands_def wk_init_def)
  have "(\<exists>!l. c \<in> place s l)" if "c < next_co s" for c using inv(3) that unfolding placed_def by metis
  moreover have "c \<notin> place s l" if "next_co s \<le> c" for c l using placedD(2) [OF inv(3), of c l] that by auto
  moreover have "m_running (rq s p) = None \<and> \<not> admission s p" if p: "p < nproc s" "wphase s p = WkExited" for p
    using wk_structD(2-4) [OF inv(2), of p] p by (cases "m_running (rq s p)") (auto simp: proc_ok_def admission_def)
  ultimately show ?thesis using queue_distinct [OF inv(1)] wk_structD(5) [OF inv(2)] wk_flightD(3) [OF inv(4)] h
    by (simp add: wk_hands_def)
qed

definition wk_demo :: "wk_event list" where
  "wk_demo = [WActivateProc 0, WActivateProc 1] @
     [WRegist 9 0 [0, 1]] @ replicate 5 (WEnq 9 (\<lambda>_. 150)) @
     [WRegist 9 2 [0, 1], WEnq 9 (\<lambda>_. 150), WEnq 9 (\<lambda>_. 150), WEnq 9 (\<lambda>_. 150),
      WPick 0, WRetire 0, WEnq 9 (\<lambda>_. 150), WResumeDone 0 7 READY, WCommit 0, WEnq 0 (\<lambda>_. 150), WGlobal 0 True,
      WLeaveLoop 0, WEnq 9 (\<lambda>_. 150), WQuiescent 0, WDrain 0, WGlobal 0 True, WDrain 0,
      WPull 1 0, WPull 1 0, WPull 1 0] @ replicate 5 (WEnq 1 (\<lambda>_. 150))"

lemma wk_demo_run:
  "case run wk_exec wk_demo (wk_init 2) of None \<Rightarrow> False
   | Some s \<Rightarrow> wphase s 0 = WkExited \<and> next_co s = 2 \<and> m_global_coroutine_queue s 1 = [1] \<and> m_queue (rq s 1) = [0] \<and> nproc s = 2"
  by code_simp

theorem work_conserved_witness:
  "\<exists>s. reaches wk_exec (wk_init 2) s \<and> wphase s 0 = WkExited \<and> m_queue (rq s 0) = [] \<and> (\<exists>!l. 1 \<in> place s l) \<and> 1 \<in> place s (InGlobal 1)"
proof -
  obtain s where s: "reaches wk_exec (wk_init 2) s" "wphase s 0 = WkExited" "next_co s = 2" "m_global_coroutine_queue s 1 = [1]" "nproc s = 2"
    using run_demo [OF wk_demo_run] by blast
  then show ?thesis using work_conserved [OF s(1)] by (intro exI [of _ s]) simp
qed

text \<open>C2. The Processers keep the protocol of the ready queues: whatever the interleaving, the operations on the queues form
  a run of the queue system whose premise is that a coroutine is enqueued only while no Processer runs it. Every
  property of the ready queues (order, floors, ownership) therefore holds in the running scheduler, and the
  \<open>std::terminate\<close> of \<open>Account\<close> is never reached by a worker that finishes a resume.\<close>

theorem work_refines_queues:
  assumes "reaches wk_exec (wk_init n) s"
  shows "reaches cfs_exec (cfs_init n) (cfs s) \<and>
    (\<forall>p c el d. p < nproc s \<longrightarrow> wphase s p = WkRunning c \<longrightarrow> ResumeDone p c el d s \<noteq> None)"
  using assms
proof (induction rule: reaches.induct)
  case reaches_init
  have "cfs (wk_init n) = cfs_init n" by (simp add: wk_init_def)
  then show ?case by (auto simp: wk_init_def)
next
  case (reaches_step s e t)
  have t: "wk_struct t" using wk_reaches [OF reaches.reaches_step [OF reaches_step.hyps]] by (simp add: wk_inv_def)
  have "reaches cfs_exec (cfs_init n) (cfs t)"
    using wk_cfs_step [OF wk_reaches [OF reaches_step.hyps(1)] reaches_step.hyps(2)] reaches_step.IH
    by (metis reaches.reaches_step)
  moreover have "ResumeDone p c el d t \<noteq> None" if "p < nproc t" "wphase t p = WkRunning c" for p c el d
    using wk_structD(3) [OF t that(1)] that(2) by (auto simp: ResumeDone_def Account_def Let_def split: option.splits)
  ultimately show ?case by blast
qed

theorem work_refines_queues_witness:
  "\<exists>s. reaches wk_exec (wk_init 2) s \<and> wphase s 0 = WkExited \<and> reaches cfs_exec (cfs_init 2) (cfs s)"
  using run_demo [OF wk_demo_run] work_refines_queues by blast

end
