(* ===== verification/DriverModel.thy ===== *)
theory DriverModel
  imports Prelude
begin

text \<open>
  The driver slot of one Processer (\<open>detail/Processer.cc\<close>, \<open>detail/DriverWakeDeferral.cc\<close>, the driver entries of
  \<open>detail/Scheduler.cc\<close>): binding under a fresh generation, callback leases, failures, deferred wake-ups and
  the removal of a driver by a leader and any number of joiners. Each section under the slot mutex or the
  mutex of a binding is one step; callbacks of a driver are stack frames of the calling thread and may
  call back into the runtime. Threads are the numbers below the bound of the machine.
\<close>

section \<open>Data\<close>

datatype ProcesserDriverState = Unbound | Bound | Failed | Detaching

datatype ProcesserDriverStatus = DrvOk | DrvNotInitialized | DrvInvalidTarget | DrvInvalidDriver | Occupied | StaleToken | SelfDetach

datatype ProcesserDriverFailure = FailNone | FailTick | FailWait

record driver_binding =
  m_state :: ProcesserDriverState
  m_failure :: ProcesserDriverFailure
  m_inflight :: nat
  m_terminal_wake_reserved :: bool
  m_detached :: bool

definition driver_binding0 :: driver_binding where
  "driver_binding0 = \<lparr>m_state = Bound, m_failure = FailNone, m_inflight = 0, m_terminal_wake_reserved = False, m_detached = False\<rparr>"

text \<open>The program points of \<open>_UnregisterDriver\<close> after its checks.\<close>

datatype unreg_stage = UArrived | UJoiner | ULeader | UTerminal | UWait | UClear | UDetach

text \<open>A thread between reading the slot and asking for a lease, inside a callback under a lease, or unregistering.\<close>

datatype drv_frame =
    FRead u64
  | FCalling u64
  | FUnreg u64 unreg_stage

record drv_sys =
  m_driver_binding :: "u64 option"
  m_driver_next_generation :: u64
  bindings :: "u64 \<Rightarrow> driver_binding"
  p_active :: bool
  frames :: "nat \<Rightarrow> drv_frame list"
  tl_depth :: "nat \<Rightarrow> nat"
  tl_pending :: "nat \<Rightarrow> bool"
  unreg_ok :: "u64 list"

definition push_frame :: "nat \<Rightarrow> drv_frame \<Rightarrow> drv_sys \<Rightarrow> drv_sys" where
  "push_frame t f s = s \<lparr>frames := (frames s) (t := f # frames s t)\<rparr>"

definition pop_frame :: "nat \<Rightarrow> drv_sys \<Rightarrow> drv_sys" where
  "pop_frame t s = s \<lparr>frames := (frames s) (t := tl (frames s t))\<rparr>"

definition set_frame :: "nat \<Rightarrow> drv_frame \<Rightarrow> drv_sys \<Rightarrow> drv_sys" where
  "set_frame t f s = s \<lparr>frames := (frames s) (t := f # tl (frames s t))\<rparr>"

definition upd_binding :: "u64 \<Rightarrow> (driver_binding \<Rightarrow> driver_binding) \<Rightarrow> drv_sys \<Rightarrow> drv_sys" where
  "upd_binding g f s = s \<lparr>bindings := (bindings s) (g := f (bindings s g))\<rparr>"

section \<open>Leases\<close>

fun lease_of :: "drv_frame \<Rightarrow> u64 option" where
  "lease_of (FCalling g) = Some g"
| "lease_of (FUnreg g UTerminal) = Some g"
| "lease_of _ = None"

definition ThreadHolds :: "nat \<Rightarrow> u64 \<Rightarrow> drv_sys \<Rightarrow> bool" where
  "ThreadHolds t g s \<longleftrightarrow> Some g \<in> set (map lease_of (frames s t))"

text \<open>The constructor of \<open>DriverCallbackLease\<close> (Tick, Wait and Wake pass \<open>terminal = False\<close>) and its destructor.\<close>

definition LeaseAcquire :: "nat \<Rightarrow> bool \<Rightarrow> u64 \<Rightarrow> drv_sys \<Rightarrow> drv_sys" where
  "LeaseAcquire t terminal g s =
     (if \<not> m_detached (bindings s g) \<and> (m_state (bindings s g) = Bound \<or> terminal \<and> m_state (bindings s g) = Detaching \<or>
         terminal \<and> m_state (bindings s g) = Failed)
      then set_frame t (FCalling g) (upd_binding g (\<lambda>b. b \<lparr>m_inflight := m_inflight b + 1\<rparr>) s)
      else pop_frame t s)"

definition LeaseRelease :: "u64 \<Rightarrow> drv_sys \<Rightarrow> drv_sys" where
  "LeaseRelease g s = upd_binding g (\<lambda>b. b \<lparr>m_inflight := m_inflight b - 1\<rparr>) s"

definition DriverFail :: "u64 \<Rightarrow> ProcesserDriverFailure \<Rightarrow> drv_sys \<Rightarrow> drv_sys" where
  "DriverFail g source s = upd_binding g (\<lambda>b.
     if m_state b = Detaching then (if m_failure b = FailNone then b \<lparr>m_failure := source\<rparr> else b)
     else if m_state b \<noteq> Bound then b
     else b \<lparr>m_state := Failed, m_failure := source\<rparr>) s"

section \<open>Entering callbacks\<close>

definition GetDriverBinding :: "nat \<Rightarrow> drv_sys \<Rightarrow> drv_sys" where
  "GetDriverBinding t s = (case m_driver_binding s of None \<Rightarrow> s | Some g \<Rightarrow> push_frame t (FRead g) s)"

definition Defer :: "nat \<Rightarrow> drv_sys \<Rightarrow> bool \<times> drv_sys" where
  "Defer t s = (if tl_depth s t = 0 then (False, s) else (True, s \<lparr>tl_pending := (tl_pending s) (t := True)\<rparr>))"

definition WakeDriver :: "nat \<Rightarrow> drv_sys \<Rightarrow> drv_sys" where
  "WakeDriver t s = (case Defer t s of (deferred, s1) \<Rightarrow> if deferred then s1 else GetDriverBinding t s1)"

definition DeferralEnter :: "nat \<Rightarrow> drv_sys \<Rightarrow> drv_sys" where
  "DeferralEnter t s = s \<lparr>tl_depth := (tl_depth s) (t := tl_depth s t + 1)\<rparr>"

definition DeferralExit :: "nat \<Rightarrow> drv_sys \<Rightarrow> drv_sys" where
  "DeferralExit t s =
     (let s1 = s \<lparr>tl_depth := (tl_depth s) (t := tl_depth s t - 1)\<rparr> in
      if 0 < tl_depth s1 t \<or> \<not> tl_pending s1 t then s1
      else WakeDriver t (s1 \<lparr>tl_pending := (tl_pending s1) (t := False)\<rparr>))"

section \<open>Binding and unbinding\<close>

definition BindDriver :: "drv_sys \<Rightarrow> (ProcesserDriverStatus \<times> u64 option) \<times> drv_sys" where
  "BindDriver s =
     (if \<not> p_active s then ((DrvInvalidTarget, None), s)
      else if m_driver_binding s \<noteq> None then ((Occupied, None), s)
      else if m_driver_next_generation s = - 1 then ((DrvInvalidDriver, None), s)
      else let g = m_driver_next_generation s + 1 in
        ((DrvOk, Some g), s \<lparr>m_driver_next_generation := g, m_driver_binding := Some g, bindings := (bindings s) (g := driver_binding0)\<rparr>))"

definition QueryDriver :: "drv_sys \<Rightarrow> ProcesserDriverState \<times> u64 \<times> ProcesserDriverFailure" where
  "QueryDriver s = (case m_driver_binding s of
       None \<Rightarrow> (Unbound, 0, FailNone)
     | Some g \<Rightarrow> (m_state (bindings s g), g, m_failure (bindings s g)))"

text \<open>\<open>UnregisterProcesserDriver\<close> up to the end of the checks; \<open>self_context\<close> says that the caller is the worker of
  the Processer or a coroutine.\<close>

definition UnregisterEnter :: "nat \<Rightarrow> bool \<Rightarrow> u64 \<Rightarrow> drv_sys \<Rightarrow> ProcesserDriverStatus option \<times> drv_sys" where
  "UnregisterEnter t self_context g s =
     (if self_context then (Some SelfDetach, s)
      else if m_driver_binding s \<noteq> Some g then (Some StaleToken, s)
      else if 0 < tl_depth s t \<or> ThreadHolds t g s then (Some SelfDetach, s)
      else (None, push_frame t (FUnreg g UArrived) s))"

fun UnregisterStep :: "nat \<Rightarrow> u64 \<Rightarrow> unreg_stage \<Rightarrow> drv_sys \<Rightarrow> drv_sys option" where
  "UnregisterStep t g UArrived s =
     Some (if \<not> m_terminal_wake_reserved (bindings s g)
       then set_frame t (FUnreg g ULeader) (upd_binding g (\<lambda>b. b \<lparr>m_state := Detaching, m_terminal_wake_reserved := True, m_inflight := m_inflight b + 1\<rparr>) s)
       else set_frame t (FUnreg g UJoiner) s)"
| "UnregisterStep t g UJoiner s =
     (if m_detached (bindings s g) then Some ((pop_frame t s) \<lparr>unreg_ok := g # unreg_ok s\<rparr>) else None)"
| "UnregisterStep t g ULeader s = Some (set_frame t (FUnreg g UTerminal) s)"
| "UnregisterStep t g UTerminal s = Some (set_frame t (FUnreg g UWait) (LeaseRelease g s))"
| "UnregisterStep t g UWait s = (if m_inflight (bindings s g) = 0 then Some (set_frame t (FUnreg g UClear) s) else None)"
| "UnregisterStep t g UClear s =
     Some (set_frame t (FUnreg g UDetach) (if m_driver_binding s = Some g then s \<lparr>m_driver_binding := None\<rparr> else s))"
| "UnregisterStep t g UDetach s =
     Some ((pop_frame t (upd_binding g (\<lambda>b. b \<lparr>m_detached := True\<rparr>) s)) \<lparr>unreg_ok := g # unreg_ok s\<rparr>)"

section \<open>The machine\<close>

datatype drv_event =
    DBind
  | DActive bool
  | DCallback nat
  | DWake nat
  | DEnter nat
  | DExit nat
  | DLease nat
  | DFail nat ProcesserDriverFailure
  | DReturn nat
  | DUnregister nat bool u64
  | DUnregStep nat

text \<open>A thread is in its own code or in that of a driver callback when its top frame, if any, holds a lease.\<close>

definition in_user_code :: "nat \<Rightarrow> drv_sys \<Rightarrow> bool" where
  "in_user_code t s \<longleftrightarrow> (case frames s t of [] \<Rightarrow> True | f # _ \<Rightarrow> lease_of f \<noteq> None)"

fun drv_exec :: "nat \<Rightarrow> drv_event \<Rightarrow> drv_sys \<Rightarrow> drv_sys option" where
  "drv_exec n DBind s = Some (snd (BindDriver s))"
| "drv_exec n (DActive b) s = Some (s \<lparr>p_active := b\<rparr>)"
| "drv_exec n (DCallback t) s = (if t < n \<and> in_user_code t s then Some (GetDriverBinding t s) else None)"
| "drv_exec n (DWake t) s = (if t < n \<and> in_user_code t s then Some (WakeDriver t s) else None)"
| "drv_exec n (DEnter t) s = (if t < n \<and> in_user_code t s then Some (DeferralEnter t s) else None)"
| "drv_exec n (DExit t) s = (if t < n \<and> in_user_code t s \<and> 0 < tl_depth s t then Some (DeferralExit t s) else None)"
| "drv_exec n (DLease t) s = (case frames s t of FRead g # _ \<Rightarrow> if t < n then Some (LeaseAcquire t False g s) else None | _ \<Rightarrow> None)"
| "drv_exec n (DFail t x) s = (case frames s t of FCalling g # _ \<Rightarrow> if t < n then Some (DriverFail g x s) else None | _ \<Rightarrow> None)"
| "drv_exec n (DReturn t) s = (case frames s t of
       FCalling g # _ \<Rightarrow> if t < n then Some (pop_frame t (LeaseRelease g s)) else None | _ \<Rightarrow> None)"
| "drv_exec n (DUnregister t self_context g) s =
     (if t < n \<and> in_user_code t s then Some (snd (UnregisterEnter t self_context g s)) else None)"
| "drv_exec n (DUnregStep t) s = (case frames s t of
       FUnreg g st # _ \<Rightarrow> if t < n then UnregisterStep t g st s else None | _ \<Rightarrow> None)"

definition drv_init :: drv_sys where
  "drv_init = \<lparr>m_driver_binding = None, m_driver_next_generation = 0, bindings = \<lambda>_. driver_binding0, p_active = True,
     frames = \<lambda>_. [], tl_depth = \<lambda>_. 0, tl_pending = \<lambda>_. False, unreg_ok = []\<rparr>"

section \<open>Counting frames\<close>

definition total :: "nat \<Rightarrow> (drv_frame \<Rightarrow> nat) \<Rightarrow> (nat \<Rightarrow> drv_frame list) \<Rightarrow> nat" where
  "total n w fr = (\<Sum>t<n. sum_list (map w (fr t)))"

lemma total_upd:
  assumes "t < n"
  shows "total n w (fr (t := fs)) + sum_list (map w (fr t)) = total n w fr + sum_list (map w fs)"
proof -
  let ?h = "\<lambda>g i. sum_list (map w (g i))"
  have "(\<Sum>i<n. ?h (fr (t := fs)) i) = ?h (fr (t := fs)) t + (\<Sum>i\<in>{..<n} - {t}. ?h (fr (t := fs)) i)"
    using assms by (simp add: sum.remove)
  moreover have "(\<Sum>i<n. ?h fr i) = ?h fr t + (\<Sum>i\<in>{..<n} - {t}. ?h fr i)" using assms by (simp add: sum.remove)
  moreover have "(\<Sum>i\<in>{..<n} - {t}. ?h (fr (t := fs)) i) = (\<Sum>i\<in>{..<n} - {t}. ?h fr i)" by (rule sum.cong) auto
  ultimately show ?thesis unfolding total_def by simp
qed

lemma total_pos: "0 < total n w fr \<longleftrightarrow> (\<exists>t<n. \<exists>f \<in> set (fr t). 0 < w f)"
proof -
  have z: "sum_list (map w xs) = 0 \<longleftrightarrow> (\<forall>f \<in> set xs. w f = 0)" for xs by (induction xs) auto
  have "total n w fr = 0 \<longleftrightarrow> (\<forall>t<n. \<forall>f \<in> set (fr t). w f = 0)"
    unfolding total_def sum_eq_0_iff [OF finite_lessThan] z by auto
  then show ?thesis by (metis neq0_conv)
qed

definition lw :: "u64 \<Rightarrow> drv_frame \<Rightarrow> nat" where
  "lw g f = (if lease_of f = Some g \<or> f = FUnreg g ULeader then 1 else 0)"

fun leads :: "u64 \<Rightarrow> drv_frame \<Rightarrow> bool" where
  "leads g (FUnreg g' st) \<longleftrightarrow> g' = g \<and> st \<notin> {UArrived, UJoiner}"
| "leads g _ \<longleftrightarrow> False"

definition dw :: "u64 \<Rightarrow> drv_frame \<Rightarrow> nat" where
  "dw g f = (if leads g f then 1 else 0)"

fun gen_of :: "drv_frame \<Rightarrow> u64" where
  "gen_of (FRead g) = g"
| "gen_of (FCalling g) = g"
| "gen_of (FUnreg g st) = g"

section \<open>Invariant\<close>

fun stack_ok :: "drv_frame list \<Rightarrow> bool" where
  "stack_ok [] \<longleftrightarrow> True"
| "stack_ok (f # fs) \<longleftrightarrow> (\<forall>f' \<in> set fs. lease_of f' \<noteq> None) \<and> ((\<exists>g st. f = FUnreg g st) \<longrightarrow> fs = []) \<and> stack_ok fs"

definition drv_stack :: "nat \<Rightarrow> drv_sys \<Rightarrow> bool" where
  "drv_stack n s \<longleftrightarrow> (\<forall>t\<ge>n. frames s t = []) \<and> (\<forall>t. stack_ok (frames s t)) \<and>
     (\<forall>t. \<forall>f \<in> set (frames s t). gen_of f \<le> m_driver_next_generation s \<and> gen_of f \<noteq> 0) \<and>
     (\<forall>g \<in> set (unreg_ok s). g \<le> m_driver_next_generation s)"

definition drv_count :: "nat \<Rightarrow> drv_sys \<Rightarrow> bool" where
  "drv_count n s \<longleftrightarrow> (\<forall>g. total n (lw g) (frames s) = m_inflight (bindings s g)) \<and>
     (\<forall>g. total n (dw g) (frames s) = (if m_terminal_wake_reserved (bindings s g) \<and> \<not> m_detached (bindings s g) then 1 else 0))"

definition drv_slot :: "drv_sys \<Rightarrow> bool" where
  "drv_slot s \<longleftrightarrow> (\<forall>g. m_driver_binding s = Some g \<longrightarrow> g \<le> m_driver_next_generation s \<and> g \<noteq> 0 \<and> \<not> m_detached (bindings s g)) \<and>
     (\<forall>g. 0 < m_inflight (bindings s g) \<longrightarrow> m_driver_binding s = Some g) \<and>
     (\<forall>g. m_detached (bindings s g) \<longrightarrow> m_terminal_wake_reserved (bindings s g)) \<and>
     (\<forall>g. m_terminal_wake_reserved (bindings s g) \<longleftrightarrow> m_state (bindings s g) = Detaching) \<and>
     (\<forall>g. g \<le> m_driver_next_generation s \<longrightarrow> g \<noteq> 0 \<longrightarrow> \<not> m_terminal_wake_reserved (bindings s g) \<longrightarrow> m_driver_binding s = Some g) \<and>
     (\<forall>g \<in> set (unreg_ok s). m_detached (bindings s g))"

definition drv_unreg :: "drv_sys \<Rightarrow> bool" where
  "drv_unreg s \<longleftrightarrow> (\<forall>t g. FUnreg g UJoiner \<in> set (frames s t) \<longrightarrow> m_terminal_wake_reserved (bindings s g)) \<and>
     (\<forall>t g st. FUnreg g st \<in> set (frames s t) \<longrightarrow> st \<in> {UClear, UDetach} \<longrightarrow> m_inflight (bindings s g) = 0) \<and>
     (\<forall>t g. FUnreg g UDetach \<in> set (frames s t) \<longrightarrow> m_driver_binding s \<noteq> Some g)"

definition drv_inv :: "nat \<Rightarrow> drv_sys \<Rightarrow> bool" where
  "drv_inv n s \<longleftrightarrow> drv_stack n s \<and> drv_count n s \<and> drv_slot s \<and> drv_unreg s"

lemma drv_invD:
  assumes "drv_inv n s"
  shows "n \<le> t \<Longrightarrow> frames s t = []" "stack_ok (frames s t)" "f \<in> set (frames s t) \<Longrightarrow> gen_of f \<le> m_driver_next_generation s \<and> gen_of f \<noteq> 0"
    "total n (lw g) (frames s) = m_inflight (bindings s g)"
    "total n (dw g) (frames s) = (if m_terminal_wake_reserved (bindings s g) \<and> \<not> m_detached (bindings s g) then 1 else 0)"
    "m_driver_binding s = Some g \<Longrightarrow> g \<le> m_driver_next_generation s \<and> g \<noteq> 0 \<and> \<not> m_detached (bindings s g)"
    "0 < m_inflight (bindings s g) \<Longrightarrow> m_driver_binding s = Some g"
    "m_detached (bindings s g) \<Longrightarrow> m_terminal_wake_reserved (bindings s g)"
    "m_terminal_wake_reserved (bindings s g) \<longleftrightarrow> m_state (bindings s g) = Detaching"
    "g \<le> m_driver_next_generation s \<Longrightarrow> g \<noteq> 0 \<Longrightarrow> \<not> m_terminal_wake_reserved (bindings s g) \<Longrightarrow> m_driver_binding s = Some g"
    "g \<in> set (unreg_ok s) \<Longrightarrow> m_detached (bindings s g) \<and> g \<le> m_driver_next_generation s"
    "FUnreg g UJoiner \<in> set (frames s t) \<Longrightarrow> m_terminal_wake_reserved (bindings s g)"
    "FUnreg g st \<in> set (frames s t) \<Longrightarrow> st \<in> {UClear, UDetach} \<Longrightarrow> m_inflight (bindings s g) = 0"
    "FUnreg g UDetach \<in> set (frames s t) \<Longrightarrow> m_driver_binding s \<noteq> Some g"
  using assms unfolding drv_inv_def drv_stack_def drv_count_def drv_slot_def drv_unreg_def by blast+

text \<open>A lease held anywhere keeps its generation in the slot; a leader's generation is closed and not yet detached.\<close>

lemma lease_inflight:
  assumes inv: "drv_inv n s" and f: "f \<in> set (frames s t)" "lease_of f = Some g \<or> f = FUnreg g ULeader"
  shows "0 < m_inflight (bindings s g)" "m_driver_binding s = Some g"
proof -
  have "t < n" using drv_invD(1) [OF inv, of t] f(1) by (cases "n \<le> t") auto
  then have "0 < total n (lw g) (frames s)" unfolding total_pos using f by (auto simp: lw_def)
  then show "0 < m_inflight (bindings s g)" using drv_invD(4) [OF inv] by simp
  then show "m_driver_binding s = Some g" by (rule drv_invD(7) [OF inv])
qed

lemma leader_state:
  assumes inv: "drv_inv n s" and f: "f \<in> set (frames s t)" "leads g f"
  shows "m_terminal_wake_reserved (bindings s g)" "\<not> m_detached (bindings s g)"
proof -
  have "t < n" using drv_invD(1) [OF inv, of t] f(1) by (cases "n \<le> t") auto
  then have "0 < total n (dw g) (frames s)" unfolding total_pos using f by (auto simp: dw_def)
  then show "m_terminal_wake_reserved (bindings s g)" "\<not> m_detached (bindings s g)"
    using drv_invD(5) [OF inv, of g] by (auto split: if_splits)
qed

section \<open>Steps of one thread\<close>

definition led :: "driver_binding \<Rightarrow> nat" where
  "led b = (if m_terminal_wake_reserved b \<and> \<not> m_detached b then 1 else 0)"

lemma count_step:
  assumes c: "drv_count n s" and t: "t < n" and u: "frames u = (frames s) (t := fs)"
    and l: "\<And>h. m_inflight (bindings u h) + sum_list (map (lw h) (frames s t)) = m_inflight (bindings s h) + sum_list (map (lw h) fs)"
    and d: "\<And>h. led (bindings u h) + sum_list (map (dw h) (frames s t)) = led (bindings s h) + sum_list (map (dw h) fs)"
  shows "drv_count n u"
proof -
  have "total n (lw h) (frames u) = m_inflight (bindings u h)" for h
    using c l [of h] total_upd [OF t, of "lw h" "frames s" fs] by (simp add: drv_count_def u)
  moreover have "total n (dw h) (frames u) = led (bindings u h)" for h
    using c d [of h] total_upd [OF t, of "dw h" "frames s" fs] by (simp add: drv_count_def u led_def)
  ultimately show ?thesis by (simp add: drv_count_def led_def)
qed

lemma stack_step:
  assumes "drv_stack n s" "t < n" "frames u = (frames s) (t := fs)" "stack_ok fs" "m_driver_next_generation u = m_driver_next_generation s"
    "\<And>f. f \<in> set fs \<Longrightarrow> gen_of f \<le> m_driver_next_generation s \<and> gen_of f \<noteq> 0"
    "\<And>g. g \<in> set (unreg_ok u) \<Longrightarrow> g \<le> m_driver_next_generation s"
  shows "drv_stack n u"
  using assms by (auto simp: drv_stack_def)

lemma unreg_step:
  assumes inv: "drv_unreg s" and fr: "frames u = (frames s) (t := fs)"
    and old: "\<And>g. m_terminal_wake_reserved (bindings s g) \<Longrightarrow> m_terminal_wake_reserved (bindings u g)"
      "\<And>g. m_driver_binding u = Some g \<Longrightarrow> m_driver_binding s = Some g"
    and new: "\<And>g. FUnreg g UJoiner \<in> set fs \<Longrightarrow> m_terminal_wake_reserved (bindings u g)"
      "\<And>g st. FUnreg g st \<in> set fs \<Longrightarrow> st \<in> {UClear, UDetach} \<Longrightarrow> m_inflight (bindings u g) = 0"
      "\<And>g. FUnreg g UDetach \<in> set fs \<Longrightarrow> m_driver_binding u \<noteq> Some g"
    and all: "\<And>t g f. f \<in> set (frames s t) \<Longrightarrow> leads g f \<Longrightarrow> m_inflight (bindings s g) = 0 \<Longrightarrow> m_inflight (bindings u g) = 0"
  shows "drv_unreg u"
proof -
  have "m_inflight (bindings u g) = 0" if "FUnreg g st \<in> set (frames s t')" "st \<in> {UClear, UDetach}" for t' g st
    using all [OF that(1)] inv that by (auto simp: drv_unreg_def)
  note z = this
  show ?thesis unfolding drv_unreg_def
  proof (intro conjI allI impI)
    fix t' g assume m: "FUnreg g UJoiner \<in> set (frames u t')"
    show "m_terminal_wake_reserved (bindings u g)"
    proof (cases "t' = t")
      case True
      then show ?thesis using m new(1) by (simp add: fr)
    next
      case False
      then show ?thesis using m inv old(1) by (auto simp: fr drv_unreg_def)
    qed
  next
    fix t' g st assume m: "FUnreg g st \<in> set (frames u t')" "st \<in> {UClear, UDetach}"
    show "m_inflight (bindings u g) = 0"
    proof (cases "t' = t")
      case True
      then show ?thesis using m new(2) by (simp add: fr)
    next
      case False
      then show ?thesis using m z [of g st t'] by (simp add: fr)
    qed
  next
    fix t' g assume m: "FUnreg g UDetach \<in> set (frames u t')"
    show "m_driver_binding u \<noteq> Some g"
    proof (cases "t' = t")
      case True
      then show ?thesis using m new(3) by (simp add: fr)
    next
      case False
      then show ?thesis using m inv old(2) [of g] by (auto simp: fr drv_unreg_def)
    qed
  qed
qed

text \<open>Changes that touch neither frames nor bindings.\<close>

lemma inv_tls:
  assumes "drv_inv n s" "frames u = frames s" "bindings u = bindings s" "m_driver_binding u = m_driver_binding s"
    "m_driver_next_generation u = m_driver_next_generation s" "unreg_ok u = unreg_ok s"
  shows "drv_inv n u"
  using assms(1) unfolding drv_inv_def drv_stack_def drv_count_def drv_slot_def drv_unreg_def assms(2-6) .

text \<open>A thread's stack changes, the bindings do not.\<close>

lemma inv_frames:
  assumes inv: "drv_inv n s" and t: "t < n" and u: "frames u = (frames s) (t := fs)" "bindings u = bindings s" "m_driver_binding u = m_driver_binding s"
    "m_driver_next_generation u = m_driver_next_generation s" "unreg_ok u = unreg_ok s"
    and fs: "stack_ok fs" "\<And>f. f \<in> set fs \<Longrightarrow> gen_of f \<le> m_driver_next_generation s \<and> gen_of f \<noteq> 0"
    and w: "\<And>h. sum_list (map (lw h) fs) = sum_list (map (lw h) (frames s t))" "\<And>h. sum_list (map (dw h) fs) = sum_list (map (dw h) (frames s t))"
    and new: "\<And>g. FUnreg g UJoiner \<in> set fs \<Longrightarrow> m_terminal_wake_reserved (bindings s g)"
      "\<And>g st. FUnreg g st \<in> set fs \<Longrightarrow> st \<in> {UClear, UDetach} \<Longrightarrow> m_inflight (bindings s g) = 0"
      "\<And>g. FUnreg g UDetach \<in> set fs \<Longrightarrow> m_driver_binding s \<noteq> Some g"
  shows "drv_inv n u"
proof -
  have i: "drv_stack n s" "drv_count n s" "drv_slot s" "drv_unreg s" using inv by (simp_all add: drv_inv_def)
  have "drv_stack n u" by (rule stack_step [OF i(1) t u(1) fs(1) u(4)]) (use fs(2) i(1) u(5) in \<open>auto simp: drv_stack_def\<close>)
  moreover have "drv_count n u" by (rule count_step [OF i(2) t u(1)]) (use w u(2) in simp_all)
  moreover have "drv_slot u" using i(3) unfolding drv_slot_def u(2-5) .
  moreover have "drv_unreg u"
    by (rule unreg_step [OF i(4) u(1)]; unfold u(2,3); (assumption | (rule new, assumption+)))
  ultimately show ?thesis by (simp add: drv_inv_def)
qed

lemma word_succ: "x \<noteq> - 1 \<Longrightarrow> x < x + 1" "x \<noteq> - 1 \<Longrightarrow> x + 1 \<noteq> 0" "y \<le> x + 1 \<Longrightarrow> y \<le> x \<or> y = x + 1"
  for x y :: u64
proof -
  have s: "unat (x + 1) = Suc (unat x)" if "x \<noteq> - 1"
    using that by (metis add.commute add_eq_0_iff unatSuc)
  show "x \<noteq> - 1 \<Longrightarrow> x < x + 1" using s by (simp add: word_less_nat_alt)
  show "x \<noteq> - 1 \<Longrightarrow> x + 1 \<noteq> 0" by (metis add.commute add_eq_0_iff)
  show "y \<le> x + 1 \<Longrightarrow> y \<le> x \<or> y = x + 1"
  proof (cases "x = - 1")
    case False
    assume "y \<le> x + 1"
    then have "unat y \<le> Suc (unat x)" using s [OF False] by (simp add: word_le_nat_alt)
    then have "unat y \<le> unat x \<or> unat y = unat (x + 1)" using s [OF False] by auto
    then show ?thesis by (auto simp: word_le_nat_alt word_unat_eq_iff)
  qed simp
qed

lemma Bind_inv:
  assumes inv: "drv_inv n s" shows "drv_inv n (snd (BindDriver s))"
proof (cases "p_active s \<and> m_driver_binding s = None \<and> m_driver_next_generation s \<noteq> - 1")
  case True
  define g where "g = m_driver_next_generation s + 1"
  define u where "u = s \<lparr>m_driver_next_generation := g, m_driver_binding := Some g, bindings := (bindings s) (g := driver_binding0)\<rparr>"
  have e: "snd (BindDriver s) = u" using True by (simp add: BindDriver_def Let_def u_def g_def)
  have lt: "m_driver_next_generation s < g" "g \<noteq> 0" using word_succ(1,2) True by (auto simp: g_def)
  note D = drv_invD [OF inv]
  have old: "f \<in> set (frames s t) \<Longrightarrow> gen_of f \<noteq> g" for f t using D(3) [of f t] lt(1) by auto
  have fresh: "f \<in> set (frames s t) \<Longrightarrow> lw g f = 0 \<and> dw g f = 0" for f t
    using old [of f t] by (cases f) (auto simp: lw_def dw_def split: if_splits elim: lease_of.elims)
  have z: "total n (lw g) (frames s) = 0" "total n (dw g) (frames s) = 0"
    using fresh total_pos [of n "lw g" "frames s"] total_pos [of n "dw g" "frames s"] by force+
  have f0: "m_inflight (bindings s h) = 0" for h using D(7) [of h] True by auto
  have le: "h \<le> g" if "h \<le> m_driver_next_generation s" for h using that lt(1) by simp
  have "drv_stack n u" using inv unfolding drv_inv_def drv_stack_def by (auto simp: u_def le)
  moreover have "drv_count n u" using D(4,5) z by (auto simp: drv_count_def u_def driver_binding0_def split: if_splits)
  moreover have "drv_slot u" unfolding drv_slot_def
  proof (intro conjI allI impI ballI)
    fix h assume "h \<le> m_driver_next_generation u" "h \<noteq> 0" "\<not> m_terminal_wake_reserved (bindings u h)"
    then show "m_driver_binding u = Some h"
      using word_succ(3) [of h "m_driver_next_generation s"] D(10) [of h] True by (auto simp: u_def g_def split: if_splits)
  next
    fix h assume "h \<in> set (unreg_ok u)"
    then show "m_detached (bindings u h)" using D(11) [of h] lt(1) by (auto simp: u_def)
  qed (use f0 D(8,9) lt in \<open>auto simp: u_def driver_binding0_def split: if_splits\<close>)
  moreover have "drv_unreg u" unfolding drv_unreg_def
  proof (intro conjI allI impI)
    fix t h assume "FUnreg h UJoiner \<in> set (frames u t)"
    then show "m_terminal_wake_reserved (bindings u h)" using D(12) [of h t] old [of "FUnreg h UJoiner" t] by (auto simp: u_def)
  next
    fix t h assume "FUnreg h UDetach \<in> set (frames u t)"
    then show "m_driver_binding u \<noteq> Some h" using old [of "FUnreg h UDetach" t] by (auto simp: u_def)
  qed (use f0 in \<open>auto simp: u_def driver_binding0_def\<close>)
  ultimately show ?thesis unfolding e by (simp add: drv_inv_def)
qed (use inv in \<open>auto simp: BindDriver_def\<close>)

lemma user_code_leases:
  assumes "drv_inv n s" "in_user_code t s" "f \<in> set (frames s t)" shows "lease_of f \<noteq> None"
  using assms drv_invD(2) [OF assms(1), of t] by (cases "frames s t") (auto simp: in_user_code_def)

lemma Get_inv:
  assumes inv: "drv_inv n s" and t: "t < n" and c: "in_user_code t s"
  shows "drv_inv n (GetDriverBinding t s)"
proof (cases "m_driver_binding s")
  case (Some g)
  have st: "stack_ok (FRead g # frames s t)" using user_code_leases [OF inv c] drv_invD(2) [OF inv, of t] by auto
  show ?thesis
    by (rule inv_frames [OF inv t, of _ "FRead g # frames s t"])
      (use Some st drv_invD(3,12,13,14) [OF inv] drv_invD(6) [OF inv Some] in \<open>auto simp: GetDriverBinding_def push_frame_def lw_def dw_def\<close>)
qed (use inv in \<open>simp add: GetDriverBinding_def\<close>)

lemma Wake_inv:
  assumes inv: "drv_inv n s" and t: "t < n" and c: "in_user_code t s"
  shows "drv_inv n (WakeDriver t s)"
proof -
  have "drv_inv n (s \<lparr>tl_pending := p\<rparr>)" for p by (rule inv_tls [OF inv]) simp_all
  then show ?thesis using Get_inv [OF inv t c] by (simp add: WakeDriver_def Defer_def)
qed

lemma Exit_inv:
  assumes inv: "drv_inv n s" and t: "t < n" and c: "in_user_code t s"
  shows "drv_inv n (DeferralExit t s)"
proof -
  have i: "drv_inv n (s \<lparr>tl_depth := d\<rparr>)" "drv_inv n (s \<lparr>tl_depth := d, tl_pending := p\<rparr>)" for d p
    by (rule inv_tls [OF inv]; simp)+
  have "in_user_code t (s \<lparr>tl_depth := d, tl_pending := p\<rparr>)" for d p using c by (simp add: in_user_code_def)
  then show ?thesis using i Wake_inv [OF i(2) t] by (simp add: DeferralExit_def Let_def)
qed

text \<open>A thread's stack and one binding change, the slot does not.\<close>

lemma inv_upd:
  assumes inv: "drv_inv n s" and t: "t < n"
    and u: "frames u = (frames s) (t := fs)" "bindings u = (bindings s) (g := b)" "m_driver_binding u = m_driver_binding s"
    "m_driver_next_generation u = m_driver_next_generation s" "set (unreg_ok u) \<subseteq> insert g (set (unreg_ok s))"
    and g: "g \<le> m_driver_next_generation s" "g \<in> set (unreg_ok u) \<Longrightarrow> m_detached b"
    and fs: "stack_ok fs" "\<And>f. f \<in> set fs \<Longrightarrow> gen_of f \<le> m_driver_next_generation s \<and> gen_of f \<noteq> 0"
    and w: "\<And>h. m_inflight (bindings u h) + sum_list (map (lw h) (frames s t)) = m_inflight (bindings s h) + sum_list (map (lw h) fs)"
      "\<And>h. led (bindings u h) + sum_list (map (dw h) (frames s t)) = led (bindings s h) + sum_list (map (dw h) fs)"
    and b: "0 < m_inflight b \<Longrightarrow> m_driver_binding s = Some g" "m_detached b \<Longrightarrow> m_terminal_wake_reserved b"
      "m_terminal_wake_reserved b \<longleftrightarrow> m_state b = Detaching" "m_terminal_wake_reserved (bindings s g) \<Longrightarrow> m_terminal_wake_reserved b"
      "m_detached b \<Longrightarrow> m_driver_binding s \<noteq> Some g"
      "\<And>t f. f \<in> set (frames s t) \<Longrightarrow> leads g f \<Longrightarrow> m_inflight (bindings s g) = 0 \<Longrightarrow> m_inflight b = 0"
    and new: "\<And>h. FUnreg h UJoiner \<in> set fs \<Longrightarrow> m_terminal_wake_reserved (bindings u h)"
      "\<And>h st. FUnreg h st \<in> set fs \<Longrightarrow> st \<in> {UClear, UDetach} \<Longrightarrow> m_inflight (bindings u h) = 0"
      "\<And>h. FUnreg h UDetach \<in> set fs \<Longrightarrow> m_driver_binding s \<noteq> Some h"
  shows "drv_inv n u"
proof -
  have i: "drv_stack n s" "drv_count n s" "drv_slot s" "drv_unreg s" using inv by (simp_all add: drv_inv_def)
  note D = drv_invD [OF inv]
  have "drv_stack n u"
    by (rule stack_step [OF i(1) t u(1) fs(1) u(4)]) (use fs(2) u(5) g(1) D(11) in blast)+
  moreover have "drv_count n u" by (rule count_step [OF i(2) t u(1)]) (use w in blast)+
  moreover have "drv_slot u" unfolding drv_slot_def u(3,4)
  proof (intro conjI allI impI ballI)
    fix h assume "0 < m_inflight (bindings u h)"
    then show "m_driver_binding s = Some h" using D(7) [of h] b(1) by (cases "h = g") (simp_all add: u(2))
  next
    fix h assume "\<not> m_terminal_wake_reserved (bindings u h)" "h \<le> m_driver_next_generation s" "h \<noteq> 0"
    then show "m_driver_binding s = Some h" using D(10) [of h] b(4) by (cases "h = g") (auto simp: u(2))
  next
    fix h assume "h \<in> set (unreg_ok u)"
    then show "m_detached (bindings u h)" using D(11) [of h] u(5) g(2) by (cases "h = g") (auto simp: u(2))
  next
    fix h assume "m_driver_binding s = Some h"
    then show "h \<le> m_driver_next_generation s" "h \<noteq> 0" "\<not> m_detached (bindings u h)"
      using D(6) [of h] b(5) by (cases "h = g"; simp add: u(2); blast)+
  next
    fix h
    show "m_terminal_wake_reserved (bindings u h) = (m_state (bindings u h) = Detaching)" using D(9) [of h] b(3) by (simp add: u(2))
    show "m_detached (bindings u h) \<Longrightarrow> m_terminal_wake_reserved (bindings u h)"
      using D(8) [of h] b(2) by (cases "h = g") (simp_all add: u(2))
  qed
  moreover have "drv_unreg u"
  proof (rule unreg_step [OF i(4) u(1)]; (unfold u(3))?)
    show "m_terminal_wake_reserved (bindings s h) \<Longrightarrow> m_terminal_wake_reserved (bindings u h)" for h
      using b(4) by (cases "h = g") (simp_all add: u(2))
    show "f \<in> set (frames s t') \<Longrightarrow> leads h f \<Longrightarrow> m_inflight (bindings s h) = 0 \<Longrightarrow> m_inflight (bindings u h) = 0" for t' h f
      using b(6) [of f t'] by (cases "h = g") (simp_all add: u(2))
  qed (use new in blast)+
  ultimately show ?thesis by (simp add: drv_inv_def)
qed

lemma Lease_inv:
  assumes inv: "drv_inv n s" and t: "t < n" and fr: "frames s t = FRead g # r"
  shows "drv_inv n (LeaseAcquire t False g s)"
proof (cases "\<not> m_detached (bindings s g) \<and> m_state (bindings s g) = Bound")
  case True
  note D = drv_invD [OF inv]
  have g: "g \<le> m_driver_next_generation s" "g \<noteq> 0" using D(3) [of "FRead g" t] fr by simp_all
  have nr: "\<not> m_terminal_wake_reserved (bindings s g)" using D(9) [of g] True by simp
  have slot: "m_driver_binding s = Some g" using D(10) [OF g nr] .
  have nl: "f \<in> set (frames s t') \<Longrightarrow> leads g f \<Longrightarrow> False" for t' f using leader_state(1) [OF inv, of f t' g] nr by blast
  show ?thesis
    by (rule inv_upd [OF inv t, of _ "FCalling g # r" g "bindings s g \<lparr>m_inflight := m_inflight (bindings s g) + 1\<rparr>"])
      (use fr True g nr slot nl D(2) [of t] D(3,12,14) [of _ t] D(13) [of _ _ t] D(11) [of g] in
        \<open>auto simp: LeaseAcquire_def set_frame_def upd_binding_def lw_def dw_def led_def\<close>)
next
  case False
  show ?thesis
    by (rule inv_frames [OF inv t, of _ r])
      (use fr False drv_invD(2) [OF inv, of t] drv_invD(3,12,14) [OF inv, of _ t] drv_invD(13) [OF inv, of _ _ t] in
        \<open>auto simp: LeaseAcquire_def pop_frame_def lw_def dw_def\<close>)
qed

lemma DriverFail_fields:
  "frames (DriverFail g x s) = frames s" "m_driver_binding (DriverFail g x s) = m_driver_binding s"
  "m_driver_next_generation (DriverFail g x s) = m_driver_next_generation s" "unreg_ok (DriverFail g x s) = unreg_ok s"
  "m_inflight (bindings (DriverFail g x s) h) = m_inflight (bindings s h)" "m_detached (bindings (DriverFail g x s) h) = m_detached (bindings s h)"
  "m_terminal_wake_reserved (bindings (DriverFail g x s) h) = m_terminal_wake_reserved (bindings s h)"
  "m_state (bindings (DriverFail g x s) h) = Detaching \<longleftrightarrow> m_state (bindings s h) = Detaching"
  by (auto simp: DriverFail_def upd_binding_def)

lemma Fail_inv:
  assumes inv: "drv_inv n s"
  shows "drv_inv n (DriverFail g x s)"
  using inv unfolding drv_inv_def drv_stack_def drv_count_def drv_slot_def drv_unreg_def DriverFail_fields .

lemma Return_inv:
  assumes inv: "drv_inv n s" and t: "t < n" and fr: "frames s t = FCalling g # r"
  shows "drv_inv n (pop_frame t (LeaseRelease g s))"
proof -
  note D = drv_invD [OF inv]
  have pos: "0 < m_inflight (bindings s g)" "m_driver_binding s = Some g" using lease_inflight [OF inv, of "FCalling g" t g] fr by simp_all
  show ?thesis
    by (rule inv_upd [OF inv t, of _ r g "bindings s g \<lparr>m_inflight := m_inflight (bindings s g) - 1\<rparr>"])
      (use fr pos D(2) [of t] D(3,12,14) [of _ t] D(13) [of _ _ t] D(6,8,9,11) [of g] in
        \<open>auto simp: LeaseRelease_def pop_frame_def upd_binding_def lw_def dw_def led_def\<close>)
qed

lemma Enter_inv:
  assumes inv: "drv_inv n s" and t: "t < n" and c: "in_user_code t s"
  shows "drv_inv n (snd (UnregisterEnter t self_context g s))"
proof (cases "\<not> self_context \<and> m_driver_binding s = Some g \<and> \<not> (0 < tl_depth s t \<or> ThreadHolds t g s)")
  case True
  have "f \<notin> set (frames s t)" for f
  proof
    assume f: "f \<in> set (frames s t)"
    then obtain h where h: "lease_of f = Some h" using user_code_leases [OF inv c] by blast
    then have "h = g" using lease_inflight(2) [OF inv f, of h] True by simp
    then have "Some g \<in> lease_of ` set (frames s t)" using f h image_eqI by metis
    then show False using True by (simp add: ThreadHolds_def)
  qed
  then have e: "frames s t = []" by (cases "frames s t") auto
  have g: "g \<le> m_driver_next_generation s" "g \<noteq> 0" using drv_invD(6) [OF inv] True by blast+
  show ?thesis
    by (rule inv_frames [OF inv t, of _ "[FUnreg g UArrived]"]) (use True e g in \<open>auto simp: UnregisterEnter_def push_frame_def lw_def dw_def\<close>)
qed (use inv in \<open>auto simp: UnregisterEnter_def\<close>)

lemma unreg_alone: "drv_inv n s \<Longrightarrow> frames s t = FUnreg g st # r \<Longrightarrow> r = []"
  using drv_invD(2) [of n s t] by simp

lemma Arrived_inv:
  assumes inv: "drv_inv n s" and t: "t < n" and fr: "frames s t = [FUnreg g UArrived]"
    and step: "UnregisterStep t g UArrived s = Some u"
  shows "drv_inv n u"
proof (cases "m_terminal_wake_reserved (bindings s g)")
  case True
  show ?thesis
    by (rule inv_frames [OF inv t, of _ "[FUnreg g UJoiner]"])
      (use fr step True drv_invD(3) [OF inv, of "FUnreg g UArrived" t] in \<open>auto simp: set_frame_def lw_def dw_def\<close>)
next
  case False
  note D = drv_invD [OF inv]
  have g: "g \<le> m_driver_next_generation s" "g \<noteq> 0" using D(3) [of "FUnreg g UArrived" t] fr by simp_all
  have slot: "m_driver_binding s = Some g" using D(10) [OF g False] .
  have nl: "f \<in> set (frames s t') \<Longrightarrow> leads g f \<Longrightarrow> False" for t' f using leader_state(1) [OF inv, of f t' g] False by blast
  show ?thesis
    by (rule inv_upd [OF inv t, of _ "[FUnreg g ULeader]" g
          "bindings s g \<lparr>m_state := Detaching, m_terminal_wake_reserved := True, m_inflight := m_inflight (bindings s g) + 1\<rparr>"])
      (use fr step False g slot nl D(6) [of g] D(11) [of g] in \<open>auto simp: set_frame_def upd_binding_def lw_def dw_def led_def\<close>)
qed

lemma Joiner_inv:
  assumes inv: "drv_inv n s" and t: "t < n" and fr: "frames s t = [FUnreg g UJoiner]"
    and step: "UnregisterStep t g UJoiner s = Some u"
  shows "drv_inv n u"
proof -
  note D = drv_invD [OF inv]
  have d: "m_detached (bindings s g)" using step by (simp split: if_splits)
  show ?thesis
    by (rule inv_upd [OF inv t, of _ "[]" g "bindings s g"])
      (use fr step d D(3) [of "FUnreg g UJoiner" t] D(6,7,8,9) [of g] in \<open>auto simp: pop_frame_def lw_def dw_def\<close>)
qed

lemma Terminal_inv:
  assumes inv: "drv_inv n s" and t: "t < n" and fr: "frames s t = [FUnreg g UTerminal]"
  shows "drv_inv n (set_frame t (FUnreg g UWait) (LeaseRelease g s))"
proof -
  note D = drv_invD [OF inv]
  have pos: "0 < m_inflight (bindings s g)" "m_driver_binding s = Some g" using lease_inflight [OF inv, of "FUnreg g UTerminal" t g] fr by simp_all
  show ?thesis
    by (rule inv_upd [OF inv t, of _ "[FUnreg g UWait]" g "bindings s g \<lparr>m_inflight := m_inflight (bindings s g) - 1\<rparr>"])
      (use fr pos D(3) [of "FUnreg g UTerminal" t] D(6,8,9,11) [of g] in
        \<open>auto simp: LeaseRelease_def set_frame_def upd_binding_def lw_def dw_def led_def\<close>)
qed

lemma Leader_inv:
  assumes inv: "drv_inv n s" and t: "t < n" and fr: "frames s t = [FUnreg g ULeader]"
  shows "drv_inv n (set_frame t (FUnreg g UTerminal) s)"
  by (rule inv_frames [OF inv t, of _ "[FUnreg g UTerminal]"])
    (use fr drv_invD(3) [OF inv, of "FUnreg g ULeader" t] in \<open>auto simp: set_frame_def lw_def dw_def\<close>)

lemma Wait_inv:
  assumes inv: "drv_inv n s" and t: "t < n" and fr: "frames s t = [FUnreg g UWait]" and z: "m_inflight (bindings s g) = 0"
  shows "drv_inv n (set_frame t (FUnreg g UClear) s)"
  by (rule inv_frames [OF inv t, of _ "[FUnreg g UClear]"])
    (use fr z drv_invD(3) [OF inv, of "FUnreg g UWait" t] in \<open>auto simp: set_frame_def lw_def dw_def\<close>)

lemma Clear_inv:
  assumes inv: "drv_inv n s" and t: "t < n" and fr: "frames s t = [FUnreg g UClear]"
  shows "drv_inv n (set_frame t (FUnreg g UDetach) (if m_driver_binding s = Some g then s \<lparr>m_driver_binding := None\<rparr> else s))"
    (is "drv_inv n ?u")
proof -
  note D = drv_invD [OF inv]
  have i: "drv_stack n s" "drv_count n s" "drv_slot s" "drv_unreg s" using inv by (simp_all add: drv_inv_def)
  have z: "m_inflight (bindings s g) = 0" using D(13) [of g UClear t] fr by simp
  have res: "m_terminal_wake_reserved (bindings s g)" using leader_state(1) [OF inv, of "FUnreg g UClear" t g] fr by simp
  have g: "g \<le> m_driver_next_generation s" "g \<noteq> 0" using D(3) [of "FUnreg g UClear" t] fr by simp_all
  have f: "frames ?u = (frames s) (t := [FUnreg g UDetach])" "bindings ?u = bindings s" "m_driver_next_generation ?u = m_driver_next_generation s"
    "unreg_ok ?u = unreg_ok s" "m_driver_binding ?u = (if m_driver_binding s = Some g then None else m_driver_binding s)"
    using fr by (simp_all add: set_frame_def)
  have "drv_stack n ?u" by (rule stack_step [OF i(1) t f(1)]) (use g f(3,4) D(11) in auto)
  moreover have "drv_count n ?u" by (rule count_step [OF i(2) t f(1)]) (use fr in \<open>simp_all add: f(2) lw_def dw_def\<close>)
  moreover have "drv_slot ?u" unfolding drv_slot_def f(2-5)
  proof (intro conjI allI impI ballI)
    fix h assume "0 < m_inflight (bindings s h)"
    then show "(if m_driver_binding s = Some g then None else m_driver_binding s) = Some h" using D(7) [of h] z by (cases "h = g") auto
  next
    fix h assume "h \<le> m_driver_next_generation s" "h \<noteq> 0" "\<not> m_terminal_wake_reserved (bindings s h)"
    then show "(if m_driver_binding s = Some g then None else m_driver_binding s) = Some h" using D(10) [of h] res by (cases "h = g") auto
  qed (use D(6,8,9,11) in \<open>auto split: if_splits\<close>)
  moreover have "drv_unreg ?u"
    by (rule unreg_step [OF i(4) f(1)]) (use z in \<open>auto simp: f(2,5) split: if_splits\<close>)
  ultimately show ?thesis by (simp add: drv_inv_def)
qed

lemma Detach_inv:
  assumes inv: "drv_inv n s" and t: "t < n" and fr: "frames s t = [FUnreg g UDetach]"
  shows "drv_inv n ((pop_frame t (upd_binding g (\<lambda>b. b \<lparr>m_detached := True\<rparr>) s)) \<lparr>unreg_ok := g # unreg_ok s\<rparr>)"
proof -
  note D = drv_invD [OF inv]
  have z: "m_inflight (bindings s g) = 0" using D(13) [of g UDetach t] fr by simp
  have res: "m_terminal_wake_reserved (bindings s g)" "\<not> m_detached (bindings s g)"
    using leader_state [OF inv, of "FUnreg g UDetach" t g] fr by simp_all
  have slot: "m_driver_binding s \<noteq> Some g" using D(14) [of g t] fr by simp
  show ?thesis
    by (rule inv_upd [OF inv t, of _ "[]" g "bindings s g \<lparr>m_detached := True\<rparr>"])
      (use fr z res slot D(3) [of "FUnreg g UDetach" t] D(9) [of g] in
        \<open>auto simp: pop_frame_def upd_binding_def lw_def dw_def led_def\<close>)
qed

lemma Unreg_inv:
  assumes inv: "drv_inv n s" and t: "t < n" and fr: "frames s t = FUnreg g st # r" and step: "UnregisterStep t g st s = Some u"
  shows "drv_inv n u"
proof -
  have f: "frames s t = [FUnreg g st]" using fr unreg_alone [OF inv fr] by simp
  show ?thesis
  proof (cases st)
    case UArrived
    then show ?thesis using Arrived_inv [OF inv t] f step by simp
  next
    case UJoiner
    then show ?thesis using Joiner_inv [OF inv t] f step by simp
  next
    case UWait
    then show ?thesis using Wait_inv [OF inv t] f step by (auto split: if_splits)
  qed (use Leader_inv [OF inv t] Terminal_inv [OF inv t] Clear_inv [OF inv t] Detach_inv [OF inv t] f step in auto)
qed

lemma drv_step:
  assumes inv: "drv_inv n s" and step: "drv_exec n e s = Some u"
  shows "drv_inv n u"
proof (cases e)
  case DBind
  then show ?thesis using step Bind_inv [OF inv] by simp
next
  case (DActive b)
  then show ?thesis using step inv_tls [OF inv, of u] by (auto split: if_splits)
next
  case (DCallback t)
  then show ?thesis using step Get_inv [OF inv] by (auto split: if_splits)
next
  case (DWake t)
  then show ?thesis using step Wake_inv [OF inv] by (auto split: if_splits)
next
  case (DEnter t)
  then show ?thesis using step inv_tls [OF inv, of u] by (auto simp: DeferralEnter_def split: if_splits)
next
  case (DExit t)
  then show ?thesis using step Exit_inv [OF inv] by (auto split: if_splits)
next
  case (DLease t)
  then show ?thesis using step Lease_inv [OF inv] by (auto split: if_splits list.splits drv_frame.splits)
next
  case (DFail t x)
  then show ?thesis using step Fail_inv [OF inv] by (auto split: if_splits list.splits drv_frame.splits)
next
  case (DReturn t)
  then show ?thesis using step Return_inv [OF inv] by (auto split: if_splits list.splits drv_frame.splits)
next
  case (DUnregister t c g)
  then show ?thesis using step Enter_inv [OF inv] by (auto split: if_splits)
next
  case (DUnregStep t)
  then show ?thesis using step Unreg_inv [OF inv] by (auto split: if_splits list.splits drv_frame.splits)
qed

lemma drv_inv_init: "drv_inv n drv_init"
  by (auto simp: drv_inv_def drv_stack_def drv_count_def drv_slot_def drv_unreg_def drv_init_def driver_binding0_def total_def)

interpretation drv: invariant_machine "drv_exec n" "drv_inv n" for n
  by unfold_locales (rule drv_step)

lemma drv_reach: "reaches (drv_exec n) drv_init s \<Longrightarrow> drv_inv n s"
  by (erule drv.reaches_inv) (rule drv_inv_init)

lemma ThreadHolds_slot:
  assumes "drv_inv n s" "ThreadHolds t g s" shows "m_driver_binding s = Some g"
  using assms lease_inflight(2) [OF assms(1), of _ t g] by (auto simp: ThreadHolds_def)




section \<open>Properties\<close>

text \<open>C3. Detaching is final: once an unregistration of a generation has returned Ok, no callback of that
  generation is running on any thread, the slot is free of it, no thread gets a lease on it any more and
  every later binding gets a larger generation.\<close>

theorem driver_detach_final:
  assumes "reaches (drv_exec n) drv_init s" "g \<in> set (unreg_ok s)"
  shows "m_inflight (bindings s g) = 0 \<and> m_driver_binding s \<noteq> Some g \<and> (\<forall>t. \<not> ThreadHolds t g s) \<and>
    (\<forall>t terminal. LeaseAcquire t terminal g s = pop_frame t s) \<and>
    (\<forall>h. fst (BindDriver s) = (DrvOk, Some h) \<longrightarrow> g < h)"
proof -
  have inv: "drv_inv n s" by (rule drv_reach) fact
  have d: "m_detached (bindings s g)" "g \<le> m_driver_next_generation s" using drv_invD(11) [OF inv assms(2)] by simp_all
  have slot: "m_driver_binding s \<noteq> Some g" using drv_invD(6) [OF inv, of g] d(1) by blast
  have "m_inflight (bindings s g) = 0" using drv_invD(7) [OF inv, of g] slot by blast
  moreover have "\<not> ThreadHolds t g s" for t using ThreadHolds_slot [OF inv, of t g] slot by blast
  moreover have "LeaseAcquire t terminal g s = pop_frame t s" for t terminal using d(1) by (simp add: LeaseAcquire_def)
  moreover have "g < h" if "fst (BindDriver s) = (DrvOk, Some h)" for h
    using that d(2) word_succ(1) [of "m_driver_next_generation s"] by (auto simp: BindDriver_def Let_def split: if_splits)
  ultimately show ?thesis using slot by blast
qed

definition detach_run :: "drv_event list" where
  "detach_run = [DBind, DCallback 0, DUnregister 1 False 1, DUnregister 2 False 1, DUnregStep 1, DLease 0, DUnregStep 2]
     @ replicate 5 (DUnregStep 1) @ [DUnregStep 2, DBind]"

theorem driver_detach_final_witness:
  "\<exists>s. reaches (drv_exec 3) drv_init s \<and> unreg_ok s = [1, 1] \<and> m_driver_binding s = Some 2 \<and> m_inflight (bindings s 1) = 0 \<and> \<not> ThreadHolds 0 1 s"
proof -
  have "case run (drv_exec 3) detach_run drv_init of None \<Rightarrow> False | Some s \<Rightarrow> unreg_ok s = [1, 1] \<and> m_driver_binding s = Some 2"
    by code_simp
  from run_demo [OF this] obtain s where s: "reaches (drv_exec 3) drv_init s" "unreg_ok s = [1, 1]" "m_driver_binding s = Some 2" by blast
  then have "1 \<in> set (unreg_ok s)" by simp
  then show ?thesis using driver_detach_final [OF s(1)] s by blast
qed



end
