(* ===== verification/HookModel.thy ===== *)
theory HookModel
  imports CoroutineModel
begin

text \<open>
  \<open>detail/Hook.cc\<close>, descriptor calls: the loops that turn a blocking read, write, accept, connect, send or receive
  into non-blocking attempts and waits of the calling coroutine, their guards over descriptor flags, file offset
  and errno, and \<open>close\<close> with its three-step protocol on the fd table. One coroutine runs hooked calls; any number
  of threads close and open descriptors, trigger and register events and move the clock while it is suspended.
  Kernel answers are arguments. Open files are numbered apart from descriptors, so that reuse of a descriptor
  number is visible; \<open>hits\<close> logs which file each system call of the hook reached.
\<close>

section \<open>Data\<close>

definition EAGAIN :: int where "EAGAIN = 11"
definition EINTR :: int where "EINTR = 4"
definition EBADF :: int where "EBADF = 9"
definition ENOMEM :: int where "ENOMEM = 12"
definition EIO :: int where "EIO = 5"
definition EINPROGRESS :: int where "EINPROGRESS = 115"
definition EALREADY :: int where "EALREADY = 114"
definition EISCONN :: int where "EISCONN = 106"
definition MSG_DONTWAIT :: int where "MSG_DONTWAIT = 0x40"

lemmas errno_defs = EAGAIN_def EINTR_def EBADF_def ENOMEM_def EIO_def EINPROGRESS_def EALREADY_def EISCONN_def

text \<open>A thread inside \<open>Hook_Close\<close>: before the underlying close (with the file the number had at the claim) and after
  it (with its result).\<close>

datatype close_pc = HcIdle | HcClaimed int "nat option" | HcClosed int int

record hk_sys =
  cs :: co_sys
  fdt :: "int \<Rightarrow> nat option"
  nonblock :: "nat \<Rightarrow> bool"
  fpos :: "nat \<Rightarrow> int option"
  closer :: "nat \<Rightarrow> close_pc"
  clock_ns :: int
  errno :: int
  hits :: "nat option list"

abbreviation pl :: "hk_sys \<Rightarrow> poll_sys" where
  "pl s \<equiv> poll (cs s)"

definition set_pl :: "poll_sys \<Rightarrow> hk_sys \<Rightarrow> hk_sys" where
  "set_pl p s = s \<lparr>cs := (cs s) \<lparr>poll := p\<rparr>\<rparr>"

definition touch :: "int \<Rightarrow> hk_sys \<Rightarrow> hk_sys" where
  "touch fd s = s \<lparr>hits := hits s @ [fdt s fd]\<rparr>"

section \<open>Closing a descriptor\<close>

text \<open>Outcome of the preparation in \<open>BeginFdClose\<close>: the number of failed allocations before it succeeds, or another
  exception.\<close>

datatype close_prep = PrepAllocFails nat | PrepOther

text \<open>\<open>Hook_Close\<close> up to the claim. \<open>Some e\<close> is a return of -1 with errno \<open>e\<close>; the loser of a race first waits for
  the end of the claimed close.\<close>

definition HookClose_begin :: "nat \<Rightarrow> int \<Rightarrow> close_prep \<Rightarrow> hk_sys \<Rightarrow> int option \<times> hk_sys" where
  "HookClose_begin t fd prep s =
     (case prep of
        PrepOther \<Rightarrow> (Some EIO, s)
      | PrepAllocFails k \<Rightarrow> if 2 \<le> k then (Some ENOMEM, s)
          else (case BeginFdClose fd (pl s) of (claimed, p) \<Rightarrow>
            if claimed then (None, (set_pl p s) \<lparr>closer := (closer s) (t := HcClaimed fd (fdt s fd))\<rparr>)
            else (Some EBADF, s)))"

text \<open>The underlying close frees the number whatever it answers.\<close>

definition HookClose_os :: "nat \<Rightarrow> int \<Rightarrow> int \<Rightarrow> hk_sys \<Rightarrow> hk_sys" where
  "HookClose_os t fd ret s = s \<lparr>fdt := (fdt s) (fd := None), closer := (closer s) (t := HcClosed fd (if fdt s fd = None then -1 else ret))\<rparr>"

definition HookClose_end :: "nat \<Rightarrow> int \<Rightarrow> hk_sys \<Rightarrow> hk_sys" where
  "HookClose_end t fd s = (set_pl (EndFdClose fd (pl s)) s) \<lparr>closer := (closer s) (t := HcIdle)\<rparr>"

section \<open>Everything else that happens\<close>

datatype hk_event =
    HPoll poll_event
  | HCloseBegin nat int close_prep
  | HCloseOs nat int
  | HCloseEnd nat
  | HOpen int nat
  | HSetFlag nat bool
  | HSetPos nat int
  | HTick nat
  | HCancel

text \<open>Only \<open>Hook_Close\<close> opens and ends a close of the table; the event a coroutine waits on is not destroyed.
  \<open>RequestCancel\<close> is the store of its flag here and its trigger among the steps of the event system.\<close>

fun poll_allowed :: "nat option \<Rightarrow> poll_event \<Rightarrow> bool" where
  "poll_allowed a (PBeginClose fd) \<longleftrightarrow> False"
| "poll_allowed a (PEndClose fd) \<longleftrightarrow> False"
| "poll_allowed a (PDestroy i) \<longleftrightarrow> a \<noteq> Some i"
| "poll_allowed a _ \<longleftrightarrow> True"

fun env_exec :: "hk_event \<Rightarrow> hk_sys \<Rightarrow> hk_sys option" where
  "env_exec (HPoll ev) s =
     (if poll_allowed (m_await_event (co (cs s))) ev
      then (case poll_exec ev (pl s) of None \<Rightarrow> None | Some p \<Rightarrow> Some (set_pl p s)) else None)"
| "env_exec (HCloseBegin t fd prep) s = (if closer s t = HcIdle then Some (snd (HookClose_begin t fd prep s)) else None)"
| "env_exec (HCloseOs t ret) s = (case closer s t of HcClaimed fd _ \<Rightarrow> Some (HookClose_os t fd ret s) | _ \<Rightarrow> None)"
| "env_exec (HCloseEnd t) s = (case closer s t of HcClosed fd r \<Rightarrow> Some (HookClose_end t fd s) | _ \<Rightarrow> None)"
| "env_exec (HOpen fd f) s = (if 0 \<le> fd \<and> fdt s fd = None then Some (s \<lparr>fdt := (fdt s) (fd := Some f)\<rparr>) else None)"
| "env_exec (HSetFlag f b) s = Some (s \<lparr>nonblock := (nonblock s) (f := b)\<rparr>)"
| "env_exec (HSetPos f x) s = (if fpos s f = None then None else Some (s \<lparr>fpos := (fpos s) (f := Some x)\<rparr>))"
| "env_exec (HTick n) s = Some (s \<lparr>clock_ns := clock_ns s + int n\<rparr>)"
| "env_exec HCancel s = Some (s \<lparr>cs := cancel_store (cs s)\<rparr>)"

section \<open>Timeouts and waits\<close>

text \<open>\<open>IoTimeout\<close>: the socket option (seconds, microseconds) in 32-bit milliseconds, and the deadline.\<close>

record io_timeout =
  m_ms :: int
  m_deadline :: int

definition ms_of :: "int \<Rightarrow> int \<Rightarrow> int" where
  "ms_of tv_sec tv_usec = sint (word_of_int tv_sec * 1000 + word_of_int ((tv_usec + 999) div 1000) :: 32 word)"

definition IoTimeout :: "(int \<times> int) option \<Rightarrow> int \<Rightarrow> io_timeout" where
  "IoTimeout tv now =
     (let ms = (case tv of None \<Rightarrow> 0 | Some (sec, usec) \<Rightarrow> if 0 < sec \<or> 0 < usec then ms_of sec usec else 0)
      in \<lparr>m_ms = ms, m_deadline = now + ms * 1000000\<rparr>)"

definition remain_ms :: "io_timeout \<Rightarrow> int \<Rightarrow> int" where
  "remain_ms iot now = (let left = (m_deadline iot - now) div 1000000 in if 0 < left then left else 0)"

text \<open>\<open>CoWaitFdReady\<close> up to the context switch: \<open>Inl r\<close> returns \<open>r\<close> without suspending. The event \<open>e\<close> is a new one.\<close>

definition CoWaitFdReady_enter :: "bool \<Rightarrow> int \<Rightarrow> io_timeout \<Rightarrow> nat \<Rightarrow> (nat \<Rightarrow> create_result) \<Rightarrow> hk_sys
    \<Rightarrow> ((int \<times> hk_sys) + hk_sys) option" where
  "CoWaitFdReady_enter writable fd iot e outs s =
     (let lift = map_option (map_sum (\<lambda>(r, c). (r, s \<lparr>cs := c\<rparr>)) (\<lambda>c. s \<lparr>cs := c\<rparr>)) in
      if evs (pl s) e \<noteq> co_event0 then None
      else if m_ms iot \<le> 0
      then lift (if writable then YieldUntilFdWriteable e fd outs (cs s) else YieldUntilFdReadable e fd outs (cs s))
      else let remain = remain_ms iot (clock_ns s) in
        if remain \<le> 0 then Some (Inl (-1, s))
        else lift (if writable then YieldUntilFdWriteable_ms e fd remain outs (cs s)
                   else YieldUntilFdReadable_ms e fd remain outs (cs s)))"

text \<open>The switch back. A completed event woke the coroutine; a cancelled one is a failed registration.\<close>

definition YieldUntil_return :: "hk_sys \<Rightarrow> (int \<times> hk_sys) option" where
  "YieldUntil_return s =
     (case m_await_event (co (cs s)) of
        None \<Rightarrow> None
      | Some e \<Rightarrow>
          if phase (pl s) e = Some FINAL
          then (case OnCoPollEvent (GetCoPollEventFlags (m_state (evs (pl s) e))) (cs s) of
              None \<Rightarrow> None
            | Some c \<Rightarrow> (case Resume (co c) of None \<Rightarrow> None | Some k \<Rightarrow> Some (0, s \<lparr>cs := c \<lparr>co := k\<rparr>\<rparr>)))
          else if phase (pl s) e = Some CANCELLED
          then (case YieldWithCallback_ret (-1) ((co (cs s)) \<lparr>m_await_event := None\<rparr>) of (r, k) \<Rightarrow>
              Some (r, s \<lparr>cs := (cs s) \<lparr>co := k\<rparr>\<rparr>))
          else None)"

definition CoWaitFdReady_return :: "int \<Rightarrow> hk_sys \<Rightarrow> (int \<times> hk_sys) option" where
  "CoWaitFdReady_return fd s =
     (case YieldUntil_return s of None \<Rightarrow> None
      | Some (yret, s') \<Rightarrow> if yret \<noteq> 0 then Some (yret, s') else Some (if FdWaitEpochValid fd (cs s') then 0 else 2, s'))"

section \<open>The input and output calls\<close>

text \<open>One turn of a call: the answer of the system call and, if it has to wait, the number and construction results
  of the event and what the others do until the coroutine runs again.\<close>

record io_turn =
  answer :: "int \<times> int"
  ev_no :: nat
  ev_outs :: "nat \<Rightarrow> create_result"
  others :: "hk_event list"

text \<open>What differs between the calls: which errors mean waiting, what to wait for and whether the file offset is
  guarded.\<close>

record io_op =
  retries :: "int list"
  writable :: bool
  guards_offset :: bool

datatype io_exit = ExDone int | ExError int | ExStale | ExNoWait int | ExRegist int

text \<open>\<open>ExNoWait\<close>: the wait was refused before any suspension (timeout spent, cancelled, event not created);
  \<open>ExRegist\<close>: its registration failed after the switch.\<close>

fun io_loop :: "io_op \<Rightarrow> int \<Rightarrow> io_timeout \<Rightarrow> io_turn list \<Rightarrow> hk_sys \<Rightarrow> (io_exit \<times> hk_sys) option" where
  "io_loop op fd iot [] s = None"
| "io_loop op fd iot (k # ks) s =
     (let s1 = touch fd s; (ret, e) = answer k in
      if 0 \<le> ret then Some (ExDone ret, s1)
      else if e \<notin> set (retries op) then Some (ExError e, s1 \<lparr>errno := e\<rparr>)
      else case CoWaitFdReady_enter (writable op) fd iot (ev_no k) (ev_outs k) (s1 \<lparr>errno := e\<rparr>) of
          None \<Rightarrow> None
        | Some (Inl (r, s2)) \<Rightarrow> Some (ExNoWait e, s2 \<lparr>errno := e\<rparr>)
        | Some (Inr s2) \<Rightarrow> (case run env_exec (others k) s2 of
              None \<Rightarrow> None
            | Some s3 \<Rightarrow> (case CoWaitFdReady_return fd s3 of
                  None \<Rightarrow> None
                | Some (r, s4) \<Rightarrow>
                    if r = 2 then Some (ExStale, s4 \<lparr>errno := EBADF\<rparr>)
                    else if r \<noteq> 0 then Some (ExRegist e, s4 \<lparr>errno := e\<rparr>)
                    else io_loop op fd iot ks (s4 \<lparr>errno := e\<rparr>))))"

text \<open>\<open>CoIoNonblockGuard\<close>: \<open>Inl\<close> when it is not ok, else whether the destructor restores the flag.\<close>

definition NonblockGuard :: "int \<Rightarrow> int option \<Rightarrow> hk_sys \<Rightarrow> hk_sys + bool \<times> hk_sys" where
  "NonblockGuard fd setfl s =
     (let s1 = touch fd s in
      case fdt s fd of
        None \<Rightarrow> Inl (s1 \<lparr>errno := EBADF\<rparr>)
      | Some f \<Rightarrow>
          if nonblock s f then Inr (False, s1)
          else let s2 = touch fd s1 in
            (case setfl of
               Some e \<Rightarrow> Inl (s2 \<lparr>errno := e\<rparr>)
             | None \<Rightarrow> Inr (True, s2 \<lparr>nonblock := (nonblock s2) (f := True)\<rparr>)))"

definition restore_flags :: "int \<Rightarrow> bool \<Rightarrow> hk_sys \<Rightarrow> hk_sys" where
  "restore_flags fd restore s =
     (if \<not> restore then s
      else case fdt s fd of
        None \<Rightarrow> touch fd s
      | Some f \<Rightarrow> (touch fd s) \<lparr>nonblock := (nonblock s) (f := False)\<rparr>)"

text \<open>\<open>FileOffsetGuard\<close>: the offset of a regular file, and its restoration.\<close>

definition OffsetGuard :: "bool \<Rightarrow> int \<Rightarrow> hk_sys \<Rightarrow> int option \<times> hk_sys" where
  "OffsetGuard seeks fd s =
     (if \<not> seeks then (None, s)
      else case fdt s fd of
        None \<Rightarrow> (None, touch fd s)
      | Some f \<Rightarrow> (case fpos s f of None \<Rightarrow> (None, touch fd s) | Some x \<Rightarrow> (Some x, touch fd (touch fd s))))"

definition restore_offset :: "int \<Rightarrow> int option \<Rightarrow> hk_sys \<Rightarrow> hk_sys" where
  "restore_offset fd saved s =
     (case saved of
        None \<Rightarrow> s
      | Some x \<Rightarrow> (case fdt s fd of
            None \<Rightarrow> touch fd s
          | Some f \<Rightarrow> (touch fd s) \<lparr>fpos := (fpos s) (f := (if fpos s f = None then None else Some x))\<rparr>))"

text \<open>The end of a call: the guards run in the reverse order of their construction.\<close>

definition io_finish :: "int \<Rightarrow> bool \<Rightarrow> int option \<Rightarrow> io_exit \<times> hk_sys \<Rightarrow> int \<times> io_exit \<times> hk_sys" where
  "io_finish fd restore saved r =
     (case r of (x, s) \<Rightarrow>
        (case x of
           ExDone n \<Rightarrow> (n, x, restore_flags fd restore s)
         | ExStale \<Rightarrow> (-1, x, s)
         | _ \<Rightarrow> (-1, x, restore_flags fd restore (restore_offset fd saved s))))"

definition hook_io :: "io_op \<Rightarrow> int \<Rightarrow> int option \<Rightarrow> (int \<times> int) option \<Rightarrow> io_turn list \<Rightarrow> hk_sys
    \<Rightarrow> (int \<times> io_exit \<times> hk_sys) option" where
  "hook_io op fd setfl tv turns s =
     (case NonblockGuard fd setfl s of
        Inl s1 \<Rightarrow> Some (-1, ExError (errno s1), s1)
      | Inr (restore, s1) \<Rightarrow>
          let s2 = touch fd s1; iot = IoTimeout tv (clock_ns s2) in
          case OffsetGuard (guards_offset op) fd s2 of (saved, s3) \<Rightarrow>
            map_option (io_finish fd restore saved) (io_loop op fd iot turns s3))"

section \<open>The hooked calls\<close>

text \<open>EWOULDBLOCK is EAGAIN.\<close>

definition read_retries :: "int list" where "read_retries = [EAGAIN, EINPROGRESS, EINTR]"

definition read_op :: "bool \<Rightarrow> io_op" where
  "read_op g = \<lparr>retries = read_retries, writable = False, guards_offset = g\<rparr>"






text \<open>A call with \<open>MSG_DONTWAIT\<close> goes straight to the system call, whose answer is the head of the turns.\<close>

definition hook_msg :: "io_op \<Rightarrow> int \<Rightarrow> bool \<Rightarrow> int option \<Rightarrow> (int \<times> int) option \<Rightarrow> io_turn list \<Rightarrow> hk_sys
    \<Rightarrow> (int \<times> io_exit \<times> hk_sys) option" where
  "hook_msg op fd dontwait setfl tv turns s =
     (if dontwait
      then (case turns of [] \<Rightarrow> None
        | k # _ \<Rightarrow> (case answer k of (r, e) \<Rightarrow>
            Some (if 0 \<le> r then (r, ExDone r, touch fd s) else (r, ExError e, (touch fd s) \<lparr>errno := e\<rparr>))))
      else hook_io op fd setfl tv turns s)"




definition Hook_Recv :: "int \<Rightarrow> bool \<Rightarrow> int option \<Rightarrow> (int \<times> int) option \<Rightarrow> io_turn list \<Rightarrow> hk_sys \<Rightarrow> (int \<times> io_exit \<times> hk_sys) option" where
  "Hook_Recv = hook_msg (read_op False)"



text \<open>A whole \<open>close\<close> by the worker \<open>t\<close> of the coroutine, for the cleanup paths below.\<close>

definition HookClose :: "nat \<Rightarrow> int \<Rightarrow> hk_sys \<Rightarrow> hk_sys" where
  "HookClose t fd s = (case HookClose_begin t fd (PrepAllocFails 0) s of
       (Some e, s1) \<Rightarrow> s1 | (None, s1) \<Rightarrow> HookClose_end t fd (HookClose_os t fd 0 s1))"

text \<open>\<open>socket\<close>: the new file \<open>f\<close> under the number \<open>fd\<close> is made non-blocking, or closed again. The last components
  are the returned number and errno.\<close>

definition Hook_Socket :: "nat \<Rightarrow> int \<times> int \<Rightarrow> nat \<Rightarrow> int option \<Rightarrow> hk_sys \<Rightarrow> int \<times> hk_sys" where
  "Hook_Socket t ret f setfl s =
     (case ret of (fd, e) \<Rightarrow>
        if fd < 0 then (-1, s \<lparr>errno := e\<rparr>)
        else let s1 = s \<lparr>fdt := (fdt s) (fd := Some f)\<rparr> in
          (case setfl of
             Some e' \<Rightarrow> (-1, (HookClose t fd s1) \<lparr>errno := e'\<rparr>)
           | None \<Rightarrow> (fd, s1 \<lparr>nonblock := (nonblock s1) (f := True)\<rparr>)))"

text \<open>Accepting: the kernel enters the accepted file \<open>f\<close> under the answered number, which is made non-blocking or
  closed again (\<open>newfl\<close> is the error of setting its flags). The flags of the listening socket are restored last.\<close>

definition accepted :: "nat \<Rightarrow> io_exit \<times> hk_sys \<Rightarrow> io_exit \<times> hk_sys" where
  "accepted f r = (case r of (ExDone n, s) \<Rightarrow> (ExDone n, s \<lparr>fdt := (fdt s) (n := Some f)\<rparr>) | _ \<Rightarrow> r)"

definition set_nonblock :: "nat \<Rightarrow> int option \<Rightarrow> io_exit \<times> hk_sys \<Rightarrow> io_exit \<times> hk_sys" where
  "set_nonblock t newfl r =
     (case r of
        (ExDone n, s) \<Rightarrow> (case newfl of
            Some e \<Rightarrow> (ExError e, (HookClose t n s) \<lparr>errno := e\<rparr>)
          | None \<Rightarrow> (ExDone n, case fdt s n of None \<Rightarrow> s | Some f \<Rightarrow> s \<lparr>nonblock := (nonblock s) (f := True)\<rparr>))
      | _ \<Rightarrow> r)"

definition accept_op :: io_op where
  "accept_op = \<lparr>retries = [EAGAIN, EINTR], writable = False, guards_offset = False\<rparr>"

definition Hook_Accept :: "nat \<Rightarrow> nat \<Rightarrow> int option \<Rightarrow> int \<Rightarrow> int option \<Rightarrow> (int \<times> int) option \<Rightarrow> io_turn list \<Rightarrow> hk_sys
    \<Rightarrow> (int \<times> io_exit \<times> hk_sys) option" where
  "Hook_Accept t f newfl fd setfl tv turns s =
     (case NonblockGuard fd setfl s of
        Inl s1 \<Rightarrow> Some (-1, ExError (errno s1), s1)
      | Inr (restore, s1) \<Rightarrow>
          let s2 = touch fd s1; iot = IoTimeout tv (clock_ns s2) in
          map_option (io_finish fd restore None \<circ> set_nonblock t newfl \<circ> accepted f) (io_loop accept_op fd iot turns s2))"

text \<open>\<open>accept4\<close> with the system call, or built from \<open>accept\<close> and the flags it should have set (\<open>flagerr\<close> is their
  error).\<close>

definition Hook_Accept4 :: "bool \<Rightarrow> int option \<Rightarrow> nat \<Rightarrow> nat \<Rightarrow> int option \<Rightarrow> int \<Rightarrow> int option \<Rightarrow> (int \<times> int) option
    \<Rightarrow> io_turn list \<Rightarrow> hk_sys \<Rightarrow> (int \<times> io_exit \<times> hk_sys) option" where
  "Hook_Accept4 have4 flagerr t f newfl fd setfl tv turns s =
     (if have4 then Hook_Accept t f newfl fd setfl tv turns s
      else case NonblockGuard fd setfl s of
        Inl s1 \<Rightarrow> Some (-1, ExError (errno s1), s1)
      | Inr (restore, s1) \<Rightarrow>
          map_option (\<lambda>(r, x, s2).
              case (case flagerr of None \<Rightarrow> (x, s2) | Some e \<Rightarrow> set_nonblock t (Some e) (x, s2)) of (y, s3) \<Rightarrow>
                (case y of ExDone n \<Rightarrow> n | _ \<Rightarrow> -1, y, restore_flags fd restore s3))
            (Hook_Accept t f newfl fd None tv turns (touch fd s1)))"

text \<open>Connecting never samples a timeout and treats \<open>EISCONN\<close> as success; a refused wait reads and clears the
  pending error of the socket.\<close>

definition no_timeout :: io_timeout where
  "no_timeout = \<lparr>m_ms = 0, m_deadline = 0\<rparr>"

definition connect_turn :: "io_turn \<Rightarrow> io_turn" where
  "connect_turn k = (case answer k of (r, e) \<Rightarrow> if r = 0 then k \<lparr>answer := (0, e)\<rparr> else if e = EISCONN then k \<lparr>answer := (0, e)\<rparr> else k \<lparr>answer := (-1, e)\<rparr>)"

definition connect_finish :: "int \<Rightarrow> bool \<Rightarrow> io_exit \<times> hk_sys \<Rightarrow> int \<times> io_exit \<times> hk_sys" where
  "connect_finish fd restore r =
     (case r of (x, s) \<Rightarrow>
        (case x of
           ExDone n \<Rightarrow> (n, x, restore_flags fd restore s)
         | ExError e \<Rightarrow> (-1, x, restore_flags fd restore s)
         | ExStale \<Rightarrow> (-1, x, s)
         | _ \<Rightarrow> (-1, x, restore_flags fd restore (touch fd s))))"

definition Hook_Connect :: "int \<Rightarrow> int option \<Rightarrow> io_turn list \<Rightarrow> hk_sys \<Rightarrow> (int \<times> io_exit \<times> hk_sys) option" where
  "Hook_Connect fd setfl turns s =
     (case NonblockGuard fd setfl s of
        Inl s1 \<Rightarrow> Some (-1, ExError (errno s1), s1)
      | Inr (restore, s1) \<Rightarrow>
          map_option (connect_finish fd restore)
            (io_loop \<lparr>retries = [EINTR, EINPROGRESS, EALREADY], writable = True, guards_offset = False\<rparr> fd no_timeout
              (map connect_turn turns) s1))"

section \<open>The machine of closes, events and waits\<close>

datatype hk_step =
    HkOthers hk_event
  | HkEnter bool int io_timeout nat "nat \<Rightarrow> create_result"
  | HkReturn int

fun hk_exec :: "hk_step \<Rightarrow> hk_sys \<Rightarrow> hk_sys option" where
  "hk_exec (HkOthers ev) s = env_exec ev s"
| "hk_exec (HkEnter w fd iot e outs) s = (case CoWaitFdReady_enter w fd iot e outs s of
       None \<Rightarrow> None | Some (Inl (r, u)) \<Rightarrow> Some u | Some (Inr u) \<Rightarrow> Some u)"
| "hk_exec (HkReturn fd) s = map_option snd (CoWaitFdReady_return fd s)"

definition hk_init :: hk_sys where
  "hk_init = \<lparr>cs = \<lparr>co = CreateCoroutine \<lparr>m_run_status := CO_RUNNING\<rparr>, poll = poll_init, activated = []\<rparr>, fdt = Map.empty,
     nonblock = \<lambda>_. False, fpos = \<lambda>_. None, closer = \<lambda>_. HcIdle, clock_ns = 0, errno = 0, hits = []\<rparr>"

section \<open>Invariant\<close>

definition claims :: "hk_sys \<Rightarrow> nat \<Rightarrow> int \<Rightarrow> bool" where
  "claims s t fd \<longleftrightarrow> (\<exists>f. closer s t = HcClaimed fd f) \<or> (\<exists>r. closer s t = HcClosed fd r)"

definition hk_inv :: "hk_sys \<Rightarrow> bool" where
  "hk_inv s \<longleftrightarrow> poll_inv (pl s) \<and> (\<forall>fd. FdIsClosing fd (pl s) \<longleftrightarrow> (\<exists>t. claims s t fd)) \<and>
     (\<forall>t u fd. claims s t fd \<longrightarrow> claims s u fd \<longrightarrow> t = u) \<and> (\<forall>fd. fdt s fd \<noteq> None \<longrightarrow> 0 \<le> fd) \<and>
     (\<forall>t fd f. closer s t = HcClaimed fd (Some f) \<longrightarrow> fdt s fd = Some f)"

lemma hk_invD:
  assumes "hk_inv s"
  shows "poll_inv (pl s)" "FdIsClosing fd (pl s) \<longleftrightarrow> (\<exists>t. claims s t fd)" "claims s t fd \<Longrightarrow> claims s u fd \<Longrightarrow> t = u"
    "fdt s fd = Some f \<Longrightarrow> 0 \<le> fd" "closer s t = HcClaimed fd (Some f) \<Longrightarrow> fdt s fd = Some f"
  using assms unfolding hk_inv_def by blast+

lemma set_pl_sel [simp]:
  "pl (set_pl p s) = p" "co (cs (set_pl p s)) = co (cs s)" "fdt (set_pl p s) = fdt s" "nonblock (set_pl p s) = nonblock s"
  "fpos (set_pl p s) = fpos s" "closer (set_pl p s) = closer s" "clock_ns (set_pl p s) = clock_ns s" "hits (set_pl p s) = hits s"
  by (simp_all add: set_pl_def)

lemma touch_sel [simp]:
  "cs (touch fd s) = cs s" "fdt (touch fd s) = fdt s" "nonblock (touch fd s) = nonblock s" "fpos (touch fd s) = fpos s"
  "closer (touch fd s) = closer s" "clock_ns (touch fd s) = clock_ns s" "hits (touch fd s) = hits s @ [fdt s fd]"
  by (simp_all add: touch_def)

lemma hk_inv_cong:
  assumes "hk_inv s" "pl u = pl s" "fdt u = fdt s" "closer u = closer s" shows "hk_inv u"
  using assms(1) unfolding hk_inv_def claims_def assms(2-4) .

text \<open>Steps of the event system leave the closing marks alone.\<close>

lemma closing_frames [simp]:
  "closing (get_slot (snd (Trigger i f s)) fd) = closing (get_slot s fd)"
  "closing (get_slot (snd (InitFdEvent i fd' evm tmo outs s)) fd) = closing (get_slot s fd)"
  "closing (get_slot (snd (regist_track i s)) fd) = closing (get_slot s fd)"
  by (auto simp: Trigger_def trigger_cas_def InitFdEvent_def regist_track_def TrackWaiter_def Let_def fd_slot0_def
      split: create_result.splits)

lemma poll_frame:
  assumes "poll_exec ev p = Some p'" "poll_allowed a ev"
  shows "FdEpoch fd p' = FdEpoch fd p" "FdIsClosing fd p' = FdIsClosing fd p"
  using assms unfolding FdEpoch_slot FdIsClosing_slot
  by (cases ev; auto split: if_splits simp: InitCustomEvent_def regist_begin_def regist_listen_def Let_def
      CommitPark_def UnRegist_def destroy_event_def)+

lemma inv_poll:
  assumes inv: "hk_inv s" and st: "poll_exec ev (pl s) = Some p" "poll_allowed a ev"
  shows "hk_inv (set_pl p s)"
  using inv poll_step_inv [OF hk_invD(1) [OF inv] st(1)] poll_frame(2) [OF st] unfolding hk_inv_def claims_def by simp

lemma Begin_fields:
  assumes "BeginFdClose fd p = (c, p')"
  shows "FdIsClosing fd p = (\<not> c)" "FdIsClosing g p' = (g = fd \<or> FdIsClosing g p)" "\<not> c \<Longrightarrow> p' = p"
    "FdEpoch g p' = (if g = fd \<and> c then FdEpoch g p + 1 else FdEpoch g p)" "evs p' = evs p"
  using assms unfolding FdIsClosing_slot FdEpoch_slot by (auto simp: BeginFdClose_def Let_def split: if_splits)

lemma End_fields:
  "FdIsClosing g (EndFdClose fd p) = (g \<noteq> fd \<and> FdIsClosing g p)" "FdEpoch g (EndFdClose fd p) = FdEpoch g p" "evs (EndFdClose fd p) = evs p"
  unfolding FdIsClosing_slot FdEpoch_slot
  by (auto simp: EndFdClose_def get_slot_def put_slot_def erase_slot_def fd_slot0_def split: option.splits)

lemma inv_close_begin:
  assumes inv: "hk_inv s" and idle: "closer s t = HcIdle"
  shows "hk_inv (snd (HookClose_begin t fd prep s))"
proof (cases prep)
  case (PrepAllocFails k)
  obtain c p where b: "BeginFdClose fd (pl s) = (c, p)" by (cases "BeginFdClose fd (pl s)")
  show ?thesis
  proof (cases "2 \<le> k \<or> \<not> c")
    case False
    define u where "u = (set_pl p s) \<lparr>closer := (closer s) (t := HcClaimed fd (fdt s fd))\<rparr>"
    have e: "snd (HookClose_begin t fd prep s) = u" using False b PrepAllocFails by (simp add: HookClose_begin_def u_def)
    have nc: "\<not> claims s v fd" for v using Begin_fields(1) [OF b] hk_invD(2) [OF inv, of fd] False by blast
    have cl: "claims u v g \<longleftrightarrow> (if v = t then g = fd else claims s v g)" for v g
      using idle by (auto simp: claims_def u_def)
    have "poll_inv (pl u)" using inv_BeginFdClose [OF hk_invD(1) [OF inv], of fd] b by (simp add: u_def)
    moreover have "FdIsClosing g (pl u) \<longleftrightarrow> (\<exists>v. claims u v g)" for g
    proof -
      have ni: "\<not> claims s t h" for h using idle by (simp add: claims_def)
      have "claims u v g \<longleftrightarrow> v = t \<and> g = fd \<or> claims s v g" for v unfolding cl using ni by auto
      then have "(\<exists>v. claims u v g) \<longleftrightarrow> g = fd \<or> (\<exists>v. claims s v g)" by (simp add: ex_disj_distrib)
      then show ?thesis using Begin_fields(2) [OF b, of g] hk_invD(2) [OF inv, of g] by (simp add: u_def)
    qed
    moreover have "claims u v g \<Longrightarrow> claims u w g \<Longrightarrow> v = w" for v w g
      using hk_invD(3) [OF inv, of v g w] nc [of v] nc [of w] unfolding cl by (auto split: if_splits)
    moreover have "closer u v = HcClaimed g (Some f) \<Longrightarrow> fdt u g = Some f" for v g f
      using hk_invD(5) [OF inv, of v g f] by (auto simp: u_def split: if_splits)
    moreover have "fdt u g \<noteq> None \<Longrightarrow> 0 \<le> g" for g using hk_invD(4) [OF inv, of g] by (auto simp: u_def)
    ultimately show ?thesis unfolding e hk_inv_def by blast
  qed (use inv b PrepAllocFails in \<open>auto simp: HookClose_begin_def\<close>)
qed (use inv in \<open>simp add: HookClose_begin_def\<close>)

lemma inv_close_os:
  assumes inv: "hk_inv s" and pc: "closer s t = HcClaimed fd fo"
  shows "hk_inv (HookClose_os t fd r s)"
proof -
  have cl: "claims (HookClose_os t fd r s) v g \<longleftrightarrow> claims s v g" for v g using pc by (auto simp: claims_def HookClose_os_def)
  have "closer s v \<noteq> HcClaimed fd (Some f)" if "v \<noteq> t" for v f
    using hk_invD(3) [OF inv, of v fd t] pc that by (auto simp: claims_def)
  then show ?thesis using inv unfolding hk_inv_def cl by (auto simp: HookClose_os_def split: if_splits)
qed

lemma inv_close_end:
  assumes inv: "hk_inv s" and pc: "closer s t = HcClosed fd r"
  shows "hk_inv (HookClose_end t fd s)"
proof -
  define u where "u = HookClose_end t fd s"
  have own: "claims s t fd" using pc by (auto simp: claims_def)
  have cl: "claims u v g \<longleftrightarrow> v \<noteq> t \<and> claims s v g" for v g using pc by (auto simp: claims_def u_def HookClose_end_def)
  have ft: "claims s t g \<Longrightarrow> g = fd" for g using pc by (auto simp: claims_def)
  have "poll_inv (pl u)" using inv_EndFdClose [OF hk_invD(1) [OF inv]] by (simp add: u_def HookClose_end_def)
  moreover have "FdIsClosing g (pl u) \<longleftrightarrow> (\<exists>v. claims u v g)" for g
  proof -
    have "(\<exists>v. claims u v g) \<longleftrightarrow> g \<noteq> fd \<and> (\<exists>v. claims s v g)" unfolding cl using hk_invD(3) [OF inv own] ft by metis
    then show ?thesis using hk_invD(2) [OF inv, of g] by (simp add: u_def HookClose_end_def End_fields)
  qed
  moreover have "claims u v g \<Longrightarrow> claims u w g \<Longrightarrow> v = w" for v w g using hk_invD(3) [OF inv, of v g w] unfolding cl by blast
  moreover have "closer u v = HcClaimed g (Some f) \<Longrightarrow> fdt u g = Some f" for v g f
    using hk_invD(5) [OF inv, of v g f] by (auto simp: u_def HookClose_end_def split: if_splits)
  moreover have "fdt u g \<noteq> None \<Longrightarrow> 0 \<le> g" for g using hk_invD(4) [OF inv, of g] by (auto simp: u_def HookClose_end_def)
  ultimately show ?thesis unfolding u_def [symmetric] hk_inv_def by blast
qed

lemma inv_env:
  assumes inv: "hk_inv s" and st: "env_exec ev s = Some u"
  shows "hk_inv u"
proof (cases ev)
  case (HPoll e)
  then show ?thesis using st inv_poll [OF inv] by (auto split: if_splits option.splits)
next
  case (HCloseBegin t fd prep)
  then show ?thesis using st inv_close_begin [OF inv] by (auto split: if_splits)
next
  case (HCloseOs t r)
  then show ?thesis using st inv_close_os [OF inv] by (auto split: close_pc.splits)
next
  case (HCloseEnd t)
  then show ?thesis using st inv_close_end [OF inv] by (auto split: close_pc.splits)
next
  case (HOpen fd f)
  then have "0 \<le> fd" "fdt s fd = None" "u = s \<lparr>fdt := (fdt s) (fd := Some f)\<rparr>" using st by (auto split: if_splits)
  then show ?thesis using inv by (auto simp: hk_inv_def claims_def)
qed (use st hk_inv_cong [OF inv, of u] in \<open>auto simp: cancel_store_def split: if_splits\<close>)

section \<open>One wait\<close>

text \<open>What the event system keeps of an event that was set up for a descriptor.\<close>

definition ev_setup :: "nat \<Rightarrow> int \<Rightarrow> u64 \<Rightarrow> poll_sys \<Rightarrow> bool" where
  "ev_setup e fd ep p \<longleftrightarrow> m_fd (evs p e) = fd \<and> m_wait_epoch (evs p e) = ep \<and> alive (evs p e) \<and>
     (phase p e = Some INITED \<longrightarrow> m_event (evs p e))"





text \<open>The wait of the coroutine on the descriptor \<open>fd\<close> of file \<open>f\<close> after at most \<open>n\<close> steps of the others: it is
  decided as closed, or the generation counts the closes begun since.\<close>

definition wait_on :: "nat \<Rightarrow> int \<Rightarrow> nat \<Rightarrow> u64 \<Rightarrow> nat \<Rightarrow> hk_sys \<Rightarrow> bool" where
  "wait_on e fd f ep n s \<longleftrightarrow> m_await_event (co (cs s)) = Some e \<and> ev_setup e fd ep (pl s) \<and>
     (decided e POLL_EVENT_CLOSED (pl s) \<or>
      (\<exists>k\<le>n. FdEpoch fd (pl s) = ep + of_nat k \<and> (k = 0 \<longrightarrow> fdt s fd = Some f \<and> \<not> FdIsClosing fd (pl s))))"



lemma prepare_suspends:
  assumes p: "prepare_fd_wait e fd evm tmo outs c = Some (Inr c')" and new: "evs (poll c) e = co_event0" and fd: "0 \<le> fd"
  shows "m_await_event (co c') = Some e \<and> ev_setup e fd (FdEpoch fd (poll c)) (poll c') \<and> m_timeout (evs (poll c') e) = tmo \<and>
    poll c' = snd (InitFdEvent e fd evm tmo outs (poll c)) \<and> (FdIsClosing fd (poll c) \<longrightarrow> decided e POLL_EVENT_CLOSED (poll c'))"
proof -
  obtain r q where q: "InitFdEvent e fd evm tmo outs (poll c) = (r, q)" by fastforce
  have c': "r = 0" "poll c' = q" "m_await_event (co c') = Some e"
    using p q by (auto simp: prepare_fd_wait_def YieldWithCallback_def split: if_splits option.splits)
  have ph: "phase (poll c) e = Some INITED" using new by (simp add: phase_def co_event0_def)
  have al: "alive (evs (poll c) e)" using new by (simp add: co_event0_def)
  have "ev_setup e fd (FdEpoch fd (poll c)) q \<and> m_timeout (evs q e) = tmo \<and> (FdIsClosing fd (poll c) \<longrightarrow> decided e POLL_EVENT_CLOSED q)"
    using q c'(1) ph al fd unfolding FdIsClosing_slot FdEpoch_slot
    by (auto simp: InitFdEvent_def Let_def Trigger_def trigger_cas_def phase_def ev_setup_def decided_def
        split: if_splits create_result.splits)
  then show ?thesis using c' q by simp
qed

lemma enter_cases:
  assumes "CoWaitFdReady_enter w fd iot e outs s = Some x"
  obtains (spent) "0 < m_ms iot" "remain_ms iot (clock_ns s) \<le> 0" "x = Inl (-1, s)"
  | (wait) evm tmo y where "prepare_fd_wait e fd evm tmo outs (cs s) = Some y" "evs (pl s) e = co_event0"
      "x = map_sum (\<lambda>(r, c). (r, s \<lparr>cs := c\<rparr>)) (\<lambda>c. s \<lparr>cs := c\<rparr>) y"
      "tmo = (if 0 < m_ms iot then remain_ms iot (clock_ns s) else 0)" "0 < m_ms iot \<Longrightarrow> 0 < tmo"
  using assms unfolding CoWaitFdReady_enter_def YieldUntilFdWriteable_def YieldUntilFdReadable_def
    YieldUntilFdWriteable_ms_def YieldUntilFdReadable_ms_def Let_def
  by (auto split: if_splits)

lemma prepare_inv:
  assumes "prepare_fd_wait e fd evm tmo outs c = Some y" "poll_inv (poll c)"
  shows "case y of Inl (r, c') \<Rightarrow> poll_inv (poll c') \<and> (\<forall>g. FdIsClosing g (poll c') = FdIsClosing g (poll c))
    | Inr c' \<Rightarrow> poll_inv (poll c') \<and> (\<forall>g. FdIsClosing g (poll c') = FdIsClosing g (poll c))"
proof -
  obtain r q where q: "InitFdEvent e fd evm tmo outs (poll c) = (r, q)" by fastforce
  have "poll_inv q" using inv_InitFdEvent [OF assms(2)] q by (metis snd_conv)
  moreover have "FdIsClosing g q = FdIsClosing g (poll c)" for g
    using closing_frames(2) [of e fd evm tmo outs "poll c" g] q by (simp add: FdIsClosing_slot)
  ultimately show ?thesis using assms q by (auto simp: prepare_fd_wait_def split: if_splits option.splits)
qed

text \<open>What a step of the coroutine's own wait leaves alone.\<close>

definition same_files :: "hk_sys \<Rightarrow> hk_sys \<Rightarrow> bool" where
  "same_files s u \<longleftrightarrow> fdt u = fdt s \<and> nonblock u = nonblock s \<and> fpos u = fpos s \<and> closer u = closer s \<and> hits u = hits s \<and> clock_ns u = clock_ns s"

lemma hk_inv_pl:
  assumes "hk_inv s" "poll_inv (pl u)" "\<And>g. FdIsClosing g (pl u) = FdIsClosing g (pl s)" "same_files s u"
  shows "hk_inv u"
proof -
  have "fdt u = fdt s" "closer u = closer s" using assms(4) by (simp_all add: same_files_def)
  then show ?thesis using assms(1-3) unfolding hk_inv_def claims_def by simp
qed

lemma enter_keeps:
  assumes inv: "hk_inv s" and en: "CoWaitFdReady_enter w fd iot e outs s = Some x"
  shows "case x of Inl (r, u) \<Rightarrow> hk_inv u \<and> same_files s u | Inr u \<Rightarrow> hk_inv u \<and> same_files s u"
  using en
proof (cases rule: enter_cases)
  case spent
  then show ?thesis using inv by (simp add: same_files_def)
next
  case (wait evm tmo y)
  show ?thesis
  proof (cases y)
    case (Inl a)
    obtain r c where a: "a = (r, c)" by fastforce
    have "poll_inv (poll c)" "FdIsClosing g (poll c) = FdIsClosing g (pl s)" for g
      using prepare_inv [OF wait(1) hk_invD(1) [OF inv]] Inl a by auto
    then have "hk_inv (s \<lparr>cs := c\<rparr>)" by (intro hk_inv_pl [OF inv]) (simp_all add: same_files_def)
    then show ?thesis using wait Inl a by (simp add: same_files_def)
  next
    case (Inr c)
    have "poll_inv (poll c)" "FdIsClosing g (poll c) = FdIsClosing g (pl s)" for g
      using prepare_inv [OF wait(1) hk_invD(1) [OF inv]] Inr by auto
    then have "hk_inv (s \<lparr>cs := c\<rparr>)" by (intro hk_inv_pl [OF inv]) (simp_all add: same_files_def)
    then show ?thesis using wait Inr by (simp add: same_files_def)
  qed
qed

text \<open>A suspension starts a wait on the file of the descriptor, with a positive timeout when the socket has one.\<close>

lemma enter_waits:
  assumes inv: "hk_inv s" and en: "CoWaitFdReady_enter w fd iot e outs s = Some (Inr u)" and f: "fdt s fd = Some f"
  shows "wait_on e fd f (FdEpoch fd (pl s)) 0 u" "0 < m_ms iot \<Longrightarrow> 0 < m_timeout (evs (pl u) e) \<and>
    clock_ns s + m_timeout (evs (pl u) e) * 1000000 \<le> m_deadline iot"
proof -
  have fd: "0 \<le> fd" using hk_invD(4) [OF inv f] .
  obtain evm tmo y c where w: "prepare_fd_wait e fd evm tmo outs (cs s) = Some (Inr c)" "evs (pl s) e = co_event0" "u = s \<lparr>cs := c\<rparr>"
    "tmo = (if 0 < m_ms iot then remain_ms iot (clock_ns s) else 0)" "0 < m_ms iot \<Longrightarrow> 0 < tmo"
    using en
  proof (cases rule: enter_cases)
    case (wait evm tmo y)
    then show ?thesis using that by (cases y) auto
  qed simp
  note p = prepare_suspends [OF w(1,2) fd]
  have "FdEpoch fd (poll c) = FdEpoch fd (pl s)" using p by (simp add: FdEpoch_slot)
  moreover have "FdIsClosing fd (poll c) = FdIsClosing fd (pl s)" using p by (simp add: FdIsClosing_slot)
  ultimately show "wait_on e fd f (FdEpoch fd (pl s)) 0 u"
    using p f w(3) by (cases "FdIsClosing fd (pl s)") (auto simp: wait_on_def)
  show "0 < m_timeout (evs (pl u) e) \<and> clock_ns s + m_timeout (evs (pl u) e) * 1000000 \<le> m_deadline iot" if "0 < m_ms iot"
  proof -
    have t: "m_timeout (evs (pl u) e) = tmo" using p [THEN conjunct2, THEN conjunct2, THEN conjunct1] w(3) by simp
    have "tmo = (m_deadline iot - clock_ns s) div 1000000" using w(4) w(5) [OF that] that by (auto simp: remain_ms_def Let_def split: if_splits)
    moreover have "(m_deadline iot - clock_ns s) div 1000000 * 1000000 \<le> m_deadline iot - clock_ns s"
      by (metis div_mult_mod_eq le_add_same_cancel1 pos_mod_sign zero_less_numeral)
    ultimately show ?thesis using t w(5) [OF that] by linarith
  qed
qed

lemma return_cases:
  assumes "CoWaitFdReady_return fd s = Some (r, u)"
  obtains (woken) e c k where "m_await_event (co (cs s)) = Some e" "phase (pl s) e = Some FINAL"
      "OnCoPollEvent (GetCoPollEventFlags (m_state (evs (pl s) e))) (cs s) = Some c" "Resume (co c) = Some k"
      "u = s \<lparr>cs := c \<lparr>co := k\<rparr>\<rparr>" "r = (if FdWaitEpochValid fd (cs u) then 0 else 2)"
  | (failed) e k where "m_await_event (co (cs s)) = Some e" "phase (pl s) e = Some CANCELLED" "r = -1"
      "u = s \<lparr>cs := (cs s) \<lparr>co := k\<rparr>\<rparr>" "m_await_event k = None"
  using assms unfolding CoWaitFdReady_return_def YieldUntil_return_def YieldWithCallback_ret_def
  by (auto split: option.splits if_splits prod.splits)

lemma return_keeps:
  assumes inv: "hk_inv s" and r: "CoWaitFdReady_return fd s = Some (r, u)"
  shows "hk_inv u \<and> same_files s u"
proof -
  have "pl u = pl s \<and> same_files s u"
    using r by (cases rule: return_cases) (auto simp: OnCoPollEvent_def Let_def same_files_def split: option.splits)
  then show ?thesis using hk_inv_cong [OF inv] by (simp add: same_files_def)
qed




section \<open>One call\<close>







text \<open>A log that grows only by system calls on one file.\<close>

definition only :: "nat \<Rightarrow> nat option list \<Rightarrow> nat option list \<Rightarrow> bool" where
  "only f xs ys \<longleftrightarrow> (\<exists>zs. ys = xs @ zs \<and> set zs \<subseteq> {Some f})"

lemma only_simps [simp]: "only f xs xs" "only f xs (xs @ zs) \<longleftrightarrow> set zs \<subseteq> {Some f}"
  by (auto simp: only_def)







lemma hk_step_inv: "hk_inv s \<Longrightarrow> hk_exec ev s = Some u \<Longrightarrow> hk_inv u"
  by (cases ev) (auto dest: inv_env enter_keeps return_keeps split: option.splits sum.splits)

lemma hk_init_inv: "hk_inv hk_init"
  by (simp add: hk_inv_def hk_init_def claims_def poll_init_inv FdIsClosing_def) (simp add: poll_init_def)

interpretation hk: invariant_machine hk_exec hk_inv
  by unfold_locales (rule hk_step_inv)

lemma hk_reaches: "reaches hk_exec hk_init s \<Longrightarrow> hk_inv s"
  by (erule hk.reaches_inv) (rule hk_init_inv)













section \<open>Properties\<close>

text \<open>C7. Closing: in every interleaving at most one thread at a time is between the claim of a descriptor number
  and the end of its close; the underlying close hits the file that the number named when it was claimed, never a
  later owner of the number; a second close of a claimed number changes nothing and answers \<open>EBADF\<close>; a claim moves the
  generation of the number.\<close>

theorem hook_close_exclusive:
  assumes "reaches hk_exec hk_init s"
  shows "(\<forall>t u fd. claims s t fd \<and> claims s u fd \<longrightarrow> t = u) \<and>
    (\<forall>t fd f. closer s t = HcClaimed fd (Some f) \<longrightarrow> fdt s fd = Some f) \<and>
    (\<forall>t u fd. claims s t fd \<longrightarrow> HookClose_begin u fd (PrepAllocFails 0) s = (Some EBADF, s)) \<and>
    (\<forall>u fd s'. HookClose_begin u fd (PrepAllocFails 0) s = (None, s') \<longrightarrow>
       (\<nexists>t. claims s t fd) \<and> claims s' u fd \<and> FdEpoch fd (pl s') = FdEpoch fd (pl s) + 1)"
proof -
  have inv: "hk_inv s" by (rule hk_reaches) fact
  have c: "FdIsClosing fd (pl s) \<longleftrightarrow> (\<exists>t. claims s t fd)" for fd by (rule hk_invD(2) [OF inv])
  have "HookClose_begin u fd (PrepAllocFails 0) s = (Some EBADF, s)" if "claims s t fd" for t u fd
    using that c [of fd] by (cases "BeginFdClose fd (pl s)") (auto simp: HookClose_begin_def dest: Begin_fields(1))
  moreover have "(\<nexists>t. claims s t fd) \<and> claims s' u fd \<and> FdEpoch fd (pl s') = FdEpoch fd (pl s) + 1"
    if "HookClose_begin u fd (PrepAllocFails 0) s = (None, s')" for u fd s'
  proof -
    obtain b p where b: "BeginFdClose fd (pl s) = (b, p)" by (cases "BeginFdClose fd (pl s)")
    have s': "b" "s' = (set_pl p s) \<lparr>closer := (closer s) (u := HcClaimed fd (fdt s fd))\<rparr>"
      using that b by (auto simp: HookClose_begin_def split: if_splits)
    then show ?thesis using c [of fd] Begin_fields(1) [OF b] Begin_fields(4) [OF b, of fd] by (auto simp: claims_def)
  qed
  ultimately show ?thesis using hk_invD(3,5) [OF inv] by blast
qed

theorem hook_close_exclusive_witness:
  "\<exists>s. reaches hk_exec hk_init s \<and> fdt s 5 = Some 7 \<and> claims s 1 5 \<and> HookClose_begin 2 5 (PrepAllocFails 0) s = (Some EBADF, s)"
proof -
  have "case run hk_exec [HkOthers (HOpen 5 7), HkOthers (HCloseBegin 1 5 (PrepAllocFails 1))] hk_init of None \<Rightarrow> False
    | Some s \<Rightarrow> fdt s 5 = Some 7 \<and> closer s 1 = HcClaimed 5 (Some 7)"
    by code_simp
  from run_demo [OF this] obtain s where s: "reaches hk_exec hk_init s" "fdt s 5 = Some 7" "closer s 1 = HcClaimed 5 (Some 7)" by blast
  have "claims s 1 5" using s(3) by (simp add: claims_def)
  then show ?thesis using hook_close_exclusive [OF s(1)] s(1,2) by blast
qed


text \<open>A read that waits once: the event parks, descriptor 5 stays open, the event is triggered as readable.\<close>

definition wake_list :: "nat \<Rightarrow> u16 \<Rightarrow> hk_event list" where
  "wake_list e f = map HPoll [PRegBegin e, PRegListen e (ListenRet 0), PRegTrack e, PCommitPark e, PTrigger e f, PComplete e]"

definition read_demo :: "io_turn list" where
  "read_demo = [\<lparr>answer = (-1, 11), ev_no = 1, ev_outs = \<lambda>_. CreateOk, others = wake_list 1 POLL_EVENT_READABLE\<rparr>,
     \<lparr>answer = (3, 0), ev_no = 2, ev_outs = \<lambda>_. CreateOk, others = []\<rparr>]"






text \<open>C23. A blocking call respects the socket timeout and cancellation: a suspension of a call with a timeout
  carries a positive timer that ends by the deadline; once the deadline has passed or the coroutine is asked to
  cancel, the call ends with its next system call, whatever that answers and without suspending.\<close>

theorem hook_io_prompt:
  assumes "reaches hk_exec hk_init s" "fdt s fd = Some f"
  shows "(0 < m_ms iot \<and> CoWaitFdReady_enter w fd iot e outs s = Some (Inr u) \<longrightarrow>
      0 < m_timeout (evs (pl u) e) \<and> clock_ns s + m_timeout (evs (pl u) e) * 1000000 \<le> m_deadline iot) \<and>
    (0 < m_ms iot \<and> m_deadline iot \<le> clock_ns s \<or> m_cancel_requested (co (cs s)) \<longrightarrow>
      ks \<noteq> [] \<and> evs (pl s) (ev_no (hd ks)) = co_event0 \<longrightarrow>
      (\<exists>x t. io_loop op fd iot ks s = Some (x, t) \<and>
        x = (case answer (hd ks) of (ret, er) \<Rightarrow>
               if 0 \<le> ret then ExDone ret else if er \<in> set (retries op) then ExNoWait er else ExError er)))"
proof (intro conjI impI)
  assume "0 < m_ms iot \<and> CoWaitFdReady_enter w fd iot e outs s = Some (Inr u)"
  then show "0 < m_timeout (evs (pl u) e)" "clock_ns s + m_timeout (evs (pl u) e) * 1000000 \<le> m_deadline iot"
    using enter_waits(2) [OF hk_reaches [OF assms(1)] _ assms(2)] by blast+
next
  assume a: "0 < m_ms iot \<and> m_deadline iot \<le> clock_ns s \<or> m_cancel_requested (co (cs s))"
    "ks \<noteq> [] \<and> evs (pl s) (ev_no (hd ks)) = co_event0"
  then obtain k ks' where k: "ks = k # ks'" by (cases ks) auto
  obtain ret er where an: "answer k = (ret, er)" by fastforce
  have "m_deadline iot \<le> clock_ns s \<Longrightarrow> remain_ms iot (clock_ns s) = 0"
    by (simp add: remain_ms_def Let_def)
  then have "\<exists>r v. CoWaitFdReady_enter (writable op) fd iot (ev_no k) (ev_outs k) ((touch fd s) \<lparr>errno := er\<rparr>) = Some (Inl (r, v))"
    using a k by (auto simp: CoWaitFdReady_enter_def Let_def YieldUntilFdWriteable_def YieldUntilFdReadable_def
        YieldUntilFdWriteable_ms_def YieldUntilFdReadable_ms_def prepare_fd_wait_def)
  then show "\<exists>x t. io_loop op fd iot ks s = Some (x, t) \<and>
        x = (case answer (hd ks) of (ret, er) \<Rightarrow>
               if 0 \<le> ret then ExDone ret else if er \<in> set (retries op) then ExNoWait er else ExError er)"
    using k an by auto
qed

theorem hook_io_prompt_witness:
  "\<exists>s x t. reaches hk_exec hk_init s \<and> m_cancel_requested (co (cs s)) \<and>
     io_loop (read_op True) 5 no_timeout read_demo s = Some (x, t) \<and> x = ExNoWait 11"
proof -
  have "case run hk_exec [HkOthers (HOpen 5 7), HkOthers HCancel] hk_init of None \<Rightarrow> False
    | Some s \<Rightarrow> fdt s 5 = Some 7 \<and> m_cancel_requested (co (cs s)) \<and> evs (pl s) 1 = co_event0"
    by code_simp
  from run_demo [OF this] obtain s where s: "reaches hk_exec hk_init s" "fdt s 5 = Some 7" "m_cancel_requested (co (cs s))"
    "evs (pl s) 1 = co_event0" by blast
  show ?thesis using hook_io_prompt [OF s(1,2), of no_timeout False 1 "\<lambda>_. CreateOk" s read_demo "read_op True"] s
    by (auto simp: read_demo_def read_op_def read_retries_def errno_defs)
qed

text \<open>The two paths that still act on a number after its owner changed. A wait whose registration fails returns
  without a look at the generation, and the guard then clears the flag of the new owner (file 8).\<close>

definition regist_race :: "io_turn list" where
  "regist_race = [\<lparr>answer = (-1, 11), ev_no = 1, ev_outs = \<lambda>_. CreateOk,
     others = [HPoll (PRegBegin 1), HCloseBegin 9 5 (PrepAllocFails 0), HCloseOs 9 0, HCloseEnd 9, HOpen 5 8, HSetFlag 8 True,
       HPoll (PRegListen 1 (ListenRet (-1)))]\<rparr>]"

theorem hook_regist_fail_reuses:
  "\<exists>s. reaches hk_exec hk_init s \<and> fdt s 5 = Some 7 \<and> (\<exists>u. Hook_Recv 5 False None None regist_race s = Some (-1, ExRegist EAGAIN, u) \<and>
     fdt u 5 = Some 8 \<and> Some 8 \<in> set (hits u) \<and> \<not> nonblock u 8)"
proof -
  have "case run hk_exec [HkOthers (HOpen 5 7)] hk_init of None \<Rightarrow> False
    | Some s \<Rightarrow> fdt s 5 = Some 7 \<and> (case Hook_Recv 5 False None None regist_race s of None \<Rightarrow> False
        | Some (r, x, u) \<Rightarrow> r = -1 \<and> x = ExRegist EAGAIN \<and> fdt u 5 = Some 8 \<and> Some 8 \<in> set (hits u) \<and> \<not> nonblock u 8)"
    by code_simp
  from run_demo [OF this] show ?thesis by (auto split: option.splits)
qed

text \<open>The fallback of \<open>accept4\<close> restores the flags of the listening number even when the inner \<open>accept\<close> found it
  closed and reused.\<close>

definition accept_race :: "io_turn list" where
  "accept_race = [\<lparr>answer = (-1, 11), ev_no = 1, ev_outs = \<lambda>_. CreateOk,
     others = map HPoll [PRegBegin 1, PRegListen 1 (ListenRet 0), PRegTrack 1, PCommitPark 1] @
       [HCloseBegin 9 5 (PrepAllocFails 0), HCloseOs 9 0, HCloseEnd 9, HOpen 5 8, HSetFlag 8 True, HPoll (PCloseTrigger 1), HPoll (PComplete 1)]\<rparr>]"

theorem accept4_fallback_reuses:
  "\<exists>s. reaches hk_exec hk_init s \<and> fdt s 5 = Some 7 \<and>
     (\<exists>u. Hook_Accept4 False None 1 6 None 5 None None accept_race s = Some (-1, ExStale, u) \<and> Some 8 \<in> set (hits u) \<and> \<not> nonblock u 8) \<and>
     (\<exists>u. Hook_Accept4 True None 1 6 None 5 None None accept_race s = Some (-1, ExStale, u) \<and> Some 8 \<notin> set (hits u) \<and> nonblock u 8)"
proof -
  have "case run hk_exec [HkOthers (HOpen 5 7)] hk_init of None \<Rightarrow> False
    | Some s \<Rightarrow> fdt s 5 = Some 7 \<and> (case Hook_Accept4 False None 1 6 None 5 None None accept_race s of None \<Rightarrow> False
        | Some (r, x, u) \<Rightarrow> r = -1 \<and> x = ExStale \<and> Some 8 \<in> set (hits u) \<and> \<not> nonblock u 8) \<and>
        (case Hook_Accept4 True None 1 6 None 5 None None accept_race s of None \<Rightarrow> False
        | Some (r, x, u) \<Rightarrow> r = -1 \<and> x = ExStale \<and> Some 8 \<notin> set (hits u) \<and> nonblock u 8)"
    by code_simp
  from run_demo [OF this] show ?thesis by (auto split: option.splits)
qed

text \<open>The 32-bit milliseconds of \<open>IoTimeout\<close> are exact up to 2147482 seconds. Beyond, they wrap: a socket timeout of 30
  days is negative, which means none, and one of 49.7 days is 704 ms.\<close>

theorem io_timeout_range:
  "(0 \<le> sec \<and> sec \<le> 2147482 \<and> 0 \<le> usec \<and> usec < 1000000 \<longrightarrow> ms_of sec usec = sec * 1000 + (usec + 999) div 1000) \<and>
   m_ms (IoTimeout (Some (2592000, 0)) now) < 0 \<and> m_ms (IoTimeout (Some (4294968, 0)) now) = 704"
proof (intro conjI impI)
  assume a: "0 \<le> sec \<and> sec \<le> 2147482 \<and> 0 \<le> usec \<and> usec < 1000000"
  then have b: "0 \<le> (usec + 999) div 1000" "(usec + 999) div 1000 \<le> 1000" by linarith+
  have e: "ms_of sec usec = sint (word_of_int (sec * 1000 + (usec + 999) div 1000) :: 32 word)"
    by (simp add: ms_of_def)
  show "ms_of sec usec = sec * 1000 + (usec + 999) div 1000"
    unfolding e sint_sbintrunc' using a b by (simp add: signed_take_bit_int_eq_self)
next
  show "m_ms (IoTimeout (Some (2592000, 0)) now) < 0" "m_ms (IoTimeout (Some (4294968, 0)) now) = 704"
    unfolding IoTimeout_def Let_def by code_simp+
qed

end
