(* ===== verification/HookWait.thy ===== *)
theory HookWait
  imports PollState
begin

text \<open>
  \<open>detail/Hook.cc\<close>, calls that wait for time or for several descriptors: \<open>sleep\<close>, \<open>usleep\<close>, \<open>nanosleep\<close> and
  \<open>clock_nanosleep\<close> with their C integer conversions, \<open>poll\<close> over a private epoll descriptor, and \<open>select\<close> and
  \<open>pselect\<close> on top of it. The native \<open>poll\<close>, the epoll calls and the outcome of the coroutine's wait are arguments.
\<close>

section \<open>C integers\<close>

definition to_int :: "int \<Rightarrow> int" where
  "to_int x = sint (word_of_int x :: 32 word)"

definition to_llong :: "int \<Rightarrow> int" where
  "to_llong x = sint (word_of_int x :: 64 word)"

text \<open>Division truncates towards zero.\<close>

definition cdiv :: "int \<Rightarrow> int \<Rightarrow> int" where
  "cdiv a b = (if a < 0 then - ((- a) div b) else a div b)"

lemma to_int_id: "- (2 ^ 31) \<le> x \<Longrightarrow> x < 2 ^ 31 \<Longrightarrow> to_int x = x"
  unfolding to_int_def by (simp add: sint_sbintrunc' signed_take_bit_int_eq_self)

lemma to_llong_id: "- (2 ^ 63) \<le> x \<Longrightarrow> x < 2 ^ 63 \<Longrightarrow> to_llong x = x"
  unfolding to_llong_def by (simp add: sint_sbintrunc' signed_take_bit_int_eq_self)

section \<open>Sleeping\<close>

text \<open>\<open>SleepRet r\<close> returns at once, \<open>SleepFor ms\<close> is \<open>YieldUntilTimeout(ms)\<close>, \<open>SleepNative\<close> the original function.\<close>

datatype sleep_call = SleepRet int | SleepFor int | SleepNative

definition Hook_Sleep :: "int \<Rightarrow> sleep_call" where
  "Hook_Sleep ms = (if ms \<le> 0 then SleepRet (-1) else SleepFor ms)"

text \<open>\<open>sleep(sec)\<close> multiplies an \<open>unsigned int\<close> and passes it as \<open>int\<close>.\<close>

definition sleep_entry :: "u32 \<Rightarrow> sleep_call" where
  "sleep_entry sec = Hook_Sleep (sint (sec * 1000))"

definition Hook_USleep :: "u32 \<Rightarrow> sleep_call" where
  "Hook_USleep usec = (if usec = 0 then SleepRet 0 else SleepFor (sint ((usec + 999) div 1000)))"

definition timespec_ms :: "int \<Rightarrow> int \<Rightarrow> int" where
  "timespec_ms sec nsec = to_llong (to_llong (sec * 1000) + cdiv (to_llong (nsec + 999999)) 1000000)"

definition Hook_Nanosleep :: "(int \<times> int) option \<Rightarrow> sleep_call" where
  "Hook_Nanosleep req =
     (case req of None \<Rightarrow> SleepNative
      | Some (sec, nsec) \<Rightarrow> let ms = timespec_ms sec nsec in if ms \<le> 0 then SleepRet 0 else SleepFor (to_int ms))"

datatype clock_id = ClockMonotonic | ClockRealtime | ClockOther

text \<open>\<open>now\<close> is the answer of \<open>clock_gettime\<close> (\<open>Inl\<close> its errno). The wait returns \<open>EINVAL\<close> when \<open>YieldUntilTimeout\<close> fails.\<close>

definition Hook_ClockNanosleep :: "clock_id \<Rightarrow> bool \<Rightarrow> (int \<times> int) option \<Rightarrow> int + int \<times> int \<Rightarrow> sleep_call" where
  "Hook_ClockNanosleep clk abstime req now =
     (case req of None \<Rightarrow> SleepNative
      | Some (sec, nsec) \<Rightarrow>
          if clk = ClockOther then SleepNative
          else if abstime then
            (case now of Inl e \<Rightarrow> SleepRet e
             | Inr (nsecs, nnsec) \<Rightarrow>
                 let remain_ns = to_llong (to_llong (to_llong (sec - nsecs) * 1000000000) + to_llong (nsec - nnsec)) in
                 if remain_ns \<le> 0 then SleepRet 0 else SleepFor (to_int (cdiv (to_llong (remain_ns + 999999)) 1000000)))
          else (let ms = timespec_ms sec nsec in if ms \<le> 0 then SleepRet 0 else SleepFor (to_int ms)))"

text \<open>\<open>clock_nanosleep\<close> reports a failed wait as a positive error number.\<close>

definition clock_result :: "int \<Rightarrow> int" where
  "clock_result yret = (if yret \<noteq> 0 then 22 else 0)"

section \<open>poll\<close>

definition POLLIN :: u16 where "POLLIN = 1"
definition POLLPRI :: u16 where "POLLPRI = 2"
definition POLLOUT :: u16 where "POLLOUT = 4"
definition POLLERR :: u16 where "POLLERR = 8"
definition POLLHUP :: u16 where "POLLHUP = 16"
definition POLLNVAL :: u16 where "POLLNVAL = 32"


record pollfd =
  pfd :: int
  events :: u16
  revents :: u16

text \<open>The native \<open>poll(fds, nfds, 0)\<close>: its result and the \<open>revents\<close> it writes at each index.\<close>

type_synonym native_poll = "pollfd list \<Rightarrow> int \<times> (nat \<Rightarrow> u16)"

definition snapshot :: "native_poll \<Rightarrow> pollfd list \<Rightarrow> int \<times> pollfd list" where
  "snapshot np fds = (case np fds of (r, rv) \<Rightarrow>
     (r, if r < 0 then fds else map (\<lambda>(i, p). p \<lparr>revents := rv i\<rparr>) (enumerate 0 fds)))"

definition ready_count :: "pollfd list \<Rightarrow> nat" where
  "ready_count fds = length (filter (\<lambda>p. revents p \<noteq> 0) fds)"

definition Interest :: "u16 \<Rightarrow> u16" where
  "Interest ev = ev AND (POLLIN OR POLLOUT OR POLLPRI)"

text \<open>The epoll set: what \<open>epoll_ctl\<close> accepts, given what is already in the set. The masks of epoll are those of poll.\<close>

fun epoll_add :: "((int \<times> u16) list \<Rightarrow> int \<Rightarrow> bool) \<Rightarrow> pollfd list \<Rightarrow> (int \<times> u16) list \<Rightarrow> (int \<times> u16) list" where
  "epoll_add accepts [] w = w"
| "epoll_add accepts (p # ps) w =
     epoll_add accepts ps (if Interest (events p) \<noteq> 0 \<and> accepts w (pfd p) then w @ [(pfd p, Interest (events p))] else w)"

text \<open>What the call did between its two snapshots.\<close>

datatype poll_wait = NoWait | TimerWait int | EpollWait "(int \<times> u16) list" int

text \<open>\<open>epfd\<close> says whether the epoll descriptor was created, \<open>yret\<close> is the result of the coroutine's wait.\<close>

definition PollCore :: "native_poll \<Rightarrow> native_poll \<Rightarrow> bool \<Rightarrow> ((int \<times> u16) list \<Rightarrow> int \<Rightarrow> bool) \<Rightarrow> int
    \<Rightarrow> pollfd list \<Rightarrow> int \<Rightarrow> int \<times> pollfd list \<times> poll_wait" where
  "PollCore np1 np2 epfd accepts yret fds timeout =
     (case snapshot np1 fds of (r, fds1) \<Rightarrow>
        if r < 0 then (r, fds1, NoWait)
        else if 0 < ready_count fds1 \<or> timeout = 0 then (int (ready_count fds1), fds1, NoWait)
        else if fds = [] then
          (if 0 < timeout then (if yret \<noteq> 0 then -1 else 0, fds1, TimerWait timeout) else (0, fds1, NoWait))
        else if \<not> epfd then (-1, fds1, NoWait)
        else let w = epoll_add accepts fds1 [];
                 wait = (if w = [] then NoWait else EpollWait w (if timeout < 0 then -1 else timeout))
             in if w \<noteq> [] \<and> yret \<noteq> 0 then (-1, fds1, wait)
                else (case snapshot np2 fds1 of (r2, fds2) \<Rightarrow> (if r2 < 0 then r2 else int (ready_count fds2), fds2, wait)))"

section \<open>select\<close>

definition FD_SETSIZE :: int where "FD_SETSIZE = 1024"

text \<open>A descriptor set, or a null pointer.\<close>

type_synonym fd_set = "(int \<Rightarrow> bool) option"

definition FD_ISSET :: "int \<Rightarrow> fd_set \<Rightarrow> bool" where
  "FD_ISSET fd s = (case s of None \<Rightarrow> False | Some f \<Rightarrow> f fd)"

definition select_events :: "fd_set \<Rightarrow> fd_set \<Rightarrow> fd_set \<Rightarrow> int \<Rightarrow> u16" where
  "select_events rd wr ex fd = (if FD_ISSET fd rd then POLLIN else 0) OR (if FD_ISSET fd wr then POLLOUT else 0) OR
     (if FD_ISSET fd ex then POLLPRI else 0)"

definition select_pfds :: "int \<Rightarrow> fd_set \<Rightarrow> fd_set \<Rightarrow> fd_set \<Rightarrow> pollfd list" where
  "select_pfds nfds rd wr ex =
     map (\<lambda>fd. \<lparr>pfd = fd, events = select_events rd wr ex fd, revents = 0\<rparr>)
       (filter (\<lambda>fd. select_events rd wr ex fd \<noteq> 0) [0..nfds - 1])"

definition READ_MASK :: u16 where "READ_MASK = POLLIN OR POLLHUP OR POLLERR OR POLLNVAL"
definition WRITE_MASK :: u16 where "WRITE_MASK = POLLOUT OR POLLHUP OR POLLERR OR POLLNVAL"

text \<open>\<open>FD_ZERO\<close>, then \<open>FD_SET\<close> for every entry whose \<open>revents\<close> meet the mask.\<close>

definition write_back :: "u16 \<Rightarrow> pollfd list \<Rightarrow> fd_set \<Rightarrow> fd_set" where
  "write_back msk ps s = map_option (\<lambda>_. \<lambda>fd. \<exists>p \<in> set ps. pfd p = fd \<and> revents p AND msk \<noteq> 0) s"

definition set_count :: "int \<Rightarrow> fd_set \<Rightarrow> nat" where
  "set_count nfds s = length (filter (\<lambda>fd. FD_ISSET fd s) [0..nfds - 1])"

type_synonym select_result = "int \<times> fd_set \<times> fd_set \<times> fd_set"

text \<open>\<open>core\<close> is \<open>PollCore\<close> with its environment.\<close>

definition SelectCore :: "(pollfd list \<Rightarrow> int \<Rightarrow> int \<times> pollfd list \<times> poll_wait) \<Rightarrow> int \<Rightarrow> fd_set \<Rightarrow> fd_set \<Rightarrow> fd_set \<Rightarrow> int
    \<Rightarrow> select_result" where
  "SelectCore core nfds rd wr ex timeout =
     (let n = (if nfds < 0 then 0 else nfds) in
      if FD_SETSIZE < n then (-1, rd, wr, ex)
      else case core (select_pfds n rd wr ex) timeout of (ret, ps, w) \<Rightarrow>
        if ret < 0 then (ret, rd, wr, ex)
        else let rd' = write_back READ_MASK ps rd; wr' = write_back WRITE_MASK ps wr; ex' = write_back POLLPRI ps ex in
          (int (set_count n rd' + set_count n wr' + set_count n ex'), rd', wr', ex'))"

text \<open>The timeouts of \<open>select\<close> and \<open>pselect\<close> in milliseconds, -1 without one.\<close>

definition select_ms :: "(int \<times> int) option \<Rightarrow> int" where
  "select_ms tv = (case tv of None \<Rightarrow> -1 | Some (sec, usec) \<Rightarrow> to_int (to_int (to_int sec * 1000) + to_int (cdiv (usec + 999) 1000)))"

definition pselect_ms :: "(int \<times> int) option \<Rightarrow> int" where
  "pselect_ms ts = (case ts of None \<Rightarrow> -1 | Some (sec, nsec) \<Rightarrow> to_int (to_int (to_int sec * 1000) + to_int (cdiv (nsec + 999999) 1000000)))"

definition Hook_Select :: "(pollfd list \<Rightarrow> int \<Rightarrow> int \<times> pollfd list \<times> poll_wait) \<Rightarrow> int \<Rightarrow> fd_set \<Rightarrow> fd_set \<Rightarrow> fd_set
    \<Rightarrow> (int \<times> int) option \<Rightarrow> select_result" where
  "Hook_Select core nfds rd wr ex tv = SelectCore core nfds rd wr ex (select_ms tv)"

definition Hook_PSelect :: "(pollfd list \<Rightarrow> int \<Rightarrow> int \<times> pollfd list \<times> poll_wait) \<Rightarrow> int \<Rightarrow> fd_set \<Rightarrow> fd_set \<Rightarrow> fd_set
    \<Rightarrow> (int \<times> int) option \<Rightarrow> select_result" where
  "Hook_PSelect core nfds rd wr ex ts = SelectCore core nfds rd wr ex (pselect_ms ts)"

section \<open>Sleeping as long as asked\<close>

lemma sint_small: "uint w < 2 ^ 31 \<Longrightarrow> sint w = uint w" for w :: u32
  using to_int_id [of "uint w"] uint_ge_0 [of w] by (simp add: to_int_def)

lemma ceil_div: "0 < d \<Longrightarrow> a \<le> (a + (d - 1)) div d * d \<and> (a + (d - 1)) div d * d < a + d" for a d :: int
proof -
  assume d: "0 < d"
  have "(a + (d - 1)) div d * d + (a + (d - 1)) mod d = a + (d - 1)" by (rule div_mult_mod_eq)
  moreover have "0 \<le> (a + (d - 1)) mod d" "(a + (d - 1)) mod d < d" using d by simp_all
  ultimately show ?thesis by linarith
qed

lemma timespec_ms_exact:
  assumes "0 \<le> sec" "sec \<le> 2147482" "0 \<le> nsec" "nsec < 1000000000"
  shows "sec * 1000000000 + nsec \<le> timespec_ms sec nsec * 1000000 \<and> timespec_ms sec nsec * 1000000 < sec * 1000000000 + nsec + 1000000 \<and>
    to_int (timespec_ms sec nsec) = timespec_ms sec nsec"
proof -
  have c: "nsec \<le> (nsec + 999999) div 1000000 * 1000000" "(nsec + 999999) div 1000000 * 1000000 < nsec + 1000000"
    using ceil_div [of 1000000 nsec] by simp_all
  then have b: "0 \<le> (nsec + 999999) div 1000000" "(nsec + 999999) div 1000000 \<le> 1000" using assms by linarith+
  have t: "timespec_ms sec nsec = sec * 1000 + (nsec + 999999) div 1000000"
    using assms b by (simp add: timespec_ms_def to_llong_id cdiv_def)
  have "to_int (timespec_ms sec nsec) = timespec_ms sec nsec" using t b assms by (intro to_int_id) simp_all
  then show ?thesis using t c by (simp add: algebra_simps)
qed

lemma sleep_entry_exact:
  assumes "0 < sec" "sec \<le> 2147483" shows "sleep_entry sec = SleepFor (uint sec * 1000)"
proof -
  have u: "0 < uint sec" "uint sec \<le> 2147483" using assms by (simp_all add: word_less_def word_le_def)
  then have "uint (sec * 1000) = uint sec * 1000" by (simp add: uint_word_ariths)
  then show ?thesis using u sint_small [of "sec * 1000"] by (simp add: sleep_entry_def Hook_Sleep_def)
qed

lemma usleep_exact:
  assumes "0 < usec" "usec \<le> 4294966296"
  shows "\<exists>ms. Hook_USleep usec = SleepFor ms \<and> uint usec \<le> ms * 1000 \<and> ms * 1000 < uint usec + 1000"
proof -
  have u: "0 < uint usec" "uint usec \<le> 4294966296" using assms by (simp_all add: word_less_def word_le_def)
  then have a: "uint ((usec + 999) div 1000) = (uint usec + 999) div 1000" by (simp add: uint_word_ariths uint_div)
  moreover have "(uint usec + 999) div 1000 < 2 ^ 31" using u by simp
  ultimately have "sint ((usec + 999) div 1000) = (uint usec + 999) div 1000" using sint_small by metis
  then show ?thesis using ceil_div [of 1000 "uint usec"] assms by (simp add: Hook_USleep_def)
qed

text \<open>C26. The sleeping calls sleep for the requested time rounded up to a millisecond, as long as the request fits
  the 32-bit millisecond count of the coroutine timer: \<open>sleep\<close> up to 2147483 seconds, \<open>usleep\<close> up to 4294966296
  microseconds, \<open>nanosleep\<close> and a relative \<open>clock_nanosleep\<close> up to 2147482 seconds.\<close>

theorem sleep_exact:
  "(0 < sec \<and> sec \<le> 2147483 \<longrightarrow> sleep_entry sec = SleepFor (uint sec * 1000)) \<and>
   (0 < usec \<and> usec \<le> 4294966296 \<longrightarrow>
      (\<exists>ms. Hook_USleep usec = SleepFor ms \<and> uint usec \<le> ms * 1000 \<and> ms * 1000 < uint usec + 1000)) \<and>
   (0 \<le> s \<and> s \<le> 2147482 \<and> 0 \<le> ns \<and> ns < 1000000000 \<and> (s, ns) \<noteq> (0, 0) \<and> clk \<noteq> ClockOther \<longrightarrow>
      (\<exists>ms. Hook_Nanosleep (Some (s, ns)) = SleepFor ms \<and> Hook_ClockNanosleep clk False (Some (s, ns)) now = SleepFor ms \<and>
        s * 1000000000 + ns \<le> ms * 1000000 \<and> ms * 1000000 < s * 1000000000 + ns + 1000000))"
proof (intro conjI impI)
  assume a: "0 \<le> s \<and> s \<le> 2147482 \<and> 0 \<le> ns \<and> ns < 1000000000 \<and> (s, ns) \<noteq> (0, 0) \<and> clk \<noteq> ClockOther"
  then have t: "s * 1000000000 + ns \<le> timespec_ms s ns * 1000000" "timespec_ms s ns * 1000000 < s * 1000000000 + ns + 1000000"
    "to_int (timespec_ms s ns) = timespec_ms s ns"
    using timespec_ms_exact [of s ns] by blast+
  have "0 < s * 1000000000 + ns" using a by (cases "s = 0") auto
  then have "0 < timespec_ms s ns" using t(1) by linarith
  then show "\<exists>ms. Hook_Nanosleep (Some (s, ns)) = SleepFor ms \<and> Hook_ClockNanosleep clk False (Some (s, ns)) now = SleepFor ms \<and>
        s * 1000000000 + ns \<le> ms * 1000000 \<and> ms * 1000000 < s * 1000000000 + ns + 1000000"
    using t a by (simp add: Hook_Nanosleep_def Hook_ClockNanosleep_def Let_def)
qed (use sleep_entry_exact usleep_exact in blast)+

theorem sleep_exact_witness:
  "sleep_entry 3 = SleepFor 3000 \<and> (\<exists>ms. Hook_USleep 1500 = SleepFor ms \<and> 1500 \<le> ms * 1000)"
  using sleep_exact [of 3 1500 0 1 ClockMonotonic "Inl 0"] by auto

text \<open>Beyond that the conversions wrap: 49.7 days of \<open>sleep\<close> or \<open>nanosleep\<close> last 704 ms, 24.9 days of \<open>sleep\<close> return
  at once as an error, and the longest \<open>usleep\<close> waits are timers of 0 ms.\<close>

theorem sleep_wraps:
  "sleep_entry 4294968 = SleepFor 704 \<and> sleep_entry 2147484 = SleepRet (-1) \<and>
   Hook_Nanosleep (Some (4294968, 0)) = SleepFor 704 \<and> Hook_USleep 4294966297 = SleepFor 0"
  by code_simp

section \<open>Waiting for descriptors\<close>

definition asks :: "pollfd \<Rightarrow> bool" where
  "asks p \<longleftrightarrow> Interest (events p) \<noteq> 0"

lemma snapshot_keeps: "snapshot np fds = (r, fds') \<Longrightarrow> map pfd fds' = map pfd fds \<and> map events fds' = map events fds"
  by (auto simp: snapshot_def split: prod.splits if_splits intro!: nth_equalityI simp: nth_enumerate_eq)

lemma epoll_add_Cons: "epoll_add accepts (p # ps) w =
     epoll_add accepts ps (if asks p \<and> accepts w (pfd p) then w @ [(pfd p, Interest (events p))] else w)"
  by (simp add: asks_def)

lemma epoll_add_all:
  assumes "\<forall>w fd. fd \<notin> fst ` set w \<longrightarrow> accepts w fd" "distinct (map pfd ps)" "\<forall>p \<in> set ps. pfd p \<notin> fst ` set w"
  shows "epoll_add accepts ps w = w @ map (\<lambda>p. (pfd p, Interest (events p))) (filter asks ps)"
  using assms(2,3)
proof (induction ps arbitrary: w)
  case (Cons p ps)
  then have "epoll_add accepts ps (if asks p then w @ [(pfd p, Interest (events p))] else w) =
      (if asks p then w @ [(pfd p, Interest (events p))] else w) @ map (\<lambda>p. (pfd p, Interest (events p))) (filter asks ps)"
    by (intro Cons.IH) (auto simp: image_iff)
  then show ?case using assms(1) Cons.prems by (simp add: epoll_add_Cons del: epoll_add.simps)
qed simp

lemma epoll_add_pfds: "map pfd ps = map pfd qs \<Longrightarrow> map events ps = map events qs \<Longrightarrow> epoll_add accepts ps w = epoll_add accepts qs w"
proof (induction ps arbitrary: qs w)
  case (Cons p ps)
  then obtain q qs' where "qs = q # qs'" by (cases qs) auto
  then show ?case using Cons by simp
qed simp

text \<open>C25. What \<open>poll\<close> answers: a count is the number of entries with a result in its last native snapshot, with
  descriptors and interests untouched. It waits only when the first snapshot found nothing and the caller allows it,
  then for exactly the caller's timeout, and it watches every entry that asks for something when the descriptors
  are distinct and epoll accepts each new one.\<close>

theorem poll_outcome:
  assumes "PollCore np1 np2 epfd accepts yret fds timeout = (r, fds', w)" "0 \<le> r"
  shows "map pfd fds' = map pfd fds \<and> map events fds' = map events fds \<and> r = int (ready_count fds') \<and>
    (case w of
       NoWait \<Rightarrow> 0 < r \<or> timeout = 0 \<or> fds = [] \<or> epoll_add accepts fds [] = []
     | TimerWait t \<Rightarrow> fds = [] \<and> t = timeout \<and> 0 < t \<and> yret = 0
     | EpollWait l t \<Rightarrow> ready_count (snd (snapshot np1 fds)) = 0 \<and> timeout \<noteq> 0 \<and> t = (if timeout < 0 then -1 else timeout) \<and> yret = 0 \<and>
         ((\<forall>v fd. fd \<notin> fst ` set v \<longrightarrow> accepts v fd) \<and> distinct (map pfd fds) \<longrightarrow>
            l = map (\<lambda>p. (pfd p, Interest (events p))) (filter asks fds)))"
proof -
  obtain r1 fds1 where s1: "snapshot np1 fds = (r1, fds1)" by fastforce
  obtain r2 fds2 where s2: "snapshot np2 fds1 = (r2, fds2)" by fastforce
  note k = snapshot_keeps [OF s1] snapshot_keeps [OF s2]
  have e: "epoll_add accepts fds1 [] = epoll_add accepts fds []" using k(1) by (intro epoll_add_pfds) auto
  have all: "epoll_add accepts fds [] = map (\<lambda>p. (pfd p, Interest (events p))) (filter asks fds)"
    if "(\<forall>v fd. fd \<notin> fst ` set v \<longrightarrow> accepts v fd) \<and> distinct (map pfd fds)"
    using epoll_add_all [of accepts fds "[]"] that by simp
  have nil: "fds = [] \<Longrightarrow> fds1 = []" using k(1) by auto
  show ?thesis using assms k all nil
    by (auto simp: PollCore_def s1 s2 e Let_def ready_count_def split: if_splits)
qed

text \<open>Epoll accepts each descriptor number once.\<close>

definition once :: "(int \<times> u16) list \<Rightarrow> int \<Rightarrow> bool" where
  "once w fd \<longleftrightarrow> fd \<notin> fst ` set w"

definition quiet :: native_poll where
  "quiet fds = (0, \<lambda>_. 0)"

definition readable :: native_poll where
  "readable fds = (1, \<lambda>i. if i = 0 then POLLIN else 0)"

theorem poll_outcome_witness:
  "\<exists>fds'. PollCore quiet readable True once 0 [\<lparr>pfd = 5, events = POLLIN, revents = 0\<rparr>] (-1) = (1, fds', EpollWait [(5, POLLIN)] (-1)) \<and>
     map pfd fds' = [5]"
proof -
  have "PollCore quiet readable True once 0 [\<lparr>pfd = 5, events = POLLIN, revents = 0\<rparr>] (-1) =
      (1, [\<lparr>pfd = 5, events = POLLIN, revents = POLLIN\<rparr>], EpollWait [(5, POLLIN)] (-1))"
    by code_simp
  from poll_outcome [OF this] this show ?thesis by simp
qed

text \<open>Two entries for one descriptor: the second interest is never watched, so a \<open>poll\<close> without timeout sleeps
  through it. And without any descriptor an infinite \<open>poll\<close> (or \<open>select\<close>) returns 0 at once.\<close>

theorem poll_duplicate_unwatched:
  "(let fds = [\<lparr>pfd = 5, events = POLLIN, revents = 0\<rparr>, \<lparr>pfd = 5, events = POLLOUT, revents = 0\<rparr>] in
     snd (snd (PollCore quiet quiet True once 0 fds (-1))) = EpollWait [(5, POLLIN)] (-1)) \<and>
   PollCore quiet quiet True once 0 [] (-1) = (0, [], NoWait)"
  by code_simp

section \<open>select against its specification\<close>














text \<open>Without the last hypothesis it is not: an error on descriptor 5, asked for writing only, also enters the read set
  and is counted twice.\<close>

definition write_error :: native_poll where
  "write_error fds = (1, \<lambda>i. if i = 1 then POLLERR else 0)"

theorem select_unrequested:
  "(case SelectCore (PollCore quiet write_error True once 0) 6 (Some (\<lambda>fd. fd = 3)) (Some (\<lambda>fd. fd = 5)) None (-1) of
     (r, rd, wr, ex) \<Rightarrow> r = 2 \<and> FD_ISSET 5 rd \<and> FD_ISSET 5 wr)"
  by code_simp

end
