(* ===== verification/EventValue.thy ===== *)
theory EventValue
  imports Prelude
begin

text \<open>
  \<open>sync/CoEventValue.hpp\<close>: the 24-byte inline payload that a waker hands to a waiter. C++ types
  are a datatype (the registered base types, user types and pointers with the cv qualification
  of the pointee), the traits are a partial function (\<open>None\<close> where a \<open>static_assert\<close> rejects the
  program) that computes on 32-bit words, and an object is its representation, a list of bytes.
\<close>

section \<open>Type identifiers\<close>

datatype base_type = TBool | TChar | TSChar | TUChar | TShort | TUShort | TInt | TUInt
  | TLong | TULong | TLongLong | TULongLong | TFloat | TDouble | TVoid

fun base_id :: "base_type \<Rightarrow> u32" where
  "base_id TBool = 1"
| "base_id TChar = 2"
| "base_id TSChar = 13"
| "base_id TUChar = 3"
| "base_id TShort = 4"
| "base_id TUShort = 5"
| "base_id TInt = 6"
| "base_id TUInt = 7"
| "base_id TLong = 8"
| "base_id TULong = 9"
| "base_id TLongLong = 14"
| "base_id TULongLong = 15"
| "base_id TFloat = 10"
| "base_id TDouble = 11"
| "base_id TVoid = 12"

definition kCoEventValueNone :: u32 where
  "kCoEventValueNone = 0"

definition kCoEventValueCustomBegin :: u32 where
  "kCoEventValueCustomBegin = 0x100"

definition kCoEventValuePointerBegin :: u32 where
  "kCoEventValuePointerBegin = 0x10000"

definition kCoEventValueMaxPointerDepth :: nat where
  "kCoEventValueMaxPointerDepth = 7"

text \<open>\<open>Pointer t c v\<close> is a pointer to \<open>t\<close>, const if \<open>c\<close>, volatile if \<open>v\<close>.\<close>

datatype 'c cpp_type = Base base_type | User 'c | Pointer "'c cpp_type" bool bool

fun CoEventValuePointerDepth :: "'c cpp_type \<Rightarrow> nat" where
  "CoEventValuePointerDepth (Pointer t c v) = 1 + CoEventValuePointerDepth t"
| "CoEventValuePointerDepth _ = 0"

text \<open>What the user registered for a type of his own: the identifier given to
  \<open>BBT_COEVENT_VALUE_REGISTER_TYPE\<close>, \<open>sizeof\<close> and \<open>is_trivially_copyable\<close>.\<close>

record user_type =
  ut_id :: "u32 option"
  ut_size :: nat
  ut_trivial :: bool

text \<open>\<open>CoEventValueTraits<T>::id\<close>.\<close>

fun CoEventValueTraits :: "('c \<Rightarrow> user_type) \<Rightarrow> 'c cpp_type \<Rightarrow> u32 option" where
  "CoEventValueTraits reg (Base b) = Some (base_id b)"
| "CoEventValueTraits reg (User u) = (case ut_id (reg u) of None \<Rightarrow> None
     | Some i \<Rightarrow> if kCoEventValueCustomBegin \<le> i \<and> i < kCoEventValuePointerBegin then Some i else None)"
| "CoEventValueTraits reg (Pointer t c v) =
     (if CoEventValuePointerDepth t + 1 \<le> kCoEventValueMaxPointerDepth
      then map_option (\<lambda>i. kCoEventValuePointerBegin + i * 4 + (if c then 1 else 0) + (if v then 2 else 0))
             (CoEventValueTraits reg t)
      else None)"

section \<open>The payload\<close>

definition kInlineSize :: nat where
  "kInlineSize = 24"

record event_value =
  m_buf :: "u8 list"
  m_size :: u8
  m_type :: u32

definition event_value0 :: event_value where
  "event_value0 = \<lparr>m_buf = replicate kInlineSize 0, m_size = 0, m_type = kCoEventValueNone\<rparr>"

definition HasValue :: "event_value \<Rightarrow> bool" where
  "HasValue v \<longleftrightarrow> m_type v \<noteq> kCoEventValueNone"

text \<open>\<open>sizeof(T)\<close> under the LP64 data model; \<open>void\<close> has none.\<close>

fun size_of :: "('c \<Rightarrow> user_type) \<Rightarrow> 'c cpp_type \<Rightarrow> nat option" where
  "size_of reg (Base b) = (case b of
       TBool \<Rightarrow> Some 1 | TChar \<Rightarrow> Some 1 | TSChar \<Rightarrow> Some 1 | TUChar \<Rightarrow> Some 1
     | TShort \<Rightarrow> Some 2 | TUShort \<Rightarrow> Some 2 | TInt \<Rightarrow> Some 4 | TUInt \<Rightarrow> Some 4 | TFloat \<Rightarrow> Some 4
     | TVoid \<Rightarrow> None | _ \<Rightarrow> Some 8)"
| "size_of reg (User u) = Some (ut_size (reg u))"
| "size_of reg (Pointer t c v) = Some 8"

text \<open>The static assertions shared by \<open>From\<close> and \<open>Get\<close>: the identifier and the size, if the program compiles.\<close>

definition payload_type :: "('c \<Rightarrow> user_type) \<Rightarrow> 'c cpp_type \<Rightarrow> (u32 \<times> nat) option" where
  "payload_type reg t = (case (CoEventValueTraits reg t, size_of reg t) of
       (Some i, Some n) \<Rightarrow>
         if (\<forall>u. t = User u \<longrightarrow> ut_trivial (reg u)) \<and> n \<le> kInlineSize then Some (i, n) else None
     | _ \<Rightarrow> None)"

definition memcpy :: "'a list \<Rightarrow> 'a list \<Rightarrow> nat \<Rightarrow> 'a list" where
  "memcpy dst src n = take n src @ drop n dst"

definition From :: "('c \<Rightarrow> user_type) \<Rightarrow> 'c cpp_type \<Rightarrow> u8 list \<Rightarrow> event_value option" where
  "From reg t value = (case payload_type reg t of None \<Rightarrow> None
     | Some (i, n) \<Rightarrow> Some (event_value0 \<lparr>m_type := i, m_size := of_nat n,
         m_buf := memcpy (m_buf event_value0) value n\<rparr>))"

definition Get :: "('c \<Rightarrow> user_type) \<Rightarrow> 'c cpp_type \<Rightarrow> event_value \<Rightarrow> u8 list \<Rightarrow> (bool \<times> u8 list) option" where
  "Get reg t v out = (case payload_type reg t of None \<Rightarrow> None
     | Some (i, n) \<Rightarrow>
         if m_type v = kCoEventValueNone \<or> m_type v \<noteq> i \<or> unat (m_size v) \<noteq> n then Some (False, out)
         else Some (True, memcpy out (m_buf v) n))"

lemmas event_value_defs = kCoEventValueNone_def kCoEventValueCustomBegin_def kCoEventValuePointerBegin_def
  kCoEventValueMaxPointerDepth_def kInlineSize_def

section \<open>Identifiers do not wrap\<close>

text \<open>The identifier without the wrap-around of 32 bits.\<close>

fun ideal_id :: "('c \<Rightarrow> user_type) \<Rightarrow> 'c cpp_type \<Rightarrow> nat" where
  "ideal_id reg (Base b) = unat (base_id b)"
| "ideal_id reg (User u) = (case ut_id (reg u) of None \<Rightarrow> 0 | Some i \<Rightarrow> unat i)"
| "ideal_id reg (Pointer t c v) = 65536 + ideal_id reg t * 4 + (if c then 1 else 0) + (if v then 2 else 0)"

lemma base_id_bounds: "0 < unat (base_id b) \<and> unat (base_id b) < 256"
  by (cases b) simp_all

text \<open>The inverse of \<open>base_id\<close>, as the position in this list.\<close>

definition base_types :: "base_type list" where
  "base_types = [TVoid, TBool, TChar, TUChar, TShort, TUShort, TInt, TUInt, TLong, TULong, TFloat, TDouble, TVoid,
     TSChar, TLongLong, TULongLong]"

lemma base_id_inverse: "base_types ! unat (base_id b) = b"
  by (cases b) (simp_all add: base_types_def)

lemma base_id_inj: "base_id b = base_id b' \<Longrightarrow> b = b'"
  by (metis base_id_inverse)

fun depth_bound :: "nat \<Rightarrow> nat" where
  "depth_bound 0 = 65535"
| "depth_bound (Suc n) = 65536 + depth_bound n * 4 + 3"

lemma depth_bound_mono: "n \<le> m \<Longrightarrow> depth_bound n \<le> depth_bound m"
  by (induction m) (auto simp: le_Suc_eq)

lemma depth_bound_6: "depth_bound 6 = 357892095"
proof -
  have "(6::nat) = Suc (Suc (Suc (Suc (Suc (Suc 0)))))" by simp
  then have "depth_bound 6 = depth_bound (Suc (Suc (Suc (Suc (Suc (Suc 0))))))" by (rule arg_cong)
  then show ?thesis by simp
qed

lemma depth_bound_7: "depth_bound 7 = 1431633919"
proof -
  have "(7::nat) = Suc 6" by simp
  then show ?thesis by (simp only: depth_bound.simps depth_bound_6)
qed

lemma Traits_ideal:
  "CoEventValueTraits reg t = Some i \<Longrightarrow>
   unat i = ideal_id reg t \<and> ideal_id reg t \<le> depth_bound (CoEventValuePointerDepth t) \<and> 0 < ideal_id reg t \<and>
   CoEventValuePointerDepth t \<le> kCoEventValueMaxPointerDepth"
proof (induction t arbitrary: i)
  case (Base b)
  then show ?case using base_id_bounds [of b] by (auto simp: event_value_defs)
next
  case (User u)
  then show ?case
    by (auto simp: event_value_defs word_le_nat_alt word_less_nat_alt split: option.splits if_splits)
next
  case (Pointer t c v)
  from Pointer.prems obtain j where j: "CoEventValueTraits reg t = Some j" "CoEventValuePointerDepth t + 1 \<le> 7"
    and i: "i = 65536 + j * 4 + (if c then 1 else 0) + (if v then 2 else 0)"
    by (auto simp: event_value_defs add.commute add.left_commute split: if_splits)
  note IH = Pointer.IH [OF j(1)]
  have "depth_bound (CoEventValuePointerDepth t) \<le> depth_bound 6" by (rule depth_bound_mono) (use j(2) in simp)
  then have b: "ideal_id reg t \<le> 357892095" unfolding depth_bound_6 using IH by linarith
  define x where "x = (if c then 1 else 0) + (if v then 2 else (0::nat))"
  have x: "x \<le> 3" by (simp add: x_def)
  have "unat j = ideal_id reg t" using IH by blast
  moreover have "of_nat (unat j) = j" by (simp add: ucast_id)
  ultimately have j4: "j = of_nat (ideal_id reg t)" by (simp only:)
  have "i = of_nat (65536 + ideal_id reg t * 4 + x)" unfolding i j4 x_def by simp
  moreover have "65536 + ideal_id reg t * 4 + x < 2 ^ LENGTH(32)" using b x by simp
  ultimately have "unat i = 65536 + ideal_id reg t * 4 + x" by (simp only: unat_of_nat mod_less)
  then show ?case using IH j(2) x by (simp add: x_def event_value_defs)
qed


section \<open>Identity of types\<close>

text \<open>Registered identifiers are unique, which the interface owners promise.\<close>

definition unique_ids :: "('c \<Rightarrow> user_type) \<Rightarrow> bool" where
  "unique_ids reg \<longleftrightarrow> (\<forall>u u' i. ut_id (reg u) = Some i \<longrightarrow> ut_id (reg u') = Some i \<longrightarrow> u = u')"

lemma Traits_Base: "CoEventValueTraits reg (Base b) = Some i \<Longrightarrow> unat i < 256"
  and Traits_User: "CoEventValueTraits reg (User u) = Some i \<Longrightarrow> 256 \<le> unat i \<and> unat i < 65536 \<and> ut_id (reg u) = Some i"
  using base_id_bounds [of b]
  by (auto simp: event_value_defs word_le_nat_alt word_less_nat_alt split: option.splits if_splits)

lemma Traits_Pointer: "CoEventValueTraits reg (Pointer t c v) = Some i \<Longrightarrow> 65536 \<le> unat i"
  using Traits_ideal [of reg "Pointer t c v" i] by simp

lemma pointer_code_inj:
  "65536 + (a::nat) * 4 + (if c then 1 else 0) + (if v then 2 else 0) = 65536 + b * 4 + (if c' then 1 else 0) + (if v' then 2 else 0) \<longleftrightarrow>
   a = b \<and> c = c' \<and> v = v'"
  by (cases c; cases c'; cases v; cases v'; simp; presburger)

lemma Traits_inj:
  assumes "unique_ids reg"
  shows "CoEventValueTraits reg t = Some i \<Longrightarrow> CoEventValueTraits reg t' = Some i \<Longrightarrow> t = t'"
proof (induction t arbitrary: t' i)
  case (Base b)
  note lt = Traits_Base [OF Base(1)]
  show ?case
  proof (cases t')
    case (Base b')
    then have "base_id b = base_id b'" using \<open>CoEventValueTraits reg (Base b) = Some i\<close> \<open>CoEventValueTraits reg t' = Some i\<close> by simp
    then show ?thesis using base_id_inj Base by blast
  next
    case (User u) then show ?thesis using lt Traits_User [of reg u i] Base(2) by simp
  next
    case (Pointer t2 c v) then show ?thesis using lt Traits_Pointer [of reg t2 c v i] Base(2) by simp
  qed
next
  case (User u)
  note r = Traits_User [OF User(1)]
  show ?case
  proof (cases t')
    case (Base b) then show ?thesis using r Traits_Base [of reg b i] User(2) by simp
  next
    case (User u')
    then have "ut_id (reg u') = Some i" using Traits_User [of reg u' i] \<open>CoEventValueTraits reg t' = Some i\<close> by simp
    then show ?thesis using r assms User unfolding unique_ids_def by blast
  next
    case (Pointer t2 c v) then show ?thesis using r Traits_Pointer [of reg t2 c v i] User(2) by simp
  qed
next
  case (Pointer t c v)
  note r = Traits_Pointer [OF Pointer.prems(1)]
  show ?case
  proof (cases t')
    case (Base b) then show ?thesis using r Traits_Base [of reg b i] Pointer.prems(2) by simp
  next
    case (User u) then show ?thesis using r Traits_User [of reg u i] Pointer.prems(2) by simp
  next
    case t': (Pointer t2 c2 v2)
    from Pointer.prems obtain j j2 where j: "CoEventValueTraits reg t = Some j" "CoEventValueTraits reg t2 = Some j2"
      unfolding t' by (auto split: if_splits)
    have "ideal_id reg (Pointer t c v) = ideal_id reg (Pointer t2 c2 v2)"
      using Traits_ideal [OF Pointer.prems(1)] Traits_ideal [OF Pointer.prems(2)] unfolding t' by (metis (no_types))
    then have e: "ideal_id reg t = ideal_id reg t2" "c = c2" "v = v2"
      unfolding ideal_id.simps pointer_code_inj by blast+
    then have "unat j = unat j2" using Traits_ideal [OF j(1)] Traits_ideal [OF j(2)] by metis
    then have "j = j2" unfolding word_unat_eq_iff .
    then show ?thesis using Pointer.IH [of j t2] j e t' by simp
  qed
qed

lemma event_value_ids_eq:
  assumes "unique_ids reg" "CoEventValueTraits reg t = Some i" "CoEventValueTraits reg t' = Some i'"
  shows "i \<noteq> kCoEventValueNone \<and> (i = i' \<longleftrightarrow> t = t')"
proof -
  note b = Traits_ideal [OF assms(2)]
  have "i = i' \<longleftrightarrow> t = t'" using Traits_inj [OF assms(1,2), of t'] assms(2,3) by (metis option.inject)
  moreover have "i \<noteq> 0" using b by (metis less_numeral_extra(3) unsigned_0)
  ultimately show ?thesis unfolding kCoEventValueNone_def by blast
qed

text \<open>The identifier of a type the program may send is computed without wrap-around of the 32-bit
  arithmetic (it is at most 1431633919), and two types have the same identifier exactly if they are
  the same type, pointer levels and cv qualification of the pointees included, provided the
  registered identifiers are distinct.\<close>

lemma event_value_ids:
  assumes "unique_ids reg" "CoEventValueTraits reg t = Some i" "CoEventValueTraits reg t' = Some i'"
  shows "unat i = ideal_id reg t \<and> unat i \<le> 1431633919 \<and> i \<noteq> kCoEventValueNone \<and> (i = i' \<longleftrightarrow> t = t')"
proof -
  note b = Traits_ideal [OF assms(2)]
  have "depth_bound (CoEventValuePointerDepth t) \<le> depth_bound 7"
    by (rule depth_bound_mono) (use b in \<open>simp add: event_value_defs\<close>)
  then have "unat i \<le> 1431633919" unfolding depth_bound_7 using b by linarith
  then show ?thesis using b event_value_ids_eq [OF assms] by blast
qed

definition demo_reg :: "nat \<Rightarrow> user_type" where
  "demo_reg u = \<lparr>ut_id = (if u = 0 then Some 43691 else None), ut_size = 16, ut_trivial = True\<rparr>"

lemma demo_unique: "unique_ids demo_reg"
  by (auto simp: unique_ids_def demo_reg_def split: if_splits)

text \<open>The bound on pointer levels is needed: an eighth level would give a wrapped identifier that is
  the one of \<open>int\<close>; the traits reject it.\<close>

fun pointers :: "(bool \<times> bool) list \<Rightarrow> 'c cpp_type \<Rightarrow> 'c cpp_type" where
  "pointers [] t = t"
| "pointers ((c, v) # cvs) t = Pointer (pointers cvs t) c v"

lemma deep_pointer_collides:
  fixes deep :: "nat cpp_type"
  defines "deep \<equiv> pointers ([(False, True), (True, False)] @ replicate 6 (False, False)) (User 0)"
  shows "CoEventValuePointerDepth deep = 8" "ideal_id demo_reg deep mod 2 ^ 32 = ideal_id demo_reg (Base TInt)"
    "CoEventValueTraits demo_reg deep = None"
proof -
  have d: "deep = Pointer (Pointer (Pointer (Pointer (Pointer (Pointer (Pointer (Pointer (User 0)
      False False) False False) False False) False False) False False) False False) True False) False True"
    by (simp add: deep_def eval_nat_numeral)
  show "CoEventValuePointerDepth deep = 8" "CoEventValueTraits demo_reg deep = None"
    unfolding d by (simp_all add: event_value_defs)
  show "ideal_id demo_reg deep mod 2 ^ 32 = ideal_id demo_reg (Base TInt)"
    unfolding d by (simp add: demo_reg_def)
qed

section \<open>Round trip and type safety\<close>

lemma memcpy_full: "length src = n \<Longrightarrow> length dst = n \<Longrightarrow> memcpy dst (memcpy dst' src n) n = src"
  by (simp add: memcpy_def)

lemma payload_type_id: "payload_type reg t = Some (i, n) \<Longrightarrow> CoEventValueTraits reg t = Some i \<and> n \<le> 24"
  by (auto simp: payload_type_def kInlineSize_def split: option.splits if_splits)

text \<open>C29. A payload is read back as it was written, and only as the type it was written with: for every
  type the program may ask for, \<open>Get\<close> returns true and the bytes of the object exactly if the type is
  the one given to \<open>From\<close>, and otherwise returns false and leaves the output untouched.\<close>

theorem event_value_roundtrip:
  assumes "unique_ids reg" "payload_type reg t = Some (i, n)" "length value = n" "From reg t value = Some v"
    "payload_type reg u = Some (j, m)" "length out = m"
  shows "HasValue v \<and> Get reg u v out = Some (if u = t then (True, value) else (False, out))"
proof -
  note it = payload_type_id [OF assms(2)] and ju = payload_type_id [OF assms(5)]
  note ids = event_value_ids_eq [OF assms(1) it [THEN conjunct1] ju [THEN conjunct1]]
  have v: "m_type v = i" "m_size v = of_nat n" "m_buf v = memcpy (m_buf event_value0) value n"
    using assms(2,4) by (auto simp: From_def)
  have n: "unat (m_size v) = n" unfolding v(2) using it by (simp add: unat_of_nat)
  show ?thesis
  proof (cases "u = t")
    case True
    then have "j = i" "m = n" using assms(2,5) by auto
    then show ?thesis using True assms(3,5,6) ids v n
      by (simp add: Get_def HasValue_def memcpy_full)
  next
    case False
    then have "m_type v \<noteq> j" using ids v by auto
    then show ?thesis using False assms(5) ids v by (simp add: Get_def HasValue_def)
  qed
qed

theorem event_value_roundtrip_witness:
  "\<exists>v. From demo_reg (Base TShort) [0x34, 0x12] = Some v \<and>
     Get demo_reg (Base TShort) v [0, 0] = Some (True, [0x34, 0x12]) \<and>
     Get demo_reg (Base TUShort) v [7, 7] = Some (False, [7, 7])"
proof -
  have p: "payload_type demo_reg (Base TShort) = Some (4, 2)" "payload_type demo_reg (Base TUShort) = Some (5, 2)"
    by (simp_all add: payload_type_def kInlineSize_def)
  obtain v where v: "From demo_reg (Base TShort) [0x34, 0x12] = Some v" using p by (simp add: From_def)
  have "Get demo_reg (Base TShort) v [0, 0] = Some (True, [0x34, 0x12])"
    using event_value_roundtrip [OF demo_unique p(1) _ v p(1), of "[0, 0]"] by simp
  moreover have "Get demo_reg (Base TUShort) v [7, 7] = Some (False, [7, 7])"
    using event_value_roundtrip [OF demo_unique p(1) _ v p(2), of "[7, 7]"] by simp
  ultimately show ?thesis using v by blast
qed

end
