(* ===== verification/CondModel.thy ===== *)
theory CondModel
  imports WaiterModel
begin

text \<open>
  \<open>sync/CoCond.{hpp,cc}\<close>: the condition variable. Every wait makes its own \<open>CoWaiter\<close>, so a waiter is
  one event; it is queued by the suspending callback, after the event has been registered. \<open>NotifyOne\<close>
  runs under the lock; \<open>NotifyAll\<close> takes one waiter at a time and notifies it outside the lock.
\<close>

section \<open>Data\<close>

datatype cond_pc = CondIdle | CondSetup wait_kind nat | CondParked wait_kind nat
  | CondAll | CondAllHeld nat

record co_cond =
  m_waiter_queue :: "nat list"

text \<open>\<open>timed\<close> are the events armed with a timer that can fire; \<open>returned\<close> what finished waits returned,
  with their event (\<open>None\<close>: none was made).\<close>

record cond_sys =
  cond :: co_cond
  st :: event_store
  next_ev :: nat
  timed :: "nat set"
  pcs :: "co_id \<Rightarrow> cond_pc"
  returned :: "(nat option \<times> wait_result) list"

definition cond_init :: cond_sys where
  "cond_init = \<lparr>cond = \<lparr>m_waiter_queue = []\<rparr>, st = \<lambda>_. Gone, next_ev = 0, timed = {}, pcs = \<lambda>_. CondIdle, returned = []\<rparr>"

abbreviation wq :: "cond_sys \<Rightarrow> nat list" where
  "wq s \<equiv> m_waiter_queue (cond s)"

definition set_wq :: "nat list \<Rightarrow> cond_sys \<Rightarrow> cond_sys" where
  "set_wq q s = s \<lparr>cond := \<lparr>m_waiter_queue = q\<rparr>\<rparr>"

definition cond_set_pc :: "co_id \<Rightarrow> cond_pc \<Rightarrow> cond_sys \<Rightarrow> cond_sys" where
  "cond_set_pc c p s = s \<lparr>pcs := (pcs s) (c := p)\<rparr>"

section \<open>Operations\<close>

text \<open>The entry of the waiter's \<open>WaitWithCallback\<close> and \<open>WaitWithTimeoutAndCallback\<close> on a fresh waiter.\<close>

definition wait_enter :: "co_id \<Rightarrow> wait_kind \<Rightarrow> int option \<Rightarrow> bool \<Rightarrow> cond_sys \<Rightarrow> cond_sys" where
  "wait_enter c k tmo ok s =
     (if \<not> regist_custom tmo ok then s \<lparr>returned := returned s @ [(None, RInt (-1))]\<rparr>
      else let e = next_ev s in
        cond_set_pc c (CondSetup k e) (s \<lparr>st := (st s) (e := Waiting), next_ev := Suc e,
          timed := (case tmo of Some ms \<Rightarrow> if 0 < ms then insert e (timed s) else timed s | None \<Rightarrow> timed s)\<rparr>))"

definition Wait :: "co_id \<Rightarrow> bool \<Rightarrow> cond_sys \<Rightarrow> cond_sys" where
  "Wait c ok s = wait_enter c KWaitCallback None ok s"

definition WaitFor :: "co_id \<Rightarrow> int \<Rightarrow> bool \<Rightarrow> cond_sys \<Rightarrow> cond_sys" where
  "WaitFor c ms ok s = wait_enter c KTimeout (Some ms) ok s"

text \<open>The suspension: on success the callback has pushed the waiter.\<close>

definition drop_ev :: "nat \<Rightarrow> cond_sys \<Rightarrow> cond_sys" where
  "drop_ev e s = (if st s e = Waiting then s \<lparr>st := (st s) (e := Gone)\<rparr> else s)"

definition wait_suspend :: "co_id \<Rightarrow> wait_kind \<Rightarrow> nat \<Rightarrow> wait_setup \<Rightarrow> cond_sys \<Rightarrow> cond_sys" where
  "wait_suspend c k e su s = (case su of
       WaitParked \<Rightarrow> cond_set_pc c (CondParked k e) (set_wq (wq s @ [e]) s)
     | WaitThrew \<Rightarrow> cond_set_pc c CondIdle (drop_ev e s)
     | _ \<Rightarrow> cond_set_pc c CondIdle ((drop_ev e s) \<lparr>returned := returned s @ [(Some e, wait_value k (-1) 0)]\<rparr>))"

definition wait_return :: "co_id \<Rightarrow> wait_kind \<Rightarrow> nat \<Rightarrow> u16 \<Rightarrow> cond_sys \<Rightarrow> cond_sys" where
  "wait_return c k e f s = cond_set_pc c CondIdle (s \<lparr>returned := returned s @ [(Some e, wait_value k 0 f)]\<rparr>)"

definition NotifyOne :: "cond_sys \<Rightarrow> int \<times> cond_sys" where
  "NotifyOne s = (case notify_one ev_trigger POLL_EVENT_CUSTOM (map Some (wq s)) (st s) of
     (woke, q, t) \<Rightarrow> (if woke then 0 else -1, (set_wq (map the q) s) \<lparr>st := t\<rparr>))"

text \<open>One turn of the loop of \<open>NotifyAll\<close>: the section under the lock, and the notification after it.\<close>

definition NotifyAll_pop :: "co_id \<Rightarrow> cond_sys \<Rightarrow> cond_sys" where
  "NotifyAll_pop c s = (case wq s of
       [] \<Rightarrow> cond_set_pc c CondIdle s
     | e # q \<Rightarrow> cond_set_pc c (CondAllHeld e) (set_wq q s))"

definition NotifyAll_notify :: "co_id \<Rightarrow> nat \<Rightarrow> cond_sys \<Rightarrow> cond_sys" where
  "NotifyAll_notify c e s = cond_set_pc c CondAll (s \<lparr>st := snd (ev_trigger e POLL_EVENT_CUSTOM (st s))\<rparr>)"

section \<open>The machine\<close>

datatype cond_event =
    CWait co_id bool
  | CWaitFor co_id int bool
  | CSuspend co_id wait_setup
  | CReturn co_id
  | CNotifyOne
  | CAllBegin co_id
  | CAllPop co_id
  | CAllNotify co_id
  | CDecide nat u16

fun cond_exec :: "cond_event \<Rightarrow> cond_sys \<Rightarrow> cond_sys option" where
  "cond_exec (CWait c ok) s = (if pcs s c = CondIdle then Some (Wait c ok s) else None)"
| "cond_exec (CWaitFor c ms ok) s = (if pcs s c = CondIdle then Some (WaitFor c ms ok s) else None)"
| "cond_exec (CSuspend c su) s = (case pcs s c of CondSetup k e \<Rightarrow> Some (wait_suspend c k e su s) | _ \<Rightarrow> None)"
| "cond_exec (CReturn c) s = (case pcs s c of
       CondParked k e \<Rightarrow> (case st s e of Won f \<Rightarrow> Some (wait_return c k e f s) | _ \<Rightarrow> None)
     | _ \<Rightarrow> None)"
| "cond_exec CNotifyOne s = Some (snd (NotifyOne s))"
| "cond_exec (CAllBegin c) s = (if pcs s c = CondIdle then Some (cond_set_pc c CondAll s) else None)"
| "cond_exec (CAllPop c) s = (if pcs s c = CondAll then Some (NotifyAll_pop c s) else None)"
| "cond_exec (CAllNotify c) s = (case pcs s c of CondAllHeld e \<Rightarrow> Some (NotifyAll_notify c e s) | _ \<Rightarrow> None)"
| "cond_exec (CDecide e f) s =
     (if st s e = Waiting \<and> (f = POLL_EVENT_CANCELLED \<or> f = POLL_EVENT_TIMEOUT \<and> e \<in> timed s)
      then Some (s \<lparr>st := (st s) (e := Won f)\<rparr>) else None)"

lemmas cond_defs = Wait_def WaitFor_def wait_enter_def drop_ev_def wait_suspend_def wait_return_def
  NotifyAll_pop_def NotifyAll_notify_def cond_set_pc_def set_wq_def

section \<open>Invariant\<close>

text \<open>Events are fresh and owned by one coroutine; every undecided event belongs to a coroutine in its wait;
  and a parked undecided waiter is in the queue or in the hands of a \<open>NotifyAll\<close>.\<close>

fun wait_ev :: "cond_pc \<Rightarrow> nat option" where
  "wait_ev (CondSetup k e) = Some e"
| "wait_ev (CondParked k e) = Some e"
| "wait_ev _ = None"

definition cond_inv :: "cond_sys \<Rightarrow> bool" where
  "cond_inv s \<longleftrightarrow>
     (\<forall>c e. wait_ev (pcs s c) = Some e \<longrightarrow> e < next_ev s) \<and>
     (\<forall>c c' e. wait_ev (pcs s c) = Some e \<longrightarrow> wait_ev (pcs s c') = Some e \<longrightarrow> c = c') \<and>
     (\<forall>e \<in> set (wq s). e < next_ev s) \<and>
     (\<forall>e. st s e = Waiting \<longrightarrow> (\<exists>c. wait_ev (pcs s c) = Some e)) \<and>
     (\<forall>c e. wait_ev (pcs s c) = Some e \<longrightarrow> st s e \<noteq> Gone) \<and>
     (\<forall>c k e. pcs s c = CondParked k e \<longrightarrow> st s e = Waiting \<longrightarrow> e \<in> set (wq s) \<or> (\<exists>n. pcs s n = CondAllHeld e)) \<and>
     (\<forall>c k e. pcs s c = CondSetup k e \<longrightarrow> e \<notin> set (wq s) \<and> (\<forall>n. pcs s n \<noteq> CondAllHeld e)) \<and>
     (\<forall>n e. pcs s n = CondAllHeld e \<longrightarrow> e < next_ev s \<and> e \<notin> set (wq s)) \<and>
     distinct (wq s) \<and>
     (\<forall>n n' e. pcs s n = CondAllHeld e \<longrightarrow> pcs s n' = CondAllHeld e \<longrightarrow> n = n')"

lemma cond_invD:
  assumes "cond_inv s"
  shows "wait_ev (pcs s c) = Some e \<Longrightarrow> e < next_ev s"
    "wait_ev (pcs s c) = Some e \<Longrightarrow> wait_ev (pcs s c') = Some e \<Longrightarrow> c = c'"
    "e \<in> set (wq s) \<Longrightarrow> e < next_ev s"
    "st s e = Waiting \<Longrightarrow> \<exists>c. wait_ev (pcs s c) = Some e"
    "wait_ev (pcs s c) = Some e \<Longrightarrow> st s e \<noteq> Gone"
    "pcs s c = CondParked k e \<Longrightarrow> st s e = Waiting \<Longrightarrow> e \<in> set (wq s) \<or> (\<exists>n. pcs s n = CondAllHeld e)"
    "pcs s c = CondSetup k e \<Longrightarrow> e \<notin> set (wq s)"
    "pcs s c = CondSetup k e \<Longrightarrow> pcs s n \<noteq> CondAllHeld e"
    "pcs s n = CondAllHeld e \<Longrightarrow> e < next_ev s"
    "pcs s n = CondAllHeld e \<Longrightarrow> e \<notin> set (wq s)"
    "distinct (wq s)"
    "pcs s n = CondAllHeld e \<Longrightarrow> pcs s n' = CondAllHeld e \<Longrightarrow> n = n'"
  using assms unfolding cond_inv_def by - (elim conjE; metis)+

lemma cond_init_inv: "cond_inv cond_init"
  by (simp add: cond_inv_def cond_init_def)

lemma cond_NotifyOne_cases:
  obtains e pre where "wq s = pre @ e # wq (snd (NotifyOne s))" "st s e = Waiting" "\<forall>x \<in> set pre. st s x \<noteq> Waiting"
      "NotifyOne s = (0, (set_wq (wq (snd (NotifyOne s))) s) \<lparr>st := (st s) (e := Won POLL_EVENT_CUSTOM)\<rparr>)"
  | "\<forall>x \<in> set (wq s). st s x \<noteq> Waiting" "NotifyOne s = (-1, set_wq [] s)"
proof -
  obtain w q t where n: "notify_one ev_trigger POLL_EVENT_CUSTOM (map Some (wq s)) (st s) = (w, q, t)"
    by (metis prod_cases3)
  note spec = store_events.notify_one_spec [OF TrueI custom_neq_0 n]
  have N: "NotifyOne s = (if w then 0 else -1, (set_wq (map the q) s) \<lparr>st := t\<rparr>)" by (simp add: NotifyOne_def n)
  have W: "wq (snd (NotifyOne s)) = map the q" by (simp add: N set_wq_def)
  show ?thesis
  proof (cases w)
    case True
    then obtain pre e where e: "map Some (wq s) = pre @ Some e # q" "st s e = Waiting"
      "\<forall>x. Some x \<in> set pre \<longrightarrow> st s x \<noteq> Waiting" "t = (st s) (e := Won POLL_EVENT_CUSTOM)"
      using spec(2) by auto
    have "map the (map Some (wq s)) = map the pre @ e # map the q" unfolding e(1) by simp
    then have q: "wq s = map the pre @ e # map the q" by (simp add: comp_def)
    moreover have "\<forall>x \<in> set (map the pre). st s x \<noteq> Waiting"
    proof
      fix x assume "x \<in> set (map the pre)"
      then obtain y where y: "y \<in> set pre" "x = the y" by auto
      then have "y \<in> Some ` set (wq s)" using e(1) by (metis Un_iff image_set set_append)
      then have "Some x \<in> set pre" using y by auto
      then show "st s x \<noteq> Waiting" using e(3) by blast
    qed
    ultimately show ?thesis using that(1) [of "map the pre" e] e N W True by simp
  next
    case False
    then have "q = []" "\<forall>x. Some x \<in> set (map Some (wq s)) \<longrightarrow> st s x \<noteq> Waiting" "t = st s" using spec(3) by auto
    moreover have "(set_wq [] s) \<lparr>st := st s\<rparr> = set_wq [] s" by (simp add: set_wq_def)
    ultimately show ?thesis using that(2) N False by auto
  qed
qed


lemma cond_invI:
  assumes "\<And>c e. wait_ev (pcs s c) = Some e \<Longrightarrow> e < next_ev s"
    "\<And>c c' e. wait_ev (pcs s c) = Some e \<Longrightarrow> wait_ev (pcs s c') = Some e \<Longrightarrow> c = c'"
    "\<And>e. e \<in> set (wq s) \<Longrightarrow> e < next_ev s"
    "\<And>e. st s e = Waiting \<Longrightarrow> \<exists>c. wait_ev (pcs s c) = Some e"
    "\<And>c e. wait_ev (pcs s c) = Some e \<Longrightarrow> st s e \<noteq> Gone"
    "\<And>c k e. pcs s c = CondParked k e \<Longrightarrow> st s e = Waiting \<Longrightarrow> e \<in> set (wq s) \<or> (\<exists>n. pcs s n = CondAllHeld e)"
    "\<And>c k e. pcs s c = CondSetup k e \<Longrightarrow> e \<notin> set (wq s)"
    "\<And>c k e n. pcs s c = CondSetup k e \<Longrightarrow> pcs s n \<noteq> CondAllHeld e"
    "\<And>n e. pcs s n = CondAllHeld e \<Longrightarrow> e < next_ev s"
    "\<And>n e. pcs s n = CondAllHeld e \<Longrightarrow> e \<notin> set (wq s)"
    "distinct (wq s)"
    "\<And>n n' e. pcs s n = CondAllHeld e \<Longrightarrow> pcs s n' = CondAllHeld e \<Longrightarrow> n = n'"
  shows "cond_inv s"
  unfolding cond_inv_def by (intro conjI allI impI ballI) 
    (erule (1) assms(2) assms(12) assms(6) | erule assms(1) | erule assms(3) | erule assms(4) | erule assms(5) | erule assms(7)
      | erule assms(8) | erule assms(9) | erule assms(10) | rule assms(11))+

text \<open>Steps that change one coroutine's place and the outcome of events nobody waits for undecided.\<close>

lemma cond_inv_enter:
  assumes inv: "cond_inv s" and c: "pcs s c = CondIdle"
  shows "cond_inv (wait_enter c k tmo ok s)"
proof (cases "regist_custom tmo ok")
  case False
  then show ?thesis using inv by (simp add: wait_enter_def cond_inv_def)
next
  case True
  let ?e = "next_ev s"
  define t where "t = wait_enter c k tmo ok s"
  have t: "wq t = wq s" "st t = (st s) (?e := Waiting)" "next_ev t = Suc ?e" "pcs t = (pcs s) (c := CondSetup k ?e)"
    using True by (simp_all add: t_def wait_enter_def Let_def cond_set_pc_def)
  note D = cond_invD [OF inv]
  have fresh: "wait_ev (pcs s c') \<noteq> Some ?e" "?e \<notin> set (wq s)" "pcs s c' \<noteq> CondAllHeld ?e" for c'
    using D(1) [of c' ?e] D(3) [of ?e] D(9) [of c' ?e] by auto
  have "cond_inv t"
  proof (rule cond_invI)
    fix x assume a: "st t x = Waiting"
    show "\<exists>c'. wait_ev (pcs t c') = Some x"
    proof (cases "x = ?e")
      case False
      then obtain c' where "wait_ev (pcs s c') = Some x" using a t D(4) by auto
      then show ?thesis using c t by (intro exI [of _ c']) auto
    qed (auto simp: t)
  next
    fix c1 k1 x assume a: "pcs t c1 = CondParked k1 x" "st t x = Waiting"
    then have p: "pcs s c1 = CondParked k1 x" using t by (simp split: if_splits)
    then have "x \<noteq> ?e" using fresh(1) [of c1] by auto
    then have "x \<in> set (wq s) \<or> (\<exists>n. pcs s n = CondAllHeld x)" using D(6) [OF p] a(2) t by simp
    moreover have "pcs s n = CondAllHeld x \<Longrightarrow> pcs t n = CondAllHeld x" for n using c t by auto
    ultimately show "x \<in> set (wq t) \<or> (\<exists>n. pcs t n = CondAllHeld x)" unfolding t(1) by blast
  next
    fix c1 c2 x assume "wait_ev (pcs t c1) = Some x" "wait_ev (pcs t c2) = Some x"
    then show "c1 = c2" using D(2) [of c1 x c2] fresh(1) t by (auto split: if_splits)
  next
    fix c1 c2 x assume "pcs t c1 = CondAllHeld x" "pcs t c2 = CondAllHeld x"
    then show "c1 = c2" using D(12) [of c1 x c2] t by (simp split: if_splits)
  next
    fix c1 k1 x n assume q: "pcs t c1 = CondSetup k1 x"
    show "x \<notin> set (wq t)" using D(7) [of c1 k1 x] fresh(2) q t by (auto split: if_splits)
    show "pcs t n \<noteq> CondAllHeld x" using D(8) [of c1 k1 x n] fresh(3) [of n] q t by (auto split: if_splits)
  next
    fix n x assume "pcs t n = CondAllHeld x"
    then have q: "pcs s n = CondAllHeld x" using t by (simp split: if_splits)
    show "x < next_ev t" using D(9) [OF q] t by simp
    show "x \<notin> set (wq t)" using D(10) [OF q] t by simp
  next
    fix c1 x assume q: "wait_ev (pcs t c1) = Some x"
    show "x < next_ev t" using D(1) [of c1 x] q t by (auto split: if_splits)
    show "st t x \<noteq> Gone" using D(5) [of c1 x] fresh(1) [of c1] q t by (auto split: if_splits)
  next
    fix x assume "x \<in> set (wq t)"
    then show "x < next_ev t" using D(3) [of x] t by simp
  qed (use D(11) t in simp)
  then show ?thesis by (simp add: t_def)
qed

text \<open>Leaving the wait: the event is decided or dropped.\<close>

lemma cond_inv_exit:
  assumes inv: "cond_inv s" and e: "wait_ev (pcs s c) = Some e"
    and te: "t e \<noteq> Waiting" and tx: "\<And>x. x \<noteq> e \<Longrightarrow> t x = st s x"
  shows "cond_inv (s \<lparr>st := t, pcs := (pcs s) (c := CondIdle), returned := rs\<rparr>)"
proof -
  note D = cond_invD [OF inv]
  have held: "pcs s c \<noteq> CondAllHeld x" for x using e by auto
  have other: "wait_ev (pcs s c') = Some x \<Longrightarrow> c' \<noteq> c \<Longrightarrow> t x = st s x" for c' x
    using D(2) [of c' x c] e tx [of x] by auto
  have "cond_inv (s \<lparr>st := t, pcs := (pcs s) (c := CondIdle), returned := rs\<rparr>)" (is "cond_inv ?s")
  proof (rule cond_invI)
    fix x assume x: "st ?s x = Waiting"
    then have "x \<noteq> e" using te by auto
    then have "st s x = Waiting" using x tx by simp
    then obtain c' where c': "wait_ev (pcs s c') = Some x" using D(4) by blast
    then have "c' \<noteq> c" using e \<open>x \<noteq> e\<close> by auto
    then show "\<exists>c'. wait_ev (pcs ?s c') = Some x" using c' by (intro exI [of _ c']) simp
  next
    fix c1 k1 x assume a: "pcs ?s c1 = CondParked k1 x"
    then have p: "pcs s c1 = CondParked k1 x" "c1 \<noteq> c" by (simp_all split: if_splits)
    then have tt: "t x = st s x" using other [of c1 x] by simp
    assume "st ?s x = Waiting"
    then have "x \<in> set (wq s) \<or> (\<exists>n. pcs s n = CondAllHeld x)" using D(6) [OF p(1)] tt by simp
    then show "x \<in> set (wq ?s) \<or> (\<exists>n. pcs ?s n = CondAllHeld x)" using held by fastforce
  next
    fix c1 c2 x assume "wait_ev (pcs ?s c1) = Some x" "wait_ev (pcs ?s c2) = Some x"
    then show "c1 = c2" using D(2) [of c1 x c2] by (simp split: if_splits)
  next
    fix c1 c2 x assume "pcs ?s c1 = CondAllHeld x" "pcs ?s c2 = CondAllHeld x"
    then show "c1 = c2" using D(12) [of c1 x c2] by (simp split: if_splits)
  next
    fix c1 k x n assume "pcs ?s c1 = CondSetup k x"
    then have p: "pcs s c1 = CondSetup k x" by (simp split: if_splits)
    show "x \<notin> set (wq ?s)" using D(7) [OF p] by simp
    show "pcs ?s n \<noteq> CondAllHeld x" using D(8) [OF p] by simp
  next
    fix n x assume "pcs ?s n = CondAllHeld x"
    then have p: "pcs s n = CondAllHeld x" by (simp split: if_splits)
    show "x < next_ev ?s" using D(9) [OF p] by simp
    show "x \<notin> set (wq ?s)" using D(10) [OF p] by simp
  next
    fix c1 x assume "wait_ev (pcs ?s c1) = Some x"
    then have p: "wait_ev (pcs s c1) = Some x" "c1 \<noteq> c" by (simp_all split: if_splits)
    show "x < next_ev ?s" using D(1) [OF p(1)] by simp
    show "st ?s x \<noteq> Gone" using D(5) [OF p(1)] other [OF p] by simp
  qed (use D(3,11) in simp_all)
  then show ?thesis .
qed

lemma cond_inv_suspend:
  assumes inv: "cond_inv s" and p: "pcs s c = CondSetup k e"
  shows "cond_inv (wait_suspend c k e su s)"
proof (cases "su = WaitParked")
  case True
  note D = cond_invD [OF inv]
  have own: "wait_ev (pcs s c') = Some e \<Longrightarrow> c' = c" for c' using D(2) [of c' e c] p by simp
  define t where "t = wait_suspend c k e su s"
  have t: "wq t = wq s @ [e]" "st t = st s" "next_ev t = next_ev s" "pcs t = (pcs s) (c := CondParked k e)"
    using True by (simp_all add: t_def wait_suspend_def cond_set_pc_def set_wq_def)
  have "cond_inv t"
  proof (rule cond_invI)
    fix x assume "st t x = Waiting"
    then obtain c' where "wait_ev (pcs s c') = Some x" using D(4) t by auto
    then show "\<exists>c'. wait_ev (pcs t c') = Some x" using p t by (intro exI [of _ c']) auto
  next
    fix c1 k1 x assume a: "pcs t c1 = CondParked k1 x"
    assume w: "st t x = Waiting"
    have "pcs s n = CondAllHeld x \<Longrightarrow> pcs t n = CondAllHeld x" for n using p t by auto
    moreover have "c1 = c \<and> x = e \<or> x \<in> set (wq s) \<or> (\<exists>n. pcs s n = CondAllHeld x)"
      using D(6) [of c1 k1 x] a w t by (cases "c1 = c") auto
    ultimately show "x \<in> set (wq t) \<or> (\<exists>n. pcs t n = CondAllHeld x)" unfolding t(1) by auto
  next
    fix c1 c2 x assume "wait_ev (pcs t c1) = Some x" "wait_ev (pcs t c2) = Some x"
    then show "c1 = c2" using D(2) [of c1 x c2] own t by (simp split: if_splits)
  next
    fix c1 c2 x assume "pcs t c1 = CondAllHeld x" "pcs t c2 = CondAllHeld x"
    then show "c1 = c2" using D(12) [of c1 x c2] t by (simp split: if_splits)
  next
    fix c1 k x n assume "pcs t c1 = CondSetup k x"
    then have q: "pcs s c1 = CondSetup k x" "c1 \<noteq> c" using t by (simp_all split: if_splits)
    show "x \<notin> set (wq t)" using D(7) [OF q(1)] own [of c1] q t by auto
    show "pcs t n \<noteq> CondAllHeld x" using D(8) [OF q(1)] t by simp
  next
    fix n x assume "pcs t n = CondAllHeld x"
    then have q: "pcs s n = CondAllHeld x" using t by (simp split: if_splits)
    show "x < next_ev t" using D(9) [OF q] t by simp
    show "x \<notin> set (wq t)" using D(10) [OF q] D(8) [OF p, of n] q t by auto
  next
    fix c1 x assume "wait_ev (pcs t c1) = Some x"
    then have "wait_ev (pcs s c1) = Some x" using p t by (cases "c1 = c") auto
    note p2 = this
    show "x < next_ev t" "st t x \<noteq> Gone" using D(1,5) [OF p2] t by simp_all
  qed (use D(3,11) D(1) [of c e] D(7) [OF p] p t in auto)
  then show ?thesis by (simp add: t_def)
next
  case False
  define t where "t = (if st s e = Waiting then (st s) (e := Gone) else st s)"
  have "drop_ev e s = s \<lparr>st := t\<rparr>" by (simp add: drop_ev_def t_def)
  then have "wait_suspend c k e su s = s \<lparr>st := t, pcs := (pcs s) (c := CondIdle), returned :=
      (if su = WaitThrew then returned s else returned s @ [(Some e, wait_value k (-1) 0)])\<rparr>"
    using False by (cases su) (simp_all add: wait_suspend_def cond_set_pc_def)
  then show ?thesis using cond_inv_exit [OF inv, of c e t] p by (simp add: t_def)
qed

text \<open>Deciding an event: only its outcome changes.\<close>

lemma cond_inv_won:
  assumes inv: "cond_inv s" and e: "st s e = Waiting"
  shows "cond_inv (s \<lparr>st := (st s) (e := Won f)\<rparr>)"
proof (rule cond_invI)
  note D = cond_invD [OF inv]
  fix x assume "st (s \<lparr>st := (st s) (e := Won f)\<rparr>) x = Waiting"
  then show "\<exists>c. wait_ev (pcs (s \<lparr>st := (st s) (e := Won f)\<rparr>) c) = Some x" using D(4) [of x] by (simp split: if_splits)
qed (use cond_invD [OF inv] in \<open>auto split: if_splits\<close>)

text \<open>Shortening the queue by waiters that are decided or handed to a \<open>NotifyAll\<close>.\<close>

lemma cond_inv_queue:
  assumes inv: "cond_inv s" and q: "distinct q" "set q \<subseteq> set (wq s)" "\<And>x. x \<in> set (wq s) \<Longrightarrow> x \<notin> set q \<Longrightarrow> st s x \<noteq> Waiting"
  shows "cond_inv (set_wq q s)"
proof -
  note D = cond_invD [OF inv]
  have w: "wq (set_wq q s) = q" "st (set_wq q s) = st s" "pcs (set_wq q s) = pcs s" "next_ev (set_wq q s) = next_ev s"
    by (simp_all add: set_wq_def)
  show ?thesis
  proof (rule cond_invI)
    fix c k x assume a: "pcs (set_wq q s) c = CondParked k x" "st (set_wq q s) x = Waiting"
    then have "x \<in> set (wq s) \<or> (\<exists>n. pcs s n = CondAllHeld x)" using D(6) [of c k x] unfolding w by blast
    then show "x \<in> set (wq (set_wq q s)) \<or> (\<exists>n. pcs (set_wq q s) n = CondAllHeld x)" using q(3) [of x] a(2) unfolding w by blast
  next
    fix c k x assume "pcs (set_wq q s) c = CondSetup k x"
    then show "x \<notin> set (wq (set_wq q s))" using D(7) [of c k x] q(2) unfolding w by blast
  next
    fix n x assume "pcs (set_wq q s) n = CondAllHeld x"
    then show "x \<notin> set (wq (set_wq q s))" using D(10) [of n x] q(2) unfolding w by blast
  next
    fix x assume "x \<in> set (wq (set_wq q s))"
    then show "x < next_ev (set_wq q s)" using D(3) [of x] q(2) unfolding w by blast
  qed (use D(1,2,4,5,8,9,12) q(1) in \<open>simp_all add: w\<close>)
qed

lemma cond_inv_NotifyOne: "cond_inv s \<Longrightarrow> cond_inv (snd (NotifyOne s))"
proof -
  assume inv: "cond_inv s"
  note D = cond_invD [OF inv]
  show ?thesis
  proof (cases rule: cond_NotifyOne_cases [of s])
    case (1 e pre)
    define q where "q = wq (snd (NotifyOne s))"
    define s1 where "s1 = s \<lparr>st := (st s) (e := Won POLL_EVENT_CUSTOM)\<rparr>"
    have w: "wq s1 = wq s" "wq s = pre @ e # q" "st s1 = (st s) (e := Won POLL_EVENT_CUSTOM)" using 1(1) by (simp_all add: s1_def q_def)
    have "cond_inv s1" unfolding s1_def by (rule cond_inv_won [OF inv 1(2)])
    then have "cond_inv (set_wq q s1)"
    proof (rule cond_inv_queue)
      show "distinct q" "set q \<subseteq> set (wq s1)" using D(11) w by auto
      fix x assume "x \<in> set (wq s1)" "x \<notin> set q"
      then show "st s1 x \<noteq> Waiting" using 1(3) w by auto
    qed
    moreover have "snd (NotifyOne s) = (set_wq q s) \<lparr>st := (st s) (e := Won POLL_EVENT_CUSTOM)\<rparr>"
      using arg_cong [OF 1(4), of snd] unfolding q_def [symmetric] by simp
    then have "snd (NotifyOne s) = set_wq q s1" by (simp add: set_wq_def s1_def)
    ultimately show ?thesis by simp
  next
    case 2
    have "cond_inv (set_wq [] s)" by (rule cond_inv_queue [OF inv]) (use 2(1) in auto)
    then show ?thesis using 2(2) by simp
  qed
qed

lemma cond_inv_busy:
  assumes inv: "cond_inv s" and c: "pcs s c \<in> {CondIdle, CondAll}" and p: "p \<in> {CondIdle, CondAll}"
  shows "cond_inv (cond_set_pc c p s)"
proof -
  note D = cond_invD [OF inv]
  have w: "wait_ev (pcs (cond_set_pc c p s) c') = wait_ev (pcs s c')" "pcs (cond_set_pc c p s) c' = CondAllHeld x \<longleftrightarrow> pcs s c' = CondAllHeld x"
    "pcs (cond_set_pc c p s) c' = CondParked k x \<longleftrightarrow> pcs s c' = CondParked k x"
    "pcs (cond_set_pc c p s) c' = CondSetup k x \<longleftrightarrow> pcs s c' = CondSetup k x" for c' x k
    using c p by (auto simp: cond_set_pc_def)
  have u: "wq (cond_set_pc c p s) = wq s" "st (cond_set_pc c p s) = st s" "next_ev (cond_set_pc c p s) = next_ev s"
    by (simp_all add: cond_set_pc_def)
  show ?thesis using inv unfolding cond_inv_def w u .
qed

lemma cond_inv_pop:
  assumes inv: "cond_inv s" and c: "pcs s c = CondAll"
  shows "cond_inv (NotifyAll_pop c s)"
proof (cases "wq s")
  case Nil
  then show ?thesis using cond_inv_busy [OF inv, of c CondIdle] c by (simp add: NotifyAll_pop_def)
next
  case (Cons e q)
  note D = cond_invD [OF inv]
  define t where "t = NotifyAll_pop c s"
  have t: "wq t = q" "st t = st s" "next_ev t = next_ev s" "pcs t = (pcs s) (c := CondAllHeld e)"
    using Cons by (simp_all add: t_def NotifyAll_pop_def cond_set_pc_def set_wq_def)
  have dq: "distinct q" "e \<notin> set q" using D(11) Cons by auto
  have he: "pcs s n \<noteq> CondAllHeld e" for n using D(10) [of n e] Cons by auto
  have w: "wait_ev (pcs t c') = wait_ev (pcs s c')" "pcs t c' = CondParked k x \<longleftrightarrow> pcs s c' = CondParked k x"
    "pcs t c' = CondSetup k x \<longleftrightarrow> pcs s c' = CondSetup k x"
    "pcs t c' = CondAllHeld x \<longleftrightarrow> pcs s c' = CondAllHeld x \<or> c' = c \<and> x = e" for c' x k
    using c by (auto simp: t)
  have "cond_inv t"
  proof (rule cond_invI, unfold w)
    fix c1 k x assume "pcs s c1 = CondParked k x" "st t x = Waiting"
    then have "x \<in> set (wq s) \<or> (\<exists>n. pcs s n = CondAllHeld x)" using D(6) [of c1 k x] t by simp
    then show "x \<in> set (wq t) \<or> (\<exists>n. pcs s n = CondAllHeld x \<or> n = c \<and> x = e)" using Cons t by auto
  next
    fix c1 k x n assume q: "pcs s c1 = CondSetup k x"
    show "x \<notin> set (wq t)" using D(7) [OF q] Cons t by simp
    show "\<not> (pcs s n = CondAllHeld x \<or> n = c \<and> x = e)" using D(7) [OF q] D(8) [OF q] Cons by auto
  next
    fix n x assume h: "pcs s n = CondAllHeld x \<or> n = c \<and> x = e"
    show "x < next_ev t" using h D(9) [of n x] D(3) [of e] Cons t by auto
    show "x \<notin> set (wq t)" using h D(10) [of n x] dq Cons t by auto
  next
    fix n n' x assume "pcs s n = CondAllHeld x \<or> n = c \<and> x = e" "pcs s n' = CondAllHeld x \<or> n' = c \<and> x = e"
    then show "n = n'" using D(12) [of n x n'] he by auto
  qed (use D(1-5) dq Cons t in auto)
  then show ?thesis by (simp add: t_def)
qed

lemma cond_inv_notify:
  assumes inv: "cond_inv s" and c: "pcs s c = CondAllHeld e"
  shows "cond_inv (NotifyAll_notify c e s)"
proof -
  define s1 where "s1 = s \<lparr>st := snd (ev_trigger e POLL_EVENT_CUSTOM (st s))\<rparr>"
  have i1: "cond_inv s1" using inv cond_inv_won [OF inv, of e] by (auto simp: s1_def ev_trigger_def)
  have s1: "pcs s1 = pcs s" "st s1 e \<noteq> Waiting" by (auto simp: s1_def ev_trigger_def)
  note D = cond_invD [OF i1]
  have w: "wait_ev (pcs (cond_set_pc c CondAll s1) c') = wait_ev (pcs s1 c')"
    "pcs (cond_set_pc c CondAll s1) c' = CondAllHeld x \<longleftrightarrow> pcs s1 c' = CondAllHeld x \<and> c' \<noteq> c"
    "pcs (cond_set_pc c CondAll s1) c' = CondParked k x \<longleftrightarrow> pcs s1 c' = CondParked k x"
    "pcs (cond_set_pc c CondAll s1) c' = CondSetup k x \<longleftrightarrow> pcs s1 c' = CondSetup k x" for c' x k
    using c s1 by (auto simp: cond_set_pc_def)
  have u: "wq (cond_set_pc c CondAll s1) = wq s1" "st (cond_set_pc c CondAll s1) = st s1" "next_ev (cond_set_pc c CondAll s1) = next_ev s1"
    by (simp_all add: cond_set_pc_def)
  have "cond_inv (cond_set_pc c CondAll s1)"
  proof (rule cond_invI, unfold w u)
    fix c1 k x assume a: "pcs s1 c1 = CondParked k x" "st s1 x = Waiting"
    then have "x \<noteq> e" using s1 by auto
    then show "x \<in> set (wq s1) \<or> (\<exists>n. pcs s1 n = CondAllHeld x \<and> n \<noteq> c)" using D(6) [OF a] c s1 by auto
  qed (use D in \<open>auto simp: w\<close>)
  then show ?thesis by (simp add: NotifyAll_notify_def s1_def)
qed

lemma cond_inv_step: "cond_inv s \<Longrightarrow> cond_exec ev s = Some s' \<Longrightarrow> cond_inv s'"
proof -
  assume inv: "cond_inv s" and ex: "cond_exec ev s = Some s'"
  show ?thesis
  proof (cases ev)
    case (CReturn c)
    then obtain k e f where p: "pcs s c = CondParked k e" "st s e = Won f" "s' = wait_return c k e f s"
      using ex by (auto split: cond_pc.splits outcome.splits)
    have "s' = s \<lparr>st := st s, pcs := (pcs s) (c := CondIdle), returned := returned s @ [(Some e, wait_value k 0 f)]\<rparr>"
      by (simp add: p wait_return_def cond_set_pc_def)
    then show ?thesis using cond_inv_exit [OF inv, of c e "st s"] p by simp
  next
    case (CSuspend c su)
    then show ?thesis using ex cond_inv_suspend [OF inv] by (auto split: cond_pc.splits)
  next
    case (CAllNotify c)
    then show ?thesis using ex cond_inv_notify [OF inv] by (auto split: cond_pc.splits)
  next
    case (CDecide e f)
    then show ?thesis using ex cond_inv_won [OF inv] by (auto split: if_splits)
  qed (use ex cond_inv_enter [OF inv] cond_inv_NotifyOne [OF inv] cond_inv_busy [OF inv] cond_inv_pop [OF inv] in
      \<open>auto simp: Wait_def WaitFor_def split: if_splits\<close>)
qed

interpretation condvar: invariant_machine cond_exec cond_inv
  by unfold_locales (rule cond_inv_step)

lemma cond_reaches_inv: "reaches cond_exec cond_init s \<Longrightarrow> cond_inv s"
  by (erule condvar.reaches_inv) (rule cond_init_inv)

lemma cond_NotifyOne_sel:
  assumes "NotifyOne s = (r, t)"
  obtains e pre where "wq s = pre @ e # wq t" "st s e = Waiting" "\<forall>x \<in> set pre. st s x \<noteq> Waiting" "r = 0"
      "st t = (st s) (e := Won POLL_EVENT_CUSTOM)" "pcs t = pcs s"
  | "\<forall>x \<in> set (wq s). st s x \<noteq> Waiting" "r = -1" "wq t = []" "st t = st s" "pcs t = pcs s"
proof (cases rule: cond_NotifyOne_cases [of s])
  case (1 e pre)
  have t: "t = (set_wq (wq t) s) \<lparr>st := (st s) (e := Won POLL_EVENT_CUSTOM)\<rparr>" "r = 0" using 1(4) assms by simp_all
  have "st t = (st s) (e := Won POLL_EVENT_CUSTOM)" by (subst t(1)) (simp add: set_wq_def)
  moreover have "pcs t = pcs s" by (subst t(1)) (simp add: set_wq_def)
  ultimately show ?thesis using that(1) [of pre e] 1(1-3) assms t(2) by simp
next
  case 2
  then show ?thesis using that(2) assms by (auto simp: set_wq_def)
qed

section \<open>Properties\<close>

lemma cond_queued_parked: "cond_inv s \<Longrightarrow> e \<in> set (wq s) \<Longrightarrow> st s e = Waiting \<Longrightarrow> \<exists>c k. pcs s c = CondParked k e"
proof -
  assume inv: "cond_inv s" and e: "e \<in> set (wq s)" "st s e = Waiting"
  note D = cond_invD [OF inv]
  obtain c where "wait_ev (pcs s c) = Some e" using D(4) [OF e(2)] by blast
  then show ?thesis using D(7) [of c _ e] e(1) by (cases "pcs s c") auto
qed

text \<open>\<open>NotifyOne\<close> returns 0 exactly when the queue holds a waiter that nobody has decided: it wakes the
  longest waiting such coroutine, drops the timed-out and cancelled ones in front of it and keeps the
  order of the others. It returns -1 only if every parked undecided coroutine is already in the hands
  of a concurrent \<open>NotifyAll\<close>, and then it changes no wait.\<close>

lemma cond_notify_one:
  assumes "reaches cond_exec cond_init s" "NotifyOne s = (r, s')"
  shows "(r = 0 \<or> r = -1) \<and> (r = 0 \<longleftrightarrow> (\<exists>e \<in> set (wq s). st s e = Waiting)) \<and>
    (r = 0 \<longrightarrow> (\<exists>pre e c k. wq s = pre @ e # wq s' \<and> (\<forall>x \<in> set pre. st s x \<noteq> Waiting) \<and> pcs s c = CondParked k e \<and>
       st s e = Waiting \<and> st s' = (st s) (e := Won POLL_EVENT_CUSTOM))) \<and>
    (r = -1 \<longrightarrow> wq s' = [] \<and> st s' = st s \<and>
       (\<forall>c k e. pcs s c = CondParked k e \<and> st s e = Waiting \<longrightarrow> (\<exists>n. pcs s n = CondAllHeld e)))"
proof -
  have inv: "cond_inv s" by (rule cond_reaches_inv [OF assms(1)])
  show ?thesis using assms(2)
  proof (cases rule: cond_NotifyOne_sel)
    case (1 e pre)
    obtain c k where "pcs s c = CondParked k e" using cond_queued_parked [OF inv, of e] 1(1,2) by auto
    then have "\<exists>pre e c k. wq s = pre @ e # wq s' \<and> (\<forall>x \<in> set pre. st s x \<noteq> Waiting) \<and> pcs s c = CondParked k e \<and>
       st s e = Waiting \<and> st s' = (st s) (e := Won POLL_EVENT_CUSTOM)" using 1 by blast
    moreover have "e \<in> set (wq s)" using 1(1) by simp
    ultimately show ?thesis using 1(2,4) by auto
  next
    case 2
    have "\<exists>n. pcs s n = CondAllHeld e" if "pcs s c = CondParked k e" "st s e = Waiting" for c k e
      using cond_invD(6) [OF inv that] 2(1) that(2) by blast
    then show ?thesis using 2 by auto
  qed
qed

text \<open>A demonstration state: coroutine 0 has timed out of a \<open>WaitFor\<close>, coroutine 1 is parked behind it.\<close>

definition cond_demo :: "cond_event list" where
  "cond_demo = [CWaitFor 0 5 True, CSuspend 0 WaitParked, CWait 1 True, CSuspend 1 WaitParked,
     CDecide 0 POLL_EVENT_TIMEOUT]"

lemma cond_demo_run: "\<exists>s. reaches cond_exec cond_init s \<and> (wq s = [0, 1] \<and> st s 0 = Won POLL_EVENT_TIMEOUT \<and>
    st s 1 = Waiting \<and> pcs s 1 = CondParked KWaitCallback 1 \<and> (\<forall>n. pcs s n \<noteq> CondAllHeld 1))"
  by (rule run_demo [where ex = cond_exec and es = cond_demo])
    (simp add: cond_demo_def cond_init_def cond_defs regist_custom_def Let_def)

text \<open>A queued waiter at position \<open>i\<close> is decided after at most \<open>i + 1\<close> notifications.\<close>

lemma notify_keeps_decided:
  "st u e \<noteq> Waiting \<Longrightarrow> \<exists>s'. run cond_exec (replicate j CNotifyOne) u = Some s' \<and> st s' e \<noteq> Waiting"
proof (induction j arbitrary: u)
  case (Suc j)
  obtain r t where t: "NotifyOne u = (r, t)" by fastforce
  have "st t e \<noteq> Waiting" using t by (cases rule: cond_NotifyOne_sel) (use Suc.prems in auto)
  then show ?case using Suc.IH t by simp
qed simp

lemma notify_one_progress:
  "i < length (wq s) \<Longrightarrow> wq s ! i = e \<Longrightarrow> distinct (wq s) \<Longrightarrow> i < j \<Longrightarrow>
   \<exists>s'. run cond_exec (replicate j CNotifyOne) s = Some s' \<and> st s' e \<noteq> Waiting"
proof (induction j arbitrary: s i)
  case (Suc j)
  obtain r t where t: "NotifyOne s = (r, t)" by fastforce
  show ?case
  proof (cases "st t e = Waiting")
    case False
    then show ?thesis using notify_keeps_decided t by simp
  next
    case True
    show ?thesis using t
    proof (cases rule: cond_NotifyOne_sel)
      case (1 x pre)
      have x: "x \<noteq> e" "st s e = Waiting" using True 1(5) by (auto split: if_splits)
      have "e \<notin> set pre" using 1(3) x(2) by blast
      then have i: "length pre < i" using Suc.prems(1,2) x unfolding 1(1)
        by (metis linorder_neqE_nat nth_append nth_append_length nth_mem)
      then have "i - Suc (length pre) < length (wq t)" "wq t ! (i - Suc (length pre)) = e" "distinct (wq t)"
        using Suc.prems(1-3) unfolding 1(1) by (auto simp: nth_append nth_Cons' split: if_splits)
      then show ?thesis using Suc.IH [of "i - Suc (length pre)" t] Suc.prems(4) t i by simp
    next
      case 2
      have "st s e \<noteq> Waiting" using 2(1) Suc.prems(1,2) by (metis nth_mem)
      then show ?thesis using True 2(4) by simp
    qed
  qed
qed simp

text \<open>A \<open>NotifyAll\<close> that runs undisturbed decides everybody who was queued.\<close>

lemma notify_all_keeps_decided:
  "st u e \<noteq> Waiting \<Longrightarrow> pcs u n = CondAll \<Longrightarrow> j \<le> length (wq u) \<Longrightarrow>
   \<exists>s'. run cond_exec (concat (replicate j [CAllPop n, CAllNotify n])) u = Some s' \<and> st s' e \<noteq> Waiting \<and> pcs s' n = CondAll \<and>
     wq s' = drop j (wq u)"
proof (induction j arbitrary: u)
  case (Suc j)
  then obtain x q where q: "wq u = x # q" by (cases "wq u") auto
  define v where "v = NotifyAll_notify n x (NotifyAll_pop n u)"
  have v: "pcs v n = CondAll" "wq v = q" "st v e \<noteq> Waiting" "cond_exec (CAllNotify n) (NotifyAll_pop n u) = Some v"
    using Suc.prems q by (auto simp: v_def NotifyAll_pop_def NotifyAll_notify_def cond_set_pc_def set_wq_def ev_trigger_def)
  show ?case using Suc.IH [OF v(3,1)] Suc.prems q v by simp
qed simp

lemma notify_all_progress:
  "i < length (wq s) \<Longrightarrow> wq s ! i = e \<Longrightarrow> pcs s n = CondAll \<Longrightarrow> j \<le> length (wq s) \<Longrightarrow> i < j \<Longrightarrow>
   \<exists>s'. run cond_exec (concat (replicate j [CAllPop n, CAllNotify n])) s = Some s' \<and> st s' e \<noteq> Waiting \<and> pcs s' n = CondAll \<and>
     wq s' = drop j (wq s)"
proof (induction j arbitrary: s i)
  case (Suc j)
  then obtain x q where q: "wq s = x # q" by (cases "wq s") auto
  define v where "v = NotifyAll_notify n x (NotifyAll_pop n s)"
  have v: "pcs v n = CondAll" "wq v = q" "st v x \<noteq> Waiting" "cond_exec (CAllNotify n) (NotifyAll_pop n s) = Some v"
    using Suc.prems q by (auto simp: v_def NotifyAll_pop_def NotifyAll_notify_def cond_set_pc_def set_wq_def ev_trigger_def)
  show ?case
  proof (cases i)
    case 0
    then show ?thesis using notify_all_keeps_decided [of v e n j] v Suc.prems q by simp
  next
    case (Suc i')
    then show ?thesis using Suc.IH [of i' v] v Suc.prems q by simp
  qed
qed simp

text \<open>C30. No wake-up is lost: in every interleaving a parked undecided coroutine is either in the queue or
  has been taken by a \<open>NotifyAll\<close> whose next step wakes it; from the queue, as many \<open>NotifyOne\<close> as its
  position asks for, or one \<open>NotifyAll\<close> over the queue, decide its wait.\<close>

theorem cond_no_lost_wakeup:
  assumes "reaches cond_exec cond_init s" "pcs s c = CondParked k e" "st s e = Waiting"
  shows "(\<exists>n s'. pcs s n = CondAllHeld e \<and> cond_exec (CAllNotify n) s = Some s' \<and> st s' e = Won POLL_EVENT_CUSTOM) \<or>
    (\<exists>i < length (wq s). wq s ! i = e \<and>
      (\<exists>s'. run cond_exec (replicate (Suc i) CNotifyOne) s = Some s' \<and> st s' e \<noteq> Waiting) \<and>
      (\<forall>n. pcs s n = CondAll \<longrightarrow> (\<exists>s'. run cond_exec (concat (replicate (length (wq s)) [CAllPop n, CAllNotify n]) @ [CAllPop n]) s = Some s' \<and>
         st s' e \<noteq> Waiting \<and> pcs s' n = CondIdle)))"
proof -
  have inv: "cond_inv s" by (rule cond_reaches_inv [OF assms(1)])
  consider "e \<in> set (wq s)" | n where "pcs s n = CondAllHeld e" using cond_invD(6) [OF inv assms(2,3)] by blast
  then show ?thesis
  proof cases
    case 1
    then obtain i where i: "i < length (wq s)" "wq s ! i = e" by (metis in_set_conv_nth)
    have a: "\<exists>s'. run cond_exec (replicate (Suc i) CNotifyOne) s = Some s' \<and> st s' e \<noteq> Waiting"
      by (rule notify_one_progress [OF i cond_invD(11) [OF inv]]) simp
    have "\<exists>s'. run cond_exec (concat (replicate (length (wq s)) [CAllPop n, CAllNotify n]) @ [CAllPop n]) s = Some s' \<and>
         st s' e \<noteq> Waiting \<and> pcs s' n = CondIdle" if "pcs s n = CondAll" for n
      using notify_all_progress [OF i that order_refl i(1)]
      by (auto simp: run_append NotifyAll_pop_def cond_set_pc_def)
    then show ?thesis using a i by blast
  next
    case (2 n)
    then show ?thesis using assms(3)
      by (intro disjI1 exI [of _ n]) (simp add: NotifyAll_notify_def cond_set_pc_def ev_trigger_def)
  qed
qed

theorem cond_no_lost_wakeup_witness:
  "\<exists>s s'. reaches cond_exec cond_init s \<and> pcs s 1 = CondParked KWaitCallback 1 \<and> st s 1 = Waiting \<and>
     run cond_exec (replicate 2 CNotifyOne) s = Some s' \<and> st s' 1 \<noteq> Waiting"
proof -
  obtain s where s: "reaches cond_exec cond_init s" "wq s = [0, 1]" "st s 1 = Waiting" "pcs s 1 = CondParked KWaitCallback 1"
    "\<forall>n. pcs s n \<noteq> CondAllHeld 1"
    using cond_demo_run by blast
  obtain i where i: "i < length (wq s)" "wq s ! i = 1" "\<exists>s'. run cond_exec (replicate (Suc i) CNotifyOne) s = Some s' \<and> st s' 1 \<noteq> Waiting"
    using cond_no_lost_wakeup [OF s(1,4,3)] s(5) by blast
  have "i = 1" using i(1,2) s(2) by (cases i) auto
  then have "Suc i = 2" by simp
  then show ?thesis using i(3) s by metis
qed

text \<open>Waiters that timed out stay in the queue until a notification drops them: without notifications the
  queue of dead waiters grows without bound.\<close>

lemma cond_dead_waiters:
  "\<exists>s. reaches cond_exec cond_init s \<and> length (wq s) = n \<and> (\<forall>c. pcs s c = CondIdle) \<and> (\<forall>e. st s e \<noteq> Waiting)"
proof (induction n)
  case 0
  show ?case by (rule exI [of _ cond_init]) (auto simp: cond_init_def intro: reaches_init)
next
  case (Suc n)
  then obtain s where s: "reaches cond_exec cond_init s" "length (wq s) = n" "\<forall>c. pcs s c = CondIdle" "\<forall>e. st s e \<noteq> Waiting" by blast
  have "\<exists>t. run cond_exec [CWaitFor 0 1 True, CSuspend 0 WaitParked, CDecide (next_ev s) POLL_EVENT_TIMEOUT, CReturn 0] s = Some t \<and>
      length (wq t) = Suc n \<and> (\<forall>c. pcs t c = CondIdle) \<and> (\<forall>e. st t e \<noteq> Waiting)"
    using s(2-4) by (simp add: cond_defs regist_custom_def Let_def)
  then obtain t where t: "run cond_exec [CWaitFor 0 1 True, CSuspend 0 WaitParked, CDecide (next_ev s) POLL_EVENT_TIMEOUT, CReturn 0] s = Some t"
    "length (wq t) = Suc n" "\<forall>c. pcs t c = CondIdle" "\<forall>e. st t e \<noteq> Waiting" by blast
  have "reaches cond_exec cond_init t" by (rule run_reaches_aux [OF t(1) s(1)])
  then show ?case using t(2-4) by blast
qed

end
