(* ===== verification/PoolModel.thy ===== *)
theory PoolModel
  imports CondModel
begin

text \<open>
  \<open>pool/CoPool.{hpp,cc}\<close> and \<open>pool/Work.hpp\<close>: a pool of \<open>m_max_co_num\<close> work coroutines and one monitor,
  any number of submitters, and calls of \<open>Release\<close> and of the destructor. The pool's condition variable is
  the machine of theory \<open>CondModel\<close>, whose steps the pool's coroutines take. The lock-free queue hands out
  its elements in any order and a worker may find it empty when it is not; a drain ends only when it is
  empty. Coroutines \<open>0 .. m_max_co_num - 1\<close> are the workers, \<open>m_max_co_num\<close> the monitor, higher
  numbers the callers (a task that calls the pool counts as a caller of its own).
\<close>

section \<open>Data\<close>

datatype future_state = FutNone | FutPending | FutValue | FutException | FutBroken

datatype copool_pc =
    PoolIdle
  | WkNew | WkHead | WkTake | WkWait | WkHave nat | WkRun nat | WkDel nat | WkDead
  | MoNew | MoHead | MoNotify nat | MoSleep
  | CoExit | CoDown | CoDone
  | SbEnq nat | SbNotify nat
  | RlSpin | RlAll | RlSleep | RlLatch | RlDrain | DtDrain

text \<open>Works are numbered. \<open>executed\<close> and \<open>deleted\<close> are the works invoked and deleted so far, in order;
  \<open>answers\<close> the results of \<open>Submit\<close>, \<open>delivered\<close> the works whose exception the callback received,
  \<open>released\<close> that some \<open>Release\<close> has returned.\<close>

record copool_sys =
  m_is_running :: bool
  m_max_co_num :: nat
  m_works_queue :: "nat list"
  m_running_co_num :: int
  m_cond :: cond_sys
  m_latch :: int
  m_exception_callback :: bool
  m_unhandled_exception_count :: u64
  agents :: "co_id \<Rightarrow> copool_pc"
  next_work :: nat
  futs :: "nat \<Rightarrow> future_state"
  executed :: "nat list"
  deleted :: "nat list"
  answers :: "(nat \<times> int) list"
  delivered :: "nat list"
  released :: bool

definition NewCoPool :: "nat \<Rightarrow> copool_sys" where
  "NewCoPool n = \<lparr>m_is_running = True, m_max_co_num = n, m_works_queue = [], m_running_co_num = 0, m_cond = cond_init,
     m_latch = int n + 1, m_exception_callback = False, m_unhandled_exception_count = 0,
     agents = (\<lambda>i. if i < n then WkNew else if i = n then MoNew else PoolIdle),
     next_work = 0, futs = \<lambda>_. FutNone, executed = [], deleted = [], answers = [], delivered = [], released = False\<rparr>"

definition go :: "co_id \<Rightarrow> copool_pc \<Rightarrow> copool_sys \<Rightarrow> copool_sys" where
  "go a p s = s \<lparr>agents := (agents s) (a := p)\<rparr>"

section \<open>Work\<close>

text \<open>\<open>delete work\<close>: a promise nobody has fulfilled gives \<open>broken_promise\<close>.\<close>

definition HasPromise :: "nat \<Rightarrow> copool_sys \<Rightarrow> bool" where
  "HasPromise w s \<longleftrightarrow> futs s w \<noteq> FutNone"

definition delete_work :: "nat \<Rightarrow> copool_sys \<Rightarrow> copool_sys" where
  "delete_work w s = s \<lparr>deleted := deleted s @ [w], futs := (futs s) (w := if futs s w = FutPending then FutBroken else futs s w)\<rparr>"

definition SetFinished :: "nat \<Rightarrow> copool_sys \<Rightarrow> copool_sys" where
  "SetFinished w s = (if HasPromise w s then s \<lparr>futs := (futs s) (w := FutValue)\<rparr> else s)"

definition SetException :: "nat \<Rightarrow> copool_sys \<Rightarrow> copool_sys" where
  "SetException w s = (if HasPromise w s then s \<lparr>futs := (futs s) (w := FutException)\<rparr> else s)"

definition HandleWorkException :: "nat \<Rightarrow> bool \<Rightarrow> copool_sys \<Rightarrow> copool_sys" where
  "HandleWorkException w cb_throws s =
     (if HasPromise w s then SetException w s
      else if m_exception_callback s then
        (if cb_throws then s \<lparr>delivered := delivered s @ [w], m_unhandled_exception_count := m_unhandled_exception_count s + 1\<rparr>
         else s \<lparr>delivered := delivered s @ [w]\<rparr>)
      else s \<lparr>m_unhandled_exception_count := m_unhandled_exception_count s + 1\<rparr>)"

definition SetExceptionCallback :: "bool \<Rightarrow> copool_sys \<Rightarrow> copool_sys" where
  "SetExceptionCallback b s = s \<lparr>m_exception_callback := b\<rparr>"

section \<open>Submission\<close>

text \<open>\<open>Submit\<close> and \<open>SubmitWithFuture\<close> up to the test of \<open>m_is_running\<close>, then the enqueue, then the notification.\<close>

definition Submit :: "co_id \<Rightarrow> bool \<Rightarrow> bool \<Rightarrow> copool_sys \<Rightarrow> copool_sys" where
  "Submit a prom alloc s =
     (if \<not> alloc then s
      else let w = next_work s; s1 = s \<lparr>next_work := Suc w, futs := (futs s) (w := if prom then FutPending else FutNone)\<rparr> in
        if \<not> m_is_running s then (delete_work w s1) \<lparr>answers := answers s @ [(w, -1)]\<rparr>
        else go a (SbEnq w) s1)"

definition Submit_enqueue :: "co_id \<Rightarrow> nat \<Rightarrow> bool \<Rightarrow> copool_sys \<Rightarrow> copool_sys" where
  "Submit_enqueue a w ok s =
     (if ok then go a (SbNotify w) (s \<lparr>m_works_queue := m_works_queue s @ [w]\<rparr>)
      else go a PoolIdle ((delete_work w s) \<lparr>answers := answers s @ [(w, -1)]\<rparr>))"

definition Submit_notify :: "co_id \<Rightarrow> nat \<Rightarrow> copool_sys \<Rightarrow> copool_sys" where
  "Submit_notify a w s = go a PoolIdle (s \<lparr>m_cond := snd (CondModel.NotifyOne (m_cond s)), answers := answers s @ [(w, 0)]\<rparr>)"

section \<open>The pool's coroutines\<close>

text \<open>\<open>_WorkCo\<close> and \<open>_MonitorCo\<close>; \<open>Co_begin\<close>, \<open>Co_exit\<close> and \<open>Co_down\<close> are the counter updates around
  their loops and the count-down of the latch after them.\<close>

definition Co_begin :: "co_id \<Rightarrow> copool_pc \<Rightarrow> copool_sys \<Rightarrow> copool_sys" where
  "Co_begin a p s = go a p (s \<lparr>m_running_co_num := m_running_co_num s + 1\<rparr>)"

definition Co_exit :: "co_id \<Rightarrow> copool_sys \<Rightarrow> copool_sys" where
  "Co_exit a s = go a CoDown (s \<lparr>m_running_co_num := m_running_co_num s - 1\<rparr>)"

definition Co_down :: "co_id \<Rightarrow> copool_sys \<Rightarrow> copool_sys" where
  "Co_down a s = go a CoDone (s \<lparr>m_latch := m_latch s - 1\<rparr>)"

definition WorkCo_head :: "co_id \<Rightarrow> copool_sys \<Rightarrow> copool_sys" where
  "WorkCo_head a s = go a (if m_is_running s then WkTake else CoExit) s"

definition WorkCo_take :: "co_id \<Rightarrow> nat option \<Rightarrow> copool_sys \<Rightarrow> copool_sys option" where
  "WorkCo_take a w s = (case w of
       None \<Rightarrow> Some (go a WkWait s)
     | Some x \<Rightarrow> if x \<in> set (m_works_queue s) then Some (go a (WkHave x) (s \<lparr>m_works_queue := remove1 x (m_works_queue s)\<rparr>)) else None)"

text \<open>A step of \<open>m_cond->Wait()\<close>: the worker is back at the head of its loop once the wait has returned; an
  exception thrown by the set-up of the wait leaves the coroutine.\<close>

definition WorkCo_wait :: "co_id \<Rightarrow> cond_event \<Rightarrow> copool_sys \<Rightarrow> copool_sys option" where
  "WorkCo_wait a ev s =
     (if \<exists>ok. ev = CWait a ok \<or> (\<exists>su. ev = CSuspend a su) \<or> ev = CReturn a then
        case cond_exec ev (m_cond s) of None \<Rightarrow> None
        | Some c \<Rightarrow> Some (go a (if ev = CSuspend a WaitThrew then WkDead
              else if pcs c a = CondIdle then WkHead else WkWait) (s \<lparr>m_cond := c\<rparr>))
      else None)"

definition WorkCo_invoke :: "co_id \<Rightarrow> nat \<Rightarrow> copool_sys \<Rightarrow> copool_sys" where
  "WorkCo_invoke a w s = go a (WkRun w) (s \<lparr>executed := executed s @ [w]\<rparr>)"

definition WorkCo_finished :: "co_id \<Rightarrow> nat \<Rightarrow> copool_sys \<Rightarrow> copool_sys" where
  "WorkCo_finished a w s = go a (WkDel w) (SetFinished w s)"

definition WorkCo_threw :: "co_id \<Rightarrow> nat \<Rightarrow> bool \<Rightarrow> copool_sys \<Rightarrow> copool_sys" where
  "WorkCo_threw a w cb_throws s = go a (WkDel w) (HandleWorkException w cb_throws s)"

definition WorkCo_delete :: "co_id \<Rightarrow> nat \<Rightarrow> copool_sys \<Rightarrow> copool_sys" where
  "WorkCo_delete a w s = go a WkHead (delete_work w s)"

definition MonitorCo_head :: "co_id \<Rightarrow> nat \<Rightarrow> copool_sys \<Rightarrow> copool_sys" where
  "MonitorCo_head a size_approx s = go a (if m_is_running s then MoNotify size_approx else CoExit) s"

fun MonitorCo_notify :: "co_id \<Rightarrow> nat \<Rightarrow> copool_sys \<Rightarrow> copool_sys" where
  "MonitorCo_notify a 0 s = go a MoSleep s"
| "MonitorCo_notify a (Suc k) s = (case CondModel.NotifyOne (m_cond s) of (r, c) \<Rightarrow>
     go a (if r \<noteq> 0 then MoSleep else MoNotify k) (s \<lparr>m_cond := c\<rparr>))"

section \<open>Release and destruction\<close>

definition Release_begin :: "co_id \<Rightarrow> copool_sys \<Rightarrow> copool_sys" where
  "Release_begin a s = go a RlSpin (s \<lparr>m_is_running := False\<rparr>)"

definition Release_spin :: "co_id \<Rightarrow> copool_sys \<Rightarrow> copool_sys" where
  "Release_spin a s = (if m_running_co_num s \<noteq> 0 then go a RlAll (s \<lparr>m_cond := cond_set_pc a CondAll (m_cond s)\<rparr>) else go a RlLatch s)"

definition Release_notify :: "co_id \<Rightarrow> cond_event \<Rightarrow> copool_sys \<Rightarrow> copool_sys option" where
  "Release_notify a ev s =
     (if ev = CAllPop a \<or> ev = CAllNotify a then
        case cond_exec ev (m_cond s) of None \<Rightarrow> None
        | Some c \<Rightarrow> Some (go a (if pcs c a = CondIdle then RlSleep else RlAll) (s \<lparr>m_cond := c\<rparr>))
      else None)"

definition drain :: "nat \<Rightarrow> copool_sys \<Rightarrow> copool_sys" where
  "drain w s = delete_work w (s \<lparr>m_works_queue := remove1 w (m_works_queue s)\<rparr>)"

section \<open>The machine\<close>

datatype copool_event =
    PSubmit co_id bool bool
  | PEnqueue co_id bool
  | PNotify co_id
  | PSetCallback bool
  | PBegin co_id
  | PHead co_id nat
  | PTake co_id "nat option"
  | PWait co_id cond_event
  | PInvoke co_id
  | PFinished co_id
  | PThrew co_id bool
  | PDelete co_id
  | PMonNotify co_id
  | PSleep co_id
  | PExit co_id
  | PDown co_id
  | PRelease co_id
  | PSpin co_id
  | PAll co_id cond_event
  | PLatch co_id
  | PDestroy co_id
  | PDrain co_id "nat option"
  | PCancel nat

fun copool_exec :: "copool_event \<Rightarrow> copool_sys \<Rightarrow> copool_sys option" where
  "copool_exec (PSubmit a prom alloc) s =
     (if m_max_co_num s < a \<and> agents s a = PoolIdle then Some (Submit a prom alloc s) else None)"
| "copool_exec (PEnqueue a ok) s = (case agents s a of SbEnq w \<Rightarrow> Some (Submit_enqueue a w ok s) | _ \<Rightarrow> None)"
| "copool_exec (PNotify a) s = (case agents s a of SbNotify w \<Rightarrow> Some (Submit_notify a w s) | _ \<Rightarrow> None)"
| "copool_exec (PSetCallback b) s = Some (SetExceptionCallback b s)"
| "copool_exec (PBegin a) s = (case agents s a of WkNew \<Rightarrow> Some (Co_begin a WkHead s) | MoNew \<Rightarrow> Some (Co_begin a MoHead s) | _ \<Rightarrow> None)"
| "copool_exec (PHead a n) s = (case agents s a of WkHead \<Rightarrow> Some (WorkCo_head a s) | MoHead \<Rightarrow> Some (MonitorCo_head a n s) | _ \<Rightarrow> None)"
| "copool_exec (PTake a w) s = (if agents s a = WkTake then WorkCo_take a w s else None)"
| "copool_exec (PWait a ev) s = (if agents s a = WkWait then WorkCo_wait a ev s else None)"
| "copool_exec (PInvoke a) s = (case agents s a of WkHave w \<Rightarrow> Some (WorkCo_invoke a w s) | _ \<Rightarrow> None)"
| "copool_exec (PFinished a) s = (case agents s a of WkRun w \<Rightarrow> Some (WorkCo_finished a w s) | _ \<Rightarrow> None)"
| "copool_exec (PThrew a t) s = (case agents s a of WkRun w \<Rightarrow> Some (WorkCo_threw a w t s) | _ \<Rightarrow> None)"
| "copool_exec (PDelete a) s = (case agents s a of WkDel w \<Rightarrow> Some (WorkCo_delete a w s) | _ \<Rightarrow> None)"
| "copool_exec (PMonNotify a) s = (case agents s a of MoNotify k \<Rightarrow> Some (MonitorCo_notify a k s) | _ \<Rightarrow> None)"
| "copool_exec (PSleep a) s = (case agents s a of MoSleep \<Rightarrow> Some (go a MoHead s) | RlSleep \<Rightarrow> Some (go a RlSpin s) | _ \<Rightarrow> None)"
| "copool_exec (PExit a) s = (if agents s a = CoExit then Some (Co_exit a s) else None)"
| "copool_exec (PDown a) s = (if agents s a = CoDown then Some (Co_down a s) else None)"
| "copool_exec (PRelease a) s = (if m_max_co_num s < a \<and> agents s a = PoolIdle then Some (Release_begin a s) else None)"
| "copool_exec (PSpin a) s = (if agents s a = RlSpin then Some (Release_spin a s) else None)"
| "copool_exec (PAll a ev) s = (if agents s a = RlAll then Release_notify a ev s else None)"
| "copool_exec (PLatch a) s = (if agents s a = RlLatch \<and> m_latch s \<le> 0 then Some (go a RlDrain s) else None)"
| "copool_exec (PDestroy a) s = (if m_max_co_num s < a \<and> agents s a = PoolIdle then Some (go a DtDrain s) else None)"
| "copool_exec (PDrain a w) s =
     (if agents s a \<in> {RlDrain, DtDrain} then
        case w of
          Some x \<Rightarrow> if x \<in> set (m_works_queue s) then Some (drain x s) else None
        | None \<Rightarrow> if m_works_queue s \<noteq> [] then None
            else if agents s a = DtDrain then Some (Release_begin a s)
            else Some (go a PoolIdle (s \<lparr>released := True\<rparr>))
      else None)"
| "copool_exec (PCancel e) s = (case cond_exec (CDecide e POLL_EVENT_CANCELLED) (m_cond s) of None \<Rightarrow> None
     | Some c \<Rightarrow> Some (s \<lparr>m_cond := c\<rparr>))"

lemmas copool_defs = go_def HasPromise_def delete_work_def SetFinished_def SetException_def HandleWorkException_def
  SetExceptionCallback_def Submit_def Submit_enqueue_def Submit_notify_def Co_begin_def Co_exit_def Co_down_def
  WorkCo_head_def WorkCo_take_def WorkCo_wait_def WorkCo_invoke_def WorkCo_finished_def WorkCo_threw_def
  WorkCo_delete_def MonitorCo_head_def Release_begin_def Release_spin_def Release_notify_def drain_def

section \<open>Works: every work is in exactly one place\<close>

fun hand :: "copool_pc \<Rightarrow> nat option" where
  "hand (SbEnq w) = Some w"
| "hand (WkHave w) = Some w"
| "hand (WkRun w) = Some w"
| "hand (WkDel w) = Some w"
| "hand _ = None"

fun invoked :: "copool_pc \<Rightarrow> nat option" where
  "invoked (WkRun w) = Some w"
| "invoked (WkDel w) = Some w"
| "invoked _ = None"

fun settled :: "copool_pc \<Rightarrow> nat option" where
  "settled (WkDel w) = Some w"
| "settled _ = None"

datatype place = InHand co_id | InQueue | InDeleted

fun at_place :: "copool_sys \<Rightarrow> nat \<Rightarrow> place \<Rightarrow> bool" where
  "at_place s w (InHand a) \<longleftrightarrow> hand (agents s a) = Some w"
| "at_place s w InQueue \<longleftrightarrow> w \<in> set (m_works_queue s)"
| "at_place s w InDeleted \<longleftrightarrow> w \<in> set (deleted s)"

definition place_inv :: "copool_sys \<Rightarrow> bool" where
  "place_inv s \<longleftrightarrow> distinct (m_works_queue s) \<and> distinct (deleted s) \<and>
     (\<forall>w x y. at_place s w x \<longrightarrow> at_place s w y \<longrightarrow> x = y) \<and> (\<forall>w. (\<exists>x. at_place s w x) \<longleftrightarrow> w < next_work s)"

definition run_inv :: "copool_sys \<Rightarrow> bool" where
  "run_inv s \<longleftrightarrow> distinct (executed s) \<and>
     (\<forall>w \<in> set (executed s). w \<in> set (deleted s) \<or> (\<exists>a. invoked (agents s a) = Some w)) \<and>
     (\<forall>a w. invoked (agents s a) = Some w \<longrightarrow> w \<in> set (executed s)) \<and>
     (\<forall>w. futs s w = FutPending \<longrightarrow> w < next_work s \<and> w \<notin> set (deleted s) \<and> (\<forall>a. settled (agents s a) \<noteq> Some w)) \<and>
     (\<forall>w. futs s w \<in> {FutValue, FutException} \<longrightarrow> w \<in> set (executed s) \<and> (w \<in> set (deleted s) \<or> (\<exists>a. settled (agents s a) = Some w))) \<and>
     (\<forall>w. futs s w = FutBroken \<longrightarrow> w \<in> set (deleted s) \<and> w \<notin> set (executed s))"

lemma invoked_hand: "invoked p = Some w \<Longrightarrow> hand p = Some w"
  by (cases p) auto

lemma settled_invoked: "settled p = Some w \<Longrightarrow> invoked p = Some w"
  by (cases p) auto

text \<open>Steps that move no work, a new work, and a work that goes from one place to another.\<close>

lemma at_place_cong:
  "m_works_queue t = m_works_queue s \<Longrightarrow> deleted t = deleted s \<Longrightarrow> (\<And>b. hand (agents t b) = hand (agents s b)) \<Longrightarrow>
   at_place t w x = at_place s w x"
  by (cases x) auto

lemma place_frame:
  assumes "place_inv s" "next_work t = next_work s" "m_works_queue t = m_works_queue s" "deleted t = deleted s"
    "\<And>b. hand (agents t b) = hand (agents s b)"
  shows "place_inv t"
proof -
  have "at_place t = at_place s" by (intro ext at_place_cong) (use assms(3-5) in simp_all)
  then show ?thesis using assms(1-4) unfolding place_inv_def by simp
qed

lemma place_new:
  assumes "place_inv s" "next_work t = Suc (next_work s)" "distinct (m_works_queue t)" "distinct (deleted t)"
    "\<And>w x. at_place t w x \<longleftrightarrow> (if w = next_work s then x = X else at_place s w x)"
  shows "place_inv t"
  using assms unfolding place_inv_def by (simp add: less_Suc_eq) metis

lemma place_move:
  assumes "place_inv s" "next_work t = next_work s" "distinct (m_works_queue t)" "distinct (deleted t)" "at_place s v X"
    "\<And>w x. at_place t w x \<longleftrightarrow> (if w = v then x = Y else at_place s w x)"
  shows "place_inv t"
  using assms unfolding place_inv_def by simp metis

lemma place_unique: "place_inv s \<Longrightarrow> at_place s w x \<Longrightarrow> at_place s w y \<longleftrightarrow> x = y"
  unfolding place_inv_def by blast

lemma place_lt: "place_inv s \<Longrightarrow> at_place s w x \<Longrightarrow> w < next_work s"
  unfolding place_inv_def by blast

lemma place_dist: "place_inv s \<Longrightarrow> distinct (m_works_queue s) \<and> distinct (deleted s)"
  unfolding place_inv_def by blast

lemma run_frame:
  assumes "run_inv s" "next_work t = next_work s" "executed t = executed s" "deleted t = deleted s" "futs t = futs s"
    "\<And>b. invoked (agents t b) = invoked (agents s b)" "\<And>b. settled (agents t b) = settled (agents s b)"
  shows "run_inv t"
  using assms unfolding run_inv_def by simp

definition works_inv :: "copool_sys \<Rightarrow> bool" where
  "works_inv s \<longleftrightarrow> place_inv s \<and> run_inv s"

lemma works_init: "works_inv (NewCoPool n)"
proof -
  have "\<not> at_place (NewCoPool n) w x" for w x by (cases x) (auto simp: NewCoPool_def)
  then show ?thesis by (simp add: works_inv_def place_inv_def run_inv_def) (simp add: NewCoPool_def)
qed

text \<open>A step that only changes the place of one coroutine in its program, without a work.\<close>

lemma works_quiet:
  assumes "works_inv s" "hand (agents s a) = None" "hand p = None" "agents t = (agents s) (a := p)"
    "next_work t = next_work s" "m_works_queue t = m_works_queue s" "deleted t = deleted s" "executed t = executed s" "futs t = futs s"
  shows "works_inv t"
proof -
  have i: "hand q = None \<Longrightarrow> invoked q = None \<and> settled q = None" for q by (cases q) auto
  have "place_inv t" by (rule place_frame [of s]) (use assms in \<open>auto simp: works_inv_def\<close>)
  moreover have "run_inv t" by (rule run_frame [of s]) (use assms i in \<open>auto simp: works_inv_def\<close>)
  ultimately show ?thesis by (simp add: works_inv_def)
qed

lemma works_go: "works_inv s \<Longrightarrow> hand (agents s a) = None \<Longrightarrow> hand p = None \<Longrightarrow> works_inv (go a p s)"
  by (rule works_quiet [of s a p]) (simp_all add: go_def)

text \<open>Changes of the components that hold no works.\<close>

lemma works_irrelevant [simp]:
  "works_inv (s \<lparr>m_cond := c\<rparr>) = works_inv s" "works_inv (s \<lparr>m_running_co_num := n\<rparr>) = works_inv s"
  "works_inv (s \<lparr>m_latch := n\<rparr>) = works_inv s" "works_inv (s \<lparr>m_is_running := r\<rparr>) = works_inv s"
  "works_inv (s \<lparr>answers := as\<rparr>) = works_inv s" "works_inv (s \<lparr>released := r\<rparr>) = works_inv s"
  "works_inv (s \<lparr>m_exception_callback := b\<rparr>) = works_inv s" "works_inv (s \<lparr>delivered := d\<rparr>) = works_inv s"
  "works_inv (s \<lparr>m_unhandled_exception_count := u\<rparr>) = works_inv s"
proof -
  have e: "at_place (s \<lparr>m_cond := c\<rparr>) w x = at_place s w x" "at_place (s \<lparr>m_running_co_num := n\<rparr>) w x = at_place s w x"
    "at_place (s \<lparr>m_latch := n\<rparr>) w x = at_place s w x" "at_place (s \<lparr>m_is_running := r\<rparr>) w x = at_place s w x"
    "at_place (s \<lparr>answers := as\<rparr>) w x = at_place s w x" "at_place (s \<lparr>released := r\<rparr>) w x = at_place s w x"
    "at_place (s \<lparr>m_exception_callback := b\<rparr>) w x = at_place s w x" "at_place (s \<lparr>delivered := d\<rparr>) w x = at_place s w x"
    "at_place (s \<lparr>m_unhandled_exception_count := u\<rparr>) w x = at_place s w x" for w x by (cases x; simp)+
  show "works_inv (s \<lparr>m_cond := c\<rparr>) = works_inv s" "works_inv (s \<lparr>m_running_co_num := n\<rparr>) = works_inv s"
  "works_inv (s \<lparr>m_latch := n\<rparr>) = works_inv s" "works_inv (s \<lparr>m_is_running := r\<rparr>) = works_inv s"
  "works_inv (s \<lparr>answers := as\<rparr>) = works_inv s" "works_inv (s \<lparr>released := r\<rparr>) = works_inv s"
  "works_inv (s \<lparr>m_exception_callback := b\<rparr>) = works_inv s" "works_inv (s \<lparr>delivered := d\<rparr>) = works_inv s"
  "works_inv (s \<lparr>m_unhandled_exception_count := u\<rparr>) = works_inv s"
    unfolding works_inv_def place_inv_def run_inv_def e by simp_all
qed

lemma run_D:
  assumes "run_inv s"
  shows "distinct (executed s)"
    "w \<in> set (executed s) \<Longrightarrow> w \<in> set (deleted s) \<or> (\<exists>a. invoked (agents s a) = Some w)"
    "invoked (agents s a) = Some w \<Longrightarrow> w \<in> set (executed s)"
    "futs s w = FutPending \<Longrightarrow> w < next_work s \<and> w \<notin> set (deleted s) \<and> settled (agents s a) \<noteq> Some w"
    "futs s w \<in> {FutValue, FutException} \<Longrightarrow> w \<in> set (executed s) \<and> (w \<in> set (deleted s) \<or> (\<exists>a. settled (agents s a) = Some w))"
    "futs s w = FutBroken \<Longrightarrow> w \<in> set (deleted s) \<and> w \<notin> set (executed s)"
  using assms unfolding run_inv_def by - (elim conjE; metis)+

lemma run_I:
  assumes "distinct (executed s)"
    "\<And>w. w \<in> set (executed s) \<Longrightarrow> w \<in> set (deleted s) \<or> (\<exists>a. invoked (agents s a) = Some w)"
    "\<And>a w. invoked (agents s a) = Some w \<Longrightarrow> w \<in> set (executed s)"
    "\<And>w a. futs s w = FutPending \<Longrightarrow> w < next_work s \<and> w \<notin> set (deleted s) \<and> settled (agents s a) \<noteq> Some w"
    "\<And>w. futs s w \<in> {FutValue, FutException} \<Longrightarrow> w \<in> set (executed s) \<and> (w \<in> set (deleted s) \<or> (\<exists>a. settled (agents s a) = Some w))"
    "\<And>w. futs s w = FutBroken \<Longrightarrow> w \<in> set (deleted s) \<and> w \<notin> set (executed s)"
  shows "run_inv s"
  unfolding run_inv_def using assms by blast

lemma at_place_simps:
  "at_place (go a p s) w (InHand b) \<longleftrightarrow> (if b = a then hand p = Some w else hand (agents s b) = Some w)"
  "m_works_queue (go a p s) = m_works_queue s" "deleted (go a p s) = deleted s" "next_work (go a p s) = next_work s"
  "executed (go a p s) = executed s" "futs (go a p s) = futs s" "agents (go a p s) = (agents s) (a := p)"
  by (simp_all add: go_def)

text \<open>A new work in the hands of its submitter, or refused and deleted at once.\<close>

lemma works_submit:
  assumes inv: "works_inv s" and a: "agents s a = PoolIdle"
  shows "works_inv (Submit a prom alloc s)"
proof (cases alloc)
  case True
  let ?w = "next_work s"
  define s1 where "s1 = s \<lparr>next_work := Suc ?w, futs := (futs s) (?w := if prom then FutPending else FutNone)\<rparr>"
  have P: "place_inv s" and R: "run_inv s" using inv by (auto simp: works_inv_def)
  note D = run_D [OF R]
  have fresh: "\<not> at_place s ?w x" for x using place_lt [OF P, of ?w x] by auto
  have nd: "?w \<notin> set (deleted s)" "?w \<notin> set (m_works_queue s)" using fresh [of InDeleted] fresh [of InQueue] by simp_all
  have nh: "hand (agents s b) \<noteq> Some ?w" "invoked (agents s b) \<noteq> Some ?w" for b
    using fresh [of "InHand b"] invoked_hand [of "agents s b" ?w] by auto
  have ne: "?w \<notin> set (executed s)" using D(2) [of ?w] nd nh by blast
  show ?thesis
  proof (cases "m_is_running s")
    case False
    define t where "t = delete_work ?w s1"
    have t: "agents t = agents s" "executed t = executed s" "deleted t = deleted s @ [?w]" "next_work t = Suc ?w"
      "m_works_queue t = m_works_queue s" "futs t = (futs s) (?w := if prom then FutBroken else FutNone)"
      by (simp_all add: t_def s1_def delete_work_def)
    have "place_inv t"
    proof (rule place_new [OF P, where X = InDeleted])
      fix w x show "at_place t w x \<longleftrightarrow> (if w = ?w then x = InDeleted else at_place s w x)"
        using nd nh by (cases x) (auto simp: t)
    qed (use place_dist [OF P] nd in \<open>simp_all add: t\<close>)
    moreover have "run_inv t"
    proof (rule run_I)
      fix w b assume "futs t w = FutPending"
      then have "w \<noteq> ?w" "futs s w = FutPending" using t by (auto split: if_splits)
      then show "w < next_work t \<and> w \<notin> set (deleted t) \<and> settled (agents t b) \<noteq> Some w" using D(4) [of w b] t by simp
    qed (use D ne t in \<open>auto split: if_splits\<close>)
    ultimately have "works_inv t" by (simp add: works_inv_def)
    then show ?thesis using False True by (simp add: Submit_def Let_def t_def s1_def)
  next
    case r: True
    define t where "t = go a (SbEnq ?w) s1"
    have t: "agents t = (agents s) (a := SbEnq ?w)" "executed t = executed s" "deleted t = deleted s" "next_work t = Suc ?w"
      "m_works_queue t = m_works_queue s" "futs t = (futs s) (?w := if prom then FutPending else FutNone)"
      by (simp_all add: t_def s1_def go_def)
    have "place_inv t"
    proof (rule place_new [OF P, where X = "InHand a"])
      fix w x show "at_place t w x \<longleftrightarrow> (if w = ?w then x = InHand a else at_place s w x)"
        using nd nh a by (cases x) (auto simp: t)
    qed (use place_dist [OF P] in \<open>simp_all add: t\<close>)
    moreover have i: "invoked (agents t b) = invoked (agents s b)" "settled (agents t b) = settled (agents s b)" for b
      using a by (simp_all add: t)
    have "run_inv t"
    proof (rule run_I)
      fix w b assume "futs t w = FutPending"
      then show "w < next_work t \<and> w \<notin> set (deleted t) \<and> settled (agents t b) \<noteq> Some w"
        using D(4) [of w b] nd(1) nh(2) [of b] settled_invoked [of "agents s b" w] unfolding i t by (auto split: if_splits)
    next
      fix w assume "w \<in> set (executed t)"
      then show "w \<in> set (deleted t) \<or> (\<exists>b. invoked (agents t b) = Some w)" unfolding i using D(2) [of w] t by simp
    next
      fix b w assume "invoked (agents t b) = Some w"
      then show "w \<in> set (executed t)" unfolding i using D(3) [of b w] t by simp
    next
      fix w assume "futs t w \<in> {FutValue, FutException}"
      then have "futs s w \<in> {FutValue, FutException}" using t(6) by (auto split: if_splits)
      then show "w \<in> set (executed t) \<and> (w \<in> set (deleted t) \<or> (\<exists>b. settled (agents t b) = Some w))"
        unfolding i using D(5) [of w] t by simp
    qed (use D t ne in \<open>auto split: if_splits\<close>)
    ultimately have "works_inv t" by (simp add: works_inv_def)
    then show ?thesis using True r by (simp add: Submit_def Let_def t_def s1_def)
  qed
qed (simp add: Submit_def inv)

text \<open>A work goes from \<open>X\<close> to \<open>Y\<close>, before it is invoked.\<close>

lemma works_move:
  assumes inv: "works_inv s" and X: "at_place s v X" and nv: "invoked (agents s a) = None" "invoked p = None"
    and t: "agents t = (agents s) (a := p)" "executed t = executed s" "deleted t = deleted s" "next_work t = next_work s"
      "futs t = futs s" "distinct (m_works_queue t)"
    and at: "\<And>w x. at_place t w x \<longleftrightarrow> (if w = v then x = Y else at_place s w x)"
  shows "works_inv t"
proof -
  have P: "place_inv s" and R: "run_inv s" using inv by (auto simp: works_inv_def)
  have i: "invoked q = None \<Longrightarrow> settled q = None" for q by (cases q) auto
  have "place_inv t" by (rule place_move [OF P _ _ _ X at]) (use t place_dist [OF P] in simp_all)
  moreover have "run_inv t" by (rule run_frame [OF R]) (use t nv i in auto)
  ultimately show ?thesis by (simp add: works_inv_def)
qed

text \<open>A work is deleted, not in use any more.\<close>

lemma works_delete:
  assumes inv: "works_inv s" and X: "at_place s v X" "X \<noteq> InDeleted" and np: "v \<in> set (executed s) \<Longrightarrow> futs s v \<noteq> FutPending"
    and t: "executed t = executed s" "deleted t = deleted s @ [v]" "next_work t = next_work s"
      "futs t = (futs s) (v := if futs s v = FutPending then FutBroken else futs s v)" "distinct (m_works_queue t)"
    and at: "\<And>w x. at_place t w x \<longleftrightarrow> (if w = v then x = InDeleted else at_place s w x)"
    and ag: "\<And>b w. invoked (agents t b) = Some w \<longleftrightarrow> invoked (agents s b) = Some w \<and> w \<noteq> v"
      "\<And>b w. settled (agents t b) = Some w \<longleftrightarrow> settled (agents s b) = Some w \<and> w \<noteq> v"
  shows "works_inv t"
proof -
  have P: "place_inv s" and R: "run_inv s" using inv by (auto simp: works_inv_def)
  note D = run_D [OF R]
  have nd: "v \<notin> set (deleted s)" using place_unique [OF P X(1), of InDeleted] X(2) by auto
  have "place_inv t" by (rule place_move [OF P _ _ _ X(1) at]) (use t nd place_dist [OF P] in simp_all)
  moreover have "run_inv t"
  proof (rule run_I)
    fix w assume "w \<in> set (executed t)"
    then show "w \<in> set (deleted t) \<or> (\<exists>b. invoked (agents t b) = Some w)" using D(2) [of w] t ag(1) by auto
  next
    fix b w assume "invoked (agents t b) = Some w"
    then show "w \<in> set (executed t)" using D(3) [of b w] t ag(1) by auto
  next
    fix w b assume "futs t w = FutPending"
    then have w: "w \<noteq> v" "futs s w = FutPending" using t by (auto split: if_splits)
    then show "w < next_work t \<and> w \<notin> set (deleted t) \<and> settled (agents t b) \<noteq> Some w"
      using D(4) [of w b] ag(2) [of b w] t by auto
  next
    fix w assume "futs t w \<in> {FutValue, FutException}"
    then have "futs s w \<in> {FutValue, FutException}" using t(4) by (auto split: if_splits)
    then show "w \<in> set (executed t) \<and> (w \<in> set (deleted t) \<or> (\<exists>b. settled (agents t b) = Some w))"
      using D(5) [of w] t ag(2) by auto
  next
    fix w assume "futs t w = FutBroken"
    then show "w \<in> set (deleted t) \<and> w \<notin> set (executed t)" using D(6) [of w] np t by (auto split: if_splits)
  qed (use D t in simp)
  ultimately show ?thesis by (simp add: works_inv_def)
qed

lemma works_enqueue:
  assumes inv: "works_inv s" and a: "agents s a = SbEnq w"
  shows "works_inv (Submit_enqueue a w ok s)"
proof -
  have P: "place_inv s" and R: "run_inv s" using inv by (auto simp: works_inv_def)
  have X: "at_place s w (InHand a)" using a by simp
  note u = place_unique [OF P X]
  have q: "w \<notin> set (m_works_queue s)" "w \<notin> set (deleted s)" "\<And>b. hand (agents s b) = Some w \<longleftrightarrow> b = a"
    using u [of InQueue] u [of InDeleted] u [of "InHand b" for b] by auto
  show ?thesis
  proof (cases ok)
    case True
    show ?thesis
    proof (rule works_move [OF inv X, of a "SbNotify w" _ InQueue])
      fix v x show "at_place (Submit_enqueue a w ok s) v x \<longleftrightarrow> (if v = w then x = InQueue else at_place s v x)"
        using True a q by (cases x) (auto simp: Submit_enqueue_def go_def)
    qed (use True a q place_dist [OF P] in \<open>simp_all add: Submit_enqueue_def go_def\<close>)
  next
    case False
    have ne: "w \<notin> set (executed s)"
    proof
      assume "w \<in> set (executed s)"
      then obtain b where "invoked (agents s b) = Some w" using run_D(2) [OF R] q by blast
      then show False using q(3) [of b] invoked_hand a by fastforce
    qed
    define t where "t = Submit_enqueue a w ok s"
    have t: "agents t = (agents s) (a := PoolIdle)" "executed t = executed s" "deleted t = deleted s @ [w]"
      "next_work t = next_work s" "m_works_queue t = m_works_queue s"
      "futs t = (futs s) (w := if futs s w = FutPending then FutBroken else futs s w)"
      using False by (simp_all add: t_def Submit_enqueue_def go_def delete_work_def)
    have "works_inv t"
    proof (rule works_delete [OF inv X])
      fix v x show "at_place t v x \<longleftrightarrow> (if v = w then x = InDeleted else at_place s v x)"
        using a q by (cases x) (auto simp: t)
    next
      fix b v show "invoked (agents t b) = Some v \<longleftrightarrow> invoked (agents s b) = Some v \<and> v \<noteq> w"
        using a q(3) [of b] invoked_hand [of "agents s b" w] by (auto simp: t)
      show "settled (agents t b) = Some v \<longleftrightarrow> settled (agents s b) = Some v \<and> v \<noteq> w"
      proof (cases "b = a")
        case False
        then have "settled (agents s b) \<noteq> Some w" using q(3) [of b] invoked_hand settled_invoked by blast
        then show ?thesis using False by (auto simp: t)
      qed (simp add: t a)
    qed (use ne place_dist [OF P] t in \<open>auto split: if_splits\<close>)
    then show ?thesis by (simp add: t_def)
  qed
qed

lemma works_take:
  assumes inv: "works_inv s" and a: "agents s a = WkTake" and t: "WorkCo_take a w s = Some t"
  shows "works_inv t"
proof (cases w)
  case None
  then have "t = go a WkWait s" using t by (simp add: WorkCo_take_def)
  then show ?thesis using works_quiet [OF inv, of a WkWait t] a by (simp add: go_def)
next
  case (Some v)
  have P: "place_inv s" using inv by (auto simp: works_inv_def)
  have X: "at_place s v InQueue" and t': "t = go a (WkHave v) (s \<lparr>m_works_queue := remove1 v (m_works_queue s)\<rparr>)"
    using t Some by (auto simp: WorkCo_take_def split: if_splits)
  note u = place_unique [OF P X]
  have q: "v \<notin> set (deleted s)" "\<And>b. hand (agents s b) \<noteq> Some v" using u [of InDeleted] u [of "InHand b" for b] by auto
  show ?thesis
  proof (rule works_move [OF inv X, of a "WkHave v" _ "InHand a"])
    fix y x show "at_place t y x \<longleftrightarrow> (if y = v then x = InHand a else at_place s y x)"
      using a q place_dist [OF P] by (cases x) (auto simp: t' go_def)
  qed (use a place_dist [OF P] in \<open>simp_all add: t' go_def\<close>)
qed

lemma works_invoke:
  assumes inv: "works_inv s" and a: "agents s a = WkHave w"
  shows "works_inv (WorkCo_invoke a w s)"
proof -
  have P: "place_inv s" and R: "run_inv s" using inv by (auto simp: works_inv_def)
  note D = run_D [OF R]
  have X: "at_place s w (InHand a)" using a by simp
  note u = place_unique [OF P X]
  have q: "w \<notin> set (deleted s)" "\<And>b. hand (agents s b) = Some w \<longleftrightarrow> b = a" using u [of InDeleted] u [of "InHand b" for b] by auto
  have ne: "w \<notin> set (executed s)" using D(2) [of w] q invoked_hand a by fastforce
  define t where "t = WorkCo_invoke a w s"
  have t: "agents t = (agents s) (a := WkRun w)" "executed t = executed s @ [w]" "deleted t = deleted s"
      "next_work t = next_work s" "m_works_queue t = m_works_queue s" "futs t = futs s"
    by (simp_all add: t_def WorkCo_invoke_def go_def)
  have i: "invoked (agents t b) = Some v \<longleftrightarrow> invoked (agents s b) = Some v \<or> b = a \<and> v = w" "settled (agents t b) = settled (agents s b)" for b v
    using a by (auto simp: t)
  have "place_inv t" by (rule place_frame [OF P]) (use a t in auto)
  moreover have "run_inv t"
  proof (rule run_I; (unfold i)?)
    fix v assume "v \<in> set (executed t)"
    then show "v \<in> set (deleted t) \<or> (\<exists>b. invoked (agents s b) = Some v \<or> b = a \<and> v = w)" using D(2) [of v] t by auto
  next
    fix b v assume "invoked (agents s b) = Some v \<or> b = a \<and> v = w"
    then show "v \<in> set (executed t)" using D(3) [of b v] t by auto
  next
    fix v assume "futs t v = FutBroken"
    then show "v \<in> set (deleted t) \<and> v \<notin> set (executed t)" using D(6) [of v] q(1) t by auto
  qed (use D ne t in auto)
  ultimately show ?thesis by (simp add: works_inv_def t_def)
qed

text \<open>The end of an invocation: the promise, if there is one, is settled.\<close>

lemma works_settle:
  assumes inv: "works_inv s" and a: "agents s a = WkRun w"
    and t: "agents t = (agents s) (a := WkDel w)" "executed t = executed s" "deleted t = deleted s"
      "next_work t = next_work s" "m_works_queue t = m_works_queue s"
      "futs t = (if futs s w = FutNone then futs s else (futs s) (w := r))" "r \<in> {FutValue, FutException}"
  shows "works_inv t"
proof -
  have P: "place_inv s" and R: "run_inv s" using inv by (auto simp: works_inv_def)
  note D = run_D [OF R]
  have ex: "w \<in> set (executed s)" using D(3) [of a w] a by simp
  have i: "invoked (agents t b) = invoked (agents s b)" for b using a by (simp add: t)
  have st: "settled (agents t b) = Some v \<Longrightarrow> settled (agents s b) = Some v \<or> v = w" for b v by (auto simp: t split: if_splits)
  have "place_inv t" by (rule place_frame [OF P]) (use a t in auto)
  moreover have "run_inv t"
  proof (rule run_I)
    fix v b assume "futs t v = FutPending"
    then have v: "v \<noteq> w" "futs s v = FutPending" using t(6,7) by (auto split: if_splits)
    then show "v < next_work t \<and> v \<notin> set (deleted t) \<and> settled (agents t b) \<noteq> Some v"
      using D(4) [of v b] st [of b v] t by auto
  next
    fix v assume "v \<in> set (executed t)"
    then show "v \<in> set (deleted t) \<or> (\<exists>b. invoked (agents t b) = Some v)" unfolding i using D(2) [of v] t by simp
  next
    fix b v assume "invoked (agents t b) = Some v"
    then show "v \<in> set (executed t)" unfolding i using D(3) [of b v] t by simp
  next
    fix v assume "futs t v = FutBroken"
    then have "futs s v = FutBroken" using t(6,7) by (auto split: if_splits)
    then show "v \<in> set (deleted t) \<and> v \<notin> set (executed t)" using D(6) [of v] t by simp
  next
    fix v assume v: "futs t v \<in> {FutValue, FutException}"
    have wd: "settled (agents t a) = Some w" by (simp add: t)
    have up: "settled (agents s b) = Some v \<Longrightarrow> settled (agents t b) = Some v" for b using a by (auto simp: t)
    show "v \<in> set (executed t) \<and> (v \<in> set (deleted t) \<or> (\<exists>b. settled (agents t b) = Some v))"
    proof (cases "v = w")
      case True then show ?thesis using ex wd t(2) by auto
    next
      case False
      then have "futs s v \<in> {FutValue, FutException}" using v t(6) by (auto split: if_splits)
      then show ?thesis using D(5) [of v] up t(2,3) by auto
    qed
  qed (use D t in simp)
  ultimately show ?thesis by (simp add: works_inv_def)
qed

lemma works_finished: "works_inv s \<Longrightarrow> agents s a = WkRun w \<Longrightarrow> works_inv (WorkCo_finished a w s)"
  by (rule works_settle [of s a w _ FutValue]) (simp_all add: WorkCo_finished_def SetFinished_def HasPromise_def go_def)

lemma works_threw: "works_inv s \<Longrightarrow> agents s a = WkRun w \<Longrightarrow> works_inv (WorkCo_threw a w c s)"
  by (rule works_settle [of s a w _ FutException])
    (simp_all add: WorkCo_threw_def HandleWorkException_def SetException_def HasPromise_def go_def)

lemma works_deleted:
  assumes inv: "works_inv s" and a: "agents s a = WkDel w"
  shows "works_inv (WorkCo_delete a w s)"
proof -
  have P: "place_inv s" and R: "run_inv s" using inv by (auto simp: works_inv_def)
  have X: "at_place s w (InHand a)" using a by simp
  note u = place_unique [OF P X]
  have q: "w \<notin> set (m_works_queue s)" "w \<notin> set (deleted s)" "\<And>b. hand (agents s b) = Some w \<longleftrightarrow> b = a"
    using u [of InQueue] u [of InDeleted] u [of "InHand b" for b] by auto
  define t where "t = WorkCo_delete a w s"
  have t: "agents t = (agents s) (a := WkHead)" "executed t = executed s" "deleted t = deleted s @ [w]"
    "next_work t = next_work s" "m_works_queue t = m_works_queue s"
    "futs t = (futs s) (w := if futs s w = FutPending then FutBroken else futs s w)"
    by (simp_all add: t_def WorkCo_delete_def go_def delete_work_def)
  have "works_inv t"
  proof (rule works_delete [OF inv X])
    show "w \<in> set (executed s) \<Longrightarrow> futs s w \<noteq> FutPending" using run_D(4) [OF R, of w a] a by auto
  next
    fix v x show "at_place t v x \<longleftrightarrow> (if v = w then x = InDeleted else at_place s v x)"
      using a q by (cases x) (auto simp: t)
  next
    fix b v show "invoked (agents t b) = Some v \<longleftrightarrow> invoked (agents s b) = Some v \<and> v \<noteq> w"
    proof (cases "b = a")
      case False
      then have "invoked (agents s b) \<noteq> Some w" using q(3) [of b] invoked_hand by blast
      then show ?thesis using False by (auto simp: t)
    qed (simp add: t a)
  next
    fix b v show "settled (agents t b) = Some v \<longleftrightarrow> settled (agents s b) = Some v \<and> v \<noteq> w"
    proof (cases "b = a")
      case False
      then have "settled (agents s b) \<noteq> Some w" using q(3) [of b] invoked_hand settled_invoked by blast
      then show ?thesis using False by (auto simp: t)
    qed (simp add: t a)
  qed (use place_dist [OF P] t in simp_all)
  then show ?thesis by (simp add: t_def)
qed

lemma works_drain:
  assumes inv: "works_inv s" and X: "w \<in> set (m_works_queue s)"
  shows "works_inv (drain w s)"
proof -
  have P: "place_inv s" and R: "run_inv s" using inv by (auto simp: works_inv_def)
  have X': "at_place s w InQueue" using X by simp
  note u = place_unique [OF P X']
  have q: "w \<notin> set (deleted s)" "\<And>b. hand (agents s b) \<noteq> Some w" "\<And>b. invoked (agents s b) \<noteq> Some w"
    "\<And>b. settled (agents s b) \<noteq> Some w"
    using u [of InDeleted] u [of "InHand b" for b] invoked_hand settled_invoked by (auto, blast+)
  have ne: "w \<notin> set (executed s)" using run_D(2) [OF R, of w] q by blast
  show ?thesis
  proof (rule works_delete [OF inv X'])
    fix v x show "at_place (drain w s) v x \<longleftrightarrow> (if v = w then x = InDeleted else at_place s v x)"
      using q X place_dist [OF P] by (cases x) (auto simp: drain_def delete_work_def)
  qed (use q ne place_dist [OF P] in \<open>auto simp: drain_def delete_work_def\<close>)
qed

lemma works_step: "works_inv s \<Longrightarrow> copool_exec ev s = Some s' \<Longrightarrow> works_inv s'"
proof -
  assume inv: "works_inv s" and ex: "copool_exec ev s = Some s'"
  note quiet = works_go [of s] works_go [of "s \<lparr>m_cond := c\<rparr>" for c] works_go [of "s \<lparr>m_running_co_num := n\<rparr>" for n]
    works_go [of "s \<lparr>m_latch := n\<rparr>" for n] works_go [of "s \<lparr>m_is_running := n\<rparr>" for n] works_go [of "s \<lparr>released := n\<rparr>" for n]
    works_go [of "s \<lparr>m_cond := c, answers := x\<rparr>" for c x]
  show ?thesis
  proof (cases ev)
    case (PSubmit a p al) then show ?thesis using ex works_submit [OF inv] by (auto split: if_splits)
  next
    case (PEnqueue a ok) then show ?thesis using ex works_enqueue [OF inv] by (auto split: copool_pc.splits)
  next
    case (PNotify a)
    then obtain w where "agents s a = SbNotify w" "s' = Submit_notify a w s" using ex by (auto split: copool_pc.splits)
    then show ?thesis using inv by (simp add: Submit_notify_def quiet)
  next
    case (PBegin a) then show ?thesis using ex inv quiet by (auto simp: Co_begin_def split: copool_pc.splits)
  next
    case (PHead a n) then show ?thesis using ex inv quiet by (auto simp: WorkCo_head_def MonitorCo_head_def split: copool_pc.splits)
  next
    case (PTake a w) then show ?thesis using ex works_take [OF inv] by (auto split: if_splits)
  next
    case (PWait a c)
    then show ?thesis using ex inv quiet by (auto simp: WorkCo_wait_def split: if_splits option.splits)
  next
    case (PInvoke a) then show ?thesis using ex works_invoke [OF inv] by (auto split: copool_pc.splits)
  next
    case (PFinished a) then show ?thesis using ex works_finished [OF inv] by (auto split: copool_pc.splits)
  next
    case (PThrew a t) then show ?thesis using ex works_threw [OF inv] by (auto split: copool_pc.splits)
  next
    case (PDelete a) then show ?thesis using ex works_deleted [OF inv] by (auto split: copool_pc.splits)
  next
    case (PMonNotify a)
    then obtain k where k: "agents s a = MoNotify k" "s' = MonitorCo_notify a k s" using ex by (auto split: copool_pc.splits)
    then show ?thesis using inv quiet by (cases k) (auto split: prod.splits)
  next
    case (PSleep a) then show ?thesis using ex inv quiet by (auto split: copool_pc.splits)
  next
    case (PAll a c)
    then show ?thesis using ex inv quiet by (auto simp: Release_notify_def split: if_splits option.splits)
  next
    case (PDrain a w)
    then show ?thesis using ex works_drain [OF inv] inv quiet
      by (auto simp: Release_begin_def split: option.splits if_splits)
  next
    case (PCancel e) then show ?thesis using ex inv by (auto split: option.splits if_splits)
  qed (use ex inv quiet in \<open>auto simp: SetExceptionCallback_def Co_exit_def Co_down_def Release_begin_def Release_spin_def split: if_splits\<close>)
qed

section \<open>Counters\<close>

text \<open>What each coroutine of the pool contributes to \<open>m_running_co_num\<close> and to the latch.\<close>

fun counts :: "copool_pc \<Rightarrow> bool" where
  "counts WkHead = True" | "counts WkTake = True" | "counts WkWait = True" | "counts (WkHave w) = True"
| "counts (WkRun w) = True" | "counts (WkDel w) = True" | "counts WkDead = True" | "counts MoHead = True"
| "counts (MoNotify k) = True" | "counts MoSleep = True" | "counts CoExit = True" | "counts _ = False"

definition latched :: "copool_pc \<Rightarrow> bool" where
  "latched p \<longleftrightarrow> counts p \<or> p \<in> {WkNew, MoNew, CoDown}"

definition of_pool :: "copool_pc \<Rightarrow> bool" where
  "of_pool p \<longleftrightarrow> latched p \<or> p = CoDone"

definition cnt :: "copool_pc \<Rightarrow> int" where
  "cnt p = of_bool (counts p)"

definition lat :: "copool_pc \<Rightarrow> int" where
  "lat p = of_bool (latched p)"

definition count_inv :: "copool_sys \<Rightarrow> bool" where
  "count_inv s \<longleftrightarrow> (\<forall>a. of_pool (agents s a) \<longleftrightarrow> a \<le> m_max_co_num s) \<and>
     m_running_co_num s = (\<Sum>a \<le> m_max_co_num s. cnt (agents s a)) \<and>
     m_latch s = (\<Sum>a \<le> m_max_co_num s. lat (agents s a))"

lemma sum_upd:
  fixes f :: "copool_pc \<Rightarrow> int"
  shows "a \<le> n \<Longrightarrow> (\<Sum>i \<le> (n::nat). f ((g (a := p)) i)) = (\<Sum>i \<le> n. f (g i)) + (f p - f (g a))"
proof -
  assume a: "a \<le> n"
  have "(\<Sum>i \<le> n. f ((g (a := p)) i)) = f p + (\<Sum>i \<in> {..n} - {a}. f (g i))"
    using a by (simp add: sum.remove [where x = a] cong: sum.cong_simp)
  moreover have "(\<Sum>i \<le> n. f (g i)) = f (g a) + (\<Sum>i \<in> {..n} - {a}. f (g i))"
    using a by (simp add: sum.remove [where x = a])
  ultimately show ?thesis by simp
qed

lemma count_move:
  assumes inv: "count_inv s" and t: "agents t = (agents s) (a := p)" "m_max_co_num t = m_max_co_num s"
    and op: "of_pool p \<longleftrightarrow> of_pool (agents s a)"
    and n: "m_running_co_num t = m_running_co_num s + cnt p - cnt (agents s a)"
    and l: "m_latch t = m_latch s + lat p - lat (agents s a)"
  shows "count_inv t"
proof (cases "a \<le> m_max_co_num s")
  case True
  have "(\<Sum>i \<le> m_max_co_num t. cnt (agents t i)) = m_running_co_num t" "(\<Sum>i \<le> m_max_co_num t. lat (agents t i)) = m_latch t"
    unfolding t n l sum_upd [OF True] using inv by (simp_all add: count_inv_def)
  then show ?thesis using inv op t unfolding count_inv_def by (metis fun_upd_apply)
next
  case False
  then have np: "\<not> of_pool (agents s a)" "\<not> of_pool p" using inv op by (auto simp: count_inv_def)
  then have "cnt p = 0" "lat p = 0" "cnt (agents s a) = 0" "lat (agents s a) = 0" by (auto simp: of_pool_def latched_def cnt_def lat_def)
  moreover have "(\<Sum>i \<le> m_max_co_num s. f (((agents s) (a := p)) i)) = (\<Sum>i \<le> m_max_co_num s. f (agents s i))" for f :: "copool_pc \<Rightarrow> int"
    by (rule sum.cong) (use False in auto)
  note this [of cnt] this [of lat]
  ultimately show ?thesis using inv t n l np False by (auto simp: count_inv_def)
qed

lemma count_same:
  assumes "count_inv s" "agents t = agents s" "m_max_co_num t = m_max_co_num s" "m_running_co_num t = m_running_co_num s"
    "m_latch t = m_latch s"
  shows "count_inv t"
  using assms by (simp add: count_inv_def)

lemma count_init: "count_inv (NewCoPool n)"
proof -
  have "(\<Sum>a \<le> n. lat (agents (NewCoPool n) a)) = (\<Sum>a \<le> n. (1::int))"
    by (rule sum.cong) (auto simp: NewCoPool_def latched_def lat_def)
  moreover have "(\<Sum>a \<le> n. cnt (agents (NewCoPool n) a)) = (\<Sum>a \<le> n. (0::int))"
    by (rule sum.cong) (auto simp: NewCoPool_def cnt_def)
  ultimately show ?thesis by (simp add: count_inv_def) (auto simp: NewCoPool_def of_pool_def latched_def)
qed

lemma count_go:
  "count_inv s \<Longrightarrow> of_pool p = of_pool (agents s a) \<Longrightarrow> counts p = counts (agents s a) \<Longrightarrow> latched p = latched (agents s a) \<Longrightarrow>
   agents t = (agents s) (a := p) \<Longrightarrow> m_max_co_num t = m_max_co_num s \<Longrightarrow> m_running_co_num t = m_running_co_num s \<Longrightarrow>
   m_latch t = m_latch s \<Longrightarrow> count_inv t"
  by (rule count_move [of s t a p]) (simp_all add: cnt_def lat_def)

lemmas role_defs = of_pool_def latched_def

lemma SetException_sel [simp]:
  "agents (HandleWorkException w c s) = agents s" "m_max_co_num (HandleWorkException w c s) = m_max_co_num s"
  "m_running_co_num (HandleWorkException w c s) = m_running_co_num s" "m_latch (HandleWorkException w c s) = m_latch s"
  "m_cond (HandleWorkException w c s) = m_cond s" "m_is_running (HandleWorkException w c s) = m_is_running s"
  "released (HandleWorkException w c s) = released s" "executed (HandleWorkException w c s) = executed s"
  "deleted (HandleWorkException w c s) = deleted s"
  by (simp_all add: HandleWorkException_def SetException_def)

lemma SetFinished_sel [simp]:
  "agents (SetFinished w s) = agents s" "m_max_co_num (SetFinished w s) = m_max_co_num s"
  "m_running_co_num (SetFinished w s) = m_running_co_num s" "m_latch (SetFinished w s) = m_latch s"
  "m_cond (SetFinished w s) = m_cond s" "m_is_running (SetFinished w s) = m_is_running s" "released (SetFinished w s) = released s"
  by (simp_all add: SetFinished_def)

lemma MonitorCo_notify_form:
  "\<exists>d p. (p = MoSleep \<or> (\<exists>j. p = MoNotify j)) \<and> (d = m_cond s \<or> d = snd (CondModel.NotifyOne (m_cond s))) \<and>
     MonitorCo_notify a k s = go a p (s \<lparr>m_cond := d\<rparr>)"
proof (cases k)
  case 0
  have "s \<lparr>m_cond := m_cond s\<rparr> = s" by simp
  then show ?thesis using 0 by (metis MonitorCo_notify.simps(1))
next
  case (Suc j)
  obtain r c where c: "CondModel.NotifyOne (m_cond s) = (r, c)" by fastforce
  then show ?thesis using Suc by (intro exI [of _ c] exI [of _ "if r \<noteq> 0 then MoSleep else MoNotify j"]) auto
qed

text \<open>Every step moves at most one agent, within its role; only three change the counters.\<close>

lemma copool_count_step: "count_inv s \<Longrightarrow> copool_exec ev s = Some s' \<Longrightarrow> count_inv s'"
proof -
  assume inv: "count_inv s" and ex: "copool_exec ev s = Some s'"
  have co: "of_pool (agents s a) \<longleftrightarrow> a \<le> m_max_co_num s" for a using inv by (simp add: count_inv_def)
  note move = count_go [OF inv]
  show ?thesis
  proof (cases ev)
    case (PSubmit a p al)
    then have "agents s a = PoolIdle" "s' = Submit a p al s" using ex by (auto split: if_splits)
    then show ?thesis using inv move [of "SbEnq (next_work s)" a s'] count_same [OF inv, of s']
      by (auto simp: Submit_def Let_def go_def delete_work_def role_defs split: if_splits)
  next
    case (PEnqueue a ok)
    then obtain w where "agents s a = SbEnq w" "s' = Submit_enqueue a w ok s" using ex by (auto split: copool_pc.splits)
    then show ?thesis using move [of "SbNotify w" a s'] move [of PoolIdle a s']
      by (cases ok) (simp_all add: Submit_enqueue_def go_def delete_work_def role_defs)
  next
    case (PNotify a)
    then obtain w where "agents s a = SbNotify w" "s' = Submit_notify a w s" using ex by (auto split: copool_pc.splits)
    then show ?thesis using move [of PoolIdle a s'] by (simp add: Submit_notify_def go_def role_defs)
  next
    case (PSetCallback b)
    then show ?thesis using ex count_same [OF inv, of s'] by (auto simp: SetExceptionCallback_def)
  next
    case (PBegin a)
    then obtain p where "agents s a = WkNew \<and> p = WkHead \<or> agents s a = MoNew \<and> p = MoHead" "s' = Co_begin a p s"
      using ex by (auto split: copool_pc.splits)
    then show ?thesis using count_move [OF inv, of s' a p]
      by (auto simp: Co_begin_def go_def role_defs cnt_def lat_def)
  next
    case (PExit a)
    then have "agents s a = CoExit" "s' = Co_exit a s" using ex by (auto split: if_splits)
    then show ?thesis using count_move [OF inv, of s' a CoDown] by (simp add: Co_exit_def go_def role_defs cnt_def lat_def)
  next
    case (PDown a)
    then have "agents s a = CoDown" "s' = Co_down a s" using ex by (auto split: if_splits)
    then show ?thesis using count_move [OF inv, of s' a CoDone] by (simp add: Co_down_def go_def role_defs cnt_def lat_def)
  next
    case (PHead a n)
    then consider "agents s a = WkHead" "s' = WorkCo_head a s" | "agents s a = MoHead" "s' = MonitorCo_head a n s"
      using ex by (auto split: copool_pc.splits)
    then show ?thesis using move [of WkTake a s'] move [of CoExit a s'] move [of "MoNotify n" a s']
      by cases (auto simp: WorkCo_head_def MonitorCo_head_def go_def role_defs)
  next
    case (PTake a w)
    then have "agents s a = WkTake" "WorkCo_take a w s = Some s'" using ex by (auto split: if_splits)
    then show ?thesis using move [of WkWait a s'] move [of "WkHave (the w)" a s']
      by (auto simp: WorkCo_take_def go_def role_defs split: option.splits if_splits)
  next
    case (PWait a c)
    then have a: "agents s a = WkWait" "WorkCo_wait a c s = Some s'" using ex by (auto split: if_splits)
    then obtain d p where "p \<in> {WkDead, WkHead, WkWait}" "s' = go a p (s \<lparr>m_cond := d\<rparr>)"
      by (auto simp: WorkCo_wait_def split: if_splits option.splits)
    then show ?thesis using move [of p a s'] a by (auto simp: go_def role_defs)
  next
    case (PInvoke a)
    then obtain w where "agents s a = WkHave w" "s' = WorkCo_invoke a w s" using ex by (auto split: copool_pc.splits)
    then show ?thesis using move [of "WkRun w" a s'] by (simp add: WorkCo_invoke_def go_def role_defs)
  next
    case (PFinished a)
    then obtain w where "agents s a = WkRun w" "s' = WorkCo_finished a w s" using ex by (auto split: copool_pc.splits)
    then show ?thesis using move [of "WkDel w" a s'] by (simp add: WorkCo_finished_def go_def role_defs)
  next
    case (PThrew a t)
    then obtain w where "agents s a = WkRun w" "s' = WorkCo_threw a w t s" using ex by (auto split: copool_pc.splits)
    then show ?thesis using move [of "WkDel w" a s'] by (simp add: WorkCo_threw_def go_def role_defs)
  next
    case (PDelete a)
    then obtain w where "agents s a = WkDel w" "s' = WorkCo_delete a w s" using ex by (auto split: copool_pc.splits)
    then show ?thesis using move [of WkHead a s'] by (simp add: WorkCo_delete_def go_def delete_work_def role_defs)
  next
    case (PMonNotify a)
    then obtain k where k: "agents s a = MoNotify k" "s' = MonitorCo_notify a k s" using ex by (auto split: copool_pc.splits)
    then obtain d p where "p = MoSleep \<or> (\<exists>j. p = MoNotify j)" "s' = go a p (s \<lparr>m_cond := d\<rparr>)"
      using MonitorCo_notify_form [of s a k] by blast
    then show ?thesis using move [of p a s'] k by (auto simp: go_def role_defs)
  next
    case (PSleep a)
    then show ?thesis using ex move [of MoHead a s'] move [of RlSpin a s'] by (auto simp: go_def role_defs split: copool_pc.splits)
  next
    case (PRelease a)
    then show ?thesis using ex move [of RlSpin a s'] by (auto simp: Release_begin_def go_def role_defs split: if_splits)
  next
    case (PSpin a)
    then show ?thesis using ex move [of RlAll a s'] move [of RlLatch a s'] by (auto simp: Release_spin_def go_def role_defs split: if_splits)
  next
    case (PAll a c)
    then have a: "agents s a = RlAll" "Release_notify a c s = Some s'" using ex by (auto split: if_splits)
    then obtain d p where "p \<in> {RlSleep, RlAll}" "s' = go a p (s \<lparr>m_cond := d\<rparr>)"
      by (auto simp: Release_notify_def split: if_splits option.splits)
    then show ?thesis using move [of p a s'] a by (auto simp: go_def role_defs)
  next
    case (PLatch a)
    then show ?thesis using ex move [of RlDrain a s'] by (auto simp: go_def role_defs split: if_splits)
  next
    case (PDestroy a)
    then show ?thesis using ex move [of DtDrain a s'] by (auto simp: go_def role_defs split: if_splits)
  next
    case (PDrain a w)
    then show ?thesis using ex move [of RlSpin a s'] move [of PoolIdle a s'] count_same [OF inv, of s']
      by (auto simp: Release_begin_def go_def drain_def delete_work_def role_defs split: if_splits option.splits)
  next
    case (PCancel e)
    then show ?thesis using ex count_same [OF inv, of s'] by (auto split: option.splits if_splits)
  qed
qed

section \<open>The condition variable inside the pool\<close>

text \<open>A coroutine is inside the condition variable exactly while its place in the program says so.\<close>

definition coupled :: "copool_pc \<Rightarrow> cond_pc \<Rightarrow> bool" where
  "coupled p q \<longleftrightarrow> (case q of CondIdle \<Rightarrow> p \<noteq> RlAll
     | CondSetup k e \<Rightarrow> p = WkWait \<and> k = KWaitCallback
     | CondParked k e \<Rightarrow> p = WkWait \<and> k = KWaitCallback
     | CondAll \<Rightarrow> p = RlAll | CondAllHeld e \<Rightarrow> p = RlAll)"

definition releasing :: "copool_pc \<Rightarrow> bool" where
  "releasing p \<longleftrightarrow> p \<in> {RlSpin, RlAll, RlSleep, RlLatch, RlDrain}"

definition link_inv :: "copool_sys \<Rightarrow> bool" where
  "link_inv s \<longleftrightarrow> cond_inv (m_cond s) \<and> (\<forall>a. coupled (agents s a) (pcs (m_cond s) a)) \<and>
     (\<forall>a. releasing (agents s a) \<longrightarrow> \<not> m_is_running s) \<and> (released s \<longrightarrow> \<not> m_is_running s) \<and>
     (\<forall>a. agents s a = RlDrain \<longrightarrow> m_latch s \<le> 0) \<and> (released s \<longrightarrow> m_latch s \<le> 0)"

definition copool_inv :: "copool_sys \<Rightarrow> bool" where
  "copool_inv s \<longleftrightarrow> works_inv s \<and> count_inv s \<and> link_inv s"

lemma link_init: "link_inv (NewCoPool n)"
  using cond_init_inv by (auto simp: link_inv_def NewCoPool_def coupled_def releasing_def cond_init_def)

lemma link_D:
  assumes "link_inv s"
  shows "cond_inv (m_cond s)" "coupled (agents s a) (pcs (m_cond s) a)" "releasing (agents s a) \<Longrightarrow> \<not> m_is_running s"
    "agents s a = RlDrain \<Longrightarrow> m_latch s \<le> 0"
  using assms unfolding link_inv_def by blast+

text \<open>A step that moves agent \<open>a\<close> and takes the condition variable from one state to the next, where only
  \<open>a\<close>'s place in it changes.\<close>

lemma link_move:
  assumes inv: "link_inv s" and ci: "cond_inv (m_cond t)"
    and ag: "agents t = (agents s) (a := p)" and pc: "\<And>b. b \<noteq> a \<Longrightarrow> pcs (m_cond t) b = pcs (m_cond s) b"
    and cp: "coupled p (pcs (m_cond t) a)"
    and fl: "m_is_running t \<longrightarrow> m_is_running s" "m_latch t \<le> m_latch s" "released t \<longrightarrow> released s \<or> (\<not> m_is_running s \<and> m_latch s \<le> 0)"
    and rl: "releasing p \<Longrightarrow> \<not> m_is_running t" "p = RlDrain \<Longrightarrow> m_latch t \<le> 0"
  shows "link_inv t"
proof -
  have "coupled (agents t b) (pcs (m_cond t) b)" for b
    using inv cp pc [of b] ag by (cases "b = a") (auto simp: link_inv_def)
  moreover have "releasing (agents t b) \<Longrightarrow> \<not> m_is_running t" for b
    using inv rl fl ag by (cases "b = a") (auto simp: link_inv_def)
  moreover have "agents t b = RlDrain \<Longrightarrow> m_latch t \<le> 0" for b
    using inv rl fl ag by (cases "b = a") (auto simp: link_inv_def intro: order_trans)
  ultimately show ?thesis using inv ci fl by (auto simp: link_inv_def intro: order_trans)
qed

text \<open>The special cases: the condition variable untouched, and no agent moved.\<close>

lemma link_go:
  assumes inv: "link_inv s" and ag: "agents t = (agents s) (a := p)" "m_cond t = m_cond s"
    and nw: "agents s a \<notin> {WkWait, RlAll}" "p \<noteq> RlAll"
    and fl: "m_is_running t \<longrightarrow> m_is_running s" "m_latch t \<le> m_latch s" "released t \<longrightarrow> released s \<or> (\<not> m_is_running s \<and> m_latch s \<le> 0)"
    and rl: "releasing p \<Longrightarrow> \<not> m_is_running t" "p = RlDrain \<Longrightarrow> m_latch t \<le> 0"
  shows "link_inv t"
proof (rule link_move [OF inv _ ag(1)])
  have "coupled (agents s a) (pcs (m_cond s) a)" using inv by (simp add: link_inv_def)
  then have "pcs (m_cond s) a = CondIdle" using nw(1) by (auto simp: coupled_def split: cond_pc.splits)
  then show "coupled p (pcs (m_cond t) a)" using ag nw by (simp add: coupled_def)
qed (use assms in \<open>auto simp: link_inv_def\<close>)

lemma link_cond:
  assumes inv: "link_inv s" and ci: "cond_inv (m_cond t)" "pcs (m_cond t) = pcs (m_cond s)"
    and t: "agents t = agents s" "m_is_running t = m_is_running s" "m_latch t = m_latch s" "released t = released s"
  shows "link_inv t"
  using assms by (simp add: link_inv_def)

lemma NotifyOne_pcs: "pcs (snd (CondModel.NotifyOne c)) = pcs c"
  by (cases "CondModel.NotifyOne c") (auto elim: cond_NotifyOne_sel)

lemma cond_exec_own:
  assumes "cond_exec ev c = Some d" "ev \<in> {CWait a ok, CSuspend a su, CReturn a, CAllBegin a, CAllPop a, CAllNotify a}" "b \<noteq> a"
  shows "pcs d b = pcs c b"
  using assms by (auto simp: cond_defs Let_def split: if_splits cond_pc.splits outcome.splits wait_setup.splits list.splits)

lemma wait_coupled:
  assumes "coupled WkWait (pcs c a)" "cond_exec ev c = Some d" "ev = CWait a ok \<or> ev = CSuspend a su \<or> ev = CReturn a"
  shows "pcs d a = CondIdle \<or> coupled WkWait (pcs d a)" "ev = CSuspend a WaitThrew \<Longrightarrow> pcs d a = CondIdle"
  using assms by (auto simp: cond_defs coupled_def Let_def split: if_splits cond_pc.splits outcome.splits wait_setup.splits)

lemma all_coupled:
  assumes "coupled RlAll (pcs c a)" "cond_exec ev c = Some d" "ev = CAllPop a \<or> ev = CAllNotify a"
  shows "pcs d a = CondIdle \<or> coupled RlAll (pcs d a)"
  using assms by (auto simp: cond_defs coupled_def split: if_splits cond_pc.splits list.splits)

lemma link_wait:
  assumes inv: "link_inv s" and a: "agents s a = WkWait" and t: "WorkCo_wait a ev s = Some t"
  shows "link_inv t"
proof -
  obtain d where d: "cond_exec ev (m_cond s) = Some d" and ev: "\<exists>ok su. ev = CWait a ok \<or> ev = CSuspend a su \<or> ev = CReturn a"
    and t': "t = go a (if ev = CSuspend a WaitThrew then WkDead else if pcs d a = CondIdle then WkHead else WkWait) (s \<lparr>m_cond := d\<rparr>)"
    using t by (auto simp: WorkCo_wait_def split: if_splits option.splits)
  have ci: "cond_inv (m_cond s)" and cp: "coupled WkWait (pcs (m_cond s) a)" using link_D(1) [OF inv] link_D(2) [OF inv, of a] a by simp_all
  obtain ok su where e: "ev = CWait a ok \<or> ev = CSuspend a su \<or> ev = CReturn a" using ev by blast
  note w = wait_coupled [OF cp d e]
  show ?thesis
  proof (rule link_move [OF inv, of t a])
    show "cond_inv (m_cond t)" using cond_inv_step [OF ci d] by (simp add: t' go_def)
    show "pcs (m_cond t) b = pcs (m_cond s) b" if "b \<noteq> a" for b
      using cond_exec_own [OF d _ that] e by (auto simp: t' go_def)
    show "coupled (if ev = CSuspend a WaitThrew then WkDead else if pcs d a = CondIdle then WkHead else WkWait) (pcs (m_cond t) a)"
      using w by (auto simp: t' go_def coupled_def)
  qed (auto simp: t' go_def releasing_def split: if_splits)
qed

lemma link_all:
  assumes inv: "link_inv s" and a: "agents s a = RlAll" and t: "Release_notify a ev s = Some t"
  shows "link_inv t"
proof -
  obtain d where d: "cond_exec ev (m_cond s) = Some d" and ev: "ev = CAllPop a \<or> ev = CAllNotify a"
    and t': "t = go a (if pcs d a = CondIdle then RlSleep else RlAll) (s \<lparr>m_cond := d\<rparr>)"
    using t by (auto simp: Release_notify_def split: if_splits option.splits)
  have ci: "cond_inv (m_cond s)" and cp: "coupled RlAll (pcs (m_cond s) a)" and nr: "\<not> m_is_running s"
    using link_D(1) [OF inv] link_D(2,3) [OF inv, of a] a by (simp_all add: releasing_def)
  show ?thesis
  proof (rule link_move [OF inv, of t a])
    show "cond_inv (m_cond t)" using cond_inv_step [OF ci d] by (simp add: t' go_def)
    show "pcs (m_cond t) b = pcs (m_cond s) b" if "b \<noteq> a" for b
      using cond_exec_own [OF d _ that] ev by (auto simp: t' go_def)
    show "coupled (if pcs d a = CondIdle then RlSleep else RlAll) (pcs (m_cond t) a)"
      using all_coupled [OF cp d ev] by (auto simp: t' go_def coupled_def)
  qed (use nr in \<open>auto simp: t' go_def split: if_splits\<close>)
qed

lemma link_step: "link_inv s \<Longrightarrow> copool_exec ev s = Some s' \<Longrightarrow> link_inv s'"
proof -
  assume inv: "link_inv s" and ex: "copool_exec ev s = Some s'"
  have ci: "cond_inv (m_cond s)" and cp: "coupled (agents s a) (pcs (m_cond s) a)"
    and nr: "releasing (agents s a) \<Longrightarrow> \<not> m_is_running s" and dl: "agents s a = RlDrain \<Longrightarrow> m_latch s \<le> 0" for a
    using link_D(1) [OF inv] link_D(2-4) [OF inv, of a] by auto
  note move = link_go [OF inv] and n1 = cond_inv_NotifyOne [OF ci] and np = NotifyOne_pcs
  have idle: "agents s a \<notin> {WkWait, RlAll} \<Longrightarrow> pcs (m_cond s) a = CondIdle" for a
    using cp [of a] by (auto simp: coupled_def split: cond_pc.splits)
  show ?thesis
  proof (cases ev)
    case (PSubmit a p al)
    then have "agents s a = PoolIdle" "s' = Submit a p al s" using ex by (auto split: if_splits)
    then show ?thesis using inv move [of s' a "SbEnq (next_work s)"] link_cond [OF inv, of s'] ci
      by (cases al; cases "m_is_running s") (simp_all add: Submit_def Let_def go_def delete_work_def releasing_def)
  next
    case (PEnqueue a ok)
    then obtain w where "agents s a = SbEnq w" "s' = Submit_enqueue a w ok s" using ex by (auto split: copool_pc.splits)
    then show ?thesis using move [of s' a "SbNotify w"] move [of s' a PoolIdle]
      by (cases ok) (simp_all add: Submit_enqueue_def go_def delete_work_def releasing_def)
  next
    case (PNotify a)
    then obtain w where w: "agents s a = SbNotify w" "s' = Submit_notify a w s" using ex by (auto split: copool_pc.splits)
    show ?thesis
      by (rule link_move [OF inv, of s' a PoolIdle])
        (use w n1 np idle [of a] in \<open>simp_all add: Submit_notify_def go_def releasing_def coupled_def\<close>)
  next
    case (PSetCallback b)
    then show ?thesis using ex ci link_cond [OF inv, of s'] by (auto simp: SetExceptionCallback_def)
  next
    case (PBegin a)
    then obtain p where "agents s a = WkNew \<and> p = WkHead \<or> agents s a = MoNew \<and> p = MoHead" "s' = Co_begin a p s"
      using ex by (auto split: copool_pc.splits)
    then show ?thesis using move [of s' a p] by (auto simp: Co_begin_def go_def releasing_def)
  next
    case (PHead a n)
    then consider "agents s a = WkHead" "s' = WorkCo_head a s" | "agents s a = MoHead" "s' = MonitorCo_head a n s"
      using ex by (auto split: copool_pc.splits)
    then obtain p where p: "s' = go a p s" "p \<in> {WkTake, MoNotify n, CoExit}" "agents s a \<notin> {WkWait, RlAll}"
      by cases (auto simp: WorkCo_head_def MonitorCo_head_def)
    show ?thesis by (rule move [of s' a p]) (use p in \<open>auto simp: go_def releasing_def\<close>)
  next
    case (PTake a w)
    then have a: "agents s a = WkTake" "WorkCo_take a w s = Some s'" using ex by (auto split: if_splits)
    obtain p q where p: "s' = go a p (s \<lparr>m_works_queue := q\<rparr>)" "p = WkWait \<or> (\<exists>x. p = WkHave x)"
    proof (cases w)
      case None
      then show ?thesis using a that [of WkWait "m_works_queue s"] by (simp add: WorkCo_take_def)
    next
      case (Some x)
      then show ?thesis using a that [of "WkHave x" "remove1 x (m_works_queue s)"] by (simp add: WorkCo_take_def split: if_splits)
    qed
    show ?thesis by (rule move [of s' a p]) (use p a in \<open>auto simp: go_def releasing_def\<close>)
  next
    case (PWait a c) then show ?thesis using ex link_wait [OF inv] by (auto split: if_splits)
  next
    case (PInvoke a)
    then obtain w where "agents s a = WkHave w" "s' = WorkCo_invoke a w s" using ex by (auto split: copool_pc.splits)
    then show ?thesis using move [of s' a "WkRun w"] by (simp add: WorkCo_invoke_def go_def releasing_def)
  next
    case (PFinished a)
    then obtain w where "agents s a = WkRun w" "s' = WorkCo_finished a w s" using ex by (auto split: copool_pc.splits)
    then show ?thesis using move [of s' a "WkDel w"] by (simp add: WorkCo_finished_def go_def releasing_def)
  next
    case (PThrew a t)
    then obtain w where "agents s a = WkRun w" "s' = WorkCo_threw a w t s" using ex by (auto split: copool_pc.splits)
    then show ?thesis using move [of s' a "WkDel w"] by (simp add: WorkCo_threw_def go_def releasing_def)
  next
    case (PDelete a)
    then obtain w where "agents s a = WkDel w" "s' = WorkCo_delete a w s" using ex by (auto split: copool_pc.splits)
    then show ?thesis using move [of s' a WkHead] by (simp add: WorkCo_delete_def go_def delete_work_def releasing_def)
  next
    case (PMonNotify a)
    then obtain k where k: "agents s a = MoNotify k" "s' = MonitorCo_notify a k s" using ex by (auto split: copool_pc.splits)
    then obtain d p where d: "p = MoSleep \<or> (\<exists>j. p = MoNotify j)" "d = m_cond s \<or> d = snd (CondModel.NotifyOne (m_cond s))"
        "s' = go a p (s \<lparr>m_cond := d\<rparr>)"
      using MonitorCo_notify_form [of s a k] by blast
    have dd: "cond_inv d" "pcs d = pcs (m_cond s)" using d(2) ci n1 np by auto
    show ?thesis
      by (rule link_move [OF inv, of s' a p])
        (use d(1) dd idle [of a] k(1) in \<open>auto simp: d(3) go_def releasing_def coupled_def\<close>)
  next
    case (PSleep a)
    then show ?thesis using ex nr [of a] move [of s' a MoHead] move [of s' a RlSpin] by (auto simp: go_def releasing_def split: copool_pc.splits)
  next
    case (PExit a)
    then show ?thesis using ex move [of s' a CoDown] by (auto simp: Co_exit_def go_def releasing_def split: if_splits)
  next
    case (PDown a)
    then show ?thesis using ex move [of s' a CoDone] by (auto simp: Co_down_def go_def releasing_def split: if_splits)
  next
    case (PRelease a)
    then show ?thesis using ex move [of s' a RlSpin] by (auto simp: Release_begin_def go_def releasing_def split: if_splits)
  next
    case (PSpin a)
    then have a: "agents s a = RlSpin" "s' = Release_spin a s" using ex by (auto split: if_splits)
    have i: "pcs (m_cond s) a = CondIdle" "\<not> m_is_running s" using idle [of a] nr [of a] a by (auto simp: releasing_def)
    show ?thesis
    proof (cases "m_running_co_num s = 0")
      case True
      then show ?thesis using move [of s' a RlLatch] a i by (simp add: Release_spin_def go_def releasing_def)
    next
      case False
      show ?thesis
        by (rule link_move [OF inv, of s' a RlAll])
          (use a i False cond_inv_busy [OF ci, of a CondAll] in
            \<open>simp_all add: Release_spin_def go_def releasing_def coupled_def cond_set_pc_def\<close>)
    qed
  next
    case (PAll a c) then show ?thesis using ex link_all [OF inv] by (auto split: if_splits)
  next
    case (PLatch a)
    then show ?thesis using ex nr [of a] move [of s' a RlDrain] by (auto simp: go_def releasing_def split: if_splits)
  next
    case (PDestroy a)
    then show ?thesis using ex move [of s' a DtDrain] by (auto simp: go_def releasing_def split: if_splits)
  next
    case (PDrain a w)
    show ?thesis
    proof (cases w)
      case None
      then show ?thesis using PDrain ex nr [of a] dl [of a] move [of s' a RlSpin] move [of s' a PoolIdle]
        by (auto simp: Release_begin_def go_def releasing_def split: if_splits)
    next
      case (Some x)
      then show ?thesis using PDrain ex ci link_cond [OF inv, of s']
        by (auto simp: drain_def delete_work_def split: if_splits)
    qed
  next
    case (PCancel e)
    then obtain c where c: "cond_exec (CDecide e POLL_EVENT_CANCELLED) (m_cond s) = Some c" "s' = s \<lparr>m_cond := c\<rparr>"
      using ex by (auto split: option.splits)
    then show ?thesis using link_cond [OF inv, of s'] cond_inv_step [OF ci c(1)] by (auto split: if_splits)
  qed
qed

lemma copool_inv_step: "copool_inv s \<Longrightarrow> copool_exec ev s = Some s' \<Longrightarrow> copool_inv s'"
  using works_step copool_count_step link_step by (auto simp: copool_inv_def)

interpretation copool: invariant_machine copool_exec copool_inv
  by unfold_locales (rule copool_inv_step)

lemma copool_reaches_inv: "reaches copool_exec (NewCoPool n) s \<Longrightarrow> copool_inv s"
  by (erule copool.reaches_inv) (simp add: copool_inv_def works_init count_init link_init)

end
