(* ===== verification/PoolRelease.thy ===== *)
theory PoolRelease
  imports PoolModel
begin

text \<open>
  What the pool of theory \<open>PoolModel\<close> promises: works are executed or discarded exactly once and settle
  their futures, exceptions stay in the pool, \<open>Release\<close> leaves nothing behind and makes progress, and
  the monitor repairs lost notifications.
\<close>

section \<open>Works\<close>

text \<open>C31. Every work handed to the pool is, in every interleaving, in exactly one place: in the hands of its
  submitter or of one worker, in the queue, or deleted. No work is invoked or deleted twice, an invoked work
  is in its worker's hands or deleted, and when a work has been deleted its future is settled: with the
  value or the exception if it was invoked, with a broken promise if it never was.\<close>

theorem copool_work_once:
  assumes "reaches copool_exec (NewCoPool n) s"
  shows "distinct (executed s) \<and> distinct (deleted s) \<and> distinct (m_works_queue s) \<and>
    (\<forall>w. w < next_work s \<longleftrightarrow> (\<exists>!x. at_place s w x)) \<and>
    (\<forall>w \<in> set (executed s). w \<in> set (deleted s) \<or> (\<exists>a. agents s a \<in> {WkRun w, WkDel w})) \<and>
    (\<forall>w \<in> set (deleted s). if w \<in> set (executed s) then futs s w \<in> {FutNone, FutValue, FutException}
       else futs s w \<in> {FutNone, FutBroken})"
proof -
  have inv: "copool_inv s" by (rule copool_reaches_inv [OF assms])
  then have P: "place_inv s" and R: "run_inv s" by (auto simp: copool_inv_def works_inv_def)
  note D = run_D [OF R]
  have "w < next_work s \<longleftrightarrow> (\<exists>!x. at_place s w x)" for w using P unfolding place_inv_def by blast
  moreover have "w \<in> set (deleted s) \<or> (\<exists>a. agents s a \<in> {WkRun w, WkDel w})" if "w \<in> set (executed s)" for w
  proof -
    have "invoked p = Some w \<Longrightarrow> p \<in> {WkRun w, WkDel w}" for p by (cases p) auto
    then show ?thesis using D(2) [OF that] by blast
  qed
  moreover have "if w \<in> set (executed s) then futs s w \<in> {FutNone, FutValue, FutException} else futs s w \<in> {FutNone, FutBroken}"
    if "w \<in> set (deleted s)" for w
    using D(4) [of w] D(5) [of w] D(6) [of w] that by (cases "futs s w") auto
  ultimately show ?thesis using D(1) place_dist [OF P] by blast
qed

text \<open>A demonstration run of a pool with one worker: three works are submitted, the first is executed, the
  second throws, the pool is released and the third is discarded.\<close>

definition demo_submit :: "bool \<Rightarrow> copool_event list" where
  "demo_submit prom = [PSubmit 5 prom True, PEnqueue 5 True, PNotify 5]"

definition demo_work :: "nat \<Rightarrow> copool_event list" where
  "demo_work w = [PHead 0 0, PTake 0 (Some w), PInvoke 0]"

definition demo_run :: "copool_event list" where
  "demo_run = demo_submit True @ demo_submit True @ demo_submit True @ [PBegin 0, PBegin 1] @
     demo_work 0 @ [PFinished 0, PDelete 0] @ demo_work 1"

definition demo_stop :: "copool_event list" where
  "demo_stop = [PThrew 0 False, PDelete 0, PRelease 6, PHead 0 0, PExit 0, PHead 1 0, PExit 1, PDown 0, PDown 1,
     PSpin 6, PLatch 6, PDrain 6 (Some 2)]"

lemma demo_reaches:
  "\<exists>s. reaches copool_exec (NewCoPool 1) s \<and> (executed s = [0, 1] \<and> deleted s = [0] \<and> m_works_queue s = [2] \<and>
     agents s 0 = WkRun 1 \<and> futs s 0 = FutValue \<and> futs s 1 = FutPending)"
  by (rule run_demo [where ex = copool_exec and es = demo_run])
    (simp add: demo_run_def demo_submit_def demo_work_def NewCoPool_def copool_defs Let_def NotifyOne_def cond_init_def set_wq_def)

lemma demo_released:
  "\<exists>s. reaches copool_exec (NewCoPool 1) s \<and> (executed s = [0, 1] \<and> deleted s = [0, 1, 2] \<and> m_works_queue s = [] \<and>
     agents s 6 = RlDrain \<and> next_work s = 3 \<and> futs s 0 = FutValue \<and> futs s 1 = FutException \<and> futs s 2 = FutBroken)"
  by (rule run_demo [where ex = copool_exec and es = "demo_run @ demo_stop"])
    (simp add: demo_run_def demo_stop_def demo_submit_def demo_work_def NewCoPool_def copool_defs Let_def NotifyOne_def
       cond_init_def set_wq_def)

theorem copool_work_once_witness:
  "\<exists>s. reaches copool_exec (NewCoPool 1) s \<and> executed s = [0, 1] \<and> deleted s = [0, 1, 2] \<and>
     futs s 2 = FutBroken \<and> (\<exists>!x. at_place s 2 x) \<and> (\<forall>w \<in> set (deleted s). futs s w \<noteq> FutPending)"
proof -
  obtain s where s: "reaches copool_exec (NewCoPool 1) s" "executed s = [0, 1]" "deleted s = [0, 1, 2]" "futs s 2 = FutBroken"
    "next_work s = 3" using demo_released by blast
  note th = copool_work_once [OF s(1)]
  have "(2::nat) < next_work s" using s(5) by simp
  then have "\<exists>!x. at_place s 2 x" using th by blast
  moreover have "futs s w \<noteq> FutPending" if "w \<in> set (deleted s)" for w
    using th that by (auto split: if_splits)
  ultimately show ?thesis using s by blast
qed

section \<open>Exceptions\<close>

text \<open>C35. An exception of a task goes exactly one way: into the future if the work has one; else to the
  callback if one is set, whose own exception is counted; else it is counted. The worker goes on: it deletes the
  work and is back at the head of its loop.\<close>

theorem copool_exceptions:
  assumes "reaches copool_exec (NewCoPool n) s" "agents s a = WkRun w" "copool_exec (PThrew a ct) s = Some t"
  shows "(if futs s w = FutNone
      then futs t = futs s \<and> (if m_exception_callback s
        then delivered t = delivered s @ [w] \<and> m_unhandled_exception_count t = m_unhandled_exception_count s + (if ct then 1 else 0)
        else delivered t = delivered s \<and> m_unhandled_exception_count t = m_unhandled_exception_count s + 1)
      else futs s w = FutPending \<and> futs t = (futs s) (w := FutException) \<and> delivered t = delivered s \<and>
        m_unhandled_exception_count t = m_unhandled_exception_count s) \<and>
    (\<exists>u. copool_exec (PDelete a) t = Some u \<and> agents u a = WkHead \<and> deleted u = deleted s @ [w] \<and> futs u = futs t)"
proof -
  have inv: "copool_inv s" by (rule copool_reaches_inv [OF assms(1)])
  then have P: "place_inv s" and R: "run_inv s" by (auto simp: copool_inv_def works_inv_def)
  note D = run_D [OF R]
  have X: "at_place s w (InHand a)" using assms(2) by simp
  have nd: "w \<notin> set (deleted s)" using place_unique [OF P X, of InDeleted] by auto
  have ns: "settled (agents s b) \<noteq> Some w" for b
    using place_unique [OF P X, of "InHand b"] assms(2) settled_invoked [of "agents s b" w] invoked_hand [of "agents s b" w] by auto
  have f: "futs s w \<in> {FutNone, FutPending}" using D(5) [of w] D(6) [of w] nd ns by (cases "futs s w") auto
  have t: "t = go a (WkDel w) (HandleWorkException w ct s)" using assms(2,3) by (simp add: WorkCo_threw_def)
  show ?thesis
  proof (cases "futs s w = FutNone")
    case True
    then show ?thesis unfolding t
      by (simp add: HandleWorkException_def HasPromise_def go_def WorkCo_delete_def delete_work_def fun_upd_idem)
  next
    case False
    then show ?thesis using f unfolding t
      by (simp add: HandleWorkException_def SetException_def HasPromise_def go_def WorkCo_delete_def delete_work_def fun_upd_idem)
  qed
qed

theorem copool_exceptions_witness:
  "\<exists>s t. reaches copool_exec (NewCoPool 1) s \<and> copool_exec (PThrew 0 False) s = Some t \<and> futs s 1 = FutPending \<and>
     futs t 1 = FutException \<and> m_unhandled_exception_count t = m_unhandled_exception_count s"
proof -
  obtain s where s: "reaches copool_exec (NewCoPool 1) s" "agents s 0 = WkRun 1" "futs s 1 = FutPending" using demo_reaches by blast
  then obtain t where t: "copool_exec (PThrew 0 False) s = Some t" by simp
  show ?thesis using copool_exceptions [OF s(1,2) t] s(1,3) t by auto
qed

section \<open>Release\<close>

lemma lat_nonneg: "0 \<le> lat p"
  by (simp add: lat_def)

lemma latch_zero:
  assumes "count_inv s" "m_latch s \<le> 0" "a \<le> m_max_co_num s"
  shows "agents s a = CoDone"
proof -
  have "(\<Sum>i \<le> m_max_co_num s. lat (agents s i)) = 0"
    using assms(1,2) sum_nonneg [of "{..m_max_co_num s}" "\<lambda>i. lat (agents s i)"] lat_nonneg by (simp add: count_inv_def)
  then have "lat (agents s a) = 0"
    using sum_nonneg_eq_0_iff [of "{..m_max_co_num s}" "\<lambda>i. lat (agents s i)"] lat_nonneg assms(3) by simp
  moreover have "of_pool (agents s a)" using assms(1,3) by (simp add: count_inv_def)
  ultimately show ?thesis by (simp add: lat_def of_pool_def)
qed

text \<open>The agent that takes a step; the others stay where they are.\<close>

fun actor :: "copool_event \<Rightarrow> co_id option" where
  "actor (PSubmit a p al) = Some a"
| "actor (PEnqueue a ok) = Some a"
| "actor (PNotify a) = Some a"
| "actor (PSetCallback b) = None"
| "actor (PBegin a) = Some a"
| "actor (PHead a n) = Some a"
| "actor (PTake a w) = Some a"
| "actor (PWait a ev) = Some a"
| "actor (PInvoke a) = Some a"
| "actor (PFinished a) = Some a"
| "actor (PThrew a t) = Some a"
| "actor (PDelete a) = Some a"
| "actor (PMonNotify a) = Some a"
| "actor (PSleep a) = Some a"
| "actor (PExit a) = Some a"
| "actor (PDown a) = Some a"
| "actor (PRelease a) = Some a"
| "actor (PSpin a) = Some a"
| "actor (PAll a ev) = Some a"
| "actor (PLatch a) = Some a"
| "actor (PDestroy a) = Some a"
| "actor (PDrain a w) = Some a"
| "actor (PCancel e) = None"

definition same_but :: "co_id option \<Rightarrow> copool_sys \<Rightarrow> copool_sys \<Rightarrow> bool" where
  "same_but a s t \<longleftrightarrow> m_max_co_num t = m_max_co_num s \<and>
     (\<forall>b. a \<noteq> Some b \<longrightarrow> agents t b = agents s b \<and> pcs (m_cond t) b = pcs (m_cond s) b)"

lemma same_but_go: "m_max_co_num s' = m_max_co_num s \<Longrightarrow> agents s' = agents s \<Longrightarrow>
    (\<And>b. b \<noteq> a \<Longrightarrow> pcs (m_cond s') b = pcs (m_cond s) b) \<Longrightarrow> same_but (Some a) s (go a p s')"
  by (simp add: same_but_def go_def)

lemma step_same_but: "copool_exec ev s = Some t \<Longrightarrow> same_but (actor ev) s t"
proof -
  assume ex: "copool_exec ev s = Some t"
  show ?thesis
  proof (cases ev)
    case (PWait a c)
    then obtain d p where d: "cond_exec c (m_cond s) = Some d" "t = go a p (s \<lparr>m_cond := d\<rparr>)"
      and c: "\<exists>ok su. c = CWait a ok \<or> c = CSuspend a su \<or> c = CReturn a"
      using ex by (auto simp: WorkCo_wait_def split: if_splits option.splits)
    obtain ok su where e: "c \<in> {CWait a ok, CSuspend a su, CReturn a, CAllBegin a, CAllPop a, CAllNotify a}" using c by blast
    show ?thesis unfolding d(2) PWait actor.simps
      by (rule same_but_go) (use cond_exec_own [OF d(1) e] in simp_all)
  next
    case (PAll a c)
    then obtain d p where d: "cond_exec c (m_cond s) = Some d" "t = go a p (s \<lparr>m_cond := d\<rparr>)" and c: "c = CAllPop a \<or> c = CAllNotify a"
      using ex by (auto simp: Release_notify_def split: if_splits option.splits)
    then have e: "c \<in> {CWait a ok, CSuspend a su, CReturn a, CAllBegin a, CAllPop a, CAllNotify a}" for ok su by blast
    show ?thesis unfolding d(2) PAll actor.simps
      by (rule same_but_go) (use cond_exec_own [OF d(1) e] in simp_all)
  next
    case (PMonNotify a)
    then obtain k where k: "t = MonitorCo_notify a k s" using ex by (auto split: copool_pc.splits)
    then obtain d p where d: "d = m_cond s \<or> d = snd (CondModel.NotifyOne (m_cond s))" "t = go a p (s \<lparr>m_cond := d\<rparr>)"
      using MonitorCo_notify_form [of s a k] by blast
    show ?thesis unfolding d(2) PMonNotify actor.simps
      by (rule same_but_go) (use d(1) NotifyOne_pcs [of "m_cond s"] in auto)
  next
    case (PCancel e)
    then show ?thesis using ex by (auto simp: same_but_def split: option.splits if_splits)
  next
    case (PSubmit a p al)
    then show ?thesis using ex by (auto simp: same_but_def Submit_def Let_def go_def delete_work_def split: if_splits)
  next
    case (PDrain a w)
    then show ?thesis using ex by (auto simp: same_but_def drain_def delete_work_def Release_begin_def go_def split: if_splits option.splits)
  next
    case (PTake a w)
    then show ?thesis using ex by (auto simp: same_but_def WorkCo_take_def go_def split: if_splits option.splits)
  qed (use ex NotifyOne_pcs [of "m_cond s"] in \<open>auto simp: same_but_def go_def Submit_enqueue_def Submit_notify_def SetExceptionCallback_def
      Co_begin_def Co_exit_def Co_down_def WorkCo_head_def MonitorCo_head_def WorkCo_invoke_def WorkCo_finished_def WorkCo_threw_def
      WorkCo_delete_def delete_work_def Release_begin_def Release_spin_def cond_set_pc_def split: if_splits copool_pc.splits\<close>)
qed






lemma max_run: "reaches copool_exec s0 s \<Longrightarrow> m_max_co_num s = m_max_co_num s0"
  by (induction rule: reaches.induct) (auto dest: step_same_but simp: same_but_def)





section \<open>Progress of a release\<close>

text \<open>The own steps a coroutine of the pool can still take once \<open>m_is_running\<close> is false.\<close>

definition left_steps :: "copool_sys \<Rightarrow> co_id \<Rightarrow> nat" where
  "left_steps s a = (case agents s a of
       CoDown \<Rightarrow> 1 | CoExit \<Rightarrow> 2 | WkHead \<Rightarrow> 3 | MoHead \<Rightarrow> 3 | WkNew \<Rightarrow> 4 | MoNew \<Rightarrow> 4 | MoSleep \<Rightarrow> 4 | MoNotify k \<Rightarrow> k + 5
     | WkDel w \<Rightarrow> 4 | WkRun w \<Rightarrow> 5 | WkHave w \<Rightarrow> 6 | WkTake \<Rightarrow> 7
     | WkWait \<Rightarrow> (case pcs (m_cond s) a of CondSetup k e \<Rightarrow> 5 | CondParked k e \<Rightarrow> 4 | _ \<Rightarrow> 6)
     | _ \<Rightarrow> 0)"

lemma left_steps_other: "copool_exec ev s = Some t \<Longrightarrow> actor ev \<noteq> Some a \<Longrightarrow> left_steps t a = left_steps s a"
proof -
  assume a: "copool_exec ev s = Some t" "actor ev \<noteq> Some a"
  have h: "agents t a = agents s a" "pcs (m_cond t) a = pcs (m_cond s) a" using step_same_but [OF a(1)] a(2) by (auto simp: same_but_def)
  show ?thesis unfolding left_steps_def h ..
qed

lemma wait_steps:
  assumes "coupled WkWait (pcs c a)" "cond_exec ev c = Some d" "ev = CWait a ok \<or> ev = CSuspend a su \<or> ev = CReturn a"
    "pcs d a \<noteq> CondIdle"
  shows "(\<exists>k e. pcs c a = CondIdle \<and> pcs d a = CondSetup k e) \<or> (\<exists>k e. pcs c a = CondSetup k e \<and> pcs d a = CondParked k e)"
  using assms by (auto simp: cond_defs coupled_def Let_def split: if_splits cond_pc.splits outcome.splits wait_setup.splits)

lemma left_steps_own:
  assumes inv: "copool_inv s" and nr: "\<not> m_is_running s" and ex: "copool_exec ev s = Some t" and a: "actor ev = Some a" "a \<le> m_max_co_num s"
  shows "left_steps t a < left_steps s a"
proof -
  have pool: "of_pool (agents s a)" using inv a(2) by (simp add: copool_inv_def count_inv_def)
  have cp: "coupled (agents s a) (pcs (m_cond s) a)" using inv by (simp add: copool_inv_def link_inv_def)
  show ?thesis
  proof (cases ev)
    case (PWait b c)
    then have b: "b = a" "agents s a = WkWait" "WorkCo_wait a c s = Some t" using ex a by (auto split: if_splits)
    then obtain d where d: "cond_exec c (m_cond s) = Some d"
      and t: "t = go a (if c = CSuspend a WaitThrew then WkDead else if pcs d a = CondIdle then WkHead else WkWait) (s \<lparr>m_cond := d\<rparr>)"
      and c: "\<exists>ok su. c = CWait a ok \<or> c = CSuspend a su \<or> c = CReturn a"
      by (auto simp: WorkCo_wait_def split: if_splits option.splits)
    obtain ok su where e: "c = CWait a ok \<or> c = CSuspend a su \<or> c = CReturn a" using c by blast
    have ge: "4 \<le> left_steps s a" using b(2) by (simp add: left_steps_def split: cond_pc.splits)
    show ?thesis
    proof (cases "c = CSuspend a WaitThrew \<or> pcs d a = CondIdle")
      case True
      then show ?thesis using ge by (auto simp: left_steps_def t go_def)
    next
      case False
      then show ?thesis using wait_steps [OF _ d e] cp b(2) by (auto simp: left_steps_def t go_def)
    qed
  next
    case (PMonNotify b)
    then obtain k where k: "b = a" "agents s a = MoNotify k" "t = MonitorCo_notify a k s" using ex a by (auto split: copool_pc.splits)
    show ?thesis using k by (cases k) (auto simp: left_steps_def go_def split: prod.splits)
  next
    case (PTake b w)
    then show ?thesis using ex a cp
      by (auto simp: WorkCo_take_def go_def left_steps_def coupled_def split: if_splits option.splits cond_pc.splits)
  next
    case (PBegin b)
    then show ?thesis using ex a by (auto simp: left_steps_def go_def Co_begin_def split: copool_pc.splits)
  next
    case (PHead b n)
    then consider "agents s a = WkHead" "t = WorkCo_head a s" | "agents s a = MoHead" "t = MonitorCo_head a n s"
      using ex a by (auto split: copool_pc.splits)
    then show ?thesis using nr by cases (simp_all add: left_steps_def go_def WorkCo_head_def MonitorCo_head_def)
  next
    case (PInvoke b)
    then obtain w where "agents s a = WkHave w" "t = WorkCo_invoke a w s" using ex a by (auto split: copool_pc.splits)
    then show ?thesis by (simp add: left_steps_def go_def WorkCo_invoke_def)
  next
    case (PFinished b)
    then obtain w where "agents s a = WkRun w" "t = WorkCo_finished a w s" using ex a by (auto split: copool_pc.splits)
    then show ?thesis by (simp add: left_steps_def go_def WorkCo_finished_def)
  next
    case (PThrew b ct)
    then obtain w where "agents s a = WkRun w" "t = WorkCo_threw a w ct s" using ex a by (auto split: copool_pc.splits)
    then show ?thesis by (simp add: left_steps_def go_def WorkCo_threw_def)
  next
    case (PDelete b)
    then obtain w where "agents s a = WkDel w" "t = WorkCo_delete a w s" using ex a by (auto split: copool_pc.splits)
    then show ?thesis by (simp add: left_steps_def go_def WorkCo_delete_def)
  next
    case (PSleep b)
    then show ?thesis using ex a pool by (auto simp: left_steps_def go_def of_pool_def latched_def split: copool_pc.splits)
  next
    case (PExit b) then show ?thesis using ex a by (auto simp: left_steps_def go_def Co_exit_def split: if_splits)
  next
    case (PDown b) then show ?thesis using ex a by (auto simp: left_steps_def go_def Co_down_def split: if_splits)
  qed (use ex a pool in \<open>auto simp: of_pool_def latched_def split: if_splits copool_pc.splits\<close>)
qed

text \<open>Where a coroutine that has not ended stands: it can take a step, or it is parked and undecided.\<close>

lemma not_ended_cases:
  assumes inv: "copool_inv s" and a: "a \<le> m_max_co_num s" "agents s a \<notin> {CoDone, WkDead}"
  shows "(\<exists>ev t. actor ev = Some a \<and> copool_exec ev s = Some t) \<or>
    (\<exists>e. agents s a = WkWait \<and> pcs (m_cond s) a = CondParked KWaitCallback e \<and> st (m_cond s) e = Waiting)"
proof -
  have pool: "of_pool (agents s a)" using inv a(1) by (simp add: copool_inv_def count_inv_def)
  have lk: "link_inv s" using inv by (simp add: copool_inv_def)
  have go: ?thesis if "actor ev = Some a" "copool_exec ev s \<noteq> None" for ev using that by auto
  show ?thesis
  proof (cases "agents s a")
    case WkWait
    have cp: "coupled WkWait (pcs (m_cond s) a)" using link_D(2) [OF lk, of a] WkWait by simp
    show ?thesis
    proof (cases "pcs (m_cond s) a")
      case CondIdle
      then show ?thesis using WkWait by - (rule go [of "PWait a (CWait a True)"], auto simp: WorkCo_wait_def)
    next
      case (CondSetup k e)
      then show ?thesis using WkWait by - (rule go [of "PWait a (CSuspend a WaitParked)"], auto simp: WorkCo_wait_def)
    next
      case (CondParked k e)
      have k: "k = KWaitCallback" using cp CondParked by (simp add: coupled_def)
      have "st (m_cond s) e \<noteq> Gone" using cond_invD(5) [OF link_D(1) [OF lk], of a e] CondParked by simp
      then consider "st (m_cond s) e = Waiting" | f where "st (m_cond s) e = Won f" by (cases "st (m_cond s) e") auto
      then show ?thesis
      proof cases
        case 1 then show ?thesis using WkWait CondParked k by blast
      next
        case 2
        then show ?thesis using WkWait CondParked by - (rule go [of "PWait a (CReturn a)"], auto simp: WorkCo_wait_def)
      qed
    qed (use cp in \<open>simp_all add: coupled_def\<close>)
  next
    case WkTake then show ?thesis by - (rule go [of "PTake a None"], simp_all add: WorkCo_take_def)
  next
    case WkNew then show ?thesis by - (rule go [of "PBegin a"], simp_all)
  next
    case MoNew then show ?thesis by - (rule go [of "PBegin a"], simp_all)
  next
    case WkHead then show ?thesis by - (rule go [of "PHead a 0"], simp_all)
  next
    case MoHead then show ?thesis by - (rule go [of "PHead a 0"], simp_all)
  next
    case (WkHave w) then show ?thesis by - (rule go [of "PInvoke a"], simp_all)
  next
    case (WkRun w) then show ?thesis by - (rule go [of "PFinished a"], simp_all)
  next
    case (WkDel w) then show ?thesis by - (rule go [of "PDelete a"], simp_all)
  next
    case (MoNotify k) then show ?thesis by - (rule go [of "PMonNotify a"], simp_all)
  next
    case MoSleep then show ?thesis by - (rule go [of "PSleep a"], simp_all)
  next
    case CoExit then show ?thesis by - (rule go [of "PExit a"], simp_all)
  next
    case CoDown then show ?thesis by - (rule go [of "PDown a"], simp_all)
  qed (use a pool in \<open>simp_all add: of_pool_def latched_def\<close>)
qed

text \<open>A pass of \<open>NotifyAll\<close> in the condition variable is a pass of the releasing caller.\<close>

lemma all_lift:
  "run cond_exec es (m_cond s) = Some c \<Longrightarrow> set es \<subseteq> {CAllPop r, CAllNotify r} \<Longrightarrow> agents s r = RlAll \<Longrightarrow>
   \<exists>t. run copool_exec (map (PAll r) es) s = Some t \<and> m_cond t = c"
proof (induction es arbitrary: s)
  case (Cons ev es)
  then obtain d where d: "cond_exec ev (m_cond s) = Some d" "run cond_exec es d = Some c" by (auto split: option.splits)
  define t where "t = go r (if pcs d r = CondIdle then RlSleep else RlAll) (s \<lparr>m_cond := d\<rparr>)"
  have t: "copool_exec (PAll r ev) s = Some t" "m_cond t = d" using Cons.prems d by (auto simp: t_def Release_notify_def go_def)
  show ?case
  proof (cases es)
    case Nil
    then show ?thesis using t d by simp
  next
    case (Cons ev' es')
    then have "cond_exec ev' d \<noteq> None" "ev' \<in> {CAllPop r, CAllNotify r}" using d(2) Cons.prems(2) by (auto split: option.splits)
    then have "pcs d r \<noteq> CondIdle" by (auto split: if_splits)
    then have "agents t r = RlAll" by (simp add: t_def go_def)
    then show ?thesis using Cons.IH [of t] d(2) t Cons.prems(2) by simp
  qed
qed simp

definition notify_all_pass :: "co_id \<Rightarrow> nat \<Rightarrow> cond_event list" where
  "notify_all_pass r k = concat (replicate k [CAllPop r, CAllNotify r]) @ [CAllPop r]"

lemma set_notify_all_pass: "set (notify_all_pass r k) \<subseteq> {CAllPop r, CAllNotify r}"
  by (auto simp: notify_all_pass_def)

lemma spin_pass:
  assumes inv: "copool_inv s" and r: "agents s r = RlSpin" and w: "a \<le> m_max_co_num s" "agents s a = WkWait"
    and e: "e \<in> set (wq (m_cond s))"
  shows "\<exists>t. run copool_exec (PSpin r # map (PAll r) (notify_all_pass r (length (wq (m_cond s))))) s = Some t \<and> st (m_cond t) e \<noteq> Waiting"
proof -
  have ct: "count_inv s" using inv by (simp add: copool_inv_def)
  have "cnt (agents s a) \<le> (\<Sum>i \<le> m_max_co_num s. cnt (agents s i))"
    by (rule member_le_sum) (use w in \<open>auto simp: cnt_def\<close>)
  moreover have "cnt (agents s a) = 1" using w by (simp add: cnt_def)
  moreover have "m_running_co_num s = (\<Sum>i \<le> m_max_co_num s. cnt (agents s i))" using ct unfolding count_inv_def by blast
  ultimately have nz: "m_running_co_num s \<noteq> 0" by linarith
  define u where "u = go r RlAll (s \<lparr>m_cond := cond_set_pc r CondAll (m_cond s)\<rparr>)"
  have u: "copool_exec (PSpin r) s = Some u" "agents u r = RlAll" "m_cond u = cond_set_pc r CondAll (m_cond s)"
    using r nz by (simp_all add: u_def Release_spin_def go_def)
  have c: "wq (m_cond u) = wq (m_cond s)" "pcs (m_cond u) r = CondAll" "st (m_cond u) = st (m_cond s)"
    by (simp_all add: u(3) cond_set_pc_def)
  obtain i where i: "i < length (wq (m_cond u))" "wq (m_cond u) ! i = e" using e c(1) by (metis in_set_conv_nth)
  obtain d where d: "run cond_exec (concat (replicate (length (wq (m_cond u))) [CAllPop r, CAllNotify r])) (m_cond u) = Some d"
    "st d e \<noteq> Waiting" "pcs d r = CondAll" using notify_all_progress [OF i c(2) order_refl i(1)] by blast
  define d' where "d' = NotifyAll_pop r d"
  have "st d' e \<noteq> Waiting" using d(2) by (auto simp: d'_def NotifyAll_pop_def cond_set_pc_def set_wq_def split: list.splits)
  moreover have "run cond_exec (notify_all_pass r (length (wq (m_cond s)))) (m_cond u) = Some d'"
    using d by (simp add: notify_all_pass_def run_append c(1) d'_def)
  then obtain t where "run copool_exec (map (PAll r) (notify_all_pass r (length (wq (m_cond s))))) u = Some t" "m_cond t = d'"
    using all_lift [OF _ set_notify_all_pass u(2)] by blast
  ultimately show ?thesis using u(1) by auto
qed

text \<open>C33. A release makes progress: once \<open>m_is_running\<close> is false, every step of a coroutine of the pool
  brings it nearer to its end and no step of anybody else sets it back; a coroutine that has not ended can take a
  step, or is parked, and then the release wakes it: a notification already holds it, or the next pass of
  \<open>NotifyAll\<close> does. When all have ended the counter and the latch are 0, which lets \<open>Release\<close> return. (A
  coroutine that an exception of its own wait has ended is excluded.)\<close>

theorem copool_release_progress:
  assumes "reaches copool_exec (NewCoPool n) s" "\<not> m_is_running s" "a \<le> n" "agents s a \<noteq> WkDead"
  shows "(\<forall>ev t. copool_exec ev s = Some t \<longrightarrow>
       (if actor ev = Some a then left_steps t a < left_steps s a else left_steps t a = left_steps s a)) \<and>
    (agents s a = CoDone \<or> (\<exists>ev t. actor ev = Some a \<and> copool_exec ev s = Some t) \<or>
      (\<exists>e. agents s a = WkWait \<and> pcs (m_cond s) a = CondParked KWaitCallback e \<and> st (m_cond s) e = Waiting \<and>
        ((\<exists>r t. agents s r = RlAll \<and> copool_exec (PAll r (CAllNotify r)) s = Some t \<and> st (m_cond t) e \<noteq> Waiting) \<or>
         (\<forall>r. agents s r = RlSpin \<longrightarrow> (\<exists>t. run copool_exec (PSpin r # map (PAll r) (notify_all_pass r (length (wq (m_cond s))))) s = Some t \<and>
            st (m_cond t) e \<noteq> Waiting))))) \<and>
    ((\<forall>b \<le> n. agents s b = CoDone) \<longrightarrow> m_running_co_num s = 0 \<and> m_latch s = 0)"
proof -
  have inv: "copool_inv s" by (rule copool_reaches_inv [OF assms(1)])
  have n: "m_max_co_num s = n" using max_run [OF assms(1)] by (simp add: NewCoPool_def)
  have an: "a \<le> m_max_co_num s" using assms(3) n by simp
  have lk: "link_inv s" and ct: "count_inv s" using inv by (simp_all add: copool_inv_def)
  have step: "if actor ev = Some a then left_steps t a < left_steps s a else left_steps t a = left_steps s a"
    if "copool_exec ev s = Some t" for ev t
    using left_steps_own [OF inv assms(2) that _ an] left_steps_other [OF that] by simp
  have woken: "(\<exists>r t. agents s r = RlAll \<and> copool_exec (PAll r (CAllNotify r)) s = Some t \<and> st (m_cond t) e \<noteq> Waiting) \<or>
         (\<forall>r. agents s r = RlSpin \<longrightarrow> (\<exists>t. run copool_exec (PSpin r # map (PAll r) (notify_all_pass r (length (wq (m_cond s))))) s = Some t \<and>
            st (m_cond t) e \<noteq> Waiting))"
    if p: "agents s a = WkWait" "pcs (m_cond s) a = CondParked KWaitCallback e" "st (m_cond s) e = Waiting" for e
  proof -
    consider "e \<in> set (wq (m_cond s))" | r where "pcs (m_cond s) r = CondAllHeld e"
      using cond_invD(6) [OF link_D(1) [OF lk] p(2,3)] by blast
    then show ?thesis
    proof cases
      case 1 then show ?thesis using spin_pass [OF inv _ an p(1)] by blast
    next
      case (2 r)
      have "agents s r = RlAll" using link_D(2) [OF lk, of r] 2 by (simp add: coupled_def)
      then show ?thesis using 2
        by (intro disjI1 exI [of _ r]) (auto simp: Release_notify_def NotifyAll_notify_def cond_set_pc_def go_def ev_trigger_def)
    qed
  qed
  have zero: "m_running_co_num s = 0 \<and> m_latch s = 0" if "\<forall>b \<le> n. agents s b = CoDone"
  proof -
    have "(\<Sum>b \<le> n. cnt (agents s b)) = 0" "(\<Sum>b \<le> n. lat (agents s b)) = 0"
      by (rule sum.neutral; use that in \<open>simp add: cnt_def lat_def latched_def\<close>)+
    then show ?thesis using ct n by (simp add: count_inv_def)
  qed
  have pr: "agents s a = CoDone \<or> (\<exists>ev t. actor ev = Some a \<and> copool_exec ev s = Some t) \<or>
     (\<exists>e. agents s a = WkWait \<and> pcs (m_cond s) a = CondParked KWaitCallback e \<and> st (m_cond s) e = Waiting)"
    using not_ended_cases [OF inv an] assms(4) by blast
  show ?thesis using step woken zero pr by blast
qed

text \<open>A pool with one worker, parked without work.\<close>

definition demo_park :: "copool_event list" where
  "demo_park = [PBegin 0, PBegin 1, PHead 0 0, PTake 0 None, PWait 0 (CWait 0 True), PWait 0 (CSuspend 0 WaitParked)]"

lemmas demo_simps = NewCoPool_def copool_defs Let_def NotifyOne_def cond_init_def set_wq_def cond_defs regist_custom_def ex_bool_eq

lemma demo_parked_release:
  "\<exists>s. reaches copool_exec (NewCoPool 1) s \<and> (\<not> m_is_running s \<and> agents s 0 = WkWait \<and> agents s 6 = RlSpin \<and>
     pcs (m_cond s) 0 = CondParked KWaitCallback 0 \<and> st (m_cond s) 0 = Waiting \<and> (\<forall>r. agents s r \<noteq> RlAll))"
  by (rule run_demo [where ex = copool_exec and es = "demo_park @ [PRelease 6]"]) (simp add: demo_park_def demo_simps)

theorem copool_release_progress_witness:
  "\<exists>s t. reaches copool_exec (NewCoPool 1) s \<and> \<not> m_is_running s \<and> agents s 0 = WkWait \<and> st (m_cond s) 0 = Waiting \<and>
     run copool_exec (PSpin 6 # map (PAll 6) (notify_all_pass 6 (length (wq (m_cond s))))) s = Some t \<and> st (m_cond t) 0 \<noteq> Waiting"
proof -
  obtain s where s: "reaches copool_exec (NewCoPool 1) s" "\<not> m_is_running s" "agents s 0 = WkWait" "agents s 6 = RlSpin"
    "pcs (m_cond s) 0 = CondParked KWaitCallback 0" "st (m_cond s) 0 = Waiting" "\<And>r. agents s r \<noteq> RlAll"
    using demo_parked_release by blast
  have n0: "(0::nat) \<le> 1" "agents s 0 \<noteq> WkDead" using s(3) by simp_all
  note th = copool_release_progress [OF s(1,2) n0]
  have stuck: "\<not> (\<exists>ev t. actor ev = Some 0 \<and> copool_exec ev s = Some t)"
  proof
    assume "\<exists>ev t. actor ev = Some 0 \<and> copool_exec ev s = Some t"
    then obtain ev t where ev: "actor ev = Some 0" "copool_exec ev s = Some t" by blast
    show False using ev s(3,5,6)
      by (cases ev) (auto simp: WorkCo_wait_def split: if_splits option.splits)
  qed
  have "agents s 0 \<noteq> CoDone" using s(3) by simp
  then obtain e where e: "pcs (m_cond s) 0 = CondParked KWaitCallback e"
    "\<exists>t. run copool_exec (PSpin 6 # map (PAll 6) (notify_all_pass 6 (length (wq (m_cond s))))) s = Some t \<and> st (m_cond t) e \<noteq> Waiting"
    using th stuck s(4,7) by blast
  have "e = 0" using e(1) s(5) by simp
  then show ?thesis using e(2) s(1-3,6) by blast
qed

section \<open>The monitor\<close>

text \<open>C34. A notification that came too early is repaired: while the pool runs and a worker is parked although a
  work is queued, the next round of the monitor (whose estimate of the queue is not 0) wakes a parked worker, and
  that worker takes a queued work.\<close>

theorem copool_monitor_wakes:
  assumes "reaches copool_exec (NewCoPool n) s" "m_is_running s" "agents s m = MoHead"
    "pcs (m_cond s) a = CondParked k e" "st (m_cond s) e = Waiting" "w \<in> set (m_works_queue s)"
  shows "\<exists>c e' t. agents s c = WkWait \<and> pcs (m_cond s) c = CondParked KWaitCallback e' \<and> st (m_cond s) e' = Waiting \<and>
    run copool_exec [PHead m (Suc j), PMonNotify m, PWait c (CReturn c), PHead c 0, PTake c (Some w)] s = Some t \<and>
    agents t c = WkHave w \<and> agents t m = MoNotify j"
proof -
  have inv: "copool_inv s" by (rule copool_reaches_inv [OF assms(1)])
  then have lk: "link_inv s" by (simp add: copool_inv_def)
  note ci = link_D(1) [OF lk]
  have nh: "pcs (m_cond s) r \<noteq> CondAllHeld x" for r x
    using link_D(2,3) [OF lk, of r] assms(2) by (auto simp: coupled_def releasing_def)
  have e: "e \<in> set (wq (m_cond s))" using cond_invD(6) [OF ci assms(4,5)] nh by blast
  obtain r d where d: "CondModel.NotifyOne (m_cond s) = (r, d)" by fastforce
  then obtain e' pre where e': "wq (m_cond s) = pre @ e' # wq d" "st (m_cond s) e' = Waiting" "r = 0"
      "st d = (st (m_cond s)) (e' := Won POLL_EVENT_CUSTOM)" "pcs d = pcs (m_cond s)"
    by (cases rule: cond_NotifyOne_sel) (use e assms(5) in auto)
  obtain c k' where c: "pcs (m_cond s) c = CondParked k' e'" using cond_queued_parked [OF ci, of e'] e'(1,2) by auto
  have k': "agents s c = WkWait" "k' = KWaitCallback" using link_D(2) [OF lk, of c] c by (simp_all add: coupled_def)
  have cm: "c \<noteq> m" using k'(1) assms(3) by auto
  define t where "t = go c (WkHave w) (go c WkTake (go c WkHead ((go m (MoNotify j) ((go m (MoNotify (Suc j)) s) \<lparr>m_cond := d\<rparr>))
      \<lparr>m_cond := wait_return c KWaitCallback e' POLL_EVENT_CUSTOM d\<rparr>))) \<lparr>m_works_queue := remove1 w (m_works_queue s)\<rparr>"
  have "\<exists>t. run copool_exec [PHead m (Suc j), PMonNotify m, PWait c (CReturn c), PHead c 0, PTake c (Some w)] s = Some t \<and>
      agents t c = WkHave w \<and> agents t m = MoNotify j"
    using assms(2,3,6) d e' c k' cm
    by (simp add: MonitorCo_head_def go_def WorkCo_wait_def WorkCo_head_def WorkCo_take_def wait_return_def cond_set_pc_def)
  then show ?thesis using k' c e'(2) by blast
qed

text \<open>A worker finds the queue empty; a work is submitted and its notification finds nobody; the worker parks.\<close>

definition demo_lost :: "copool_event list" where
  "demo_lost = [PBegin 0, PBegin 1, PHead 0 0, PTake 0 None] @ demo_submit False @
     [PWait 0 (CWait 0 True), PWait 0 (CSuspend 0 WaitParked)]"

lemma demo_lost_run:
  "\<exists>s. reaches copool_exec (NewCoPool 1) s \<and> (m_is_running s \<and> agents s 1 = MoHead \<and> pcs (m_cond s) 0 = CondParked KWaitCallback 0 \<and>
     st (m_cond s) 0 = Waiting \<and> m_works_queue s = [0])"
  by (rule run_demo [where ex = copool_exec and es = demo_lost]) (simp add: demo_lost_def demo_submit_def demo_simps)

theorem copool_monitor_wakes_witness:
  "\<exists>s c t. reaches copool_exec (NewCoPool 1) s \<and> m_works_queue s = [0] \<and>
     run copool_exec [PHead 1 1, PMonNotify 1, PWait c (CReturn c), PHead c 0, PTake c (Some 0)] s = Some t \<and> agents t c = WkHave 0"
proof -
  obtain s where s: "reaches copool_exec (NewCoPool 1) s" "m_is_running s" "agents s 1 = MoHead"
    "pcs (m_cond s) 0 = CondParked KWaitCallback 0" "st (m_cond s) 0 = Waiting" "m_works_queue s = [0]" using demo_lost_run by blast
  have "0 \<in> set (m_works_queue s)" using s(6) by simp
  then show ?thesis using copool_monitor_wakes [OF s(1-5), of 0 0] s(1,6) by auto
qed

section \<open>Two ways for \<open>Release\<close> to block\<close>

text \<open>Called before the pool's coroutines have run for the first time, \<open>Release\<close> finds \<open>m_running_co_num\<close>
  0 and waits for the latch at once, which blocks the calling thread; if that is the worker thread the coroutines
  are queued on, they never run.\<close>

lemma copool_release_early:
  "\<exists>s. reaches copool_exec (NewCoPool 1) s \<and> (agents s 6 = RlLatch \<and> m_latch s = 2 \<and> agents s 0 = WkNew \<and> agents s 1 = MoNew)"
  by (rule run_demo [where ex = copool_exec and es = "[PRelease 6, PSpin 6]"]) (simp add: demo_simps)

text \<open>An exception thrown by the set-up of a worker's wait ends the coroutine without the count-downs: no
  \<open>Release\<close> returns afterwards.\<close>

lemma dead_no_step: "copool_exec ev s = Some t \<Longrightarrow> actor ev = Some a \<Longrightarrow> agents s a \<noteq> WkDead"
  by (cases ev) (auto split: if_splits)

lemma dead_run:
  "run copool_exec es s = Some t \<Longrightarrow> copool_inv s \<Longrightarrow> a \<le> m_max_co_num s \<Longrightarrow> agents s a = WkDead \<Longrightarrow> \<not> released s \<Longrightarrow>
   \<not> released t \<and> agents t a = WkDead"
proof (induction es arbitrary: s)
  case (Cons ev es)
  then obtain u where u: "copool_exec ev s = Some u" "run copool_exec es u = Some t" by (auto split: option.splits)
  have sb: "same_but (actor ev) s u" by (rule step_same_but [OF u(1)])
  have "agents u a = WkDead" "a \<le> m_max_co_num u"
    using sb dead_no_step [OF u(1), of a] Cons.prems(3,4) unfolding same_but_def by metis+
  moreover have iu: "copool_inv u" by (rule copool_inv_step [OF Cons.prems(2) u(1)])
  moreover have "\<not> released u"
  proof
    assume "released u"
    then have "m_latch u \<le> 0" using iu by (simp add: copool_inv_def link_inv_def)
    then show False using latch_zero [of u a] iu calculation(1,2) by (simp add: copool_inv_def)
  qed
  ultimately show ?case using Cons.IH [OF u(2)] by blast
qed simp

lemma copool_wait_throws:
  "\<exists>s. reaches copool_exec (NewCoPool 1) s \<and> (agents s 0 = WkDead \<and> \<not> released s)"
  by (rule run_demo [where ex = copool_exec and es = "[PBegin 0, PHead 0 0, PTake 0 None, PWait 0 (CWait 0 True), PWait 0 (CSuspend 0 WaitThrew)]"])
    (simp add: demo_simps)

end
