(* ===== verification/SleepModel.thy ===== *)
theory SleepModel
  imports DriverModel
begin

text \<open>
  How an idle worker goes to sleep and is woken (\<open>detail/Processer.cc\<close>: \<open>_WaitForWork\<close>, \<open>_PublishRunnable\<close>,
  \<open>_NotifyRunnable\<close>, \<open>_WakeDriver\<close>, with the submissions of \<open>detail/Scheduler.cc\<close>), seen from one Processer. Each atomic access and
  each section under \<open>m_run_cond_mutex\<close> of a publisher is one step; the section of the worker is several
  steps, because it looks at the queues while others fill them. The queues are counted: their contents are
  the subject of theory \<open>WorkModel\<close>. A driver is anything that remembers a wake-up until its \<open>Wait\<close> takes it;
  the bookkeeping of leases is the subject of theory \<open>DriverModel\<close>, here a lease is the program point of
  its holder. Any number of threads publish, bind, unbind, retire and defer; threads are numbers below the bound of the machine.
\<close>

section \<open>Data\<close>

text \<open>The program points of the worker; the argument \<open>Some g\<close> says that it holds a lease of driver generation \<open>g\<close>.\<close>

datatype worker_point =
    PhRun
  | PhEntered
  | PhBinding nat
  | PhLock "nat option"
  | PhLocked "nat option"
  | PhPulled "nat option" nat
  | PhChecked "nat option" bool
  | PhShouldWait nat
  | PhDriverWait nat
  | PhCvWait
  | PhCvWake bool

datatype work_source = SrcLocal | SrcGlobal | SrcOther

text \<open>The program points of the other threads; \<open>wd\<close> says that the driver is woken after the condition variable.\<close>

datatype pub_point =
    PubIdle
  | PubPublished work_source bool
  | PubLatched bool
  | PubWake
  | PubLease nat
  | PubCalling nat
  | PubRetire
  | UnTerminal nat
  | UnWait nat

record sleep_sys =
  m_run_cond_notify :: bool
  admission_open :: bool
  retire_requested :: bool
  local_num :: nat
  global_num :: nat
  slot :: "(nat \<times> ProcesserDriverState) option"
  next_generation :: nat
  token :: "nat \<Rightarrow> bool"
  point :: worker_point
  pubs :: "nat \<Rightarrow> pub_point"
  depth :: "nat \<Rightarrow> nat"
  pending_wake :: "nat \<Rightarrow> bool"





section \<open>The worker\<close>






section \<open>Publishing\<close>











section \<open>Binding, unbinding and retiring\<close>







section \<open>The machine\<close>





section \<open>Invariant\<close>

text \<open>Some thread is at a program point of the given kind.\<close>

definition anyone :: "nat \<Rightarrow> (pub_point \<Rightarrow> bool) \<Rightarrow> (nat \<Rightarrow> pub_point) \<Rightarrow> bool" where
  "anyone n P f \<longleftrightarrow> (\<exists>t<n. P (f t))"

lemma anyone_moved: "t < n \<Longrightarrow> P x \<Longrightarrow> anyone n P (f (t := x))"
  by (auto simp: anyone_def)

lemma anyone_kept: "anyone n P f \<Longrightarrow> \<not> P (f t) \<Longrightarrow> anyone n P (f (t := x))"
  unfolding anyone_def by (metis fun_upd_apply)












text \<open>The duties: while the worker is in one of these situations, some thread is at a point of the given kind.
  First, what the worker has not seen is about to be announced.\<close>

definition duty :: "nat \<Rightarrow> (sleep_sys \<Rightarrow> bool) \<Rightarrow> (pub_point \<Rightarrow> bool) \<Rightarrow> sleep_sys \<Rightarrow> bool" where
  "duty n P Q s \<longleftrightarrow> (P s \<longrightarrow> anyone n Q (pubs s))"




































text \<open>The steps that only touch the queues or the sleep of the worker.\<close>

lemma duty_mono: "duty n P Q s \<Longrightarrow> pubs s' = pubs s \<Longrightarrow> (P s' \<Longrightarrow> P s) \<Longrightarrow> duty n P Q s'"
  by (auto simp: duty_def)









section \<open>The way of a wake-up to the driver\<close>












section \<open>Properties\<close>















end
