(* ===== verification/GuardModel.thy ===== *)
theory GuardModel
  imports MutexModel RWMutexModel
begin

text \<open>
  \<open>sync/CoLockGuard.hpp\<close>: the RAII guards \<open>CoLockGuard\<close> and \<open>CoUniqueLock\<close> (at \<open>CoMutex\<close>), \<open>CoReadLock\<close> and \<open>CoWriteLock\<close> (at
  \<open>CoRWMutex\<close>), composed with the machines of theories \<open>MutexModel\<close> and \<open>RWMutexModel\<close>: a guard operation that
  locks is a call into the lock's machine that may suspend, and other coroutines, guards and raw users of the
  locks step in between. Any number of locks, guards and participants; a participant is one acquisition of one
  coroutine (a coroutine that takes a read lock twice counts twice). A failed assertion is \<open>None\<close>.
\<close>

section \<open>Locks\<close>

datatype lock_obj = ObjMutex mx_sys | ObjRW rw_sys
datatype lk_event = OnMutex mx_event | OnRW rw_event

fun lk_exec :: "lk_event \<Rightarrow> lock_obj \<Rightarrow> lock_obj option" where
  "lk_exec (OnMutex e) (ObjMutex s) = map_option ObjMutex (mx_exec e s)"
| "lk_exec (OnRW e) (ObjRW s) = map_option ObjRW (rw_exec e s)"
| "lk_exec _ _ = None"

fun lk_actor :: "lk_event \<Rightarrow> co_id option" where
  "lk_actor (OnMutex e) = mx_actor e"
| "lk_actor (OnRW e) = rw_actor e"

section \<open>Guards\<close>

datatype guard_class = GLockGuard | GUnique | GRead | GWrite

datatype guard_op = CtorLock | CtorTry | OpLock | OpTry | OpTryFor

text \<open>\<open>g_holder\<close> is the participant that made the acquisition the guard owns; \<open>CoLockGuard\<close> has no \<open>m_owns\<close>, its value
  here says that the constructor has returned.\<close>

record guard =
  g_class :: guard_class
  g_mutex :: "nat option"
  m_owns :: bool
  g_holder :: co_id

text \<open>Who answers for a participant of a lock: nobody, a guard's unfinished call, an owning guard, or code that uses the lock directly.\<close>

datatype claim = NoClaim | InCall nat | Owned nat | Raw

record guard_sys =
  locks :: "nat \<Rightarrow> lock_obj"
  guards :: "nat \<Rightarrow> guard option"
  user :: "nat \<Rightarrow> (co_id \<times> guard_op) option"
  claims :: "nat \<Rightarrow> co_id \<Rightarrow> claim"

definition set_guard :: "nat \<Rightarrow> guard option \<Rightarrow> guard_sys \<Rightarrow> guard_sys" where
  "set_guard g x s = s \<lparr>guards := (guards s) (g := x)\<rparr>"

definition set_claim :: "nat \<Rightarrow> co_id \<Rightarrow> claim \<Rightarrow> guard_sys \<Rightarrow> guard_sys" where
  "set_claim l c x s = s \<lparr>claims := (claims s) (l := (claims s l) (c := x))\<rparr>"

definition set_user :: "nat \<Rightarrow> (co_id \<times> guard_op) option \<Rightarrow> guard_sys \<Rightarrow> guard_sys" where
  "set_user g x s = s \<lparr>user := (user s) (g := x)\<rparr>"

definition set_lock :: "nat \<Rightarrow> lock_obj \<Rightarrow> guard_sys \<Rightarrow> guard_sys" where
  "set_lock l x s = s \<lparr>locks := (locks s) (l := x)\<rparr>"

section \<open>The calls of the four classes\<close>

text \<open>The lock operation behind each constructor and method.\<close>

fun LockGuard_call :: "guard_op \<Rightarrow> co_id \<Rightarrow> wait_setup \<Rightarrow> lk_event option" where
  "LockGuard_call CtorLock c su = Some (OnMutex (MLock c su))"
| "LockGuard_call _ c su = None"

fun Unique_call :: "guard_op \<Rightarrow> co_id \<Rightarrow> wait_setup \<Rightarrow> lk_event" where
  "Unique_call CtorLock c su = OnMutex (MLock c su)"
| "Unique_call OpLock c su = OnMutex (MLock c su)"
| "Unique_call CtorTry c su = OnMutex (MTryLock c)"
| "Unique_call OpTry c su = OnMutex (MTryLock c)"
| "Unique_call OpTryFor c su = OnMutex (MTryLockMs c su)"

fun Read_call :: "guard_op \<Rightarrow> co_id \<Rightarrow> wait_setup \<Rightarrow> lk_event" where
  "Read_call CtorLock c su = OnRW (ERLock c su)"
| "Read_call OpLock c su = OnRW (ERLock c su)"
| "Read_call CtorTry c su = OnRW (ETryRLock c)"
| "Read_call OpTry c su = OnRW (ETryRLock c)"
| "Read_call OpTryFor c su = OnRW (ETryRLockMs c su)"

fun Write_call :: "guard_op \<Rightarrow> co_id \<Rightarrow> wait_setup \<Rightarrow> lk_event" where
  "Write_call CtorLock c su = OnRW (EWLock c su)"
| "Write_call OpLock c su = OnRW (EWLock c su)"
| "Write_call CtorTry c su = OnRW (ETryWLock c)"
| "Write_call OpTry c su = OnRW (ETryWLock c)"
| "Write_call OpTryFor c su = OnRW (ETryWLockMs c su)"

fun guard_call :: "guard_class \<Rightarrow> guard_op \<Rightarrow> co_id \<Rightarrow> wait_setup \<Rightarrow> lk_event option" where
  "guard_call GLockGuard op c su = LockGuard_call op c su"
| "guard_call GUnique op c su = Some (Unique_call op c su)"
| "guard_call GRead op c su = Some (Read_call op c su)"
| "guard_call GWrite op c su = Some (Write_call op c su)"

text \<open>How a suspended call goes on.\<close>

fun guard_resume :: "guard_class \<Rightarrow> guard_op \<Rightarrow> co_id \<Rightarrow> wait_setup \<Rightarrow> lk_event" where
  "guard_resume GRead op c su = OnRW (EResume c su)"
| "guard_resume GWrite op c su = OnRW (EResume c su)"
| "guard_resume cls op c su = OnMutex (if op = OpTryFor then MTryResume c else MRelock c su)"

fun guard_release :: "guard_class \<Rightarrow> co_id \<Rightarrow> lk_event" where
  "guard_release GLockGuard c = OnMutex (MUnLock c)"
| "guard_release GUnique c = OnMutex (MUnLock c)"
| "guard_release GRead c = OnRW (ERUnLock c)"
| "guard_release GWrite c = OnRW (EWUnLock c)"

fun lk_holds :: "guard_class \<Rightarrow> co_id \<Rightarrow> lock_obj \<Rightarrow> bool" where
  "lk_holds GLockGuard c (ObjMutex s) \<longleftrightarrow> mx_sys.pcs s c = MxHolding"
| "lk_holds GUnique c (ObjMutex s) \<longleftrightarrow> mx_sys.pcs s c = MxHolding"
| "lk_holds GRead c (ObjRW s) \<longleftrightarrow> rw_sys.pcs s c = RwReading"
| "lk_holds GWrite c (ObjRW s) \<longleftrightarrow> rw_sys.pcs s c = RwWriting"
| "lk_holds _ c _ \<longleftrightarrow> False"

fun lk_idle :: "co_id \<Rightarrow> lock_obj \<Rightarrow> bool" where
  "lk_idle c (ObjMutex s) \<longleftrightarrow> mx_sys.pcs s c = MxIdle"
| "lk_idle c (ObjRW s) \<longleftrightarrow> rw_sys.pcs s c = RwIdle"

text \<open>The end of a lock call inside a guard operation: the guard owns what was acquired; a \<open>lock()\<close> that failed has thrown
  (\<open>CoMutex::Lock\<close> throws itself, the other two turn a result other than 0 into \<open>system_error\<close>), in a constructor that leaves no
  object; the \<open>try\<close> forms leave an object that does not own.\<close>

definition finish_call :: "nat \<Rightarrow> nat \<Rightarrow> co_id \<Rightarrow> guard_op \<Rightarrow> guard \<Rightarrow> guard_sys \<Rightarrow> guard_sys" where
  "finish_call g l c op gd s =
     (if lk_holds (g_class gd) c (locks s l)
      then set_claim l c (Owned g) (set_user g None (set_guard g (Some (gd \<lparr>m_owns := True, g_holder := c\<rparr>)) s))
      else if lk_idle c (locks s l)
      then set_claim l c NoClaim (set_user g None (set_guard g (if op = CtorLock then None else Some (gd \<lparr>m_owns := False\<rparr>)) s))
      else set_claim l c (InCall g) (set_user g (Some (c, op)) (set_guard g (Some gd) s)))"

definition begin_call :: "nat \<Rightarrow> nat \<Rightarrow> co_id \<Rightarrow> guard_op \<Rightarrow> guard \<Rightarrow> wait_setup \<Rightarrow> guard_sys \<Rightarrow> guard_sys option" where
  "begin_call g l c op gd su s = (case guard_call (g_class gd) op c su of
       None \<Rightarrow> None
     | Some e \<Rightarrow> (case lk_exec e (locks s l) of
         None \<Rightarrow> None
       | Some x \<Rightarrow> Some (finish_call g l c op gd (set_lock l x s))))"

text \<open>The constructors that lock.\<close>

definition Guard_construct :: "nat \<Rightarrow> guard_class \<Rightarrow> nat \<Rightarrow> co_id \<Rightarrow> guard_op \<Rightarrow> wait_setup \<Rightarrow> guard_sys \<Rightarrow> guard_sys option" where
  "Guard_construct g cls l c op su s =
     (if guards s g = None \<and> op \<in> {CtorLock, CtorTry} \<and> claims s l c = NoClaim
      then begin_call g l c op \<lparr>g_class = cls, g_mutex = Some l, m_owns = False, g_holder = c\<rparr> su s else None)"

text \<open>\<open>lock\<close>, \<open>try_lock\<close> and \<open>try_lock_for\<close>: two assertions, then the call.\<close>

definition Guard_op :: "nat \<Rightarrow> co_id \<Rightarrow> guard_op \<Rightarrow> wait_setup \<Rightarrow> guard_sys \<Rightarrow> guard_sys option" where
  "Guard_op g c op su s = (case guards s g of
       Some gd \<Rightarrow> (case g_mutex gd of
           Some l \<Rightarrow> if op \<in> {OpLock, OpTry, OpTryFor} \<and> user s g = None \<and> \<not> m_owns gd \<and> claims s l c = NoClaim
             then begin_call g l c op gd su s else None
         | None \<Rightarrow> None)
     | None \<Rightarrow> None)"

definition Guard_resume :: "nat \<Rightarrow> wait_setup \<Rightarrow> guard_sys \<Rightarrow> guard_sys option" where
  "Guard_resume g su s = (case (user s g, guards s g) of
       (Some (c, op), Some gd) \<Rightarrow> (case g_mutex gd of
           Some l \<Rightarrow> (case lk_exec (guard_resume (g_class gd) op c su) (locks s l) of
               Some x \<Rightarrow> Some (finish_call g l c op gd (set_lock l x s))
             | None \<Rightarrow> None)
         | None \<Rightarrow> None)
     | _ \<Rightarrow> None)"

section \<open>Constructors without a call, moves, unlocking\<close>

text \<open>The empty guard, the deferred one, and the one that adopts a lock its caller holds.\<close>

definition Guard_empty :: "nat \<Rightarrow> guard_class \<Rightarrow> guard_sys \<Rightarrow> guard_sys option" where
  "Guard_empty g cls s = (if guards s g = None \<and> cls \<noteq> GLockGuard
     then Some (set_guard g (Some \<lparr>g_class = cls, g_mutex = None, m_owns = False, g_holder = 0\<rparr>) s) else None)"

definition Guard_defer :: "nat \<Rightarrow> guard_class \<Rightarrow> nat \<Rightarrow> guard_sys \<Rightarrow> guard_sys option" where
  "Guard_defer g cls l s = (if guards s g = None \<and> cls \<noteq> GLockGuard
     then Some (set_guard g (Some \<lparr>g_class = cls, g_mutex = Some l, m_owns = False, g_holder = 0\<rparr>) s) else None)"

definition Guard_adopt :: "nat \<Rightarrow> guard_class \<Rightarrow> nat \<Rightarrow> co_id \<Rightarrow> guard_sys \<Rightarrow> guard_sys option" where
  "Guard_adopt g cls l c s = (if guards s g = None \<and> cls \<noteq> GLockGuard \<and> claims s l c = Raw \<and> lk_holds cls c (locks s l)
     then Some (set_claim l c (Owned g) (set_guard g (Some \<lparr>g_class = cls, g_mutex = Some l, m_owns = True, g_holder = c\<rparr>) s)) else None)"

text \<open>\<open>UnLock\<close>, \<open>RUnLock\<close> or \<open>WUnLock\<close>, called by a guard.\<close>

definition call_release :: "guard \<Rightarrow> guard_sys \<Rightarrow> guard_sys option" where
  "call_release gd s = (case g_mutex gd of
       Some l \<Rightarrow> (case lk_exec (guard_release (g_class gd) (g_holder gd)) (locks s l) of
           Some x \<Rightarrow> Some (set_claim l (g_holder gd) NoClaim (set_lock l x s))
         | None \<Rightarrow> None)
     | None \<Rightarrow> None)"

definition Guard_unlock :: "nat \<Rightarrow> guard_sys \<Rightarrow> guard_sys option" where
  "Guard_unlock g s = (case guards s g of
       Some gd \<Rightarrow> if user s g = None \<and> g_class gd \<noteq> GLockGuard \<and> g_mutex gd \<noteq> None \<and> m_owns gd
         then map_option (set_guard g (Some (gd \<lparr>m_owns := False\<rparr>))) (call_release gd s) else None
     | None \<Rightarrow> None)"

definition Guard_destroy :: "nat \<Rightarrow> guard_sys \<Rightarrow> guard_sys option" where
  "Guard_destroy g s = (case guards s g of
       Some gd \<Rightarrow> if user s g \<noteq> None then None
         else map_option (set_guard g None) (if m_owns gd \<and> g_mutex gd \<noteq> None then call_release gd s else Some s)
     | None \<Rightarrow> None)"

text \<open>The ownership a guard has changes its address with the guard.\<close>

definition move_claim :: "guard \<Rightarrow> nat \<Rightarrow> guard_sys \<Rightarrow> guard_sys" where
  "move_claim gd g s = (case g_mutex gd of Some l \<Rightarrow> if m_owns gd then set_claim l (g_holder gd) (Owned g) s else s | None \<Rightarrow> s)"

definition moved_from :: "guard \<Rightarrow> guard" where
  "moved_from gd = gd \<lparr>g_mutex := None, m_owns := False\<rparr>"

definition Guard_move :: "nat \<Rightarrow> nat \<Rightarrow> guard_sys \<Rightarrow> guard_sys option" where
  "Guard_move g from s = (case guards s from of
       Some od \<Rightarrow> if guards s g = None \<and> user s from = None \<and> g_class od \<noteq> GLockGuard
         then Some (move_claim od g (set_guard from (Some (moved_from od)) (set_guard g (Some od) s))) else None
     | None \<Rightarrow> None)"

text \<open>Move assignment, member by member: the release, \<open>m_mutex\<close>, \<open>m_owns\<close>, and the source's \<open>m_owns\<close>. A guard moved to itself
  keeps its lock pointer (the self-move of \<open>shared_ptr\<close>) and ends up not owning.\<close>

definition Guard_assign :: "nat \<Rightarrow> nat \<Rightarrow> guard_sys \<Rightarrow> guard_sys option" where
  "Guard_assign g from s = (case (guards s g, guards s from) of
       (Some gd, Some od) \<Rightarrow>
         if user s g \<noteq> None \<or> user s from \<noteq> None \<or> g_class gd \<noteq> g_class od \<or> g_class gd = GLockGuard then None
         else (case (if m_owns gd then call_release gd s else Some s) of
             None \<Rightarrow> None
           | Some s1 \<Rightarrow> Some (if g = from then set_guard g (Some (gd \<lparr>m_owns := False\<rparr>)) s1
               else move_claim od g (set_guard from (Some (moved_from od)) (set_guard g (Some od) s1))))
     | _ \<Rightarrow> None)"

section \<open>The machine\<close>

datatype guard_event =
    GConstruct nat guard_class nat co_id guard_op wait_setup
  | GOp nat co_id guard_op wait_setup
  | GResume nat wait_setup
  | GEmpty nat guard_class
  | GDefer nat guard_class nat
  | GAdopt nat guard_class nat co_id
  | GUnlock nat
  | GDestroy nat
  | GMove nat nat
  | GAssign nat nat
  | GRaw nat lk_event

text \<open>A direct use of a lock, by a participant no guard answers for; timers and cancellations are nobody's.\<close>

definition raw_step :: "nat \<Rightarrow> lk_event \<Rightarrow> guard_sys \<Rightarrow> guard_sys option" where
  "raw_step l e s = (case lk_exec e (locks s l) of
       None \<Rightarrow> None
     | Some x \<Rightarrow> (case lk_actor e of
         None \<Rightarrow> Some (set_lock l x s)
       | Some c \<Rightarrow> if claims s l c \<in> {NoClaim, Raw}
           then Some (set_claim l c (if lk_idle c x then NoClaim else Raw) (set_lock l x s)) else None))"

fun gd_exec :: "guard_event \<Rightarrow> guard_sys \<Rightarrow> guard_sys option" where
  "gd_exec (GConstruct g cls l c op su) s = Guard_construct g cls l c op su s"
| "gd_exec (GOp g c op su) s = Guard_op g c op su s"
| "gd_exec (GResume g su) s = Guard_resume g su s"
| "gd_exec (GEmpty g cls) s = Guard_empty g cls s"
| "gd_exec (GDefer g cls l) s = Guard_defer g cls l s"
| "gd_exec (GAdopt g cls l c) s = Guard_adopt g cls l c s"
| "gd_exec (GUnlock g) s = Guard_unlock g s"
| "gd_exec (GDestroy g) s = Guard_destroy g s"
| "gd_exec (GMove g from) s = Guard_move g from s"
| "gd_exec (GAssign g from) s = Guard_assign g from s"
| "gd_exec (GRaw l e) s = raw_step l e s"

text \<open>Locks below \<open>m\<close> are mutexes, the others read-write mutexes.\<close>

definition gd_init :: "nat \<Rightarrow> guard_sys" where
  "gd_init m = \<lparr>locks = \<lambda>l. if l < m then ObjMutex mx_init else ObjRW rw_init, guards = \<lambda>_. None, user = \<lambda>_. None, claims = \<lambda>_ _. NoClaim\<rparr>"


section \<open>Participants\<close>

lemma MutexNotify_pcs [simp]: "mx_sys.pcs (MutexModel.NotifyOne s) = mx_sys.pcs s"
  by (rule MutexModel.NotifyOne_sel(3) [OF refl])

lemma RWNotify_pcs [simp]: "rw_sys.pcs (RWMutexModel.NotifyOne s) = rw_sys.pcs s" "rw_sys.pcs (NotifyAll_readers s) = rw_sys.pcs s"
  by (simp_all add: RWMutexModel.NotifyOne_def NotifyAll_readers_def Let_def split: prod.splits)

lemmas rw_all_defs = RLock_def WLock_def WLock_resume_def RUnLock_def WUnLock_def TryRLock_def TryWLock_def TryRLock_ms_def
  TryWLock_ms_def TryRLock_ms_resume_def TryWLock_ms_resume_def wait_reader_def wait_writer_def acquire_read_def acquire_write_def
  settle_writer_def RWMutexModel.set_pc_def resume_def

text \<open>A participant inside a guard's lock call.\<close>

fun lk_waits :: "guard_class \<Rightarrow> co_id \<Rightarrow> lock_obj \<Rightarrow> bool" where
  "lk_waits GRead c (ObjRW s) \<longleftrightarrow> (\<exists>e. rw_sys.pcs s c = RwWaiting KRLock e \<or> rw_sys.pcs s c = RwWaiting KTryR e)"
| "lk_waits GWrite c (ObjRW s) \<longleftrightarrow> (\<exists>e. rw_sys.pcs s c = RwWaiting KWLock e \<or> rw_sys.pcs s c = RwWaiting KTryW e)"
| "lk_waits GUnique c (ObjMutex s) \<longleftrightarrow> mx_sys.pcs s c = MxRetry \<or> (\<exists>k e. mx_sys.pcs s c = MxWaiting k e)"
| "lk_waits GLockGuard c (ObjMutex s) \<longleftrightarrow> mx_sys.pcs s c = MxRetry \<or> (\<exists>k e. mx_sys.pcs s c = MxWaiting k e)"
| "lk_waits _ c _ \<longleftrightarrow> False"

definition lk_settled :: "guard_class \<Rightarrow> co_id \<Rightarrow> lock_obj \<Rightarrow> bool" where
  "lk_settled cls c x \<longleftrightarrow> lk_holds cls c x \<or> lk_idle c x \<or> lk_waits cls c x"

lemma waits_excludes: "lk_waits cls c x \<Longrightarrow> \<not> lk_idle c x \<and> \<not> lk_holds cls' c x"
  by (cases "(cls, c, x)" rule: lk_waits.cases; cases cls') auto

lemma holds_excludes: "lk_holds cls c x \<Longrightarrow> \<not> lk_idle c x"
  by (cases "(cls, c, x)" rule: lk_holds.cases) auto

lemma lk_frame:
  assumes "lk_exec e x = Some y" "lk_actor e \<noteq> Some c"
  shows "lk_holds cls c y = lk_holds cls c x" "lk_idle c y = lk_idle c x" "lk_waits cls c y = lk_waits cls c x"
proof -
  have "lk_holds cls c y = lk_holds cls c x \<and> lk_idle c y = lk_idle c x \<and> lk_waits cls c y = lk_waits cls c x"
  proof (cases "(e, x)" rule: lk_exec.cases)
    case (1 e' s)
    then obtain t where t: "mx_exec e' s = Some t" "y = ObjMutex t" using assms by auto
    have "mx_sys.pcs t c = mx_sys.pcs s c" using mutex_users.step_frame [OF t(1)] assms(2) 1 by simp
    then show ?thesis using 1 t by (cases cls) auto
  next
    case (2 e' s)
    then obtain t where t: "rw_exec e' s = Some t" "y = ObjRW t" using assms by auto
    have "rw_sys.pcs t c = rw_sys.pcs s c" using rwmutex_users.step_frame [OF t(1)] assms(2) 2 by simp
    then show ?thesis using 2 t by (cases cls) auto
  qed (use assms in auto)
  then show "lk_holds cls c y = lk_holds cls c x" "lk_idle c y = lk_idle c x" "lk_waits cls c y = lk_waits cls c x" by simp_all
qed

lemma call_actor: "guard_call cls op c su = Some e \<Longrightarrow> lk_actor e = Some c"
  by (cases cls; cases op) auto

lemma resume_actor: "lk_actor (guard_resume cls op c su) = Some c"
  by (cases cls) auto

lemma release_actor: "lk_actor (guard_release cls c) = Some c"
  by (cases cls) auto

lemma call_settled:
  assumes "guard_call cls op c su = Some e" "lk_exec e x = Some y"
  shows "lk_settled cls c y"
proof (cases x)
  case (ObjMutex s)
  then show ?thesis using assms
    by (cases cls; cases op)
      (auto simp: lk_settled_def mx_defs Let_def split: if_splits wait_setup.splits)
next
  case (ObjRW s)
  then show ?thesis using assms
    by (cases cls; cases op)
      (auto simp: lk_settled_def rw_all_defs Let_def split: if_splits wait_setup.splits)
qed

lemma resume_settled:
  assumes "lk_waits cls c x" "lk_exec (guard_resume cls op c su) x = Some y"
  shows "lk_settled cls c y"
proof (cases x)
  case (ObjMutex s)
  then show ?thesis using assms
    by (cases cls; cases "op = OpTryFor")
      (auto simp: lk_settled_def mx_defs Let_def split: if_splits wait_setup.splits mx_pc.splits lock_kind.splits outcome.splits)
next
  case (ObjRW s)
  then show ?thesis using assms
    by (cases cls)
      (auto simp: lk_settled_def rw_all_defs Let_def split: if_splits wait_setup.splits outcome.splits)
qed

lemma release_works:
  assumes "lk_holds cls c x"
  shows "\<exists>y. lk_exec (guard_release cls c) x = Some y \<and> lk_idle c y"
  using assms by (cases "(cls, c, x)" rule: lk_holds.cases)
    (auto simp: mx_defs MutexModel.OnUnLocked_def rw_all_defs Let_def)


section \<open>Invariant\<close>

definition owning :: "guard_sys \<Rightarrow> nat \<Rightarrow> nat \<Rightarrow> co_id \<Rightarrow> bool" where
  "owning s g l c \<longleftrightarrow> (\<exists>gd. guards s g = Some gd \<and> m_owns gd \<and> g_mutex gd = Some l \<and> g_holder gd = c \<and> lk_holds (g_class gd) c (locks s l))"

definition calling :: "guard_sys \<Rightarrow> nat \<Rightarrow> nat \<Rightarrow> co_id \<Rightarrow> bool" where
  "calling s g l c \<longleftrightarrow> (\<exists>gd op. guards s g = Some gd \<and> user s g = Some (c, op) \<and> \<not> m_owns gd \<and> g_mutex gd = Some l \<and>
     lk_waits (g_class gd) c (locks s l))"

text \<open>A claim says what is the case, and every guard that owns or is inside a call has its claim.\<close>

fun claim_true :: "guard_sys \<Rightarrow> nat \<Rightarrow> co_id \<Rightarrow> claim \<Rightarrow> bool" where
  "claim_true s l c NoClaim \<longleftrightarrow> lk_idle c (locks s l)"
| "claim_true s l c (InCall g) \<longleftrightarrow> calling s g l c"
| "claim_true s l c (Owned g) \<longleftrightarrow> owning s g l c"
| "claim_true s l c Raw \<longleftrightarrow> True"

definition guard_true :: "guard_sys \<Rightarrow> nat \<Rightarrow> bool" where
  "guard_true s g \<longleftrightarrow>
     (\<forall>gd. guards s g = Some gd \<longrightarrow> m_owns gd \<longrightarrow> (\<exists>l. g_mutex gd = Some l \<and> claims s l (g_holder gd) = Owned g)) \<and>
     (\<forall>c op. user s g = Some (c, op) \<longrightarrow> (\<exists>gd l. guards s g = Some gd \<and> g_mutex gd = Some l \<and> claims s l c = InCall g))"

definition gd_inv :: "guard_sys \<Rightarrow> bool" where
  "gd_inv s \<longleftrightarrow> (\<forall>l c. claim_true s l c (claims s l c)) \<and> (\<forall>g. guard_true s g)"

lemma gd_init_inv: "gd_inv (gd_init m)"
  by (simp add: gd_inv_def guard_true_def gd_init_def mx_init_def rw_init_def)

lemma claim_trueD: "gd_inv s \<Longrightarrow> claims s l c = x \<Longrightarrow> claim_true s l c x"
  by (auto simp: gd_inv_def)

lemma guard_trueD:
  assumes "gd_inv s"
  shows "guards s g = Some gd \<Longrightarrow> m_owns gd \<Longrightarrow> \<exists>l. g_mutex gd = Some l \<and> claims s l (g_holder gd) = Owned g"
    "user s g = Some (c, op) \<Longrightarrow> \<exists>gd l. guards s g = Some gd \<and> g_mutex gd = Some l \<and> claims s l c = InCall g"
  using assms unfolding gd_inv_def guard_true_def by blast+

text \<open>A step changes one guard, one lock and one participant of that lock; nobody else depends on them.\<close>

lemma gd_inv_local:
  assumes inv: "gd_inv s"
    and G: "\<And>h. h \<noteq> g \<Longrightarrow> guards s' h = guards s h \<and> user s' h = user s h"
    and C: "\<And>l' c'. (l', c') \<noteq> (l, c) \<Longrightarrow> claims s' l' c' = claims s l' c'"
    and L: "\<And>l' c' cls. (l', c') \<noteq> (l, c) \<Longrightarrow> lk_holds cls c' (locks s' l') = lk_holds cls c' (locks s l') \<and>
        lk_idle c' (locks s' l') = lk_idle c' (locks s l') \<and> lk_waits cls c' (locks s' l') = lk_waits cls c' (locks s l')"
    and free: "\<And>l' c'. (l', c') \<noteq> (l, c) \<Longrightarrow> claims s l' c' \<noteq> Owned g \<and> claims s l' c' \<noteq> InCall g"
    and other: "\<And>h. h \<noteq> g \<Longrightarrow> claims s l c \<noteq> Owned h \<and> claims s l c \<noteq> InCall h"
    and mine: "claim_true s' l c (claims s' l c)" "guard_true s' g"
  shows "gd_inv s'"
  unfolding gd_inv_def
proof (intro conjI allI)
  fix l' c'
  show "claim_true s' l' c' (claims s' l' c')"
  proof (cases "(l', c') = (l, c)")
    case True
    then show ?thesis using mine(1) by simp
  next
    case False
    have "claim_true s l' c' (claims s l' c')" using inv by (simp add: gd_inv_def)
    then show ?thesis using C [OF False] L [OF False] free [OF False] G
      by (cases "claims s l' c'") (auto simp: calling_def owning_def)
  qed
next
  fix h
  show "guard_true s' h"
  proof (cases "h = g")
    case True
    then show ?thesis using mine(2) by simp
  next
    case False
    have keep: "claims s l' c' = x \<Longrightarrow> x = Owned h \<or> x = InCall h \<Longrightarrow> claims s' l' c' = x" for l' c' x
      using C [of l' c'] other [OF False] by (cases "(l', c') = (l, c)") auto
    have "guard_true s h" using inv by (simp add: gd_inv_def)
    then show ?thesis unfolding guard_true_def using G [OF False] keep by metis
  qed
qed

text \<open>A guard that neither owns nor calls has no claim; one that does has exactly one.\<close>

lemma claim_unique:
  assumes "gd_inv s"
  shows "claims s l c = Owned g \<Longrightarrow> guards s g = Some gd \<Longrightarrow> m_owns gd \<and> g_mutex gd = Some l \<and> g_holder gd = c"
    "claims s l c = InCall g \<Longrightarrow> guards s g = Some gd \<Longrightarrow> \<not> m_owns gd \<and> g_mutex gd = Some l \<and> (\<exists>op. user s g = Some (c, op))"
    "guards s g = None \<Longrightarrow> claims s l c \<noteq> Owned g \<and> claims s l c \<noteq> InCall g"
    "user s g = None \<Longrightarrow> claims s l c \<noteq> InCall g"
  using claim_trueD [OF assms, of l c] by (auto simp: owning_def calling_def)


lemmas gd_sets = set_guard_def set_claim_def set_user_def set_lock_def

lemma lock_frame:
  assumes "lk_exec e (locks s l) = Some x" "lk_actor e = Some c" "locks s' = (locks s) (l := x)" "(l', c') \<noteq> (l, c)"
  shows "lk_holds cls c' (locks s' l') = lk_holds cls c' (locks s l') \<and>
    lk_idle c' (locks s' l') = lk_idle c' (locks s l') \<and> lk_waits cls c' (locks s' l') = lk_waits cls c' (locks s l')"
proof (cases "l' = l")
  case True
  then have "lk_actor e \<noteq> Some c'" using assms(2,4) by auto
  then show ?thesis using lk_frame [OF assms(1)] assms(3) True by simp
qed (use assms(3) in simp)

lemma finish_inv:
  assumes inv: "gd_inv s" and step: "lk_exec e (locks s l) = Some x" "lk_actor e = Some c"
    and settled: "lk_settled (g_class gd) c x" and gd: "g_mutex gd = Some l" "\<not> m_owns gd"
    and pre: "claims s l c = NoClaim \<or> claims s l c = InCall g"
    and free: "\<And>l' c'. (l', c') \<noteq> (l, c) \<Longrightarrow> claims s l' c' \<noteq> Owned g \<and> claims s l' c' \<noteq> InCall g"
  shows "gd_inv (finish_call g l c op gd (set_lock l x s))" (is "gd_inv ?s")
proof (rule gd_inv_local [OF inv, of g _ l c])
  show "guards ?s h = guards s h \<and> user ?s h = user s h" if "h \<noteq> g" for h
    using that by (simp add: finish_call_def gd_sets)
  show "claims ?s l' c' = claims s l' c'" if "(l', c') \<noteq> (l, c)" for l' c'
    using that by (auto simp: finish_call_def gd_sets)
  show "lk_holds cls c' (locks ?s l') = lk_holds cls c' (locks s l') \<and> lk_idle c' (locks ?s l') = lk_idle c' (locks s l') \<and>
      lk_waits cls c' (locks ?s l') = lk_waits cls c' (locks s l')" if "(l', c') \<noteq> (l, c)" for l' c' cls
    by (rule lock_frame [OF step _ that]) (simp add: finish_call_def gd_sets)
  show "claims s l c \<noteq> Owned h \<and> claims s l c \<noteq> InCall h" if "h \<noteq> g" for h using pre that by auto
  show "claim_true ?s l c (claims ?s l c)"
    using settled gd by (auto simp: finish_call_def gd_sets lk_settled_def owning_def calling_def)
  show "guard_true ?s g"
    using gd by (auto simp: finish_call_def gd_sets guard_true_def)
qed (rule free)

lemma Guard_construct_inv:
  assumes inv: "gd_inv s" and ex: "Guard_construct g cls l c op su s = Some s'"
  shows "gd_inv s'"
proof -
  let ?gd = "\<lparr>g_class = cls, g_mutex = Some l, m_owns = False, g_holder = c\<rparr>"
  from ex obtain e x where e: "guards s g = None" "claims s l c = NoClaim" "guard_call cls op c su = Some e" "lk_exec e (locks s l) = Some x"
    "s' = finish_call g l c op ?gd (set_lock l x s)"
    by (auto simp: Guard_construct_def begin_call_def split: if_splits option.splits)
  show ?thesis unfolding e(5)
    by (rule finish_inv [OF inv e(4) call_actor [OF e(3)]])
      (use e(2) call_settled [OF e(3,4)] claim_unique(3) [OF inv e(1)] in auto)
qed

lemma Guard_op_inv:
  assumes inv: "gd_inv s" and ex: "Guard_op g c op su s = Some s'"
  shows "gd_inv s'"
proof -
  from ex obtain gd l e x where e: "guards s g = Some gd" "g_mutex gd = Some l" "user s g = None" "\<not> m_owns gd" "claims s l c = NoClaim"
    "guard_call (g_class gd) op c su = Some e" "lk_exec e (locks s l) = Some x" "s' = finish_call g l c op gd (set_lock l x s)"
    by (auto simp: Guard_op_def begin_call_def split: if_splits option.splits)
  have "claims s l' c' \<noteq> Owned g \<and> claims s l' c' \<noteq> InCall g" for l' c'
    using claim_unique(1) [OF inv _ e(1)] claim_unique(4) [OF inv e(3)] e(4) by blast
  then show ?thesis unfolding e(8)
    by (intro finish_inv [OF inv e(7) call_actor [OF e(6)] call_settled [OF e(6,7)] e(2,4)]) (use e(5) in auto)
qed

lemma Guard_resume_inv:
  assumes inv: "gd_inv s" and ex: "Guard_resume g su s = Some s'"
  shows "gd_inv s'"
proof -
  from ex obtain c op gd l x where e: "user s g = Some (c, op)" "guards s g = Some gd" "g_mutex gd = Some l"
    "lk_exec (guard_resume (g_class gd) op c su) (locks s l) = Some x" "s' = finish_call g l c op gd (set_lock l x s)"
    by (auto simp: Guard_resume_def split: option.splits)
  have cl: "claims s l c = InCall g" using guard_trueD(2) [OF inv e(1)] e(2,3) by auto
  then have w: "\<not> m_owns gd" "lk_waits (g_class gd) c (locks s l)"
    using claim_trueD [OF inv cl] e(2) by (auto simp: calling_def)
  have fr: "claims s l' c' \<noteq> Owned g \<and> claims s l' c' \<noteq> InCall g" if "(l', c') \<noteq> (l, c)" for l' c'
    using claim_unique(1,2) [OF inv _ e(2)] w(1) e(1,3) that by force
  show ?thesis unfolding e(5)
    by (rule finish_inv [OF inv e(4) resume_actor resume_settled [OF w(2) e(4)] e(3) w(1) _ fr]) (use cl in auto)
qed

text \<open>Guards that are made without a call.\<close>

lemma new_guard_inv:
  assumes inv: "gd_inv s" and "guards s g = None" "\<not> m_owns gd"
  shows "gd_inv (set_guard g (Some gd) s)" (is "gd_inv ?s")
proof -
  have u: "user s g = None" using guard_trueD(2) [OF inv, of g] assms(2) by (cases "user s g") auto
  have n: "claims s l c \<noteq> Owned g \<and> claims s l c \<noteq> InCall g" for l c using claim_unique(3) [OF inv assms(2)] by blast
  have "claim_true ?s l c (claims ?s l c)" for l c
    using claim_trueD [OF inv, of l c] n [of l c] by (cases "claims s l c") (auto simp: gd_sets owning_def calling_def)
  moreover have "guard_true ?s h" for h
    using inv assms(3) u by (auto simp: gd_inv_def guard_true_def gd_sets)
  ultimately show ?thesis by (simp add: gd_inv_def)
qed

lemma Guard_adopt_inv:
  assumes inv: "gd_inv s" and ex: "Guard_adopt g cls l c s = Some s'"
  shows "gd_inv s'"
proof (rule gd_inv_local [OF inv, of g _ l c])
  note d = ex [unfolded Guard_adopt_def]
  have g: "guards s g = None" "claims s l c = Raw" "lk_holds cls c (locks s l)" and
    s': "s' = set_claim l c (Owned g) (set_guard g (Some \<lparr>g_class = cls, g_mutex = Some l, m_owns = True, g_holder = c\<rparr>) s)"
    using d by (auto split: if_splits)
  have u: "user s g = None" using guard_trueD(2) [OF inv, of g] g(1) by (cases "user s g") auto
  show "guards s' h = guards s h \<and> user s' h = user s h" if "h \<noteq> g" for h using that s' by (simp add: gd_sets)
  show "claims s' l' c' = claims s l' c'" if "(l', c') \<noteq> (l, c)" for l' c' using that s' by (auto simp: gd_sets)
  show "lk_holds k c' (locks s' l') = lk_holds k c' (locks s l') \<and> lk_idle c' (locks s' l') = lk_idle c' (locks s l') \<and>
      lk_waits k c' (locks s' l') = lk_waits k c' (locks s l')" for l' c' k using s' by (simp add: gd_sets)
  show "claims s l' c' \<noteq> Owned g \<and> claims s l' c' \<noteq> InCall g" for l' c' using claim_unique(3) [OF inv g(1)] by blast
  show "claims s l c \<noteq> Owned h \<and> claims s l c \<noteq> InCall h" for h using g(2) by simp
  show "claim_true s' l c (claims s' l c)" using g(3) s' by (simp add: gd_sets owning_def)
  show "guard_true s' g" using s' u by (simp add: gd_sets guard_true_def)
qed

text \<open>Releasing.\<close>

lemma release_inv:
  assumes inv: "gd_inv s" and g: "guards s g = Some gd" "m_owns gd" "user s g = None" and ex: "call_release gd s = Some s1"
    and new: "y = None \<or> (\<exists>gd'. y = Some gd' \<and> \<not> m_owns gd')"
  shows "gd_inv (set_guard g y s1)" (is "gd_inv ?s")
proof -
  let ?c = "g_holder gd"
  obtain l where l: "g_mutex gd = Some l" "claims s l ?c = Owned g" using guard_trueD(1) [OF inv g(1,2)] by blast
  then obtain x where x: "lk_exec (guard_release (g_class gd) ?c) (locks s l) = Some x" "s1 = set_claim l ?c NoClaim (set_lock l x s)"
    using ex by (auto simp: call_release_def split: option.splits)
  have "lk_holds (g_class gd) ?c (locks s l)" using claim_trueD [OF inv l(2)] g(1) by (auto simp: owning_def)
  then have idle: "lk_idle ?c x" using release_works [of "g_class gd" ?c "locks s l"] x(1) by auto
  show ?thesis
  proof (rule gd_inv_local [OF inv, of g _ l ?c])
    show "guards ?s h = guards s h \<and> user ?s h = user s h" if "h \<noteq> g" for h using that x(2) by (simp add: gd_sets)
    show "claims ?s l' c' = claims s l' c'" if "(l', c') \<noteq> (l, ?c)" for l' c' using that x(2) by (auto simp: gd_sets)
    show "lk_holds k c' (locks ?s l') = lk_holds k c' (locks s l') \<and> lk_idle c' (locks ?s l') = lk_idle c' (locks s l') \<and>
        lk_waits k c' (locks ?s l') = lk_waits k c' (locks s l')" if "(l', c') \<noteq> (l, ?c)" for l' c' k
      by (rule lock_frame [OF x(1) release_actor _ that]) (simp add: x(2) gd_sets)
    show "claims s l' c' \<noteq> Owned g \<and> claims s l' c' \<noteq> InCall g" if "(l', c') \<noteq> (l, ?c)" for l' c'
      using claim_unique(1) [OF inv _ g(1)] claim_unique(4) [OF inv g(3)] l(1) that by force
    show "claims s l ?c \<noteq> Owned h \<and> claims s l ?c \<noteq> InCall h" if "h \<noteq> g" for h using l(2) that by simp
    show "claim_true ?s l ?c (claims ?s l ?c)" using idle x(2) by (simp add: gd_sets)
    show "guard_true ?s g" using new x(2) g(3) by (auto simp: gd_sets guard_true_def)
  qed
qed


lemma Guard_unlock_inv: "gd_inv s \<Longrightarrow> Guard_unlock g s = Some s' \<Longrightarrow> gd_inv s'"
  by (auto simp: Guard_unlock_def split: option.splits if_splits intro: release_inv)

lemma drop_guard_inv:
  assumes inv: "gd_inv s" and "guards s g = Some gd" "\<not> m_owns gd" "user s g = None"
  shows "gd_inv (set_guard g None s)" (is "gd_inv ?s")
proof -
  have n: "claims s l c \<noteq> Owned g \<and> claims s l c \<noteq> InCall g" for l c
    using claim_unique(1) [OF inv _ assms(2)] claim_unique(4) [OF inv assms(4)] assms(3) by blast
  have "claim_true ?s l c (claims ?s l c)" for l c
    using claim_trueD [OF inv, of l c] n [of l c] by (cases "claims s l c") (auto simp: gd_sets owning_def calling_def)
  moreover have "guard_true ?s h" for h using inv assms(4) by (auto simp: gd_inv_def guard_true_def gd_sets)
  ultimately show ?thesis by (simp add: gd_inv_def)
qed

lemma Guard_destroy_inv:
  assumes inv: "gd_inv s" and ex: "Guard_destroy g s = Some s'"
  shows "gd_inv s'"
proof -
  obtain gd where g: "guards s g = Some gd" "user s g = None"
    and r: "map_option (set_guard g None) (if m_owns gd \<and> g_mutex gd \<noteq> None then call_release gd s else Some s) = Some s'"
    using ex unfolding Guard_destroy_def by (cases "guards s g"; cases "user s g") simp_all
  show ?thesis
  proof (cases "m_owns gd")
    case True
    then have "g_mutex gd \<noteq> None" using guard_trueD(1) [OF inv g(1)] by auto
    then obtain s1 where "call_release gd s = Some s1" "s' = set_guard g None s1" using True r by auto
    then show ?thesis using release_inv [OF inv g(1) True g(2), of s1 None] by simp
  next
    case False
    then show ?thesis using r drop_guard_inv [OF inv g(1) False g(2)] by simp
  qed
qed

lemma moved_from_owns [simp]: "m_owns (moved_from gd) = False"
  by (simp add: moved_from_def)

lemma move_inv:
  assumes inv: "gd_inv s" and src: "guards s from = Some od" "user s from = None"
    and g: "g \<noteq> from" "user s g = None" "\<And>gd. guards s g = Some gd \<Longrightarrow> \<not> m_owns gd"
  shows "gd_inv (move_claim od g (set_guard from (Some (moved_from od)) (set_guard g (Some od) s)))" (is "gd_inv ?s")
proof -
  have ng: "claims s l c \<noteq> Owned g \<and> claims s l c \<noteq> InCall g" for l c
    using claim_unique(1) [OF inv, of l c g] claim_unique(3,4) [OF inv, of g] g(2,3) by (cases "guards s g") auto
  have G: "guards ?s g = Some od" "guards ?s from = Some (moved_from od)" "h \<notin> {g, from} \<Longrightarrow> guards ?s h = guards s h"
    "user ?s = user s" "locks ?s = locks s" for h
    using g(1) by (auto simp: move_claim_def gd_sets split: option.splits)
  have keep: "claim_true ?s l c x" if "claim_true s l c x" "x \<noteq> Owned g" "x \<noteq> InCall g" "x \<noteq> Owned from" "x \<noteq> InCall from" for l c x
    using that G(3) by (cases x) (auto simp: owning_def calling_def G(4,5))
  have nf: "claims s l c \<noteq> InCall from" for l c using claim_unique(4) [OF inv src(2)] by blast
  show ?thesis
  proof (cases "m_owns od")
    case False
    then have C: "claims ?s = claims s" by (auto simp: move_claim_def gd_sets split: option.splits)
    have nf': "claims s l c \<noteq> Owned from" for l c using claim_unique(1) [OF inv _ src(1)] False by blast
    have "claim_true ?s l c (claims ?s l c)" for l c
      unfolding C using keep claim_trueD [OF inv refl] ng nf nf' by blast
    moreover have "guard_true ?s h" for h
    proof (cases "h \<in> {g, from}")
      case True
      then show ?thesis using G(1,2,4) False src(2) g(2) by (auto simp: guard_true_def)
    next
      case h: False
      have "guard_true s h" using inv by (simp add: gd_inv_def)
      then show ?thesis using G(3) [OF h] by (simp add: guard_true_def C G(4))
    qed
    ultimately show ?thesis by (simp add: gd_inv_def)
  next
    case True
    obtain l where l: "g_mutex od = Some l" "claims s l (g_holder od) = Owned from" using guard_trueD(1) [OF inv src(1) True] by blast
    let ?c = "g_holder od"
    have C: "claims ?s = (claims s) (l := (claims s l) (?c := Owned g))" using l(1) True by (simp add: move_claim_def gd_sets)
    have uf: "claims s l' c' = Owned from \<Longrightarrow> l' = l \<and> c' = ?c" for l' c' using claim_unique(1) [OF inv _ src(1)] l(1) by auto
    have "lk_holds (g_class od) ?c (locks s l)" using claim_trueD [OF inv l(2)] src(1) by (auto simp: owning_def)
    then have mine: "claim_true ?s l ?c (Owned g)" using G(1) True l(1) by (simp add: owning_def G(5))
    have "claim_true ?s l' c' (claims ?s l' c')" for l' c'
    proof (cases "l' = l \<and> c' = ?c")
      case True
      then show ?thesis using mine by (simp add: C)
    next
      case False
      then have "claims ?s l' c' = claims s l' c'" by (auto simp: C)
      moreover have "claim_true ?s l' c' (claims s l' c')"
        by (rule keep) (use claim_trueD [OF inv refl] ng nf uf False in blast)+
      ultimately show ?thesis by simp
    qed
    moreover have "guard_true ?s h" for h
    proof (cases "h \<in> {g, from}")
      case True
      then show ?thesis using G(1,2,4) l(1) src(2) g(1,2) by (auto simp: guard_true_def C)
    next
      case h: False
      have k: "claims s l' c' = x \<Longrightarrow> x = Owned h \<or> x = InCall h \<Longrightarrow> claims ?s l' c' = x" for l' c' x
        using l(2) h by (auto simp: C)
      have "guard_true s h" using inv by (simp add: gd_inv_def)
      then show ?thesis using k unfolding guard_true_def G(3) [OF h] G(4) by metis
    qed
    ultimately show ?thesis by (simp add: gd_inv_def)
  qed
qed

lemma Guard_move_inv:
  assumes inv: "gd_inv s" and ex: "Guard_move g from s = Some s'"
  shows "gd_inv s'"
proof -
  obtain od where o: "guards s from = Some od" "guards s g = None" "user s from = None"
    "s' = move_claim od g (set_guard from (Some (moved_from od)) (set_guard g (Some od) s))"
    using ex by (auto simp: Guard_move_def split: option.splits if_splits)
  have "user s g = None" using guard_trueD(2) [OF inv, of g] o(2) by (cases "user s g") auto
  then show ?thesis unfolding o(4) by (intro move_inv [OF inv o(1,3)]) (use o in auto)
qed

lemma Guard_assign_inv:
  assumes inv: "gd_inv s" and ex: "Guard_assign g from s = Some s'"
  shows "gd_inv s'"
proof -
  obtain gd od where go: "guards s g = Some gd" "guards s from = Some od"
    using ex by (auto simp: Guard_assign_def split: option.splits)
  have u: "user s g = None" "user s from = None"
    using ex go unfolding Guard_assign_def by (cases "user s g"; cases "user s from"; simp)+
  obtain s1 where s1: "(if m_owns gd then call_release gd s else Some s) = Some s1"
    using ex go u unfolding Guard_assign_def by (cases "if m_owns gd then call_release gd s else Some s") (simp_all split: if_splits)
  have s': "s' = (if g = from then set_guard g (Some (gd \<lparr>m_owns := False\<rparr>)) s1
       else move_claim od g (set_guard from (Some (moved_from od)) (set_guard g (Some od) s1)))"
    using ex go s1 u unfolding Guard_assign_def by (simp split: if_splits)
  note o = go u s1 s'
  let ?t = "set_guard g (Some (gd \<lparr>m_owns := False\<rparr>)) s1"
  have t: "gd_inv ?t"
  proof (cases "m_owns gd")
    case True
    then show ?thesis using release_inv [OF inv o(1) True o(3), of s1] o(5) by auto
  next
    case False
    then have "s1 = s" "gd \<lparr>m_owns := False\<rparr> = gd" using o(5) by simp_all
    then have "?t = s" using o(1) by (simp add: gd_sets fun_upd_idem)
    then show ?thesis using inv by simp
  qed
  have f1: "guards s1 = guards s" "user s1 = user s"
    using o(5) by (auto simp: call_release_def gd_sets split: if_splits option.splits)
  show ?thesis
  proof (cases "g = from")
    case True
    then show ?thesis using t o(6) by simp
  next
    case False
    have "s' = move_claim od g (set_guard from (Some (moved_from od)) (set_guard g (Some od) ?t))"
      using o(6) False by (simp add: move_claim_def gd_sets split: option.split)
    moreover have "gd_inv \<dots>" by (rule move_inv [OF t]) (use False o(1-4) f1 in \<open>auto simp: gd_sets\<close>)
    ultimately show ?thesis by simp
  qed
qed

lemma raw_step_inv:
  assumes inv: "gd_inv s" and ex: "raw_step l e s = Some s'"
  shows "gd_inv s'"
proof -
  obtain x where x: "lk_exec e (locks s l) = Some x" using ex by (auto simp: raw_step_def split: option.splits)
  show ?thesis
  proof (cases "lk_actor e")
    case None
    then have s': "s' = set_lock l x s" using ex x by (simp add: raw_step_def)
    have f: "lk_holds cls c' (locks s' l') = lk_holds cls c' (locks s l')" "lk_idle c' (locks s' l') = lk_idle c' (locks s l')"
      "lk_waits cls c' (locks s' l') = lk_waits cls c' (locks s l')" for l' c' cls
      using lk_frame [OF x] None by (auto simp: s' gd_sets)
    have r: "guards s' = guards s" "user s' = user s" "claims s' = claims s" by (simp_all add: s' gd_sets)
    have "claim_true s' l' c' y = claim_true s l' c' y" for l' c' y by (cases y) (simp_all add: f r owning_def calling_def)
    then show ?thesis using inv by (simp add: gd_inv_def guard_true_def r)
  next
    case (Some c)
    then have s': "claims s l c = NoClaim \<or> claims s l c = Raw" "s' = set_claim l c (if lk_idle c x then NoClaim else Raw) (set_lock l x s)"
      using ex x by (auto simp: raw_step_def split: if_splits)
    have r: "guards s' = guards s" "user s' = user s" by (simp_all add: s'(2) gd_sets)
    have c: "claim_true s' l' c' (claims s' l' c')" for l' c'
    proof (cases "(l', c') = (l, c)")
      case True
      then show ?thesis by (simp add: s'(2) gd_sets)
    next
      case False
      have f: "lk_holds cls c' (locks s' l') = lk_holds cls c' (locks s l') \<and>
          lk_idle c' (locks s' l') = lk_idle c' (locks s l') \<and> lk_waits cls c' (locks s' l') = lk_waits cls c' (locks s l')" for cls
        by (rule lock_frame [OF x Some _ False]) (simp add: s'(2) gd_sets)
      have "claims s' l' c' = claims s l' c'" using False by (auto simp: s'(2) gd_sets)
      then show ?thesis using claim_trueD [OF inv refl, of l' c'] f
        by (cases "claims s l' c'") (simp_all add: r owning_def calling_def)
    qed
    have "guard_true s' h" for h
    proof -
      have "guard_true s h" using inv by (simp add: gd_inv_def)
      moreover have "claims s l' c' = y \<Longrightarrow> y = Owned h \<or> y = InCall h \<Longrightarrow> claims s' l' c' = y" for l' c' y
        using s'(1) by (auto simp: s'(2) gd_sets)
      ultimately show ?thesis unfolding guard_true_def r by metis
    qed
    then show ?thesis using c by (simp add: gd_inv_def)
  qed
qed

lemma gd_inv_step: "gd_inv s \<Longrightarrow> gd_exec ev s = Some s' \<Longrightarrow> gd_inv s'"
proof (cases ev)
  case (GEmpty g cls)
  assume "gd_inv s" "gd_exec ev s = Some s'"
  then show ?thesis using GEmpty by (auto simp: Guard_empty_def split: if_splits intro: new_guard_inv)
next
  case (GDefer g cls l)
  assume "gd_inv s" "gd_exec ev s = Some s'"
  then show ?thesis using GDefer by (auto simp: Guard_defer_def split: if_splits intro: new_guard_inv)
qed (auto intro: Guard_construct_inv Guard_op_inv Guard_resume_inv Guard_adopt_inv Guard_unlock_inv Guard_destroy_inv
    Guard_move_inv Guard_assign_inv raw_step_inv)

interpretation guarded: invariant_machine gd_exec gd_inv
  by unfold_locales (rule gd_inv_step)

lemma gd_reaches_inv: "reaches gd_exec (gd_init m) s \<Longrightarrow> gd_inv s"
  by (erule guarded.reaches_inv) (rule gd_init_inv)


section \<open>The locks below the guards\<close>

fun lk_inv :: "lock_obj \<Rightarrow> bool" where
  "lk_inv (ObjMutex s) \<longleftrightarrow> mx_inv s"
| "lk_inv (ObjRW s) \<longleftrightarrow> rw_inv s"

lemma lk_inv_step: "lk_inv x \<Longrightarrow> lk_exec e x = Some y \<Longrightarrow> lk_inv y"
  by (cases "(e, x)" rule: lk_exec.cases) (auto intro: mx_machine.step_inv rw_machine.step_inv)

lemma finish_locks [simp]: "locks (finish_call g l c op gd s) = locks s"
  by (simp add: finish_call_def gd_sets)

lemma move_locks [simp]: "locks (move_claim od g s) = locks s"
  by (simp add: move_claim_def gd_sets split: option.split)

lemma set_lock_inv: "\<forall>l. lk_inv (locks s l) \<Longrightarrow> lk_exec e (locks s l) = Some x \<Longrightarrow> locks s' = (locks s) (l := x) \<Longrightarrow> lk_inv (locks s' l')"
  using lk_inv_step by auto

lemma release_locks:
  assumes "call_release gd s = Some s1" "\<forall>l. lk_inv (locks s l)"
  shows "lk_inv (locks s1 l)"
proof -
  obtain l' x where "lk_exec (guard_release (g_class gd) (g_holder gd)) (locks s l') = Some x" "locks s1 = (locks s) (l' := x)"
    using assms(1) by (auto simp: call_release_def gd_sets split: option.splits)
  then show ?thesis by (rule set_lock_inv [OF assms(2)])
qed

lemma locks_step:
  assumes "gd_exec ev s = Some s'"
  shows "locks s' = locks s \<or> (\<exists>gd s1. call_release gd s = Some s1 \<and> locks s' = locks s1) \<or>
    (\<exists>e l x. lk_exec e (locks s l) = Some x \<and> locks s' = (locks s) (l := x))"
proof (cases ev)
  case (GAssign g h)
  then show ?thesis using assms by (auto simp: Guard_assign_def gd_sets split: option.splits if_splits; blast)
next
  case (GDestroy g)
  then show ?thesis using assms by (auto simp: Guard_destroy_def gd_sets split: option.splits if_splits; blast)
next
  case (GUnlock g)
  then show ?thesis using assms by (auto simp: Guard_unlock_def gd_sets split: option.splits if_splits; blast)
qed (use assms in \<open>auto simp: Guard_construct_def Guard_op_def Guard_resume_def begin_call_def Guard_empty_def Guard_defer_def Guard_adopt_def
    Guard_move_def raw_step_def gd_sets split: option.splits if_splits\<close>, blast+)

lemma locks_inv_step:
  assumes inv: "\<forall>l. lk_inv (locks s l)" and ex: "gd_exec ev s = Some s'"
  shows "\<forall>l. lk_inv (locks s' l)"
  using locks_step [OF ex]
proof (elim disjE exE conjE)
  fix gd s1 assume "call_release gd s = Some s1" "locks s' = locks s1"
  then show ?thesis using release_locks [OF _ inv] by simp
next
  fix e l x assume "lk_exec e (locks s l) = Some x" "locks s' = (locks s) (l := x)"
  then show ?thesis using set_lock_inv [OF inv] by blast
qed (use inv in simp)

lemma gd_reaches_locks: "reaches gd_exec (gd_init m) s \<Longrightarrow> \<forall>l. lk_inv (locks s l)"
proof (induction rule: reaches.induct)
  case reaches_init
  show ?case using mx_init_inv rw_init_inv by (simp add: gd_init_def)
next
  case (reaches_step s e s')
  then show ?case using locks_inv_step by blast
qed

text \<open>Two holders of one lock are readers.\<close>

lemma holders_exclusive:
  assumes "lk_inv x" "lk_holds k c x" "lk_holds k' c' x" "c \<noteq> c'"
  shows "k = GRead \<and> k' = GRead"
proof (cases x)
  case (ObjMutex s)
  have "mx_sys.pcs s c = MxHolding" using assms(2) ObjMutex by (cases k) simp_all
  moreover have "mx_sys.pcs s c' = MxHolding" using assms(3) ObjMutex by (cases k') simp_all
  ultimately show ?thesis using assms(1,4) ObjMutex by (auto simp: mx_inv_def mx_owner_def split: CoMutexStatus.splits)
next
  case (ObjRW s)
  have r: "rw_inv s" using assms(1) ObjRW by simp
  have "k \<in> {GRead, GWrite}" using assms(2) ObjRW by (cases k) simp_all
  moreover have "k' \<in> {GRead, GWrite}" using assms(3) ObjRW by (cases k') simp_all
  moreover have "a \<in> writers s \<Longrightarrow> b \<notin> readers s \<and> (b \<in> writers s \<longrightarrow> b = a)" for a b
    using r by (cases "co_rwmutex.m_status (rw_sys.rw s)"; auto simp: rw_inv_def)
  then have "rw_sys.pcs s a = RwWriting \<Longrightarrow> rw_sys.pcs s b \<noteq> RwReading \<and> (rw_sys.pcs s b = RwWriting \<longrightarrow> b = a)" for a b
    by (simp add: readers_def writers_def)
  ultimately show ?thesis using assms(2-4) ObjRW by auto
qed

lemma owned_release:
  assumes inv: "gd_inv s" and g: "guards s g = Some gd" "m_owns gd" "user s g = None"
  shows "\<exists>l s'. g_mutex gd = Some l \<and> Guard_destroy g s = Some s' \<and> lk_idle (g_holder gd) (locks s' l)"
proof -
  obtain l where l: "g_mutex gd = Some l" "claims s l (g_holder gd) = Owned g" using guard_trueD(1) [OF inv g(1,2)] by blast
  have "lk_holds (g_class gd) (g_holder gd) (locks s l)" using claim_trueD [OF inv l(2)] g(1) by (auto simp: owning_def)
  from release_works [OF this] obtain y where "lk_exec (guard_release (g_class gd) (g_holder gd)) (locks s l) = Some y"
    "lk_idle (g_holder gd) y" by blast
  then show ?thesis using g l(1) by (simp add: Guard_destroy_def call_release_def gd_sets)
qed


section \<open>Properties\<close>

text \<open>C14. Guards keep the books: in every interleaving of guards, suspended lock calls, direct users of the locks, timers and
  cancellations, a guard that owns is backed by exactly the acquisition it says it owns, in the mode of its class; two guards own one lock only if both
  are read guards, of different acquisitions; whoever holds a lock is a direct user or has exactly one owning guard, so that failed and throwing constructors, failed tries, moves and self-moves
  leak nothing; and the destruction of an owning guard always releases its acquisition.\<close>

theorem guard_balance:
  assumes "reaches gd_exec (gd_init m) s"
  shows "(\<forall>g gd. guards s g = Some gd \<longrightarrow> m_owns gd \<longrightarrow>
      (\<exists>l. g_mutex gd = Some l \<and> lk_holds (g_class gd) (g_holder gd) (locks s l))) \<and>
    (\<forall>g h gd hd l. guards s g = Some gd \<longrightarrow> guards s h = Some hd \<longrightarrow> g \<noteq> h \<longrightarrow> m_owns gd \<longrightarrow> m_owns hd \<longrightarrow>
      g_mutex gd = Some l \<longrightarrow> g_mutex hd = Some l \<longrightarrow> g_class gd = GRead \<and> g_class hd = GRead \<and> g_holder gd \<noteq> g_holder hd) \<and>
    (\<forall>l c k. lk_holds k c (locks s l) \<longrightarrow> claims s l c = Raw \<or>
      (\<exists>!g. \<exists>gd. guards s g = Some gd \<and> m_owns gd \<and> g_mutex gd = Some l \<and> g_holder gd = c)) \<and>
    (\<forall>g gd. guards s g = Some gd \<longrightarrow> m_owns gd \<longrightarrow> user s g = None \<longrightarrow>
      (\<exists>l s'. g_mutex gd = Some l \<and> Guard_destroy g s = Some s' \<and> lk_idle (g_holder gd) (locks s' l)))"
proof -
  have inv: "gd_inv s" by (rule gd_reaches_inv [OF assms])
  have lk: "lk_inv (locks s l)" for l using gd_reaches_locks [OF assms] by simp
  have own: "\<exists>l. g_mutex gd = Some l \<and> claims s l (g_holder gd) = Owned g \<and> lk_holds (g_class gd) (g_holder gd) (locks s l)"
    if g: "guards s g = Some gd" "m_owns gd" for g gd
  proof -
    obtain l where l: "g_mutex gd = Some l" "claims s l (g_holder gd) = Owned g" using guard_trueD(1) [OF inv g] by blast
    then show ?thesis using claim_trueD [OF inv l(2)] g(1) by (auto simp: owning_def)
  qed
  have two: "g_class gd = GRead \<and> g_class hd = GRead \<and> g_holder gd \<noteq> g_holder hd"
    if "guards s g = Some gd" "guards s h = Some hd" "g \<noteq> h" "m_owns gd" "m_owns hd" "g_mutex gd = Some l" "g_mutex hd = Some l" for g h gd hd l
  proof -
    have o: "claims s l (g_holder gd) = Owned g" "lk_holds (g_class gd) (g_holder gd) (locks s l)"
      "claims s l (g_holder hd) = Owned h" "lk_holds (g_class hd) (g_holder hd) (locks s l)"
      using own [OF that(1,4)] own [OF that(2,5)] that(6,7) by auto
    then have "g_holder gd \<noteq> g_holder hd" using that(3) by auto
    then show ?thesis using holders_exclusive [OF lk o(2,4)] by blast
  qed
  have acc: "claims s l c = Raw \<or> (\<exists>!g. \<exists>gd. guards s g = Some gd \<and> m_owns gd \<and> g_mutex gd = Some l \<and> g_holder gd = c)"
    if h: "lk_holds k c (locks s l)" for l c k
  proof (cases "claims s l c")
    case NoClaim
    then show ?thesis using claim_trueD [OF inv NoClaim] holds_excludes [OF h] by simp
  next
    case (InCall g)
    then show ?thesis using claim_trueD [OF inv InCall] waits_excludes h by (auto simp: calling_def)
  next
    case (Owned g)
    have "\<exists>gd. guards s g = Some gd \<and> m_owns gd \<and> g_mutex gd = Some l \<and> g_holder gd = c"
      using claim_trueD [OF inv Owned] by (auto simp: owning_def)
    moreover have "f = g" if "\<exists>gd. guards s f = Some gd \<and> m_owns gd \<and> g_mutex gd = Some l \<and> g_holder gd = c" for f
      using that own [of f] Owned by auto
    ultimately show ?thesis by blast
  qed simp
  show ?thesis using own two acc owned_release [OF inv] by blast
qed

text \<open>Lock 0 is a mutex, lock 1 a read-write mutex: a unique guard and a read guard are taken, a second read guard, a write
  guard waits, the unique guard is moved, and a timed try on the mutex fails.\<close>

definition guard_demo :: "guard_event list" where
  "guard_demo = [GConstruct 0 GUnique 0 1 CtorLock WaitParked, GConstruct 1 GRead 1 1 CtorLock WaitParked,
     GConstruct 2 GRead 1 2 CtorTry WaitParked, GConstruct 3 GWrite 1 3 CtorLock WaitParked, GMove 4 0,
     GDefer 5 GUnique 0, GOp 5 6 OpTryFor WaitThrew]"

lemma guard_demo_run: "case run gd_exec guard_demo (gd_init 1) of None \<Rightarrow> False
  | Some s \<Rightarrow> guards s 4 = Some \<lparr>g_class = GUnique, g_mutex = Some 0, m_owns = True, g_holder = 1\<rparr> \<and>
      user s 4 = None \<and> map_option m_owns (guards s 5) = Some False \<and> user s 3 = Some (3, CtorLock)"
  by code_simp

theorem guard_balance_witness:
  "\<exists>s s'. run gd_exec guard_demo (gd_init 1) = Some s \<and> lk_holds GUnique 1 (locks s 0) \<and> map_option m_owns (guards s 5) = Some False \<and>
     Guard_destroy 4 s = Some s' \<and> lk_idle 1 (locks s' 0)"
proof -
  obtain s where s: "run gd_exec guard_demo (gd_init 1) = Some s" "user s 4 = None" "map_option m_owns (guards s 5) = Some False"
    "guards s 4 = Some \<lparr>g_class = GUnique, g_mutex = Some 0, m_owns = True, g_holder = 1\<rparr>"
    using guard_demo_run by (auto split: option.splits)
  note b = guard_balance [OF run_reaches [OF s(1)]]
  have "lk_holds GUnique 1 (locks s 0)" using b s(4) by fastforce
  moreover have "\<exists>s'. Guard_destroy 4 s = Some s' \<and> lk_idle 1 (locks s' 0)" using b s(2,4) by fastforce
  ultimately show ?thesis using s(1,3) by blast
qed

end
