(* ===== verification/SelectModel.thy ===== *)
theory SelectModel
  imports ChanModel
begin

text \<open>
  \<open>sync/CoSelect.hpp\<close>: waiting for several buffered channels at once, composed with the machine of theory
  \<open>ChanModel\<close>. Any number of selects run over any number of channels, with other readers, writers and closers
  in between; every operation of a channel (the three sections of \<open>TryRead\<close> included), every registration of a
  watcher and every decision of a wait is one step. A select makes its own waiter, one event of the store \<open>wst\<close>;
  a channel step notifies the watchers it poked. \<open>static_assert\<close> excludes unbuffered channels.
\<close>

section \<open>Watched channels\<close>

text \<open>The contract of a channel side towards its watchers: whatever makes it ready, and whatever closes it, notifies everyone
  who watches.\<close>

locale watched_side =
  fixes ex :: "'e \<Rightarrow> 's \<Rightarrow> 's option" and ready :: "'s \<Rightarrow> bool" and closed :: "'s \<Rightarrow> bool" and watch :: "'s \<Rightarrow> nat list" and pokes :: "'s \<Rightarrow> nat list"
  assumes closed_ready: "closed s \<Longrightarrow> ready s"
    and shuts: "ex e s = Some s' \<Longrightarrow> \<not> closed s \<Longrightarrow> closed s' \<Longrightarrow> set (watch s) \<subseteq> set (drop (length (pokes s)) (pokes s'))"
    and wakes: "ex e s = Some s' \<Longrightarrow> \<not> ready s \<Longrightarrow> ready s' \<Longrightarrow> set (watch s) \<subseteq> set (drop (length (pokes s)) (pokes s'))"
begin

lemma unnoticed: "ex e s = Some s' \<Longrightarrow> w \<in> set (watch s) \<Longrightarrow> w \<notin> set (drop (length (pokes s)) (pokes s')) \<Longrightarrow> ready s' \<Longrightarrow> ready s"
  using wakes by blast

lemma unnoticed_close: "ex e s = Some s' \<Longrightarrow> w \<in> set (watch s) \<Longrightarrow> w \<notin> set (drop (length (pokes s)) (pokes s')) \<Longrightarrow> closed s' \<Longrightarrow> closed s"
  using shuts by blast

lemma quiet_open: "\<not> ready s \<Longrightarrow> \<not> closed s"
  using closed_ready by blast

end

definition ready_read :: "ch_sys \<Rightarrow> bool" where
  "ready_read s \<longleftrightarrow> m_item_queue (ch s) \<noteq> [] \<or> IsClosed s"

definition ready_write :: "ch_sys \<Rightarrow> bool" where
  "ready_write s \<longleftrightarrow> length (m_item_queue (ch s)) < m_max_size (ch s) \<or> IsClosed s"

abbreviation read_watch :: "ch_sys \<Rightarrow> nat list" where "read_watch s \<equiv> m_read_watchers (ch s)"
abbreviation write_watch :: "ch_sys \<Rightarrow> nat list" where "write_watch s \<equiv> m_write_watchers (ch s)"

lemma poked_goto [simp]: "poked (goto_pc c p s) = poked s" "poked (ret c p r s) = poked s"
  by (simp_all add: goto_pc_def ret_def)

lemma poked_ops [simp]:
  "poked (OnEnableRead s) = poked s @ read_watch s" "poked (OnEnableWrite s) = poked s @ write_watch s"
  "poked (RegisterEnableWriteCond e b s) = poked s" "poked (RecheckEnableRead e s) = poked s"
  by (simp_all add: OnEnableRead_def OnEnableWrite_def RegisterEnableWriteCond_def RecheckEnableRead_def Let_def split: prod.splits)

lemma watch_ops [simp]:
  "read_watch (OnEnableRead s) = read_watch s" "read_watch (OnEnableWrite s) = read_watch s"
  "read_watch (push_item i s) = read_watch s" "read_watch (pop_item s) = read_watch s" "read_watch (Close s) = read_watch s"
  "write_watch (OnEnableRead s) = write_watch s" "write_watch (OnEnableWrite s) = write_watch s"
  "write_watch (push_item i s) = write_watch s" "write_watch (pop_item s) = write_watch s" "write_watch (Close s) = write_watch s"
  "read_watch (RegisterEnableWriteCond e b s) = read_watch s" "write_watch (RegisterEnableWriteCond e b s) = write_watch s"
  "read_watch (RecheckEnableRead e s) = read_watch s" "write_watch (RecheckEnableRead e s) = write_watch s"
  by (auto simp: OnEnableRead_def OnEnableWrite_def push_item_def pop_item_def Close_def RegisterEnableWriteCond_def RecheckEnableRead_def Let_def
      split: prod.splits)

lemma poked_push: "poked (push_item i s) = poked s @ (if m_is_reading (ch s) \<or> read_watch s \<noteq> [] then read_watch s else [])"
  by (simp add: push_item_def Let_def)

lemma poked_pop: "poked (pop_item s) = poked s @ write_watch s"
  by (simp add: pop_item_def)

lemma watch_pop_n [simp]: "read_watch (pop_n n s) = read_watch s" "write_watch (pop_n n s) = write_watch s"
  by (induction n arbitrary: s) simp_all

lemma poked_pop_n: "poked (pop_n n s) = poked s @ concat (replicate n (write_watch s))"
  by (induction n arbitrary: s) (simp_all add: poked_pop)

lemma poked_Close: "poked (Close s) = poked s @ (if IsClosed s then [] else (if m_is_reading (ch s) then read_watch s else []) @ read_watch s @ write_watch s)"
  by (simp add: Close_def Let_def)

lemma queue_pop_n [simp]: "m_item_queue (ch (pop_n n s)) = drop n (m_item_queue (ch s))"
  by (induction n arbitrary: s) (simp_all add: drop_Suc)

lemmas ready_defs = ready_read_def ready_write_def IsClosed_def
lemmas poke_facts = poked_push poked_pop poked_pop_n poked_Close

interpretation read_side: watched_side ch_exec ready_read IsClosed "\<lambda>s. read_watch s" poked
proof
  show "IsClosed s \<Longrightarrow> ready_read s" for s by (simp add: ready_read_def)
  fix e s s' assume "ch_exec e s = Some s'" "\<not> IsClosed s" "IsClosed s'"
  then show "set (read_watch s) \<subseteq> set (drop (length (poked s)) (poked s'))"
    by (cases e) (auto simp: ready_defs ch_defs poke_facts split: if_splits ch_pc.splits outcome.splits wait_setup.splits)
next
  fix e s s' assume "ch_exec e s = Some s'" "\<not> ready_read s" "ready_read s'"
  then show "set (read_watch s) \<subseteq> set (drop (length (poked s)) (poked s'))"
    by (cases e) (auto simp: ready_defs ch_defs poke_facts split: if_splits ch_pc.splits outcome.splits wait_setup.splits)
qed

interpretation write_side: watched_side ch_exec ready_write IsClosed "\<lambda>s. write_watch s" poked
proof
  show "IsClosed s \<Longrightarrow> ready_write s" for s by (simp add: ready_write_def)
  fix e s s' assume "ch_exec e s = Some s'" "\<not> IsClosed s" "IsClosed s'"
  then show "set (write_watch s) \<subseteq> set (drop (length (poked s)) (poked s'))"
    by (cases e) (auto simp: ready_defs ch_defs poke_facts split: if_splits ch_pc.splits outcome.splits wait_setup.splits)
next
  fix e s s' assume "ch_exec e s = Some s'" "\<not> ready_write s" "ready_write s'"
  then show "set (write_watch s) \<subseteq> set (drop (length (poked s)) (poked s'))"
    by (cases e) (auto simp: ready_defs ch_defs poke_facts split: if_splits ch_pc.splits outcome.splits wait_setup.splits)
qed


section \<open>Data\<close>

datatype sel_case = CaseRead nat | CaseWrite nat nat

fun case_chan :: "sel_case \<Rightarrow> nat" where
  "case_chan (CaseRead l) = l"
| "case_chan (CaseWrite l v) = l"

text \<open>The three passes of \<open>_TryAll\<close>: before waiting, in the suspending callback, after the wait.\<close>

datatype sel_pass = PassFirst | PassCallback | PassLast

text \<open>\<open>SelTry p i r\<close> is at case \<open>i\<close> of a pass, with the result \<open>r\<close> of a \<open>TryRead\<close> that still has to drop the reading flag;
  \<open>SelParked\<close> holds the index the callback found, \<open>SelClean\<close> the index to return.\<close>

datatype sel_pc =
    SelIdle
  | SelTry sel_pass nat "int option"
  | SelEnter
  | SelWatch nat
  | SelParked "nat option"
  | SelClean nat "nat option"

record sel_run =
  m_cases :: "sel_case list"
  m_timed :: bool
  m_has_default :: bool
  waiter :: nat
  spc :: sel_pc
  committed :: "nat list"
  contended :: bool

record sel_sys =
  chans :: "nat \<Rightarrow> ch_sys"
  wst :: event_store
  next_w :: nat
  runs :: "co_id \<Rightarrow> sel_run"
  results :: "(co_id \<times> int) list"

definition sel_run0 :: sel_run where
  "sel_run0 = \<lparr>m_cases = [], m_timed = False, m_has_default = False, waiter = 0, spc = SelIdle, committed = [], contended = False\<rparr>"

definition upd_run :: "co_id \<Rightarrow> (sel_run \<Rightarrow> sel_run) \<Rightarrow> sel_sys \<Rightarrow> sel_sys" where
  "upd_run c f s = s \<lparr>runs := (runs s) (c := f (runs s c))\<rparr>"

definition goto_sel :: "co_id \<Rightarrow> sel_pc \<Rightarrow> sel_sys \<Rightarrow> sel_sys" where
  "goto_sel c p = upd_run c (\<lambda>r. r \<lparr>spc := p\<rparr>)"

section \<open>Channel steps and their notifications\<close>

text \<open>\<open>CoWaiter::Notify\<close> of a watcher wins exactly if its wait is registered and undecided.\<close>

definition notify_watchers :: "nat list \<Rightarrow> event_store \<Rightarrow> event_store" where
  "notify_watchers ws t = fold (\<lambda>w. snd \<circ> ev_trigger w POLL_EVENT_CUSTOM) ws t"

definition chan_step :: "nat \<Rightarrow> ch_event \<Rightarrow> sel_sys \<Rightarrow> sel_sys option" where
  "chan_step l ev s = (case ch_exec ev (chans s l) of
       None \<Rightarrow> None
     | Some x \<Rightarrow> Some (s \<lparr>chans := (chans s) (l := x),
         wst := notify_watchers (drop (length (poked (chans s l))) (poked x)) (wst s)\<rparr>))"

section \<open>Run\<close>

definition IsReady :: "int \<Rightarrow> bool" where
  "IsReady r \<longleftrightarrow> r = 0 \<or> r = -1"

text \<open>The end of a pass: \<open>x\<close> is the case that was ready.\<close>

definition pass_done :: "co_id \<Rightarrow> sel_pass \<Rightarrow> nat option \<Rightarrow> sel_sys \<Rightarrow> sel_sys" where
  "pass_done c p x s = (case p of
       PassFirst \<Rightarrow> goto_sel c (if x \<noteq> None \<or> m_has_default (runs s c) then SelClean 0 x else SelEnter) s
     | PassCallback \<Rightarrow> goto_sel c (SelParked x)
         (if x \<noteq> None then s \<lparr>wst := snd (ev_trigger (waiter (runs s c)) POLL_EVENT_CUSTOM (wst s))\<rparr> else s)
     | PassLast \<Rightarrow> goto_sel c (SelClean 0 x) s)"

definition after_try :: "co_id \<Rightarrow> sel_pass \<Rightarrow> nat \<Rightarrow> int \<Rightarrow> sel_sys \<Rightarrow> sel_sys" where
  "after_try c p i r s =
     (if IsReady r then pass_done c p (Some i) s
      else if Suc i < length (m_cases (runs s c)) then goto_sel c (SelTry p (Suc i) None) s
      else pass_done c p None s)"

definition note_result :: "co_id \<Rightarrow> nat \<Rightarrow> int \<Rightarrow> sel_sys \<Rightarrow> sel_sys" where
  "note_result c i r = upd_run c (\<lambda>u. if r = 0 then u \<lparr>committed := committed u @ [i]\<rparr> else u)"

definition last_ret :: "nat \<Rightarrow> sel_sys \<Rightarrow> int" where
  "last_ret l s = snd (last (rets (chans s l)))"

text \<open>One step of the \<open>try_op\<close> of case \<open>i\<close>.\<close>

definition try_step :: "co_id \<Rightarrow> sel_pass \<Rightarrow> nat \<Rightarrow> int option \<Rightarrow> sel_sys \<Rightarrow> sel_sys option" where
  "try_step c p i res s = (case m_cases (runs s c) ! i of
       CaseWrite l v \<Rightarrow> map_option (\<lambda>t. after_try c p i (last_ret l t) (note_result c i (last_ret l t) t)) (chan_step l (CTryWrite c v) s)
     | CaseRead l \<Rightarrow> (case res of
         Some r \<Rightarrow> map_option (after_try c p i r) (chan_step l (CReadEnd c) s)
       | None \<Rightarrow>
           if pcs (chans s l) c = ChIdle then
             map_option (\<lambda>t. if pcs (chans t l) c = ChIdle
               then after_try c p i (last_ret l t) (upd_run c (\<lambda>u. u \<lparr>contended := contended u \<or> last_ret l t = -2\<rparr>) t)
               else t) (chan_step l (CReadBegin c RdNow) s)
           else map_option (\<lambda>t. goto_sel c (SelTry p i (Some (last_ret l t))) (note_result c i (last_ret l t) t))
             (chan_step l (CReadSection c False) s)))"

definition Run_begin :: "co_id \<Rightarrow> sel_case list \<Rightarrow> bool \<Rightarrow> bool \<Rightarrow> sel_sys \<Rightarrow> sel_sys option" where
  "Run_begin c cases timed dflt s =
     (if spc (runs s c) = SelIdle \<and> cases \<noteq> [] \<and>
        list_all (\<lambda>k. pcs (chans s (case_chan k)) c = ChIdle) cases
      then Some (s \<lparr>runs := (runs s) (c := \<lparr>m_cases = cases, m_timed = timed, m_has_default = dflt, waiter = next_w s,
          spc = SelTry PassFirst 0 None, committed = [], contended = False\<rparr>),
        next_w := Suc (next_w s), wst := (wst s) (next_w s := Gone)\<rparr>)
      else None)"

text \<open>The wait: on a registered event the callback runs; a wait that could not be set up returns at once, without it.\<close>

definition Run_wait :: "co_id \<Rightarrow> wait_setup \<Rightarrow> sel_sys \<Rightarrow> sel_sys" where
  "Run_wait c su s = (case su of
       WaitParked \<Rightarrow> goto_sel c (SelWatch 0) (s \<lparr>wst := (wst s) (waiter (runs s c) := Waiting)\<rparr>)
     | WaitThrew \<Rightarrow> goto_sel c SelIdle s
     | _ \<Rightarrow> goto_sel c (SelTry PassLast 0 None) s)"

definition add_watcher :: "sel_case \<Rightarrow> nat \<Rightarrow> sel_sys \<Rightarrow> sel_sys option" where
  "add_watcher k w s = (case k of CaseRead l \<Rightarrow> chan_step l (CAddRead w) s | CaseWrite l _ \<Rightarrow> chan_step l (CAddWrite w) s)"

definition remove_watcher :: "sel_case \<Rightarrow> nat \<Rightarrow> sel_sys \<Rightarrow> sel_sys option" where
  "remove_watcher k w s = (case k of CaseRead l \<Rightarrow> chan_step l (CRemoveRead w) s | CaseWrite l _ \<Rightarrow> chan_step l (CRemoveWrite w) s)"

definition Run_watch :: "co_id \<Rightarrow> nat \<Rightarrow> sel_sys \<Rightarrow> sel_sys option" where
  "Run_watch c k s = map_option (goto_sel c (if Suc k < length (m_cases (runs s c)) then SelWatch (Suc k) else SelTry PassCallback 0 None))
     (add_watcher (m_cases (runs s c) ! k) (waiter (runs s c)) s)"

definition Run_wake :: "co_id \<Rightarrow> nat option \<Rightarrow> sel_sys \<Rightarrow> sel_sys option" where
  "Run_wake c x s = (case wst s (waiter (runs s c)) of
       Won _ \<Rightarrow> Some (goto_sel c (if x = None then SelTry PassLast 0 None else SelClean 0 x) s)
     | _ \<Rightarrow> None)"

definition index_of :: "nat option \<Rightarrow> int" where
  "index_of x = (case x of None \<Rightarrow> -1 | Some i \<Rightarrow> int i)"

definition Run_clean :: "co_id \<Rightarrow> nat \<Rightarrow> nat option \<Rightarrow> sel_sys \<Rightarrow> sel_sys option" where
  "Run_clean c k x s = map_option (\<lambda>t. if Suc k < length (m_cases (runs s c)) then goto_sel c (SelClean (Suc k) x) t
       else (goto_sel c SelIdle t) \<lparr>results := results t @ [(c, index_of x)]\<rparr>)
     (remove_watcher (m_cases (runs s c) ! k) (waiter (runs s c)) s)"

section \<open>The machine\<close>

datatype sel_event =
    ERun co_id "sel_case list" bool bool
  | EStep co_id wait_setup
  | EChan nat ch_event
  | EDecideSel co_id u16

fun ch_actor :: "ch_event \<Rightarrow> co_id option" where
  "ch_actor (CWrite c _) = Some c" | "ch_actor (CTryWrite c _) = Some c" | "ch_actor (CTryWriteMs c _ _) = Some c"
| "ch_actor (CWritePark c _ _) = Some c" | "ch_actor (CWriteWake c) = Some c" | "ch_actor (CWriteLock c _) = Some c"
| "ch_actor (CReadBegin c _) = Some c" | "ch_actor (CReadSection c _) = Some c" | "ch_actor (CReadPark c _ _) = Some c"
| "ch_actor (CReadWake c) = Some c" | "ch_actor (CReadEnd c) = Some c"
| "ch_actor _ = None"

fun watcher_event :: "ch_event \<Rightarrow> bool" where
  "watcher_event (CAddRead _) \<longleftrightarrow> True" | "watcher_event (CRemoveRead _) \<longleftrightarrow> True"
| "watcher_event (CAddWrite _) \<longleftrightarrow> True" | "watcher_event (CRemoveWrite _) \<longleftrightarrow> True"
| "watcher_event _ \<longleftrightarrow> False"

definition sel_step :: "co_id \<Rightarrow> wait_setup \<Rightarrow> sel_sys \<Rightarrow> sel_sys option" where
  "sel_step c su s = (case spc (runs s c) of
       SelIdle \<Rightarrow> None
     | SelTry p i r \<Rightarrow> try_step c p i r s
     | SelEnter \<Rightarrow> Some (Run_wait c su s)
     | SelWatch k \<Rightarrow> Run_watch c k s
     | SelParked x \<Rightarrow> Run_wake c x s
     | SelClean k x \<Rightarrow> Run_clean c k x s)"

text \<open>Other coroutines use the channels directly; a wait with a timeout may time out, any wait may be cancelled.\<close>

fun sel_exec :: "sel_event \<Rightarrow> sel_sys \<Rightarrow> sel_sys option" where
  "sel_exec (ERun c cases timed dflt) s = Run_begin c cases timed dflt s"
| "sel_exec (EStep c su) s = sel_step c su s"
| "sel_exec (EChan l ev) s =
     (if \<not> watcher_event ev \<and> (case ch_actor ev of None \<Rightarrow> True | Some c \<Rightarrow> spc (runs s c) = SelIdle) then chan_step l ev s else None)"
| "sel_exec (EDecideSel c f) s =
     (if spc (runs s c) \<noteq> SelIdle \<and> wst s (waiter (runs s c)) = Waiting \<and> (f = POLL_EVENT_CANCELLED \<or> f = POLL_EVENT_TIMEOUT \<and> m_timed (runs s c))
      then Some (s \<lparr>wst := (wst s) (waiter (runs s c) := Won f)\<rparr>) else None)"

definition sel_init :: "(nat \<Rightarrow> nat) \<Rightarrow> sel_sys" where
  "sel_init cap = \<lparr>chans = \<lambda>l. ch_init (cap l), wst = \<lambda>_. Gone, next_w = 0, runs = \<lambda>_. sel_run0, results = []\<rparr>"

section \<open>Channels seen from a select\<close>

lemma notify_watchers_iff: "notify_watchers ws t w = Waiting \<longleftrightarrow> t w = Waiting \<and> w \<notin> set ws"
  unfolding notify_watchers_def
  by (induction ws arbitrary: t) (auto simp: ev_trigger_def custom_neq_0)

lemma ch_step_frame: "ch_exec e s = Some s' \<Longrightarrow> ch_actor e \<noteq> Some c \<Longrightarrow> pcs s' c = pcs s c"
  by (cases e) (auto simp: ch_defs split: if_splits ch_pc.splits outcome.splits wait_setup.splits)

interpretation channel_users: participants ch_exec ch_actor pcs
  by unfold_locales (rule ch_step_frame)

lemma watch_frame:
  assumes "ch_exec e s = Some s'" "\<not> watcher_event e"
  shows "read_watch s' = read_watch s" "write_watch s' = write_watch s"
  using assms by (cases e; auto simp: ch_defs split: if_splits ch_pc.splits outcome.splits wait_setup.splits)+

lemma closed_frame: "ch_exec e s = Some s' \<Longrightarrow> IsClosed s \<Longrightarrow> IsClosed s'"
  by (cases e) (auto simp: ch_defs IsClosed_def split: if_splits ch_pc.splits outcome.splits wait_setup.splits)

lemma TryWrite_result:
  assumes "ch_exec (CTryWrite c v) s = Some s'"
  shows "pcs s' c = ChIdle" "snd (last (rets s')) = 0 \<or> snd (last (rets s')) = -1 \<and> IsClosed s' \<or> snd (last (rets s')) = -2 \<and> \<not> ready_write s'"
  using assms by (auto simp: ch_defs ready_defs split: if_splits)

lemma TryRead_begin:
  assumes "ch_exec (CReadBegin c RdNow) s = Some s'" "pcs s' c = ChIdle"
  shows "snd (last (rets s')) = -1 \<and> IsClosed s' \<or> snd (last (rets s')) = -2"
  using assms by (auto simp: ch_defs IsClosed_def split: if_splits)

lemma TryRead_begun: "ch_exec (CReadBegin c RdNow) s = Some s' \<Longrightarrow> pcs s' c \<noteq> ChIdle \<Longrightarrow> pcs s' c = RdStart RdNow \<and> \<not> IsClosed s'"
  by (auto simp: ch_defs IsClosed_def split: if_splits)

lemma TryRead_section:
  assumes "ch_exec (CReadSection c x) s = Some s'" "pcs s c = RdStart RdNow"
  shows "pcs s' c = RdDone" "snd (last (rets s')) = 0 \<or> snd (last (rets s')) = -2 \<and> (\<not> IsClosed s \<longrightarrow> \<not> ready_read s')"
  using assms by (auto simp: ch_defs ready_defs split: if_splits)


section \<open>Invariant\<close>

type_synonym chan_map = "nat \<Rightarrow> ch_sys"

fun is_read :: "sel_case \<Rightarrow> bool" where
  "is_read (CaseRead l) \<longleftrightarrow> True"
| "is_read (CaseWrite l v) \<longleftrightarrow> False"

fun watched :: "chan_map \<Rightarrow> nat \<Rightarrow> sel_case \<Rightarrow> bool" where
  "watched C w (CaseRead l) \<longleftrightarrow> w \<in> set (read_watch (C l))"
| "watched C w (CaseWrite l v) \<longleftrightarrow> w \<in> set (write_watch (C l))"

fun case_ready :: "chan_map \<Rightarrow> sel_case \<Rightarrow> bool" where
  "case_ready C (CaseRead l) \<longleftrightarrow> ready_read (C l)"
| "case_ready C (CaseWrite l v) \<longleftrightarrow> ready_write (C l)"

text \<open>Nothing to do in case \<open>k\<close>, as long as nobody has notified the waiter.\<close>

definition quiet :: "chan_map \<Rightarrow> event_store \<Rightarrow> sel_run \<Rightarrow> sel_case \<Rightarrow> bool" where
  "quiet C t u k \<longleftrightarrow> (t (waiter u) = Waiting \<longrightarrow> \<not> contended u \<longrightarrow> \<not> case_ready C k)"

definition begun :: "chan_map \<Rightarrow> event_store \<Rightarrow> co_id \<Rightarrow> sel_run \<Rightarrow> sel_case \<Rightarrow> bool" where
  "begun C t c u k \<longleftrightarrow> (case k of CaseRead l \<Rightarrow> pcs (C l) c \<noteq> ChIdle \<longrightarrow> t (waiter u) = Waiting \<longrightarrow> \<not> IsClosed (C l) | CaseWrite _ _ \<Rightarrow> True)"

definition hit :: "chan_map \<Rightarrow> sel_run \<Rightarrow> nat \<Rightarrow> bool" where
  "hit C u i \<longleftrightarrow> i < length (m_cases u) \<and> (committed u = [i] \<or> committed u = [] \<and> IsClosed (C (case_chan (m_cases u ! i))))"

abbreviation all_watched :: "chan_map \<Rightarrow> sel_run \<Rightarrow> bool" where
  "all_watched C u \<equiv> list_all (watched C (waiter u)) (m_cases u)"

fun pc_ok :: "chan_map \<Rightarrow> event_store \<Rightarrow> co_id \<Rightarrow> sel_run \<Rightarrow> sel_pc \<Rightarrow> bool" where
  "pc_ok C t c u SelIdle \<longleftrightarrow> True"
| "pc_ok C t c u (SelTry p i None) \<longleftrightarrow> i < length (m_cases u) \<and> committed u = [] \<and>
     (p = PassCallback \<longrightarrow> all_watched C u \<and> (\<forall>j<i. quiet C t u (m_cases u ! j)) \<and> begun C t c u (m_cases u ! i))"
| "pc_ok C t c u (SelTry p i (Some r)) \<longleftrightarrow> i < length (m_cases u) \<and> (\<exists>l. m_cases u ! i = CaseRead l) \<and>
     (r = 0 \<and> committed u = [i] \<or> r = -2 \<and> committed u = []) \<and>
     (p = PassCallback \<longrightarrow> all_watched C u \<and> (\<forall>j<i. quiet C t u (m_cases u ! j)) \<and> (r \<noteq> 0 \<longrightarrow> quiet C t u (m_cases u ! i)))"
| "pc_ok C t c u SelEnter \<longleftrightarrow> committed u = [] \<and> m_cases u \<noteq> []"
| "pc_ok C t c u (SelWatch k) \<longleftrightarrow> k < length (m_cases u) \<and> committed u = [] \<and> (\<forall>j<k. watched C (waiter u) (m_cases u ! j))"
| "pc_ok C t c u (SelParked None) \<longleftrightarrow> committed u = [] \<and> m_cases u \<noteq> [] \<and> all_watched C u \<and> list_all (quiet C t u) (m_cases u)"
| "pc_ok C t c u (SelParked (Some i)) \<longleftrightarrow> hit C u i \<and> t (waiter u) \<noteq> Waiting"
| "pc_ok C t c u (SelClean k x) \<longleftrightarrow> k < length (m_cases u) \<and> (case x of None \<Rightarrow> committed u = [] | Some i \<Rightarrow> hit C u i)"

text \<open>Where the coroutine of a select is inside the channels of its cases.\<close>

definition tryread_pc :: "sel_run \<Rightarrow> nat \<Rightarrow> ch_pc \<Rightarrow> bool" where
  "tryread_pc u l p \<longleftrightarrow> (case spc u of
       SelTry _ i r \<Rightarrow> if m_cases u ! i = CaseRead l then (if r = None then p \<in> {ChIdle, RdStart RdNow} else p = RdDone) else p = ChIdle
     | _ \<Rightarrow> p = ChIdle)"

definition run_ok :: "chan_map \<Rightarrow> event_store \<Rightarrow> co_id \<Rightarrow> sel_run \<Rightarrow> bool" where
  "run_ok C t c u \<longleftrightarrow> pc_ok C t c u (spc u) \<and> (spc u \<noteq> SelIdle \<longrightarrow> (\<forall>k \<in> set (m_cases u). tryread_pc u (case_chan k) (pcs (C (case_chan k)) c)))"

text \<open>The cases whose channels may still have the waiter in a list.\<close>

fun watch_left :: "sel_pc \<Rightarrow> nat \<Rightarrow> bool" where
  "watch_left (SelWatch k) j \<longleftrightarrow> j < k"
| "watch_left (SelTry p i r) j \<longleftrightarrow> p \<noteq> PassFirst"
| "watch_left (SelParked x) j \<longleftrightarrow> True"
| "watch_left (SelClean k x) j \<longleftrightarrow> k \<le> j"
| "watch_left _ j \<longleftrightarrow> False"

definition owned_watch :: "sel_sys \<Rightarrow> nat \<Rightarrow> (sel_case \<Rightarrow> bool) \<Rightarrow> bool" where
  "owned_watch s w P \<longleftrightarrow> (\<exists>c j. waiter (runs s c) = w \<and> j < length (m_cases (runs s c)) \<and> watch_left (spc (runs s c)) j \<and> P (m_cases (runs s c) ! j))"

definition watch_inv :: "sel_sys \<Rightarrow> bool" where
  "watch_inv s \<longleftrightarrow> (\<forall>l. (\<forall>w \<in> set (read_watch (chans s l)). owned_watch s w (\<lambda>k. k = CaseRead l)) \<and>
     (\<forall>w \<in> set (write_watch (chans s l)). owned_watch s w (\<lambda>k. \<exists>v. k = CaseWrite l v)))"

definition fresh_inv :: "sel_sys \<Rightarrow> bool" where
  "fresh_inv s \<longleftrightarrow> (\<forall>c. spc (runs s c) \<noteq> SelIdle \<longrightarrow> waiter (runs s c) < next_w s) \<and>
     (\<forall>c d. spc (runs s c) \<noteq> SelIdle \<longrightarrow> spc (runs s d) \<noteq> SelIdle \<longrightarrow> waiter (runs s c) = waiter (runs s d) \<longrightarrow> c = d)"

definition sel_inv :: "sel_sys \<Rightarrow> bool" where
  "sel_inv s \<longleftrightarrow> (\<forall>c. run_ok (chans s) (wst s) c (runs s c)) \<and> watch_inv s \<and> fresh_inv s"

lemma sel_init_inv: "sel_inv (sel_init cap)"
  by (simp add: sel_inv_def sel_init_def run_ok_def watch_inv_def fresh_inv_def sel_run0_def ch_init_def NewChan_def)

section \<open>What a channel step does to a select\<close>

text \<open>The effect of a step of channel \<open>l\<close> on the channels and on the waits.\<close>

definition chan_effect :: "nat \<Rightarrow> ch_event \<Rightarrow> chan_map \<Rightarrow> event_store \<Rightarrow> chan_map \<Rightarrow> event_store \<Rightarrow> bool" where
  "chan_effect l ev C t C' t' \<longleftrightarrow> (\<exists>x. ch_exec ev (C l) = Some x \<and> C' = C (l := x) \<and>
     t' = notify_watchers (drop (length (poked (C l))) (poked x)) t)"

lemma chan_step_effect:
  "chan_step l ev s = Some s' \<longleftrightarrow> (\<exists>C' t'. chan_effect l ev (chans s) (wst s) C' t' \<and> s' = s \<lparr>chans := C', wst := t'\<rparr>)"
  by (auto simp: chan_step_def chan_effect_def split: option.splits)

lemma effect_closed: "chan_effect l ev C t C' t' \<Longrightarrow> IsClosed (C m) \<Longrightarrow> IsClosed (C' m)"
  using closed_frame by (auto simp: chan_effect_def)

lemma effect_pcs: "chan_effect l ev C t C' t' \<Longrightarrow> ch_actor ev \<noteq> Some c \<Longrightarrow> pcs (C' m) c = pcs (C m) c"
  using ch_step_frame by (auto simp: chan_effect_def)

lemma effect_waiting: "chan_effect l ev C t C' t' \<Longrightarrow> t' w = Waiting \<Longrightarrow> t w = Waiting"
  by (auto simp: chan_effect_def notify_watchers_iff)

lemma effect_watched:
  assumes "chan_effect l ev C t C' t'" "\<not> watcher_event ev"
  shows "watched C' w k = watched C w k"
proof -
  obtain x where x: "ch_exec ev (C l) = Some x" "C' = C (l := x)" using assms(1) by (auto simp: chan_effect_def)
  show ?thesis using x(2) watch_frame [OF x(1) assms(2)] by (cases k) auto
qed

lemma effect_ready:
  assumes "chan_effect l ev C t C' t'" "watched C w k" "t' w = Waiting" "case_ready C' k"
  shows "case_ready C k"
proof -
  obtain x where x: "ch_exec ev (C l) = Some x" "C' = C (l := x)" "w \<notin> set (drop (length (poked (C l))) (poked x))"
    using assms(1,3) by (auto simp: chan_effect_def notify_watchers_iff)
  show ?thesis
    using assms(2,4) x(2) read_side.unnoticed [OF x(1) _ x(3)] write_side.unnoticed [OF x(1) _ x(3)]
    by (cases k) (auto split: if_splits)
qed

lemma effect_close:
  assumes "chan_effect l ev C t C' t'" "watched C w k" "t' w = Waiting" "IsClosed (C' (case_chan k))"
  shows "IsClosed (C (case_chan k))"
proof -
  obtain x where x: "ch_exec ev (C l) = Some x" "C' = C (l := x)" "w \<notin> set (drop (length (poked (C l))) (poked x))"
    using assms(1,3) by (auto simp: chan_effect_def notify_watchers_iff)
  show ?thesis
    using assms(2,4) x(2) read_side.unnoticed_close [OF x(1) _ x(3)] write_side.unnoticed_close [OF x(1) _ x(3)]
    by (cases k) (auto split: if_splits)
qed


lemma list_all_mono': "list_all P xs \<Longrightarrow> (\<And>x. x \<in> set xs \<Longrightarrow> P x \<Longrightarrow> Q x) \<Longrightarrow> list_all Q xs"
  by (auto simp: list_all_iff)

text \<open>A step of a channel by somebody else leaves a select as it was: what it makes ready it notifies.\<close>

lemma run_ok_effect:
  assumes ok: "run_ok C t c u" and eff: "chan_effect l ev C t C' t'"
    and act: "spc u \<noteq> SelIdle \<Longrightarrow> ch_actor ev \<noteq> Some c"
    and keep: "\<And>k. watched C (waiter u) k \<Longrightarrow> watched C' (waiter u) k"
  shows "run_ok C' t' c u"
proof (cases "spc u = SelIdle")
  case True
  then show ?thesis by (simp add: run_ok_def)
next
  case False
  have P: "pcs (C' m) c = pcs (C m) c" for m by (rule effect_pcs [OF eff act [OF False]])
  have Q: "quiet C' t' u k" if "watched C (waiter u) k" "quiet C t u k" for k
    using effect_ready [OF eff that(1)] effect_waiting [OF eff] that(2) unfolding quiet_def by blast
  have B: "begun C' t' c u k" if "watched C (waiter u) k" "begun C t c u k" for k
    using effect_close [OF eff that(1)] effect_waiting [OF eff] that(2) P unfolding begun_def by (cases k) auto
  have H: "hit C' u i" if "hit C u i" for i using that effect_closed [OF eff] unfolding hit_def by blast
  have A: "all_watched C' u" if "all_watched C u" using that keep by (auto simp: list_all_iff)
  have W: "t' (waiter u) \<noteq> Waiting" if "t (waiter u) \<noteq> Waiting" using effect_waiting [OF eff] that by blast
  have pc: "pc_ok C t c u (spc u)" using ok by (simp add: run_ok_def)
  have "pc_ok C' t' c u (spc u)"
  proof (cases "(C, t, c, u, spc u)" rule: pc_ok.cases)
    case (2 C0 t0 c0 u0 p i)
    then show ?thesis using pc A Q B by (auto simp: list_all_length)
  next
    case (3 C0 t0 c0 u0 p i r)
    then show ?thesis using pc A Q by (auto simp: list_all_length)
  next
    case (5 C0 t0 c0 u0 k)
    then show ?thesis using pc keep by auto
  next
    case (6 C0 t0 c0 u0)
    then show ?thesis using pc A Q by (auto simp: list_all_iff)
  next
    case (7 C0 t0 c0 u0 i)
    then show ?thesis using pc H W by auto
  next
    case (8 C0 t0 c0 u0 k x)
    then show ?thesis using pc H by (auto split: option.splits)
  qed (use pc in auto)
  then show ?thesis using ok False by (simp add: run_ok_def P)
qed


lemma effect_quiet:
  assumes "chan_effect l ev C t C' t'" "watched C (waiter u) k" "quiet C t u k"
  shows "quiet C' t' u k"
  using effect_ready [OF assms(1,2)] effect_waiting [OF assms(1)] assms(3) unfolding quiet_def by blast

lemma effect_all_watched: "chan_effect l ev C t C' t' \<Longrightarrow> \<not> watcher_event ev \<Longrightarrow> all_watched C u \<Longrightarrow> all_watched C' u"
  by (simp add: list_all_iff effect_watched)

text \<open>Nothing depends on a wait that is decided later.\<close>

lemma run_ok_wst:
  assumes ok: "run_ok C t c u" and w0: "spc u \<noteq> SelIdle \<Longrightarrow> t' (waiter u) = Waiting \<Longrightarrow> t (waiter u) = Waiting"
  shows "run_ok C t' c u"
proof (cases "spc u = SelIdle")
  case True
  then show ?thesis by (simp add: run_ok_def)
next
  case False
  note w = w0 [OF False]
  have Q: "quiet C t' u k" if "quiet C t u k" for k using that w unfolding quiet_def by blast
  have B: "begun C t' c u k" if "begun C t c u k" for k using that w unfolding begun_def by (cases k) auto
  have pc: "pc_ok C t c u (spc u)" using ok by (simp add: run_ok_def)
  have "pc_ok C t' c u (spc u)"
  proof (cases "(C, t, c, u, spc u)" rule: pc_ok.cases)
    case (2 C0 t0 c0 u0 p i)
    then show ?thesis using pc Q B by auto
  next
    case (3 C0 t0 c0 u0 p i r)
    then show ?thesis using pc Q by auto
  next
    case (6 C0 t0 c0 u0)
    then show ?thesis using pc Q by (auto simp: list_all_iff)
  next
    case (7 C0 t0 c0 u0 i)
    then show ?thesis using pc w by auto
  qed (use pc in auto)
  then show ?thesis using ok by (simp add: run_ok_def)
qed

lemma spc_irrelevant [simp]:
  "hit C (u \<lparr>spc := x\<rparr>) i = hit C u i" "quiet C t (u \<lparr>spc := x\<rparr>) k = quiet C t u k" "begun C t c (u \<lparr>spc := x\<rparr>) k = begun C t c u k"
  "list_all (quiet C t (u \<lparr>spc := x\<rparr>)) ks = list_all (quiet C t u) ks"
  by (simp_all add: hit_def quiet_def begun_def list_all_iff split: sel_case.split)

lemma idle_begun: "pcs (C (case_chan k)) c = ChIdle \<Longrightarrow> begun C t c u k"
  by (cases k) (simp_all add: begun_def)

section \<open>The steps of a select\<close>

lemmas sel_moves = goto_sel_def upd_run_def note_result_def pass_done_def after_try_def

lemma after_try_frame:
  shows "chans (after_try c p i r s) = chans s" "next_w (after_try c p i r s) = next_w s" "results (after_try c p i r s) = results s"
    "d \<noteq> c \<Longrightarrow> runs (after_try c p i r s) d = runs s d" "\<exists>x. runs (after_try c p i r s) c = (runs s c) \<lparr>spc := x\<rparr> \<and> (\<forall>j. p \<noteq> PassFirst \<longrightarrow> watch_left x j)"
    "wst (after_try c p i r s) w = Waiting \<Longrightarrow> wst s w = Waiting"
  by (cases p; auto simp: sel_moves ev_trigger_def split: if_splits)+

lemma after_try_ok:
  assumes i: "i < length (m_cases (runs s c))"
    and idle: "\<forall>k \<in> set (m_cases (runs s c)). pcs (chans s (case_chan k)) c = ChIdle"
    and ready: "IsReady r \<Longrightarrow> hit (chans s) (runs s c) i" "\<not> IsReady r \<Longrightarrow> committed (runs s c) = []"
    and cb: "p = PassCallback \<Longrightarrow> all_watched (chans s) (runs s c)"
      "p = PassCallback \<Longrightarrow> \<not> IsReady r \<Longrightarrow> \<forall>j\<le>i. quiet (chans s) (wst s) (runs s c) (m_cases (runs s c) ! j)"
  shows "run_ok (chans (after_try c p i r s)) (wst (after_try c p i r s)) c (runs (after_try c p i r s) c)"
proof -
  let ?u = "runs s c" and ?n = "length (m_cases (runs s c))"
  have T: "\<forall>k \<in> set (m_cases ?u). tryread_pc (?u \<lparr>spc := x\<rparr>) (case_chan k) (pcs (chans s (case_chan k)) c)"
    if "\<forall>p' i' r'. x = SelTry p' i' r' \<longrightarrow> r' = None" for x
    using idle that by (auto simp: tryread_pc_def split: sel_pc.split)
  show ?thesis
  proof (cases "IsReady r")
    case True
    then show ?thesis using T i ready(1) by (cases p) (auto simp: run_ok_def sel_moves ev_trigger_def custom_neq_0)
  next
    case False
    have Q: "p = PassCallback \<Longrightarrow> ?n = Suc i \<Longrightarrow> list_all (quiet (chans s) (wst s) ?u) (m_cases ?u)"
      using cb(2) [OF _ False] by (auto simp: list_all_length less_Suc_eq_le)
    have B: "Suc i < ?n \<Longrightarrow> begun (chans s) (wst s) c ?u (m_cases ?u ! Suc i)" using idle by (intro idle_begun) simp
    show ?thesis
    proof (cases "Suc i < ?n")
      case True
      then show ?thesis using T False ready(2) cb B by (auto simp: run_ok_def sel_moves less_Suc_eq_le)
    next
      case l: False
      then have n: "?n = Suc i" "m_cases ?u \<noteq> []" using i by auto
      then show ?thesis using T False ready(2) cb(1) Q l by (cases p) (auto simp: run_ok_def sel_moves)
    qed
  qed
qed


section \<open>What a step of a select does to the others\<close>

definition own_move :: "co_id \<Rightarrow> sel_sys \<Rightarrow> sel_sys \<Rightarrow> bool" where
  "own_move c s s' \<longleftrightarrow> (\<exists>C' t'. (C' = chans s \<and> t' = wst s \<or>
        (\<exists>l ev. chan_effect l ev (chans s) (wst s) C' t' \<and> (\<forall>d. ch_actor ev = Some d \<longrightarrow> d = c) \<and>
          (\<forall>w k. w \<noteq> waiter (runs s c) \<longrightarrow> watched (chans s) w k \<longrightarrow> watched C' w k))) \<and>
      chans s' = C' \<and> (\<forall>w. w \<noteq> waiter (runs s c) \<longrightarrow> wst s' w = Waiting \<longrightarrow> t' w = Waiting)) \<and>
    (\<forall>d. d \<noteq> c \<longrightarrow> runs s' d = runs s d) \<and> next_w s' = next_w s \<and>
    waiter (runs s' c) = waiter (runs s c) \<and> m_cases (runs s' c) = m_cases (runs s c)"

lemma own_move_plain:
  assumes "chans s' = chans s" "\<And>w. w \<noteq> waiter (runs s c) \<Longrightarrow> wst s' w = Waiting \<Longrightarrow> wst s w = Waiting" "\<And>d. d \<noteq> c \<Longrightarrow> runs s' d = runs s d"
    "next_w s' = next_w s" "waiter (runs s' c) = waiter (runs s c)" "m_cases (runs s' c) = m_cases (runs s c)"
  shows "own_move c s s'"
  using assms unfolding own_move_def by blast

lemma own_move_chan:
  assumes "chan_step l ev s = Some t" "\<And>d. ch_actor ev = Some d \<Longrightarrow> d = c"
    "\<And>w k. w \<noteq> waiter (runs s c) \<Longrightarrow> watched (chans s) w k \<Longrightarrow> watched (chans t) w k"
    "chans s' = chans t" "\<And>w. wst s' w = Waiting \<Longrightarrow> wst t w = Waiting" "\<And>d. d \<noteq> c \<Longrightarrow> runs s' d = runs t d"
    "next_w s' = next_w t" "waiter (runs s' c) = waiter (runs t c)" "m_cases (runs s' c) = m_cases (runs t c)"
  shows "own_move c s s'"
proof -
  obtain C' t' where e: "chan_effect l ev (chans s) (wst s) C' t'" "t = s \<lparr>chans := C', wst := t'\<rparr>"
    using assms(1) by (auto simp: chan_step_effect)
  have t: "chans t = C'" "wst t = t'" "runs t = runs s" "next_w t = next_w s" using e(2) by simp_all
  have "(\<exists>l ev. chan_effect l ev (chans s) (wst s) (chans t) (wst t) \<and> (\<forall>d. ch_actor ev = Some d \<longrightarrow> d = c) \<and>
      (\<forall>w k. w \<noteq> waiter (runs s c) \<longrightarrow> watched (chans s) w k \<longrightarrow> watched (chans t) w k))"
    using e(1) assms(2,3) t by blast
  then show ?thesis unfolding own_move_def using assms(4-9) t(3,4) by (metis (no_types))
qed

lemma own_move_others:
  assumes "sel_inv s" "own_move c s s'" "d \<noteq> c" "spc (runs s c) \<noteq> SelIdle"
  shows "run_ok (chans s') (wst s') d (runs s' d)"
proof -
  have ok: "run_ok (chans s) (wst s) d (runs s d)" using assms(1) by (simp add: sel_inv_def)
  have r: "runs s' d = runs s d" using assms(2,3) by (simp add: own_move_def)
  have w: "waiter (runs s d) \<noteq> waiter (runs s c)" if "spc (runs s d) \<noteq> SelIdle"
    using assms(1,3,4) that by (auto simp: sel_inv_def fresh_inv_def)
  obtain C' t' where eff: "C' = chans s \<and> t' = wst s \<or>
        (\<exists>l ev. chan_effect l ev (chans s) (wst s) C' t' \<and> (\<forall>d. ch_actor ev = Some d \<longrightarrow> d = c) \<and>
          (\<forall>w k. w \<noteq> waiter (runs s c) \<longrightarrow> watched (chans s) w k \<longrightarrow> watched C' w k))"
      and C: "chans s' = C'" and t: "\<And>w. w \<noteq> waiter (runs s c) \<Longrightarrow> wst s' w = Waiting \<Longrightarrow> t' w = Waiting"
    using assms(2) unfolding own_move_def by blast
  have "run_ok C' t' d (runs s d)"
  proof (cases "spc (runs s d) = SelIdle")
    case True
    then show ?thesis by (simp add: run_ok_def)
  next
    case False
    from eff show ?thesis
    proof (elim disjE exE conjE)
      fix l ev assume e: "chan_effect l ev (chans s) (wst s) C' t'" "\<forall>d. ch_actor ev = Some d \<longrightarrow> d = c"
        "\<forall>w k. w \<noteq> waiter (runs s c) \<longrightarrow> watched (chans s) w k \<longrightarrow> watched C' w k"
      show ?thesis
        by (rule run_ok_effect [OF ok e(1)]) (use e(2,3) assms(3) w [OF False] in auto)
    qed (use ok in simp)
  qed
  then have "run_ok C' (wst s') d (runs s d)" by (rule run_ok_wst) (use t w in blast)
  then show ?thesis using r C by simp
qed

lemma watcher_frame:
  assumes "add_watcher k w s = Some t \<or> remove_watcher k w s = Some t"
  obtains l ev where "chan_step l ev s = Some t" "ch_actor ev = None" "watcher_event ev"
    "\<And>x j. x \<noteq> w \<Longrightarrow> watched (chans s) x j \<Longrightarrow> watched (chans t) x j" "l = case_chan k"
proof -
  have "\<exists>l ev. chan_step l ev s = Some t \<and> ch_actor ev = None \<and> watcher_event ev \<and> l = case_chan k \<and>
    (\<forall>x j. x \<noteq> w \<longrightarrow> watched (chans s) x j \<longrightarrow> watched (chans t) x j)"
  proof (cases k)
    case (CaseRead l)
    from assms show ?thesis
    proof
      assume "add_watcher k w s = Some t"
      then show ?thesis using CaseRead
        by (intro exI [of _ l] exI [of _ "CAddRead w"]) (auto simp: add_watcher_def chan_step_def AddReadWatcher_def elim!: watched.elims)
    next
      assume "remove_watcher k w s = Some t"
      then show ?thesis using CaseRead
        by (intro exI [of _ l] exI [of _ "CRemoveRead w"]) (auto simp: remove_watcher_def chan_step_def RemoveReadWatcher_def elim!: watched.elims)
    qed
  next
    case (CaseWrite l v)
    from assms show ?thesis
    proof
      assume "add_watcher k w s = Some t"
      then show ?thesis using CaseWrite
        by (intro exI [of _ l] exI [of _ "CAddWrite w"]) (auto simp: add_watcher_def chan_step_def AddWriteWatcher_def elim!: watched.elims)
    next
      assume "remove_watcher k w s = Some t"
      then show ?thesis using CaseWrite
        by (intro exI [of _ l] exI [of _ "CRemoveWrite w"]) (auto simp: remove_watcher_def chan_step_def RemoveWriteWatcher_def elim!: watched.elims)
    qed
  qed
  then show thesis using that by blast
qed

lemma chan_step_sel: "chan_step l ev s = Some t \<Longrightarrow> runs t = runs s" "chan_step l ev s = Some t \<Longrightarrow> next_w t = next_w s"
  "chan_step l ev s = Some t \<Longrightarrow> results t = results s"
  by (auto simp: chan_step_effect)

lemma chan_step_exec: "chan_step l ev s = Some t \<Longrightarrow> ch_exec ev (chans s l) = Some (chans t l)"
  by (cases "ch_exec ev (chans s l)") (auto simp: chan_step_def)

lemma chan_step_watch:
  assumes "chan_step l ev s = Some t" "\<not> watcher_event ev"
  shows "read_watch (chans t m) = read_watch (chans s m)" "write_watch (chans t m) = write_watch (chans s m)"
  using assms watch_frame by (auto simp: chan_step_def split: option.splits)

section \<open>One attempt of a pass\<close>

lemma note_result_sel [simp]:
  "chans (note_result c i r s) = chans s" "wst (note_result c i r s) = wst s" "next_w (note_result c i r s) = next_w s"
  "d \<noteq> c \<Longrightarrow> runs (note_result c i r s) d = runs s d" "m_cases (runs (note_result c i r s) c) = m_cases (runs s c)"
  "waiter (runs (note_result c i r s) c) = waiter (runs s c)" "contended (runs (note_result c i r s) c) = contended (runs s c)"
  "spc (runs (note_result c i r s) c) = spc (runs s c)"
  "committed (runs (note_result c i r s) c) = (if r = 0 then committed (runs s c) @ [i] else committed (runs s c))"
  by (simp_all add: note_result_def upd_run_def)

lemma quiet_cong: "waiter u = waiter u' \<Longrightarrow> contended u = contended u' \<Longrightarrow> quiet C t u k = quiet C t u' k"
  by (simp add: quiet_def)

lemma after_try_sel [simp]: "waiter (runs (after_try c p i r s) c) = waiter (runs s c)" "m_cases (runs (after_try c p i r s) c) = m_cases (runs s c)"
  using after_try_frame(5) [of c p i r s] by auto

lemma own_move_try:
  assumes "chan_step l ev s = Some t" "ch_actor ev = Some c" "\<not> watcher_event ev" "chans s' = chans t"
    "\<And>w. wst s' w = Waiting \<Longrightarrow> wst t w = Waiting" "\<And>d. d \<noteq> c \<Longrightarrow> runs s' d = runs t d"
    "next_w s' = next_w t" "waiter (runs s' c) = waiter (runs t c)" "m_cases (runs s' c) = m_cases (runs t c)"
  shows "own_move c s s'"
proof (rule own_move_chan [OF assms(1)])
  show "watched (chans t) w k" if "watched (chans s) w k" for w k
    using that by (cases k) (simp_all add: chan_step_watch [OF assms(1,3)])
qed (use assms in auto)

definition attempt :: "co_id \<Rightarrow> sel_pass \<Rightarrow> sel_sys \<Rightarrow> sel_sys \<Rightarrow> bool" where
  "attempt c p s s' \<longleftrightarrow> own_move c s s' \<and> (\<forall>m. read_watch (chans s' m) = read_watch (chans s m) \<and> write_watch (chans s' m) = write_watch (chans s m)) \<and>
     (p \<noteq> PassFirst \<longrightarrow> (\<forall>j. watch_left (spc (runs s' c)) j))"

lemma attemptI:
  assumes "chan_step l ev s = Some t" "ch_actor ev = Some c" "\<not> watcher_event ev" "chans s' = chans t"
    "\<And>w. wst s' w = Waiting \<Longrightarrow> wst t w = Waiting" "\<And>d. d \<noteq> c \<Longrightarrow> runs s' d = runs t d"
    "next_w s' = next_w t" "waiter (runs s' c) = waiter (runs t c)" "m_cases (runs s' c) = m_cases (runs t c)"
    "p \<noteq> PassFirst \<Longrightarrow> \<forall>j. watch_left (spc (runs s' c)) j"
  shows "attempt c p s s'"
  using own_move_try [OF assms(1-9)] chan_step_watch [OF assms(1,3)] assms(4,10) unfolding attempt_def by auto

lemma attempt_after_try:
  assumes "chan_step l ev s = Some t" "ch_actor ev = Some c" "\<not> watcher_event ev" "chans t' = chans t" "wst t' = wst t"
    "\<And>d. d \<noteq> c \<Longrightarrow> runs t' d = runs t d" "next_w t' = next_w t" "waiter (runs t' c) = waiter (runs t c)" "m_cases (runs t' c) = m_cases (runs t c)"
  shows "attempt c p s (after_try c p i r t')"
proof (rule attemptI [OF assms(1-3)])
  show "wst (after_try c p i r t') w = Waiting \<Longrightarrow> wst t w = Waiting" for w using after_try_frame(6) assms(5) by metis
  show "p \<noteq> PassFirst \<Longrightarrow> \<forall>j. watch_left (spc (runs (after_try c p i r t') c)) j" using after_try_frame(5) [of c p i r t'] by auto
qed (use assms after_try_frame in auto)

lemma try_step_attempt:
  assumes "try_step c p i r s = Some s'" "spc (runs s c) = SelTry p i r"
  shows "attempt c p s s'"
proof (cases "m_cases (runs s c) ! i")
  case (CaseWrite l v)
  then obtain t where "chan_step l (CTryWrite c v) s = Some t" "s' = after_try c p i (last_ret l t) (note_result c i (last_ret l t) t)"
    using assms(1) by (auto simp: try_step_def)
  then show ?thesis by (auto simp: chan_step_sel intro!: attempt_after_try [where l = l and ev = "CTryWrite c v" and t = t])
next
  case (CaseRead l)
  show ?thesis
  proof (cases r)
    case (Some x)
    then obtain t where "chan_step l (CReadEnd c) s = Some t" "s' = after_try c p i x t"
      using assms(1) CaseRead by (auto simp: try_step_def)
    then show ?thesis by (auto simp: chan_step_sel intro!: attempt_after_try [where l = l and ev = "CReadEnd c" and t = t])
  next
    case None
    show ?thesis
    proof (cases "pcs (chans s l) c = ChIdle")
      case True
      then obtain t where t: "chan_step l (CReadBegin c RdNow) s = Some t" "s' = (if pcs (chans t l) c = ChIdle
          then after_try c p i (last_ret l t) (upd_run c (\<lambda>u. u \<lparr>contended := contended u \<or> last_ret l t = -2\<rparr>) t) else t)"
        using assms(1) CaseRead None by (auto simp: try_step_def)
      show ?thesis
      proof (cases "pcs (chans t l) c = ChIdle")
        case True
        then show ?thesis using t by (auto simp: upd_run_def intro!: attempt_after_try [where l = l and ev = "CReadBegin c RdNow" and t = t])
      next
        case False
        then show ?thesis using t assms(2) chan_step_sel(1) [OF t(1)] by (auto intro!: attemptI [where l = l and ev = "CReadBegin c RdNow" and t = t])
      qed
    next
      case False
      then obtain t where t: "chan_step l (CReadSection c False) s = Some t" "s' = goto_sel c (SelTry p i (Some (last_ret l t))) (note_result c i (last_ret l t) t)"
        using assms(1) CaseRead None by (auto simp: try_step_def)
      then show ?thesis by (auto simp: goto_sel_def upd_run_def intro!: attemptI [where l = l and ev = "CReadSection c False" and t = t])
    qed
  qed
qed

text \<open>The hypotheses of \<open>after_try_ok\<close> for a state reached by a step of the channel of the case.\<close>

lemma after_chan_step:
  assumes ok: "run_ok (chans s) (wst s) c (runs s c)" and spc: "spc (runs s c) = SelTry p i r0" and t: "chan_step l ev s = Some t"
    and ev: "ch_actor ev = Some c" "\<not> watcher_event ev" and l: "l = case_chan (m_cases (runs s c) ! i)" and idle: "pcs (chans t l) c = ChIdle"
    and t': "chans t' = chans t" "wst t' = wst t" "m_cases (runs t' c) = m_cases (runs s c)" "waiter (runs t' c) = waiter (runs s c)"
    and cont: "contended (runs s c) \<Longrightarrow> contended (runs t' c)"
    and hit: "IsReady r \<Longrightarrow> committed (runs t' c) = [i] \<or> committed (runs t' c) = [] \<and> IsClosed (chans t l)"
      "\<not> IsReady r \<Longrightarrow> committed (runs t' c) = []"
    and q: "p = PassCallback \<Longrightarrow> \<not> IsReady r \<Longrightarrow> quiet (chans t) (wst t) (runs t' c) (m_cases (runs s c) ! i)"
  shows "run_ok (chans (after_try c p i r t')) (wst (after_try c p i r t')) c (runs (after_try c p i r t') c)"
proof -
  obtain C' w' where e: "chan_effect l ev (chans s) (wst s) C' w'" "t = s \<lparr>chans := C', wst := w'\<rparr>"
    using t by (auto simp: chan_step_effect)
  have ch: "chans t m = chans s m" if "m \<noteq> l" for m using e that by (auto simp: chan_effect_def)
  have pc: "pc_ok (chans s) (wst s) c (runs s c) (SelTry p i r0)" using ok spc by (simp add: run_ok_def)
  have i: "i < length (m_cases (runs s c))" using pc by (cases r0) auto
  have idle': "pcs (chans t (case_chan k)) c = ChIdle" if "k \<in> set (m_cases (runs s c))" for k
  proof (cases "case_chan k = l")
    case False
    have "tryread_pc (runs s c) (case_chan k) (pcs (chans s (case_chan k)) c)" using ok spc that by (simp add: run_ok_def)
    then show ?thesis using False ch [OF False] spc l by (auto simp: tryread_pc_def split: if_splits)
  qed (use idle in simp)
  have W: "all_watched (chans s) (runs s c)" "\<forall>j<i. quiet (chans s) (wst s) (runs s c) (m_cases (runs s c) ! j)" if "p = PassCallback"
    using pc that by (cases r0; simp)+
  have W': "all_watched (chans t) (runs s c)" if "p = PassCallback"
    using effect_all_watched [OF e(1) ev(2) W(1) [OF that]] e(2) by simp
  have Q': "quiet (chans t) (wst t) (runs t' c) (m_cases (runs s c) ! j)" if "p = PassCallback" "j < i" for j
  proof -
    have "watched (chans s) (waiter (runs s c)) (m_cases (runs s c) ! j)" using W(1) [OF that(1)] that(2) i by (simp add: list_all_length)
    then have "quiet C' w' (runs s c) (m_cases (runs s c) ! j)" using effect_quiet [OF e(1)] W(2) that by blast
    then show ?thesis using e(2) t'(4) cont by (auto simp: quiet_def)
  qed
  show ?thesis
  proof (rule after_try_ok)
    show "\<forall>j\<le>i. quiet (chans t') (wst t') (runs t' c) (m_cases (runs t' c) ! j)" if "p = PassCallback" "\<not> IsReady r"
      using Q' [OF that(1)] q [OF that] t' by (auto simp: le_less)
  qed (use i idle' hit W' t' l in \<open>auto simp: hit_def\<close>)
qed

lemma attempt_facts:
  assumes "run_ok (chans s) (wst s) c (runs s c)" "spc (runs s c) = SelTry p i r"
  shows "i < length (m_cases (runs s c))" "r = None \<Longrightarrow> committed (runs s c) = []"
    "tryread_pc (runs s c) (case_chan (m_cases (runs s c) ! i)) (pcs (chans s (case_chan (m_cases (runs s c) ! i))) c)"
    "p = PassCallback \<Longrightarrow> all_watched (chans s) (runs s c)"
    "p = PassCallback \<Longrightarrow> \<forall>j<i. quiet (chans s) (wst s) (runs s c) (m_cases (runs s c) ! j)"
    "m_cases (runs s c) ! i = CaseWrite l v \<Longrightarrow> r = None"
proof -
  have pc: "pc_ok (chans s) (wst s) c (runs s c) (SelTry p i r)" using assms by (simp add: run_ok_def)
  show i: "i < length (m_cases (runs s c))" using pc by (cases r) auto
  then show "tryread_pc (runs s c) (case_chan (m_cases (runs s c) ! i)) (pcs (chans s (case_chan (m_cases (runs s c) ! i))) c)"
    using assms by (simp add: run_ok_def)
qed (use assms in \<open>(cases r; auto simp: run_ok_def)+\<close>)

lemma attempt_write:
  assumes ok: "run_ok (chans s) (wst s) c (runs s c)" "spc (runs s c) = SelTry p i r" and k: "m_cases (runs s c) ! i = CaseWrite l v"
    and t: "chan_step l (CTryWrite c v) s = Some t" and s': "s' = after_try c p i (last_ret l t) (note_result c i (last_ret l t) t)"
  shows "run_ok (chans s') (wst s') c (runs s' c)"
proof -
  note R = TryWrite_result [OF chan_step_exec [OF t], folded last_ret_def]
  have com: "committed (runs t c) = []" using attempt_facts(2,6) [OF ok] k chan_step_sel(1) [OF t] by simp
  show ?thesis unfolding s'
  proof (rule after_chan_step [OF ok t])
    show "quiet (chans t) (wst t) (runs (note_result c i (last_ret l t) t) c) (m_cases (runs s c) ! i)" if "\<not> IsReady (last_ret l t)"
      using R(2) that k by (auto simp: IsReady_def quiet_def)
    show "IsReady (last_ret l t) \<Longrightarrow> committed (runs (note_result c i (last_ret l t) t) c) = [i] \<or>
        committed (runs (note_result c i (last_ret l t) t) c) = [] \<and> IsClosed (chans t l)"
      using R(2) com by (auto simp: IsReady_def)
    show "\<not> IsReady (last_ret l t) \<Longrightarrow> committed (runs (note_result c i (last_ret l t) t) c) = []"
      using com by (simp add: IsReady_def)
  qed (use k chan_step_sel(1) [OF t] R(1) in simp_all)
qed

lemma attempt_end:
  assumes ok: "run_ok (chans s) (wst s) c (runs s c)" "spc (runs s c) = SelTry p i (Some x)" and k: "m_cases (runs s c) ! i = CaseRead l"
    and t: "chan_step l (CReadEnd c) s = Some t" and s': "s' = after_try c p i x t"
  shows "run_ok (chans s') (wst s') c (runs s' c)"
proof -
  obtain C' w' where e: "chan_effect l (CReadEnd c) (chans s) (wst s) C' w'" "t = s \<lparr>chans := C', wst := w'\<rparr>"
    using t by (auto simp: chan_step_effect)
  have idle: "pcs (chans t l) c = ChIdle" using e by (auto simp: chan_effect_def ch_defs split: ch_pc.splits)
  have pc: "x = 0 \<and> committed (runs s c) = [i] \<or> x = -2 \<and> committed (runs s c) = []"
    "p = PassCallback \<Longrightarrow> x \<noteq> 0 \<Longrightarrow> quiet (chans s) (wst s) (runs s c) (m_cases (runs s c) ! i)"
    using ok by (simp_all add: run_ok_def)
  have w: "p = PassCallback \<Longrightarrow> watched (chans s) (waiter (runs s c)) (m_cases (runs s c) ! i)"
    using attempt_facts(1,4) [OF ok] by (simp add: list_all_length)
  show ?thesis unfolding s'
  proof (rule after_chan_step [OF ok t])
    show "quiet (chans t) (wst t) (runs t c) (m_cases (runs s c) ! i)" if "p = PassCallback" "\<not> IsReady x"
      using effect_quiet [OF e(1) w pc(2)] that e(2) by (simp add: IsReady_def)
  qed (use k chan_step_sel(1) [OF t] pc(1) idle in \<open>auto simp: IsReady_def\<close>)
qed

text \<open>What the earlier cases of the callback pass keep during a step of its own.\<close>

lemma pass_kept:
  assumes ok: "run_ok (chans s) (wst s) c (runs s c)" "spc (runs s c) = SelTry PassCallback i r"
    and e: "chan_effect l ev (chans s) (wst s) C' w'" "\<not> watcher_event ev"
  shows "all_watched C' (runs s c)" "\<forall>j<i. quiet C' w' (runs s c) (m_cases (runs s c) ! j)"
proof -
  note W = attempt_facts(4,5) [OF ok, simplified]
  show "all_watched C' (runs s c)" by (rule effect_all_watched [OF e W(1)])
  show "\<forall>j<i. quiet C' w' (runs s c) (m_cases (runs s c) ! j)"
    using effect_quiet [OF e(1)] W attempt_facts(1) [OF ok] by (auto simp: list_all_length)
qed

lemma pass_pcs:
  assumes ok: "run_ok (chans s) (wst s) c (runs s c)" "spc (runs s c) = SelTry p i None" and k: "m_cases (runs s c) ! i = CaseRead l"
    and C: "\<And>m. m \<noteq> l \<Longrightarrow> C' m = chans s m" and p: "if r = None then pcs (C' l) c = RdStart RdNow else pcs (C' l) c = RdDone"
  shows "\<forall>k \<in> set (m_cases (runs s c)). tryread_pc ((runs s c) \<lparr>spc := SelTry p i r, committed := z\<rparr>) (case_chan k) (pcs (C' (case_chan k)) c)"
proof
  fix k' assume k': "k' \<in> set (m_cases (runs s c))"
  have "tryread_pc (runs s c) (case_chan k') (pcs (chans s (case_chan k')) c)" using ok k' by (simp add: run_ok_def)
  then show "tryread_pc ((runs s c) \<lparr>spc := SelTry p i r, committed := z\<rparr>) (case_chan k') (pcs (C' (case_chan k')) c)"
    using k C [of "case_chan k'"] p ok(2) by (cases "case_chan k' = l") (auto simp: tryread_pc_def split: if_splits)
qed

lemma attempt_begin:
  assumes ok: "run_ok (chans s) (wst s) c (runs s c)" "spc (runs s c) = SelTry p i None" and k: "m_cases (runs s c) ! i = CaseRead l"
    and t: "chan_step l (CReadBegin c RdNow) s = Some t"
    and s': "s' = (if pcs (chans t l) c = ChIdle
      then after_try c p i (last_ret l t) (upd_run c (\<lambda>u. u \<lparr>contended := contended u \<or> last_ret l t = -2\<rparr>) t) else t)"
  shows "run_ok (chans s') (wst s') c (runs s' c)"
proof -
  note x = chan_step_exec [OF t]
  have com: "committed (runs t c) = []" using attempt_facts(2) [OF ok] chan_step_sel(1) [OF t] by simp
  show ?thesis
  proof (cases "pcs (chans t l) c = ChIdle")
    case idle: True
    note R = TryRead_begin [OF x idle, folded last_ret_def]
    have s1: "s' = after_try c p i (last_ret l t) (upd_run c (\<lambda>u. u \<lparr>contended := contended u \<or> last_ret l t = -2\<rparr>) t)"
      using s' idle by simp
    show ?thesis unfolding s1
      by (rule after_chan_step [OF ok t]) (use k com R chan_step_sel(1) [OF t] idle in \<open>auto simp: IsReady_def quiet_def upd_run_def\<close>)
  next
    case False
    have op: "\<not> IsClosed (chans t l)" using TryRead_begun [OF x False] by simp
    obtain C' w' where e: "chan_effect l (CReadBegin c RdNow) (chans s) (wst s) C' w'" "t = s \<lparr>chans := C', wst := w'\<rparr>"
      using t by (auto simp: chan_step_effect)
    have C: "C' m = chans s m" if "m \<noteq> l" for m using e that by (auto simp: chan_effect_def)
    have P: "pcs (C' l) c = RdStart RdNow" using TryRead_begun [OF x False] e(2) by simp
    have T: "\<forall>k \<in> set (m_cases (runs s c)). tryread_pc (runs s c) (case_chan k) (pcs (C' (case_chan k)) c)"
      using pass_pcs [OF ok k C, of None "committed (runs s c)"] P ok(2) by (simp add: tryread_pc_def)
    have W: "p = PassCallback \<Longrightarrow> all_watched C' (runs s c)" "p = PassCallback \<Longrightarrow> \<forall>j<i. quiet C' w' (runs s c) (m_cases (runs s c) ! j)"
      using pass_kept [OF ok(1) _ e(1)] ok(2) by auto
    have u: "runs s' c = runs s c" "chans s' = C'" "wst s' = w'" using s' False e(2) by simp_all
    show ?thesis unfolding u using T W attempt_facts(1,2) [OF ok] ok(2) k op e(2) by (auto simp: run_ok_def begun_def)
  qed
qed

lemma attempt_section:
  assumes ok: "run_ok (chans s) (wst s) c (runs s c)" "spc (runs s c) = SelTry p i None" and k: "m_cases (runs s c) ! i = CaseRead l"
    and st: "pcs (chans s l) c \<noteq> ChIdle" "chan_step l (CReadSection c False) s = Some t"
    and s': "s' = goto_sel c (SelTry p i (Some (last_ret l t))) (note_result c i (last_ret l t) t)"
  shows "run_ok (chans s') (wst s') c (runs s' c)"
proof -
  have now: "pcs (chans s l) c = RdStart RdNow" using attempt_facts(3) [OF ok] ok(2) k st(1) by (simp add: tryread_pc_def)
  note R = TryRead_section [OF chan_step_exec [OF st(2)] now, folded last_ret_def]
  obtain C' w' where e: "chan_effect l (CReadSection c False) (chans s) (wst s) C' w'" "t = s \<lparr>chans := C', wst := w'\<rparr>"
    using st(2) by (auto simp: chan_step_effect)
  have C: "C' m = chans s m" if "m \<noteq> l" for m using e that by (auto simp: chan_effect_def)
  have T: "\<forall>k \<in> set (m_cases (runs s c)). tryread_pc ((runs s c) \<lparr>spc := SelTry p i (Some y), committed := z\<rparr>) (case_chan k) (pcs (C' (case_chan k)) c)" for y z
    using pass_pcs [OF ok k C, of "Some y"] R(1) e(2) by simp
  have W: "p = PassCallback \<Longrightarrow> all_watched C' (runs s c)" "p = PassCallback \<Longrightarrow> \<forall>j<i. quiet C' w' (runs s c) (m_cases (runs s c) ! j)"
    using pass_kept [OF ok(1) _ e(1)] ok(2) by auto
  have Q: "quiet C' w' (runs s c) (CaseRead l)" if "p = PassCallback" "last_ret l t \<noteq> 0"
  proof -
    have "begun (chans s) (wst s) c (runs s c) (CaseRead l)" using ok k that(1) by (simp add: run_ok_def)
    then show ?thesis using R(2) that(2) now effect_waiting [OF e(1)] e(2) by (auto simp: quiet_def begun_def)
  qed
  have u: "runs s' c = (runs s c) \<lparr>spc := SelTry p i (Some (last_ret l t)), committed := (if last_ret l t = 0 then [i] else [])\<rparr>"
    using s' e(2) attempt_facts(2) [OF ok] by (simp add: goto_sel_def upd_run_def note_result_def)
  have v: "chans s' = C'" "wst s' = w'" using s' e(2) by (simp_all add: goto_sel_def upd_run_def)
  have q: "quiet C' w' ((runs s c) \<lparr>spc := y, committed := z\<rparr>) k = quiet C' w' (runs s c) k" for y z k by (simp add: quiet_def)
  show ?thesis unfolding u v using T W Q R(2) attempt_facts(1) [OF ok] k by (auto simp: run_ok_def q)
qed

lemma try_step_ok:
  assumes ok: "run_ok (chans s) (wst s) c (runs s c)" "spc (runs s c) = SelTry p i r" and st: "try_step c p i r s = Some s'"
  shows "run_ok (chans s') (wst s') c (runs s' c)"
proof (cases "m_cases (runs s c) ! i")
  case (CaseWrite l v)
  then show ?thesis using st attempt_write [OF ok CaseWrite _ refl] by (auto simp: try_step_def)
next
  case (CaseRead l)
  show ?thesis
  proof (cases r)
    case (Some x)
    then show ?thesis using st CaseRead attempt_end [OF ok(1) _ CaseRead _ refl] ok(2) by (auto simp: try_step_def)
  next
    case None
    note ok' = ok [unfolded None]
    show ?thesis
    proof (cases "pcs (chans s l) c = ChIdle")
      case True
      then show ?thesis using st CaseRead None attempt_begin [OF ok' CaseRead _ refl] by (auto simp: try_step_def)
    next
      case False
      then show ?thesis using st CaseRead None attempt_section [OF ok' CaseRead False _ refl] by (auto simp: try_step_def)
    qed
  qed
qed

section \<open>The invariant is kept\<close>

lemma run_okI: "pc_ok C t c u (spc u) \<Longrightarrow> \<forall>k \<in> set (m_cases u). tryread_pc u (case_chan k) (pcs (C (case_chan k)) c) \<Longrightarrow> run_ok C t c u"
  by (simp add: run_ok_def)

lemma run_ok_idle:
  assumes "run_ok C t c u" "\<forall>p i r. spc u \<noteq> SelTry p i r" "spc u \<noteq> SelIdle" "k \<in> set (m_cases u)"
  shows "pcs (C (case_chan k)) c = ChIdle"
  using assms by (cases "spc u") (auto simp: run_ok_def tryread_pc_def)

lemma tryread_idle: "pcs (C (case_chan k)) c = ChIdle \<Longrightarrow> \<forall>p i r. spc u = SelTry p i r \<longrightarrow> r = None \<Longrightarrow> tryread_pc u (case_chan k) (pcs (C (case_chan k)) c)"
  by (auto simp: tryread_pc_def split: sel_pc.split)

lemma Run_wait_ok:
  assumes ok: "run_ok (chans s) (wst s) c (runs s c)" "spc (runs s c) = SelEnter"
  shows "run_ok (chans (Run_wait c su s)) (wst (Run_wait c su s)) c (runs (Run_wait c su s) c)" "own_move c s (Run_wait c su s)"
proof -
  have idle: "\<forall>k \<in> set (m_cases (runs s c)). pcs (chans s (case_chan k)) c = ChIdle" using run_ok_idle [OF ok(1)] ok(2) by simp
  have pc: "committed (runs s c) = []" "m_cases (runs s c) \<noteq> []" using ok by (simp_all add: run_ok_def)
  show "run_ok (chans (Run_wait c su s)) (wst (Run_wait c su s)) c (runs (Run_wait c su s) c)"
    using idle pc by (cases su) (auto simp: run_ok_def Run_wait_def goto_sel_def upd_run_def tryread_pc_def)
  show "own_move c s (Run_wait c su s)"
    by (rule own_move_plain; cases su; simp add: Run_wait_def goto_sel_def upd_run_def split: if_splits)
qed

lemma Run_wake_ok:
  assumes ok: "run_ok (chans s) (wst s) c (runs s c)" "spc (runs s c) = SelParked x" and st: "Run_wake c x s = Some s'"
  shows "run_ok (chans s') (wst s') c (runs s' c)" "own_move c s s'"
proof -
  have idle: "\<forall>k \<in> set (m_cases (runs s c)). pcs (chans s (case_chan k)) c = ChIdle" using run_ok_idle [OF ok(1)] ok(2) by simp
  have s': "s' = goto_sel c (if x = None then SelTry PassLast 0 None else SelClean 0 x) s" using st by (auto simp: Run_wake_def split: outcome.splits)
  have pc: "case x of None \<Rightarrow> committed (runs s c) = [] \<and> m_cases (runs s c) \<noteq> [] | Some i \<Rightarrow> hit (chans s) (runs s c) i"
    using ok by (cases x) (simp_all add: run_ok_def)
  then have n: "0 < length (m_cases (runs s c))" by (cases x) (auto simp: hit_def)
  show "run_ok (chans s') (wst s') c (runs s' c)"
    using idle pc n by (cases x) (auto simp: run_ok_def s' goto_sel_def upd_run_def tryread_pc_def)
  show "own_move c s s'" by (rule own_move_plain) (auto simp: s' goto_sel_def upd_run_def)
qed

lemma watcher_pcs:
  assumes "chan_step l ev s = Some t" "ch_actor ev = None"
  shows "pcs (chans t m) c = pcs (chans s m) c"
  using assms effect_pcs by (fastforce simp: chan_step_effect)

lemma watcher_closed: "chan_step l ev s = Some t \<Longrightarrow> IsClosed (chans s m) \<Longrightarrow> IsClosed (chans t m)"
  using effect_closed by (fastforce simp: chan_step_effect)

lemma watcher_adds: "add_watcher k w s = Some t \<Longrightarrow> watched (chans t) w k"
  by (cases k) (auto simp: add_watcher_def chan_step_def AddReadWatcher_def AddWriteWatcher_def)

lemma watcher_keeps: "add_watcher k w s = Some t \<Longrightarrow> watched (chans s) x j \<Longrightarrow> watched (chans t) x j"
  by (cases k; cases j) (auto simp: add_watcher_def chan_step_def AddReadWatcher_def AddWriteWatcher_def)

lemma Run_watch_ok:
  assumes ok: "run_ok (chans s) (wst s) c (runs s c)" "spc (runs s c) = SelWatch k" and st: "Run_watch c k s = Some s'"
  shows "run_ok (chans s') (wst s') c (runs s' c)" "own_move c s s'"
proof -
  let ?u = "runs s c"
  have idle: "\<forall>j \<in> set (m_cases ?u). pcs (chans s (case_chan j)) c = ChIdle" using run_ok_idle [OF ok(1)] ok(2) by simp
  have pc: "k < length (m_cases ?u)" "committed ?u = []" "\<forall>j<k. watched (chans s) (waiter ?u) (m_cases ?u ! j)"
    using ok by (simp_all add: run_ok_def)
  obtain t where t: "add_watcher (m_cases ?u ! k) (waiter ?u) s = Some t"
    and s': "s' = goto_sel c (if Suc k < length (m_cases ?u) then SelWatch (Suc k) else SelTry PassCallback 0 None) t"
    using st by (auto simp: Run_watch_def)
  obtain l ev where e: "chan_step l ev s = Some t" "ch_actor ev = None" "watcher_event ev"
    "\<And>x j. x \<noteq> waiter ?u \<Longrightarrow> watched (chans s) x j \<Longrightarrow> watched (chans t) x j" "l = case_chan (m_cases ?u ! k)"
    by (rule watcher_frame [OF disjI1 [OF t]]) blast
  note r = chan_step_sel(1) [OF e(1)]
  have W: "watched (chans t) (waiter ?u) (m_cases ?u ! j)" if "j \<le> k" for j
    using that watcher_adds [OF t] watcher_keeps [OF t] pc(3) by (cases "j = k") auto
  have I: "pcs (chans t (case_chan j)) c = ChIdle" if "j \<in> set (m_cases ?u)" for j using idle that watcher_pcs [OF e(1,2)] by simp
  have A: "all_watched (chans t) ?u" if "length (m_cases ?u) = Suc k" using W that by (simp add: list_all_length less_Suc_eq_le)
  have B: "begun (chans t) (wst t) c ?u (m_cases ?u ! 0)" by (intro idle_begun I nth_mem) (use pc(1) in auto)
  show "run_ok (chans s') (wst s') c (runs s' c)"
  proof (cases "Suc k < length (m_cases ?u)")
    case True
    then show ?thesis using W I pc r by (auto simp: run_ok_def s' goto_sel_def upd_run_def tryread_pc_def less_Suc_eq_le)
  next
    case False
    then have n: "length (m_cases ?u) = Suc k" using pc(1) by simp
    then show ?thesis using A [OF n] B I pc r by (auto simp: run_ok_def s' goto_sel_def upd_run_def tryread_pc_def)
  qed
  show "own_move c s s'"
    by (rule own_move_chan [OF e(1)]) (use e(2,4) s' in \<open>auto simp: goto_sel_def upd_run_def\<close>)
qed

lemma Run_clean_ok:
  assumes ok: "run_ok (chans s) (wst s) c (runs s c)" "spc (runs s c) = SelClean k x" and st: "Run_clean c k x s = Some s'"
  shows "run_ok (chans s') (wst s') c (runs s' c)" "own_move c s s'"
proof -
  let ?u = "runs s c"
  have idle: "\<forall>j \<in> set (m_cases ?u). pcs (chans s (case_chan j)) c = ChIdle" using run_ok_idle [OF ok(1)] ok(2) by simp
  have pc: "k < length (m_cases ?u)" "case x of None \<Rightarrow> committed ?u = [] | Some i \<Rightarrow> hit (chans s) ?u i"
    using ok by (simp_all add: run_ok_def)
  obtain t where t: "remove_watcher (m_cases ?u ! k) (waiter ?u) s = Some t"
    and s': "s' = (if Suc k < length (m_cases ?u) then goto_sel c (SelClean (Suc k) x) t else (goto_sel c SelIdle t) \<lparr>results := results t @ [(c, index_of x)]\<rparr>)"
    using st by (auto simp: Run_clean_def)
  obtain l ev where e: "chan_step l ev s = Some t" "ch_actor ev = None" "watcher_event ev"
    "\<And>y j. y \<noteq> waiter ?u \<Longrightarrow> watched (chans s) y j \<Longrightarrow> watched (chans t) y j" "l = case_chan (m_cases ?u ! k)"
    by (rule watcher_frame [OF disjI2 [OF t]]) blast
  note r = chan_step_sel(1) [OF e(1)]
  have I: "pcs (chans t (case_chan j)) c = ChIdle" if "j \<in> set (m_cases ?u)" for j using idle that watcher_pcs [OF e(1,2)] by simp
  have H: "case x of None \<Rightarrow> committed ?u = [] | Some i \<Rightarrow> hit (chans t) ?u i"
    using pc(2) watcher_closed [OF e(1)] by (cases x) (auto simp: hit_def)
  show "run_ok (chans s') (wst s') c (runs s' c)"
    using H I r by (cases x) (auto simp: run_ok_def s' goto_sel_def upd_run_def tryread_pc_def)
  show "own_move c s s'"
    by (rule own_move_chan [OF e(1)]) (use e(2,4) s' in \<open>auto simp: goto_sel_def upd_run_def split: if_splits\<close>)
qed

text \<open>The watchers still in a list.\<close>

lemma watch_invI:
  assumes "\<And>w k l. watched (chans s) w k \<Longrightarrow> owned_watch s w (\<lambda>j. case_chan j = case_chan k \<and> (is_read j \<longleftrightarrow> is_read k))"
  shows "watch_inv s"
  unfolding watch_inv_def
proof (intro allI conjI ballI)
  fix l w
  assume "w \<in> set (read_watch (chans s l))"
  then have "owned_watch s w (\<lambda>j. case_chan j = l \<and> is_read j)" using assms [of w "CaseRead l"] by simp
  then show "owned_watch s w (\<lambda>k. k = CaseRead l)" unfolding owned_watch_def by (metis is_read.elims(2) case_chan.simps(1))
next
  fix l w
  assume "w \<in> set (write_watch (chans s l))"
  then have "owned_watch s w (\<lambda>j. case_chan j = l \<and> \<not> is_read j)" using assms [of w "CaseWrite l 0"] by simp
  then show "owned_watch s w (\<lambda>k. \<exists>v. k = CaseWrite l v)" unfolding owned_watch_def by (metis is_read.elims(3) case_chan.simps(2))
qed

lemma watch_invD:
  assumes "watch_inv s" "watched (chans s) w k"
  shows "owned_watch s w (\<lambda>j. case_chan j = case_chan k \<and> (is_read j \<longleftrightarrow> is_read k))"
proof (cases k)
  case (CaseRead l)
  then have "owned_watch s w (\<lambda>k. k = CaseRead l)" using assms by (simp add: watch_inv_def)
  then show ?thesis using CaseRead by (fastforce simp: owned_watch_def)
next
  case (CaseWrite l v)
  then have "owned_watch s w (\<lambda>k. \<exists>v. k = CaseWrite l v)" using assms by (simp add: watch_inv_def)
  then show ?thesis using CaseWrite by (fastforce simp: owned_watch_def)
qed

lemma owned_mono:
  assumes "owned_watch s w P" "\<And>d j. waiter (runs s d) = w \<Longrightarrow> j < length (m_cases (runs s d)) \<Longrightarrow> watch_left (spc (runs s d)) j \<Longrightarrow> P (m_cases (runs s d) ! j) \<Longrightarrow>
    waiter (runs s' d) = w \<and> m_cases (runs s' d) = m_cases (runs s d) \<and> watch_left (spc (runs s' d)) j"
  shows "owned_watch s' w P"
proof -
  obtain d j where d: "waiter (runs s d) = w" "j < length (m_cases (runs s d))" "watch_left (spc (runs s d)) j" "P (m_cases (runs s d) ! j)"
    using assms(1) by (auto simp: owned_watch_def)
  then show ?thesis using assms(2) [OF d] unfolding owned_watch_def by (intro exI [of _ d] exI [of _ j]) simp
qed

lemma watch_inv_mono:
  assumes inv: "watch_inv s" and w: "\<And>w k. watched (chans s') w k \<Longrightarrow> watched (chans s) w k"
    and o: "\<And>d j. watch_left (spc (runs s d)) j \<Longrightarrow> waiter (runs s' d) = waiter (runs s d) \<and> m_cases (runs s' d) = m_cases (runs s d) \<and> watch_left (spc (runs s' d)) j"
  shows "watch_inv s'"
proof (rule watch_invI)
  fix w' k
  assume "watched (chans s') w' k"
  from watch_invD [OF inv w [OF this]]
  show "owned_watch s' w' (\<lambda>j. case_chan j = case_chan k \<and> (is_read j \<longleftrightarrow> is_read k))"
    by (rule owned_mono) (use o in blast)
qed

lemma attempt_watch:
  assumes "watch_inv s" "attempt c p s s'" "spc (runs s c) = SelTry p i r"
  shows "watch_inv s'"
proof (rule watch_inv_mono [OF assms(1)])
  show "watched (chans s) w k" if "watched (chans s') w k" for w k
    using that assms(2) by (cases k) (auto simp: attempt_def)
  show "waiter (runs s' d) = waiter (runs s d) \<and> m_cases (runs s' d) = m_cases (runs s d) \<and> watch_left (spc (runs s' d)) j"
    if "watch_left (spc (runs s d)) j" for d j
    using that assms(2,3) by (cases "d = c") (auto simp: attempt_def own_move_def)
qed

lemma added_only: "add_watcher k w s = Some t \<Longrightarrow> watched (chans t) x j \<Longrightarrow> watched (chans s) x j \<or> x = w \<and> case_chan j = case_chan k \<and> (is_read j \<longleftrightarrow> is_read k)"
  by (cases k; cases j) (auto simp: add_watcher_def chan_step_def AddReadWatcher_def AddWriteWatcher_def split: if_splits)

lemma removed_only: "remove_watcher k w s = Some t \<Longrightarrow> watched (chans t) x j \<Longrightarrow> watched (chans s) x j \<and> \<not> (x = w \<and> case_chan j = case_chan k \<and> (is_read j \<longleftrightarrow> is_read k))"
  by (cases k; cases j) (auto simp: remove_watcher_def chan_step_def RemoveReadWatcher_def RemoveWriteWatcher_def split: if_splits)

lemma Run_watch_watch:
  assumes inv: "watch_inv s" and pc: "spc (runs s c) = SelWatch k" "k < length (m_cases (runs s c))" and st: "Run_watch c k s = Some s'"
  shows "watch_inv s'"
proof (rule watch_invI)
  fix x j
  assume x: "watched (chans s') x j"
  obtain t where t: "add_watcher (m_cases (runs s c) ! k) (waiter (runs s c)) s = Some t"
    and s': "s' = goto_sel c (if Suc k < length (m_cases (runs s c)) then SelWatch (Suc k) else SelTry PassCallback 0 None) t"
    using st by (auto simp: Run_watch_def)
  have r: "runs t = runs s" using t by (auto simp: add_watcher_def chan_step_sel split: sel_case.splits)
  have l: "watch_left (spc (runs s' c)) i" if "i \<le> k" for i using that by (simp add: s' goto_sel_def upd_run_def)
  have u: "waiter (runs s' d) = waiter (runs s d)" "m_cases (runs s' d) = m_cases (runs s d)" "d \<noteq> c \<Longrightarrow> spc (runs s' d) = spc (runs s d)" for d
    by (simp_all add: s' goto_sel_def upd_run_def r)
  have "watched (chans t) x j" using x by (simp add: s' goto_sel_def upd_run_def)
  then consider "watched (chans s) x j" | "x = waiter (runs s c)" "case_chan j = case_chan (m_cases (runs s c) ! k)" "is_read j = is_read (m_cases (runs s c) ! k)"
    using added_only [OF t] by blast
  then show "owned_watch s' x (\<lambda>i. case_chan i = case_chan j \<and> (is_read i \<longleftrightarrow> is_read j))"
  proof cases
    case 1
    from watch_invD [OF inv this] show ?thesis
    proof (rule owned_mono)
      show "waiter (runs s' d) = x \<and> m_cases (runs s' d) = m_cases (runs s d) \<and> watch_left (spc (runs s' d)) i"
        if "waiter (runs s d) = x" "watch_left (spc (runs s d)) i" for d i
        using that u l [of i] pc(1) by (cases "d = c") auto
    qed
  next
    case 2
    then show ?thesis unfolding owned_watch_def using pc(2) u l [of k] by (intro exI [of _ c] exI [of _ k]) simp
  qed
qed

lemma Run_clean_watch:
  assumes inv: "watch_inv s" and pc: "spc (runs s c) = SelClean k x" and st: "Run_clean c k x s = Some s'"
  shows "watch_inv s'"
proof (rule watch_invI)
  fix y j
  assume y: "watched (chans s') y j"
  obtain t where t: "remove_watcher (m_cases (runs s c) ! k) (waiter (runs s c)) s = Some t"
    and s': "s' = (if Suc k < length (m_cases (runs s c)) then goto_sel c (SelClean (Suc k) x) t else (goto_sel c SelIdle t) \<lparr>results := results t @ [(c, index_of x)]\<rparr>)"
    using st by (auto simp: Run_clean_def)
  have r: "runs t = runs s" using t by (auto simp: remove_watcher_def chan_step_sel split: sel_case.splits)
  have l: "watch_left (spc (runs s' c)) i" if "k \<le> i" "i \<noteq> k" "i < length (m_cases (runs s c))" for i
    using that by (auto simp: s' goto_sel_def upd_run_def)
  have u: "waiter (runs s' d) = waiter (runs s d)" "m_cases (runs s' d) = m_cases (runs s d)" "d \<noteq> c \<Longrightarrow> spc (runs s' d) = spc (runs s d)" for d
    by (simp_all add: s' goto_sel_def upd_run_def r)
  have "watched (chans t) y j" using y by (simp add: s' goto_sel_def upd_run_def split: if_splits)
  note w = removed_only [OF t this]
  from watch_invD [OF inv w [THEN conjunct1]]
  show "owned_watch s' y (\<lambda>i. case_chan i = case_chan j \<and> (is_read i \<longleftrightarrow> is_read j))"
  proof (rule owned_mono)
    show "waiter (runs s' d) = y \<and> m_cases (runs s' d) = m_cases (runs s d) \<and> watch_left (spc (runs s' d)) i"
      if "waiter (runs s d) = y" "i < length (m_cases (runs s d))" "watch_left (spc (runs s d)) i"
        "case_chan (m_cases (runs s d) ! i) = case_chan j \<and> is_read (m_cases (runs s d) ! i) = is_read j" for d i
    proof (cases "d = c")
      case True
      then have "i \<noteq> k" using that w by auto
      then show ?thesis using True that u l [of i] pc by simp
    qed (use that u in simp)
  qed
qed

section \<open>Every step\<close>

lemma fresh_inv_frame:
  assumes "fresh_inv s" "next_w s' = next_w s" "\<And>d. waiter (runs s' d) = waiter (runs s d)"
    "\<And>d. spc (runs s' d) \<noteq> SelIdle \<Longrightarrow> spc (runs s d) \<noteq> SelIdle"
  shows "fresh_inv s'"
  using assms unfolding fresh_inv_def by metis

lemma own_step_inv:
  assumes inv: "sel_inv s" and m: "own_move c s s'" and busy: "spc (runs s c) \<noteq> SelIdle"
    and ok: "run_ok (chans s') (wst s') c (runs s' c)" and w: "watch_inv s'"
  shows "sel_inv s'"
proof -
  have "run_ok (chans s') (wst s') d (runs s' d)" for d
    using ok own_move_others [OF inv m _ busy] by (cases "d = c") auto
  moreover have "fresh_inv s'"
    by (rule fresh_inv_frame [of s]) (use inv m busy in \<open>auto simp: sel_inv_def own_move_def\<close>; metis)+
  ultimately show ?thesis using w by (simp add: sel_inv_def)
qed

lemma sel_step_inv:
  assumes inv: "sel_inv s" and st: "sel_step c su s = Some s'"
  shows "sel_inv s'"
proof -
  have ok: "run_ok (chans s) (wst s) c (runs s c)" and w: "watch_inv s" using inv by (simp_all add: sel_inv_def)
  note step = own_step_inv [OF inv]
  have keep: "watch_inv s''" if "own_move c s s''" "\<forall>w k. watched (chans s'') w k \<longrightarrow> watched (chans s) w k"
    "\<forall>j. watch_left (spc (runs s c)) j \<longrightarrow> watch_left (spc (runs s'' c)) j" for s''
    by (rule watch_inv_mono [OF w]) (use that in \<open>auto simp: own_move_def\<close>; metis)+
  show ?thesis
  proof (cases "spc (runs s c)")
    case SelIdle
    then show ?thesis using st by (simp add: sel_step_def)
  next
    case (SelTry p i r)
    then have t: "try_step c p i r s = Some s'" using st by (simp add: sel_step_def)
    note a = try_step_attempt [OF t SelTry]
    then show ?thesis using step [of c s'] try_step_ok [OF ok SelTry t] attempt_watch [OF w a SelTry] SelTry by (simp add: attempt_def)
  next
    case SelEnter
    then have s': "s' = Run_wait c su s" using st by (simp add: sel_step_def)
    have "watch_inv s'" unfolding s'
      by (rule keep [OF Run_wait_ok(2) [OF ok SelEnter]]; cases su; simp add: SelEnter Run_wait_def goto_sel_def upd_run_def)
    then show ?thesis using step [of c s'] Run_wait_ok [OF ok SelEnter, of su] SelEnter s' by simp
  next
    case (SelWatch k)
    then have t: "Run_watch c k s = Some s'" using st by (simp add: sel_step_def)
    have "k < length (m_cases (runs s c))" using ok SelWatch by (simp add: run_ok_def)
    then show ?thesis using step [of c s'] Run_watch_ok [OF ok SelWatch t] Run_watch_watch [OF w SelWatch _ t] SelWatch by simp
  next
    case (SelParked x)
    then have t: "Run_wake c x s = Some s'" using st by (simp add: sel_step_def)
    have "watch_inv s'"
      by (rule keep [OF Run_wake_ok(2) [OF ok SelParked t]])
        (use t in \<open>auto simp: Run_wake_def goto_sel_def upd_run_def split: outcome.splits\<close>)
    then show ?thesis using step [of c s'] Run_wake_ok [OF ok SelParked t] SelParked by simp
  next
    case (SelClean k x)
    then have t: "Run_clean c k x s = Some s'" using st by (simp add: sel_step_def)
    then show ?thesis using step [of c s'] Run_clean_ok [OF ok SelClean t] Run_clean_watch [OF w SelClean t] SelClean by simp
  qed
qed

lemma Run_begin_inv:
  assumes inv: "sel_inv s" and st: "Run_begin c cases timed dflt s = Some s'"
  shows "sel_inv s'"
proof -
  have idle: "spc (runs s c) = SelIdle" "cases \<noteq> []" "\<forall>k \<in> set cases. pcs (chans s (case_chan k)) c = ChIdle"
    using st by (auto simp: Run_begin_def list_all_iff split: if_splits)
  have s': "s' = s \<lparr>runs := (runs s) (c := \<lparr>m_cases = cases, m_timed = timed, m_has_default = dflt, waiter = next_w s,
          spc = SelTry PassFirst 0 None, committed = [], contended = False\<rparr>),
        next_w := Suc (next_w s), wst := (wst s) (next_w s := Gone)\<rparr>"
    using st by (auto simp: Run_begin_def split: if_splits)
  have "run_ok (chans s') (wst s') d (runs s' d)" for d
  proof (cases "d = c")
    case True
    then show ?thesis using idle s' by (simp add: run_ok_def tryread_pc_def)
  next
    case False
    have "run_ok (chans s) (wst s) d (runs s d)" using inv by (simp add: sel_inv_def)
    then have "run_ok (chans s) (wst s') d (runs s d)" by (rule run_ok_wst) (simp add: s' split: if_splits)
    then show ?thesis using False s' by simp
  qed
  moreover have "watch_inv s'"
  proof (rule watch_inv_mono)
    show "watch_inv s" using inv by (simp add: sel_inv_def)
    show "waiter (runs s' d) = waiter (runs s d) \<and> m_cases (runs s' d) = m_cases (runs s d) \<and> watch_left (spc (runs s' d)) j"
      if "watch_left (spc (runs s d)) j" for d j
      using that idle(1) s' by (cases "d = c") auto
  qed (simp add: s')
  moreover have "fresh_inv s'"
    using inv unfolding sel_inv_def fresh_inv_def s' by (auto simp: less_Suc_eq)
  ultimately show ?thesis by (simp add: sel_inv_def)
qed

lemma sel_inv_step: "sel_inv s \<Longrightarrow> sel_exec e s = Some s' \<Longrightarrow> sel_inv s'"
proof (cases e)
  case (ERun c cases timed dflt)
  assume "sel_inv s" "sel_exec e s = Some s'"
  then show ?thesis using Run_begin_inv ERun by simp
next
  case (EStep c su)
  assume "sel_inv s" "sel_exec e s = Some s'"
  then show ?thesis using sel_step_inv EStep by simp
next
  case (EChan l ev)
  assume inv: "sel_inv s" and st: "sel_exec e s = Some s'"
  have t: "chan_step l ev s = Some s'" and ev: "\<not> watcher_event ev" "\<And>d. ch_actor ev = Some d \<Longrightarrow> spc (runs s d) = SelIdle"
    using st EChan by (auto split: if_splits option.splits)
  obtain C' t' where e: "chan_effect l ev (chans s) (wst s) C' t'" "s' = s \<lparr>chans := C', wst := t'\<rparr>" using t by (auto simp: chan_step_effect)
  have "run_ok C' t' d (runs s d)" for d
  proof (rule run_ok_effect [OF _ e(1)])
    show "run_ok (chans s) (wst s) d (runs s d)" using inv by (simp add: sel_inv_def)
    show "spc (runs s d) \<noteq> SelIdle \<Longrightarrow> ch_actor ev \<noteq> Some d" using ev(2) by blast
    show "watched (chans s) (waiter (runs s d)) k \<Longrightarrow> watched C' (waiter (runs s d)) k" for k using effect_watched [OF e(1) ev(1)] by simp
  qed
  moreover have "watch_inv s'"
    by (rule watch_inv_mono [of s]) (use inv effect_watched [OF e(1) ev(1)] e(2) in \<open>auto simp: sel_inv_def\<close>)
  moreover have "fresh_inv s'" by (rule fresh_inv_frame [of s]) (use inv e(2) in \<open>auto simp: sel_inv_def\<close>)
  ultimately show ?thesis using e(2) by (simp add: sel_inv_def)
next
  case (EDecideSel c f)
  assume inv: "sel_inv s" and st: "sel_exec e s = Some s'"
  have s': "s' = s \<lparr>wst := (wst s) (waiter (runs s c) := Won f)\<rparr>" using st EDecideSel by (auto split: if_splits)
  have "run_ok (chans s) (wst s') d (runs s d)" for d
    by (rule run_ok_wst [of _ "wst s"]) (use inv s' in \<open>auto simp: sel_inv_def split: if_splits\<close>)
  moreover have "watch_inv s'" by (rule watch_inv_mono [of s]) (use inv s' in \<open>auto simp: sel_inv_def\<close>)
  moreover have "fresh_inv s'" by (rule fresh_inv_frame [of s]) (use inv s' in \<open>auto simp: sel_inv_def\<close>)
  ultimately show ?thesis using s' by (simp add: sel_inv_def)
qed

interpretation selects: invariant_machine sel_exec sel_inv
  by unfold_locales (rule sel_inv_step)

section \<open>Selecting\<close>





lemma gone_upd [simp]: "wst (upd_run c f s) = wst s" "wst (goto_sel c x s) = wst s"
  by (simp_all add: upd_run_def goto_sel_def)



lemma select_reaches: "reaches sel_exec (sel_init cap) s \<Longrightarrow> sel_inv s"
  using selects.reaches_inv sel_init_inv by blast

text \<open>C18. What \<open>Run\<close> returns is what it did, for any number of selects over any buffered channels. When it cleans up
  with the index of a case, either exactly that case committed its channel operation and no other did, or nothing was
  committed and the channel of that case is closed; when it is about to return -1 nothing was committed, so a select never
  consumes or sends an item it does not report. Every watcher left in a channel belongs to a select that has not returned,
  whose waiter no other unreturned select has.\<close>

theorem select_outcome:
  assumes "reaches sel_exec (sel_init cap) s"
  shows "(\<forall>c k x. spc (runs s c) = SelClean k x \<longrightarrow> (case x of None \<Rightarrow> committed (runs s c) = []
      | Some i \<Rightarrow> i < length (m_cases (runs s c)) \<and>
          (committed (runs s c) = [i] \<or> committed (runs s c) = [] \<and> IsClosed (chans s (case_chan (m_cases (runs s c) ! i)))))) \<and>
    (\<forall>l. \<forall>w \<in> set (m_read_watchers (ch (chans s l))) \<union> set (m_write_watchers (ch (chans s l))).
      \<exists>!c. spc (runs s c) \<noteq> SelIdle \<and> waiter (runs s c) = w)"
proof -
  have inv: "sel_inv s" by (rule select_reaches [OF assms])
  have ok: "run_ok (chans s) (wst s) c (runs s c)" for c using inv by (simp add: sel_inv_def)
  have one: "\<exists>!c. spc (runs s c) \<noteq> SelIdle \<and> waiter (runs s c) = w" if "owned_watch s w P" for w P
  proof -
    obtain c j where "waiter (runs s c) = w" "watch_left (spc (runs s c)) j" using \<open>owned_watch s w P\<close> by (auto simp: owned_watch_def)
    then have "spc (runs s c) \<noteq> SelIdle \<and> waiter (runs s c) = w" by auto
    then show ?thesis using inv unfolding sel_inv_def fresh_inv_def by blast
  qed
  show ?thesis
  proof (intro conjI allI impI ballI)
    fix c k x assume "spc (runs s c) = SelClean k x"
    then show "case x of None \<Rightarrow> committed (runs s c) = [] | Some i \<Rightarrow> i < length (m_cases (runs s c)) \<and>
        (committed (runs s c) = [i] \<or> committed (runs s c) = [] \<and> IsClosed (chans s (case_chan (m_cases (runs s c) ! i))))"
      using ok [of c] by (cases x) (auto simp: run_ok_def hit_def)
  next
    fix l w assume "w \<in> set (m_read_watchers (ch (chans s l))) \<union> set (m_write_watchers (ch (chans s l)))"
    then show "\<exists>!c. spc (runs s c) \<noteq> SelIdle \<and> waiter (runs s c) = w"
      using one inv unfolding sel_inv_def watch_inv_def by blast
  qed
qed

text \<open>A write case that succeeds at once, and a read case that goes to sleep on an empty channel.\<close>

definition sel_demo :: "sel_event list" where
  "sel_demo = [ERun 0 [CaseWrite 0 7] False False, EStep 0 WaitParked]"


lemmas sel_run_defs = sel_init_def sel_run0_def Run_begin_def sel_step_def try_step_def chan_step_def notify_watchers_def
  after_try_def pass_done_def note_result_def last_ret_def IsReady_def goto_sel_def upd_run_def Run_wait_def Run_watch_def
  Run_wake_def Run_clean_def add_watcher_def remove_watcher_def ch_init_def NewChan_def IsClosed_def push_item_def pop_item_def
  OnEnableRead_def OnEnableWrite_def

lemma sel_demo_run:
  "case run sel_exec sel_demo (sel_init (\<lambda>_. 1)) of None \<Rightarrow> False | Some s \<Rightarrow> spc (runs s 0) = SelClean 0 (Some 0) \<and> committed (runs s 0) = [0] \<and> m_item_queue (ch (chans s 0)) = [7]"
  by (simp add: sel_demo_def sel_run_defs ch_defs)


theorem select_outcome_witness:
  "\<exists>s. reaches sel_exec (sel_init (\<lambda>_. 1)) s \<and> spc (runs s 0) = SelClean 0 (Some 0) \<and> committed (runs s 0) = [0] \<and>
     0 < length (m_cases (runs s 0))"
proof -
  obtain s where s: "reaches sel_exec (sel_init (\<lambda>_. 1)) s" "spc (runs s 0) = SelClean 0 (Some 0)" "committed (runs s 0) = [0]"
    using run_demo [OF sel_demo_run] by blast
  have "0 < length (m_cases (runs s 0))" using select_outcome [OF s(1), THEN conjunct1, rule_format, OF s(2)] by auto
  then show ?thesis using s by blast
qed



text \<open>The exception is real. Two items are in a channel and another coroutine is between taking the reading flag of
  \<open>TryRead\<close> and its section; a select over the channel gets -2 in all its attempts, counts that as not ready and goes to
  sleep. The other takes its one item and leaves, and nothing notifies the select, although an item is there.\<close>

definition sel_demo_contended :: "sel_event list" where
  "sel_demo_contended = [EChan 0 (CTryWrite 1 7), EChan 0 (CTryWrite 1 8), EChan 0 (CReadBegin 2 RdNow),
     ERun 0 [CaseRead 0] False False, EStep 0 WaitParked, EStep 0 WaitParked, EStep 0 WaitParked, EStep 0 WaitParked,
     EChan 0 (CReadSection 2 False), EChan 0 (CReadEnd 2)]"

lemma select_contended_sleeps:
  "\<exists>s. reaches sel_exec (sel_init (\<lambda>_. 2)) s \<and> spc (runs s 0) = SelParked None \<and> wst s (waiter (runs s 0)) = Waiting \<and>
     m_item_queue (ch (chans s 0)) = [8] \<and> (\<forall>c. pcs (chans s 0) c = ChIdle)"
  by (rule run_demo [where ex = sel_exec and es = sel_demo_contended])
    (simp add: sel_demo_contended_def sel_run_defs ch_defs)

end
