(* ===== verification/Spec2Isabelle.thy ===== *)
theory Spec2Isabelle
  imports CfsQueue CoroutineModel MutexModel RWMutexModel EventModel StackPoolModel WaiterModel ChanModel ScalingModel WorkModel DriverModel HookModel HookWait EventValue CondModel PoolRelease SleepModel GuardModel SelectModel
begin

text \<open>bbtools-coroutine: verification development.\<close>

end
